(* ===== verification/CPrelude.thy ===== *)
theory CPrelude
  imports Main "HOL-Library.Word"
begin

text \<open>
  Shared vocabulary of the development: the C integer types of the source as truncations of
  mathematical integers, the alignment and page-frame macros of \<^verbatim>\<open>include/linux/kernel.h\<close>,
  \<^verbatim>\<open>pfn.h\<close> and \<^verbatim>\<open>page.h\<close>, and generic lemmas on ranges and lists.

  The program runs on a 64-bit host and simulates a 32-bit machine: \<open>phys_addr_t\<close> is
  \<open>unsigned int\<close> (32 bits) while \<open>unsigned long\<close> has 64 bits. An unsigned expression of the
  source is translated to the same expression over \<^typ>\<open>int\<close>, truncated by \<open>u32\<close> or \<open>u64\<close>
  where C truncates it; \<open>s32\<close> is the conversion to a signed \<open>int\<close>.
\<close>

unbundle bit_operations_syntax

section \<open>C integers\<close>

definition u32 :: "int \<Rightarrow> int" where
  "u32 x = x mod 4294967296"

definition u64 :: "int \<Rightarrow> int" where
  "u64 x = x mod 18446744073709551616"

definition s32 :: "int \<Rightarrow> int" where
  "s32 x = (x + 2147483648) mod 4294967296 - 2147483648"

named_theorems c_int \<open>truncations that do nothing on values in range\<close>

lemma u32_id [simp, c_int]: "0 \<le> x \<Longrightarrow> x < 4294967296 \<Longrightarrow> u32 x = x"
  by (simp add: u32_def)

lemma u64_id [simp, c_int]: "0 \<le> x \<Longrightarrow> x < 18446744073709551616 \<Longrightarrow> u64 x = x"
  by (simp add: u64_def)

lemma s32_id [simp, c_int]: "- 2147483648 \<le> x \<Longrightarrow> x < 2147483648 \<Longrightarrow> s32 x = x"
  by (simp add: s32_def)

lemma u32_bounds [simp]: "0 \<le> u32 x" "u32 x < 4294967296"
  by (simp_all add: u32_def)

lemma u64_bounds [simp]: "0 \<le> u64 x" "u64 x < 18446744073709551616"
  by (simp_all add: u64_def)

lemma s32_bounds: "- 2147483648 \<le> s32 x" "s32 x < 2147483648"
  by (simp_all add: s32_def)

lemma u32_idem [simp]: "u32 (u32 x) = u32 x"
  by (simp add: u32_def)

lemma u64_idem [simp]: "u64 (u64 x) = u64 x"
  by (simp add: u64_def)

lemma u64_neg: "- 18446744073709551616 \<le> x \<Longrightarrow> x < 0 \<Longrightarrow> u64 x = x + 18446744073709551616"
proof -
  assume "- 18446744073709551616 \<le> x" and "x < 0"
  then have "(x + 18446744073709551616) mod 18446744073709551616 = x + 18446744073709551616"
    by (intro mod_pos_pos_trivial) auto
  then show ?thesis by (simp add: u64_def)
qed

lemma u64_minus_one [simp]: "u64 (- 1) = 18446744073709551615"
  by (simp add: u64_def)

lemma u64_s32_minus_one [simp]: "u64 (s32 (- 1)) = 18446744073709551615"
  by simp


section \<open>Alignment\<close>

text \<open>
  \<open>mask_down x a\<close> is the C expression \<^verbatim>\<open>x & ~(a - 1)\<close>. For a power of two it clears the
  low bits, that is, it rounds down to a multiple.
\<close>

definition mask_down :: "int \<Rightarrow> int \<Rightarrow> int" where
  "mask_down x a = x AND NOT (a - 1)"

lemma mask_down_pow2: "mask_down x (2 ^ k) = x - x mod 2 ^ k"
proof -
  have "x - take_bit k x = x AND NOT (take_bit k x)"
    by (rule disjunctive_diff) (simp add: bit_take_bit_iff)
  also have "\<dots> = x AND NOT (mask k)"
    by (rule bit_eqI) (auto simp: bit_and_iff bit_not_iff bit_take_bit_iff bit_mask_iff)
  finally show ?thesis
    by (simp add: mask_down_def mask_eq_exp_minus_1 take_bit_eq_mod)
qed

lemma mask_down_dvd: "(2::int) ^ k dvd mask_down x (2 ^ k)"
  by (simp add: mask_down_pow2 minus_mod_eq_mult_div)

lemma mask_down_le: "mask_down x (2 ^ k) \<le> x"
  by (simp add: mask_down_pow2)

lemma mask_down_gt: "x - 2 ^ k < mask_down x (2 ^ k)"
  by (simp add: mask_down_pow2)

lemma mask_down_nonneg: "0 \<le> x \<Longrightarrow> 0 \<le> mask_down x (2 ^ k)"
  by (simp add: mask_down_pow2 minus_mod_eq_mult_div pos_imp_zdiv_nonneg_iff)

text \<open>The greatest multiple: nothing aligned lies strictly between the result and the argument.\<close>

lemma mask_down_greatest:
  assumes "(2::int) ^ k dvd b" and "b \<le> x"
  shows "b \<le> mask_down x (2 ^ k)"
proof (rule ccontr)
  assume "\<not> b \<le> mask_down x (2 ^ k)"
  moreover have "(2::int) ^ k dvd b - mask_down x (2 ^ k)"
    using assms(1) mask_down_dvd by (rule dvd_diff)
  ultimately have "2 ^ k \<le> b - mask_down x (2 ^ k)"
    by (intro zdvd_imp_le) auto
  with mask_down_gt [of x k] assms(2) show False by simp
qed

lemma mask_down_aligned: "(2::int) ^ k dvd x \<Longrightarrow> mask_down x (2 ^ k) = x"
  by (simp add: mask_down_pow2)

text \<open>
  \<^verbatim>\<open>ALIGN(x,a)\<close> of \<^verbatim>\<open>kernel.h\<close> for an \<open>unsigned long\<close> argument.
\<close>

definition ALIGN :: "int \<Rightarrow> int \<Rightarrow> int" where
  "ALIGN x a = u64 (x + u64 (a - 1)) AND NOT (u64 (a - 1))"

lemma ALIGN_mask_down:
  assumes "0 \<le> x" "x + 2 ^ k \<le> 18446744073709551616" "k < 64"
  shows "ALIGN x (2 ^ k) = mask_down (x + 2 ^ k - 1) (2 ^ k)"
proof -
  define p where "p = (2::int) ^ k"
  have "p \<le> 2 ^ 63" using assms(3) unfolding p_def by (intro power_increasing) auto
  moreover have "1 \<le> p" by (simp add: p_def)
  ultimately have "u64 (x + u64 (p - 1)) = x + p - 1" "u64 (p - 1) = p - 1"
    using assms(1,2) by (auto simp: p_def [symmetric])
  then show ?thesis
    by (simp add: ALIGN_def mask_down_def p_def [symmetric])
qed

lemma ALIGN_ge:
  assumes "0 \<le> x" "x + 2 ^ k \<le> 18446744073709551616" "k < 64"
  shows "x \<le> ALIGN x (2 ^ k)"
  using mask_down_gt [of "x + 2 ^ k - 1" k] by (simp add: ALIGN_mask_down [OF assms])

lemma ALIGN_dvd:
  assumes "0 \<le> x" "x + 2 ^ k \<le> 18446744073709551616" "k < 64"
  shows "2 ^ k dvd ALIGN x (2 ^ k)"
  by (simp add: ALIGN_mask_down [OF assms] mask_down_dvd)

lemma ALIGN_lt:
  assumes "0 \<le> x" "x + 2 ^ k \<le> 18446744073709551616" "k < 64"
  shows "ALIGN x (2 ^ k) < x + 2 ^ k"
  using mask_down_le [of "x + 2 ^ k - 1" k] by (simp add: ALIGN_mask_down [OF assms])

lemma ALIGN_least:
  assumes "0 \<le> x" "x + 2 ^ k \<le> 18446744073709551616" "k < 64" "2 ^ k dvd b" "x \<le> b"
  shows "ALIGN x (2 ^ k) \<le> b"
proof (rule ccontr)
  assume "\<not> ALIGN x (2 ^ k) \<le> b"
  moreover have "2 ^ k dvd ALIGN x (2 ^ k) - b"
    using ALIGN_dvd [OF assms(1-3)] assms(4) by (rule dvd_diff)
  ultimately have "2 ^ k \<le> ALIGN x (2 ^ k) - b" by (intro zdvd_imp_le) auto
  with ALIGN_lt [OF assms(1-3)] assms(5) show False by simp
qed


section \<open>Page frames and the simulated address map\<close>

definition PAGE_SHIFT :: nat where "PAGE_SHIFT = 12"

definition PAGE_SIZE :: int where "PAGE_SIZE = u32 (push_bit PAGE_SHIFT 1)"

definition PAGE_OFFSET :: int where "PAGE_OFFSET = 0xC0000000"

definition PHYS_OFFSET :: int where "PHYS_OFFSET = 0x50000000"

lemma PAGE_SIZE_eq [simp]: "PAGE_SIZE = 4096"
  by (simp add: PAGE_SIZE_def PAGE_SHIFT_def u32_def push_bit_eq_mult)

definition PFN_UP :: "int \<Rightarrow> int" where
  "PFN_UP x = drop_bit PAGE_SHIFT (u64 (x + PAGE_SIZE - 1))"

definition PFN_DOWN :: "int \<Rightarrow> int" where
  "PFN_DOWN x = drop_bit PAGE_SHIFT x"

definition PFN_PHYS :: "int \<Rightarrow> int" where
  "PFN_PHYS x = u32 (push_bit PAGE_SHIFT (u32 x))"

text \<open>\<^verbatim>\<open>PAGE_ALIGN(x)\<close> of \<^verbatim>\<open>page.h\<close>: unlike its namesake in Linux it rounds \<^emph>\<open>down\<close>.\<close>

definition PAGE_ALIGN :: "int \<Rightarrow> int" where
  "PAGE_ALIGN x = mask_down x PAGE_SIZE"

definition virt_to_phys :: "int \<Rightarrow> int" where
  "virt_to_phys x = u64 (u64 x - PAGE_OFFSET + PHYS_OFFSET)"

definition phys_to_virt :: "int \<Rightarrow> int" where
  "phys_to_virt x = u64 (u64 x - PHYS_OFFSET + PAGE_OFFSET)"

lemma PFN_UP_div: "0 \<le> x \<Longrightarrow> x < 18446744073709547521 \<Longrightarrow> PFN_UP x = (x + 4095) div 4096"
  by (simp add: PFN_UP_def PAGE_SHIFT_def drop_bit_eq_div algebra_simps)

lemma PFN_DOWN_div: "PFN_DOWN x = x div 4096"
  by (simp add: PFN_DOWN_def PAGE_SHIFT_def drop_bit_eq_div)

lemma PFN_PHYS_mult: "0 \<le> x \<Longrightarrow> x < 1048576 \<Longrightarrow> PFN_PHYS x = x * 4096"
  by (simp add: PFN_PHYS_def PAGE_SHIFT_def push_bit_eq_mult)

lemma PAGE_ALIGN_div: "PAGE_ALIGN x = x div 4096 * 4096"
  using mask_down_pow2 [of x 12] by (simp add: PAGE_ALIGN_def minus_mod_eq_div_mult)

lemma phys_virt_inverse:
  "0 \<le> x \<Longrightarrow> x < 18446744073709551616 \<Longrightarrow> virt_to_phys (phys_to_virt x) = x"
  by (simp add: virt_to_phys_def phys_to_virt_def u64_def PAGE_OFFSET_def PHYS_OFFSET_def
      mod_simps)


section \<open>Ranges and lists\<close>

text \<open>The block of \<open>n\<close> consecutive units that starts at \<open>a\<close>.\<close>

definition block :: "int \<Rightarrow> int \<Rightarrow> int set" where
  "block a n = {a..<a + n}"

lemma in_block [simp]: "x \<in> block a n \<longleftrightarrow> a \<le> x \<and> x < a + n"
  by (simp add: block_def)

lemma block_empty [simp]: "n \<le> 0 \<Longrightarrow> block a n = {}"
  by (simp add: block_def)

lemma block_eq_empty [simp]: "block a n = {} \<longleftrightarrow> n \<le> 0"
  by (auto simp: block_def)

lemma block_disjoint_iff:
  "0 < n \<Longrightarrow> 0 < m \<Longrightarrow> block a n \<inter> block b m = {} \<longleftrightarrow> a + n \<le> b \<or> b + m \<le> a"
  by (auto simp: block_def disjoint_iff)

lemma block_append: "0 \<le> n \<Longrightarrow> 0 \<le> m \<Longrightarrow> block a n \<union> block (a + n) m = block a (n + m)"
  by (auto simp: block_def)

end
