(* ===== verification/Allocator.thy ===== *)
theory Allocator
  imports CPrelude
begin

text \<open>
  The contract the boot allocators share: a request takes a range out of what is available and
  leaves the rest. The laws are proved for \<open>memblock\<close>, \<open>bootmem\<close> and the page allocator in their
  theories; what follows for a whole sequence of requests is proved here once.

  \<open>inv k s\<close> says that the state is well formed and has room for \<open>k\<close> more requests (the region table
  of \<open>memblock\<close> is finite), \<open>req n\<close> that \<open>n\<close> is a legal request.
\<close>

text \<open>
  Requests one after the other; a failed request changes nothing here, and the answers list the
  granted ranges with their sizes.
\<close>

fun alloc_many :: "('s \<Rightarrow> int \<Rightarrow> (int \<times> 's) option) \<Rightarrow> 's \<Rightarrow> int list \<Rightarrow> (int \<times> int) list \<times> 's" where
  "alloc_many alloc s [] = ([], s)"
| "alloc_many alloc s (n # ns) =
     (case alloc s n of
        None \<Rightarrow> alloc_many alloc s ns
      | Some (b, s') \<Rightarrow> (let (bs, s'') = alloc_many alloc s' ns in ((b, n) # bs, s'')))"

definition granted :: "(int \<times> int) list \<Rightarrow> int set" where
  "granted bs = (\<Union>(b, n) \<in> set bs. block b n)"

lemma granted_simps [simp]:
  "granted [] = {}" "granted ((b, n) # bs) = block b n \<union> granted bs"
  by (simp_all add: granted_def)

definition separate :: "(int \<times> int) list \<Rightarrow> bool" where
  "separate bs \<longleftrightarrow> sorted_wrt (\<lambda>(a, n) (b, m). block a n \<inter> block b m = {}) bs"

lemma separate_simps [simp]:
  "separate []" "separate ((b, n) # bs) \<longleftrightarrow> block b n \<inter> granted bs = {} \<and> separate bs"
  by (auto simp: separate_def granted_def)

locale range_allocator =
  fixes inv :: "nat \<Rightarrow> 's \<Rightarrow> bool"
    and avail :: "'s \<Rightarrow> int set"
    and req :: "int \<Rightarrow> bool"
    and alloc :: "'s \<Rightarrow> int \<Rightarrow> (int \<times> 's) option"
  assumes inv_less: "inv (Suc k) s \<Longrightarrow> inv k s"
    and alloc_inv: "inv (Suc k) s \<Longrightarrow> req n \<Longrightarrow> alloc s n = Some (b, s') \<Longrightarrow> inv k s'"
    and alloc_avail: "inv (Suc k) s \<Longrightarrow> req n \<Longrightarrow> alloc s n = Some (b, s') \<Longrightarrow> block b n \<subseteq> avail s"
    and alloc_takes:
      "inv (Suc k) s \<Longrightarrow> req n \<Longrightarrow> alloc s n = Some (b, s') \<Longrightarrow> avail s' \<subseteq> avail s - block b n"
begin

lemma alloc_many_separate:
  assumes "inv (length ns) s" and "\<forall>n \<in> set ns. req n" and "alloc_many alloc s ns = (bs, s')"
  shows "separate bs \<and> granted bs \<subseteq> avail s \<and> avail s' \<subseteq> avail s - granted bs \<and> inv 0 s'"
  using assms
proof (induction ns arbitrary: s bs)
  case (Cons n ns)
  note inv = Cons.prems(1)
  show ?case
  proof (cases "alloc s n")
    case None
    then have "alloc_many alloc s ns = (bs, s')" using Cons.prems(3) by simp
    moreover have "inv (length ns) s" using inv_less inv by simp
    ultimately show ?thesis using Cons.prems(2) by (intro Cons.IH) auto
  next
    case (Some r)
    obtain b s1 where r: "r = (b, s1)" by fastforce
    obtain cs where cs: "alloc_many alloc s1 ns = (cs, s')" "bs = (b, n) # cs"
      using Cons.prems(3) Some r by (auto split: prod.splits)
    have n: "req n" using Cons.prems(2) by simp
    have i: "inv (Suc (length ns)) s" using inv by simp
    note laws = alloc_inv [OF i n] alloc_avail [OF i n] alloc_takes [OF i n]
    have "separate cs \<and> granted cs \<subseteq> avail s1 \<and> avail s' \<subseteq> avail s1 - granted cs \<and> inv 0 s'"
      using laws(1) Some r cs(1) Cons.prems(2) by (intro Cons.IH) auto
    with laws(2,3) [of b s1] Some r show ?thesis unfolding cs(2) by auto
  qed
qed simp

end

end
