(* ===== verification/Memblock.thy ===== *)
theory Memblock
  imports Allocator
begin

text \<open>
  The early boot allocator of \<^verbatim>\<open>mm/memblock.c\<close> and \<^verbatim>\<open>include/linux/memblock.h\<close>: two sorted
  tables of physical regions, \<open>memory\<close> (the RAM banks) and \<open>reserved\<close> (what is in use).

  A region stores \<open>unsigned long\<close>s; the functions take \<open>phys_addr_t\<close> arguments, so the model
  truncates to 32 bits where the code does. \<open>-1\<close> results are kept as integers. Operations take the
  table they change and return it. Array accesses stay within the table for the tables that satisfy
  \<open>mb_wf\<close>, which every operation keeps.
\<close>

section \<open>Data\<close>

record memblock_region =
  rbase :: int
  rsize :: int

record memblock_type =
  rgn_cnt :: nat
  rgn_max :: nat
  regions :: "memblock_region list"

record memblock =
  current_limit :: int
  memory_size :: int
  memory :: memblock_type
  reserved :: memblock_type

definition INIT_MEMBLOCK_REGIONS :: nat where "INIT_MEMBLOCK_REGIONS = 128"
definition MEMBLOCK_ERROR :: int where "MEMBLOCK_ERROR = 0"
definition RED_INACTIVE :: int where "RED_INACTIVE = 0x09F911029D74E35B"
definition MEMBLOCK_ALLOC_ANYWHERE :: int where "MEMBLOCK_ALLOC_ANYWHERE = u32 (NOT 0)"
definition MEMBLOCK_ALLOC_ACCESSIBLE :: int where "MEMBLOCK_ALLOC_ACCESSIBLE = 0"

definition mk_region :: "int \<Rightarrow> int \<Rightarrow> memblock_region" where
  "mk_region b s = \<lparr>rbase = b, rsize = s\<rparr>"

text \<open>The page frames a region covers, whole frames only for memory and touched frames for reserved.\<close>

definition memblock_region_memory_base_pfn :: "memblock_region \<Rightarrow> int" where
  "memblock_region_memory_base_pfn reg = PFN_UP (rbase reg)"

definition memblock_region_memory_end_pfn :: "memblock_region \<Rightarrow> int" where
  "memblock_region_memory_end_pfn reg = PFN_DOWN (u64 (rbase reg + rsize reg))"

definition memblock_region_reserved_base_pfn :: "memblock_region \<Rightarrow> int" where
  "memblock_region_reserved_base_pfn reg = PFN_DOWN (rbase reg)"

definition memblock_region_reserved_end_pfn :: "memblock_region \<Rightarrow> int" where
  "memblock_region_reserved_end_pfn reg = PFN_UP (u64 (rbase reg + rsize reg))"


section \<open>Initialisation\<close>

text \<open>
  \<open>mem_init\<close> and \<open>res_init\<close> are the two static arrays, all zero when the program starts. The code
  clears the size of entry 9 of the memory table and the base of entry 9 of the reserved table where
  it means entry 0.
\<close>

definition memblock_init ::
  "memblock_region list \<Rightarrow> memblock_region list \<Rightarrow> bool \<times> memblock \<Rightarrow> bool \<times> memblock" where
  "memblock_init mem_init res_init st =
     (case st of (init_done, mb) \<Rightarrow>
        if init_done then (init_done, mb)
        else
          let N = INIT_MEMBLOCK_REGIONS;
              mr = mem_init[N := (mem_init ! N)\<lparr>rbase := u32 RED_INACTIVE\<rparr>];
              rr = res_init[N := (res_init ! N)\<lparr>rbase := u32 RED_INACTIVE\<rparr>];
              mr = mr[0 := (mr ! 0)\<lparr>rbase := 0\<rparr>];
              mr = mr[9 := (mr ! 9)\<lparr>rsize := 0\<rparr>];
              rr = rr[9 := (rr ! 9)\<lparr>rbase := 0\<rparr>];
              rr = rr[0 := (rr ! 0)\<lparr>rsize := 0\<rparr>]
          in (True, mb\<lparr>memory := \<lparr>rgn_cnt = 1, rgn_max = N, regions = mr\<rparr>,
                       reserved := \<lparr>rgn_cnt = 1, rgn_max = N, regions = rr\<rparr>,
                       current_limit := MEMBLOCK_ALLOC_ANYWHERE\<rparr>))"

definition memblock_set_current_limit :: "int \<Rightarrow> memblock \<Rightarrow> memblock" where
  "memblock_set_current_limit limit mb = mb\<lparr>current_limit := limit\<rparr>"

definition memblock_analyze :: "memblock \<Rightarrow> memblock" where
  "memblock_analyze mb =
     mb\<lparr>memory_size := fold (\<lambda>r s. u64 (s + rsize r)) (take (rgn_cnt (memory mb)) (regions (memory mb))) 0\<rparr>"


section \<open>Searching for a free range\<close>

definition memblock_align_up :: "int \<Rightarrow> int \<Rightarrow> int" where
  "memblock_align_up addr sz = u32 (addr + u32 (sz - 1)) AND NOT (u32 (sz - 1))"

definition memblock_align_down :: "int \<Rightarrow> int \<Rightarrow> int" where
  "memblock_align_down addr sz = addr AND NOT (u32 (sz - 1))"

definition memblock_addrs_overlap :: "int \<Rightarrow> int \<Rightarrow> int \<Rightarrow> int \<Rightarrow> bool" where
  "memblock_addrs_overlap base1 size1 base2 size2 \<longleftrightarrow>
     base1 < u32 (base2 + size2) \<and> base2 < u32 (base1 + size1)"

fun overlaps_scan :: "memblock_region list \<Rightarrow> int \<Rightarrow> int \<Rightarrow> nat \<Rightarrow> nat \<Rightarrow> nat option" where
  "overlaps_scan rs base sz i 0 = None"
| "overlaps_scan rs base sz i (Suc k) =
     (if memblock_addrs_overlap (u32 (rbase (rs ! i))) (u32 (rsize (rs ! i))) base sz then Some i
      else overlaps_scan rs base sz (Suc i) k)"

text \<open>The index of the first overlapping region; \<open>None\<close> is the result \<open>-1\<close>.\<close>

definition memblock_overlaps_region :: "memblock_type \<Rightarrow> int \<Rightarrow> int \<Rightarrow> nat option" where
  "memblock_overlaps_region type base sz = overlaps_scan (regions type) base sz 0 (rgn_cnt type)"

text \<open>
  The loop of \<open>memblock_find_region\<close> moves \<open>base\<close> down below each reserved region it hits. It is
  given one more iteration than there are reserved regions; running out is \<open>None\<close>, which lemma
  \<open>find_region_total\<close> excludes.
\<close>

fun find_region_loop :: "memblock_type \<Rightarrow> int \<Rightarrow> int \<Rightarrow> int \<Rightarrow> nat \<Rightarrow> int \<Rightarrow> int option" where
  "find_region_loop res start sz align 0 base = None"
| "find_region_loop res start sz align (Suc k) base =
     (if start \<le> base then
        case memblock_overlaps_region res base sz of
          None \<Rightarrow> Some base
        | Some j \<Rightarrow>
            let res_base = u32 (rbase (regions res ! j))
            in if res_base < sz then Some MEMBLOCK_ERROR
               else find_region_loop res start sz align k
                      (memblock_align_down (u32 (res_base - sz)) align)
      else Some MEMBLOCK_ERROR)"

definition memblock_find_region :: "memblock_type \<Rightarrow> int \<Rightarrow> int \<Rightarrow> int \<Rightarrow> int \<Rightarrow> int option" where
  "memblock_find_region res start en sz align =
     (if en < sz then Some MEMBLOCK_ERROR
      else let base = memblock_align_down (u32 (en - sz)) align;
               start = (if start = 0 then PAGE_SIZE else start)
           in find_region_loop res start sz align (Suc (rgn_cnt res)) base)"

fun find_base_loop :: "memblock \<Rightarrow> int \<Rightarrow> int \<Rightarrow> int \<Rightarrow> int \<Rightarrow> nat \<Rightarrow> int option" where
  "find_base_loop mb sz align start en 0 = Some MEMBLOCK_ERROR"
| "find_base_loop mb sz align start en (Suc i) =
     (let memblockbase = u32 (rbase (regions (memory mb) ! i));
          memblocksize = u32 (rsize (regions (memory mb) ! i))
      in if memblocksize < sz then find_base_loop mb sz align start en i
         else if u32 (memblockbase + memblocksize) \<le> start then Some MEMBLOCK_ERROR
         else let bottom = max memblockbase start;
                  top = min (u32 (memblockbase + memblocksize)) en
              in if top \<le> bottom then find_base_loop mb sz align start en i
                 else case memblock_find_region (reserved mb) bottom top sz align of
                        None \<Rightarrow> None
                      | Some found \<Rightarrow>
                          if found \<noteq> MEMBLOCK_ERROR then Some found
                          else find_base_loop mb sz align start en i)"

definition memblock_find_base :: "memblock \<Rightarrow> int \<Rightarrow> int \<Rightarrow> int \<Rightarrow> int \<Rightarrow> int option" where
  "memblock_find_base mb sz align start en =
     (let en = (if en = MEMBLOCK_ALLOC_ACCESSIBLE then u32 (current_limit mb) else en)
      in find_base_loop mb sz align start en (rgn_cnt (memory mb)))"


section \<open>Adding and removing regions\<close>

definition memblock_addrs_adjacent :: "int \<Rightarrow> int \<Rightarrow> int \<Rightarrow> int \<Rightarrow> int" where
  "memblock_addrs_adjacent base1 size1 base2 size2 =
     (if base2 = u32 (base1 + size1) then 1 else if base1 = u32 (base2 + size2) then - 1 else 0)"

definition memblock_memory_can_coalesce :: "int \<Rightarrow> int \<Rightarrow> int \<Rightarrow> int \<Rightarrow> int" where
  "memblock_memory_can_coalesce addr1 size1 addr2 size2 = 1"

definition memblock_regions_adjacent :: "memblock_type \<Rightarrow> nat \<Rightarrow> nat \<Rightarrow> int" where
  "memblock_regions_adjacent type r1 r2 =
     memblock_addrs_adjacent (u32 (rbase (regions type ! r1))) (u32 (rsize (regions type ! r1)))
       (u32 (rbase (regions type ! r2))) (u32 (rsize (regions type ! r2)))"

fun shift_down :: "memblock_region list \<Rightarrow> nat \<Rightarrow> nat \<Rightarrow> memblock_region list" where
  "shift_down rs i 0 = rs"
| "shift_down rs i (Suc k) = shift_down (rs[i := rs ! Suc i]) (Suc i) k"

definition memblock_remove_region :: "memblock_type \<Rightarrow> nat \<Rightarrow> memblock_type" where
  "memblock_remove_region type r =
     (let last = u64 (int (rgn_cnt type) - 1)
      in type\<lparr>regions := shift_down (regions type) r (nat (last - int r)), rgn_cnt := nat last\<rparr>)"

definition memblock_coalesce_regions :: "memblock_type \<Rightarrow> nat \<Rightarrow> nat \<Rightarrow> memblock_type" where
  "memblock_coalesce_regions type r1 r2 =
     (let rs = regions type
      in memblock_remove_region
           (type\<lparr>regions := rs[r1 := (rs ! r1)\<lparr>rsize := u64 (rsize (rs ! r1) + rsize (rs ! r2))\<rparr>]\<rparr>) r2)"

text \<open>
  \<^verbatim>\<open>memblock_can_resize\<close> is a zero-initialised global that nothing in the program assigns, so
  \<open>memblock_double_array\<close> always leaves at its first test, with \<open>-1\<close> and no change.
\<close>

definition memblock_double_array :: "memblock_type \<Rightarrow> int \<times> memblock_type" where
  "memblock_double_array type = (- 1, type)"

text \<open>
  The coalescing loop of \<open>memblock_add_region\<close>: it leaves with \<open>Exact\<close> (the region is already
  there), or stops at an index with the changed array and the number of coalesced regions.
\<close>

datatype scan_exit = Exact | Stop nat "memblock_region list" int

fun add_scan :: "bool \<Rightarrow> int \<Rightarrow> int \<Rightarrow> memblock_region list \<Rightarrow> nat \<Rightarrow> nat \<Rightarrow> scan_exit" where
  "add_scan is_memory base sz rs i 0 = Stop i rs 0"
| "add_scan is_memory base sz rs i (Suc k) =
     (let rgnbase = u32 (rbase (rs ! i)); rgnsize = u32 (rsize (rs ! i));
          adjacent = memblock_addrs_adjacent base sz rgnbase rgnsize
      in if rgnbase = base \<and> rgnsize = sz then Exact
         else if adjacent \<noteq> 0 \<and> is_memory \<and>
                 memblock_memory_can_coalesce base sz rgnbase rgnsize = 0 then Stop i rs 0
         else if adjacent > 0 then
           Stop i (rs[i := \<lparr>rbase = u64 (rbase (rs ! i) - sz), rsize = u64 (rsize (rs ! i) + sz)\<rparr>]) 1
         else if adjacent < 0 then
           Stop i (rs[i := (rs ! i)\<lparr>rsize := u64 (rsize (rs ! i) + sz)\<rparr>]) 1
         else add_scan is_memory base sz rs (Suc i) k)"

fun shift_insert :: "int \<Rightarrow> int \<Rightarrow> nat \<Rightarrow> memblock_region list \<Rightarrow> memblock_region list" where
  "shift_insert base sz 0 rs = rs"
| "shift_insert base sz (Suc i) rs =
     (if base < rbase (rs ! i) then shift_insert base sz i (rs[Suc i := rs ! i])
      else rs[Suc i := mk_region base sz])"

text \<open>The last part: the new region enters the sorted table, and a full table is an error.\<close>

definition insert_region :: "memblock_type \<Rightarrow> int \<Rightarrow> int \<Rightarrow> int \<times> memblock_type" where
  "insert_region type base sz =
     (let rs = shift_insert base sz (rgn_cnt type) (regions type);
          rs = (if base < rbase (rs ! 0) then rs[0 := mk_region base sz] else rs);
          type = type\<lparr>regions := rs, rgn_cnt := Suc (rgn_cnt type)\<rparr>
      in if rgn_cnt type = rgn_max type then
           let (r, type) = memblock_double_array type
           in if r \<noteq> 0 then (- 1, type\<lparr>rgn_cnt := rgn_cnt type - 1\<rparr>) else (0, type)
         else (0, type))"

definition memblock_add_region :: "bool \<Rightarrow> memblock_type \<Rightarrow> int \<Rightarrow> int \<Rightarrow> int \<times> memblock_type" where
  "memblock_add_region is_memory type base sz =
     (if rgn_cnt type = 1 \<and> rsize (regions type ! 0) = 0 then
        (0, type\<lparr>regions := (regions type)[0 := mk_region base sz]\<rparr>)
      else case add_scan is_memory base sz (regions type) 0 (rgn_cnt type) of
        Exact \<Rightarrow> (0, type)
      | Stop i rs coalesced \<Rightarrow>
          let type = type\<lparr>regions := rs\<rparr>;
              plug = int i < u64 (int (rgn_cnt type) - 1) \<and>
                     memblock_regions_adjacent type i (Suc i) \<noteq> 0 \<and>
                     (\<not> is_memory \<or>
                      memblock_memory_can_coalesce (u32 (rbase (rs ! i))) (u32 (rsize (rs ! i)))
                        (u32 (rbase (rs ! Suc i))) (u32 (rsize (rs ! Suc i))) \<noteq> 0);
              type = (if plug then memblock_coalesce_regions type i (Suc i) else type);
              coalesced = (if plug then coalesced + 1 else coalesced)
          in if coalesced \<noteq> 0 then (coalesced, type)
             else if rgn_max type \<le> rgn_cnt type then (- 1, type)
             else insert_region type base sz)"

definition memblock_add :: "memblock \<Rightarrow> int \<Rightarrow> int \<Rightarrow> int \<times> memblock" where
  "memblock_add mb base sz =
     (let (r, t) = memblock_add_region True (memory mb) base sz in (r, mb\<lparr>memory := t\<rparr>))"

definition memblock_reserve :: "memblock \<Rightarrow> int \<Rightarrow> int \<Rightarrow> int \<times> memblock" where
  "memblock_reserve mb base sz =
     (let (r, t) = memblock_add_region False (reserved mb) base sz in (r, mb\<lparr>reserved := t\<rparr>))"

text \<open>
  Removal: find the region that contains the range; drop it, trim it at either end, or split it
  and add the part after the hole.
\<close>

fun remove_find :: "memblock_region list \<Rightarrow> int \<Rightarrow> int \<Rightarrow> nat \<Rightarrow> nat \<Rightarrow> nat option" where
  "remove_find rs base en i 0 = None"
| "remove_find rs base en i (Suc k) =
     (let rgnbegin = u32 (rbase (rs ! i)); rgnend = u32 (rgnbegin + rsize (rs ! i))
      in if rgnbegin \<le> base \<and> en \<le> rgnend then Some i else remove_find rs base en (Suc i) k)"

definition do_memblock_remove :: "bool \<Rightarrow> memblock_type \<Rightarrow> int \<Rightarrow> int \<Rightarrow> int \<times> memblock_type" where
  "do_memblock_remove is_memory type base sz =
     (let en = u32 (base + sz) in
      case remove_find (regions type) base en 0 (rgn_cnt type) of
        None \<Rightarrow> (- 1, type)
      | Some i \<Rightarrow>
          let rs = regions type; rgnbegin = u32 (rbase (rs ! i));
              rgnend = u32 (rgnbegin + rsize (rs ! i))
          in if rgnbegin = base \<and> rgnend = en then (0, memblock_remove_region type i)
             else if rgnbegin = base then
               (0, type\<lparr>regions := rs[i := mk_region en (u64 (rsize (rs ! i) - sz))]\<rparr>)
             else if rgnend = en then
               (0, type\<lparr>regions := rs[i := (rs ! i)\<lparr>rsize := u64 (rsize (rs ! i) - sz)\<rparr>]\<rparr>)
             else memblock_add_region is_memory
                    (type\<lparr>regions := rs[i := (rs ! i)\<lparr>rsize := u64 (base - rbase (rs ! i))\<rparr>]\<rparr>)
                    en (u32 (rgnend - en)))"

definition memblock_free :: "memblock \<Rightarrow> int \<Rightarrow> int \<Rightarrow> int \<times> memblock" where
  "memblock_free mb base sz =
     (let (r, t) = do_memblock_remove False (reserved mb) base sz in (r, mb\<lparr>reserved := t\<rparr>))"


section \<open>Allocation\<close>

definition do_memblock_alloc_base :: "memblock \<Rightarrow> int \<Rightarrow> int \<Rightarrow> int \<Rightarrow> (int \<times> memblock) option" where
  "do_memblock_alloc_base mb sz align mx =
     (let sz = memblock_align_up sz align in
      case memblock_find_base mb sz align 0 mx of
        None \<Rightarrow> None
      | Some found \<Rightarrow>
          if found \<noteq> MEMBLOCK_ERROR then
            let (r, t) = memblock_add_region False (reserved mb) found sz; mb = mb\<lparr>reserved := t\<rparr>
            in Some (if r \<ge> 0 then found else 0, mb)
          else Some (0, mb))"

text \<open>\<open>panic\<close> is \<open>printf\<close> in this program, so a failed allocation returns 0 to the caller.\<close>

definition memblock_alloc_base :: "memblock \<Rightarrow> int \<Rightarrow> int \<Rightarrow> int \<Rightarrow> (int \<times> memblock) option" where
  "memblock_alloc_base mb sz align mx = do_memblock_alloc_base mb sz align mx"

definition memblock_alloc :: "memblock \<Rightarrow> int \<Rightarrow> int \<Rightarrow> (int \<times> memblock) option" where
  "memblock_alloc mb sz align = memblock_alloc_base mb sz align MEMBLOCK_ALLOC_ACCESSIBLE"


section \<open>Lookup\<close>

text \<open>The binary search, a \<^verbatim>\<open>do\<close> loop: its body runs once even for an empty table.\<close>

function search_loop :: "memblock_region list \<Rightarrow> int \<Rightarrow> nat \<Rightarrow> nat \<Rightarrow> nat option" where
  "search_loop rs addr left right =
     (let mid = (right + left) div 2
      in if addr < rbase (rs ! mid) then
           (if left < mid then search_loop rs addr left mid else None)
         else if u64 (rbase (rs ! mid) + rsize (rs ! mid)) \<le> addr then
           (if mid + 1 < right then search_loop rs addr (mid + 1) right else None)
         else Some mid)"
  by pat_completeness auto
termination
  by (relation "measure (\<lambda>(rs, addr, left, right). right - left)") auto

declare search_loop.simps [simp del]

definition memblock_search :: "memblock_type \<Rightarrow> int \<Rightarrow> nat option" where
  "memblock_search type addr = search_loop (regions type) addr 0 (rgn_cnt type)"

definition memblock_is_memory :: "memblock \<Rightarrow> int \<Rightarrow> bool" where
  "memblock_is_memory mb addr \<longleftrightarrow> memblock_search (memory mb) addr \<noteq> None"


section \<open>Well-formed tables\<close>

definition region_ok :: "memblock_region \<Rightarrow> bool" where
  "region_ok r \<longleftrightarrow> 0 \<le> rbase r \<and> 0 < rsize r \<and> rbase r + rsize r < 4294967296"

definition good :: "memblock_region list \<Rightarrow> bool" where
  "good rs \<longleftrightarrow> (\<forall>r \<in> set rs. region_ok r) \<and> sorted_wrt (\<lambda>a b. rbase a + rsize a \<le> rbase b) rs"

definition live :: "memblock_type \<Rightarrow> memblock_region list" where
  "live type = take (rgn_cnt type) (regions type)"

definition rgn_set :: "memblock_region \<Rightarrow> int set" where
  "rgn_set r = block (rbase r) (rsize r)"

definition area :: "memblock_region list \<Rightarrow> int set" where
  "area rs = (\<Union>r \<in> set rs. rgn_set r)"

text \<open>The addresses a table covers: the abstract value of the component.\<close>

definition covers :: "memblock_type \<Rightarrow> int set" where
  "covers type = area (live type)"

text \<open>A fresh table holds one dummy region of size 0, which the first addition overwrites.\<close>

definition dummy :: "memblock_type \<Rightarrow> bool" where
  "dummy type \<longleftrightarrow> rgn_cnt type = 1 \<and> rsize (regions type ! 0) = 0"

definition mb_wf :: "memblock_type \<Rightarrow> bool" where
  "mb_wf type \<longleftrightarrow> rgn_cnt type < rgn_max type \<and> rgn_max type < length (regions type) \<and>
     rgn_max type \<le> 4294967296 \<and>
     (dummy type \<and> rbase (regions type ! 0) = 0 \<or> good (live type))"


section \<open>Regions and sorted lists\<close>

lemma region_okD:
  assumes "region_ok r"
  shows "0 \<le> rbase r" "0 < rsize r" "rbase r + rsize r < 4294967296"
    "u32 (rbase r) = rbase r" "u32 (rsize r) = rsize r" "u32 (rbase r + rsize r) = rbase r + rsize r"
    "u64 (rbase r + rsize r) = rbase r + rsize r"
  using assms by (auto simp: region_ok_def)

lemma goodI:
  assumes "\<And>i. i < length rs \<Longrightarrow> region_ok (rs ! i)"
    and "\<And>i j. i < j \<Longrightarrow> j < length rs \<Longrightarrow> rbase (rs ! i) + rsize (rs ! i) \<le> rbase (rs ! j)"
  shows "good rs"
  using assms by (auto simp: good_def sorted_wrt_iff_nth_less in_set_conv_nth)

lemma good_ok: "good rs \<Longrightarrow> i < length rs \<Longrightarrow> region_ok (rs ! i)"
  by (simp add: good_def)

lemma good_ord:
  "good rs \<Longrightarrow> i < j \<Longrightarrow> j < length rs \<Longrightarrow> rbase (rs ! i) + rsize (rs ! i) \<le> rbase (rs ! j)"
  by (simp add: good_def sorted_wrt_iff_nth_less)

lemma good_take: "good rs \<Longrightarrow> good (take n rs)"
  by (rule goodI) (auto simp: good_ok good_ord)

lemma area_nth: "x \<in> area rs \<longleftrightarrow> (\<exists>i < length rs. x \<in> rgn_set (rs ! i))"
  by (auto simp: area_def set_conv_nth)

lemma rgn_set_iff: "x \<in> rgn_set r \<longleftrightarrow> rbase r \<le> x \<and> x < rbase r + rsize r"
  by (simp add: rgn_set_def)

lemma area_append [simp]: "area (xs @ ys) = area xs \<union> area ys"
  by (simp add: area_def)

lemma area_Cons [simp]: "area (x # xs) = rgn_set x \<union> area xs"
  by (simp add: area_def)

lemma area_Nil [simp]: "area [] = {}"
  by (simp add: area_def)

lemma area_bounds: "good rs \<Longrightarrow> x \<in> area rs \<Longrightarrow> 0 \<le> x \<and> x < 4294967296"
  by (fastforce simp: area_nth rgn_set_iff dest: good_ok region_okD)

text \<open>A range disjoint from a table's area lies on one side of each region.\<close>

lemma disjoint_side:
  assumes "good rs" "i < length rs" "0 < sz" "block base sz \<inter> area rs = {}"
  shows "base + sz \<le> rbase (rs ! i) \<or> rbase (rs ! i) + rsize (rs ! i) \<le> base"
proof -
  have "block base sz \<inter> rgn_set (rs ! i) = {}" using assms(2,4) by (force simp: area_def)
  then show ?thesis
    using assms(3) region_okD(2) [OF good_ok [OF assms(1,2)]]
    unfolding rgn_set_def by (simp add: block_disjoint_iff)
qed

text \<open>Replacing one region keeps the order if the new one fits between its neighbours.\<close>

lemma good_update:
  assumes g: "good rs" and i: "i < length rs" and r: "region_ok r"
    and lo: "\<And>j. j < i \<Longrightarrow> rbase (rs ! j) + rsize (rs ! j) \<le> rbase r"
    and hi: "\<And>j. i < j \<Longrightarrow> j < length rs \<Longrightarrow> rbase r + rsize r \<le> rbase (rs ! j)"
  shows "good (rs[i := r])"
  using i r lo hi by (intro goodI) (auto simp: nth_list_update good_ok [OF g] good_ord [OF g])

lemma area_update:
  assumes "i < length rs" and "rgn_set r = rgn_set (rs ! i) \<union> B"
  shows "area (rs[i := r]) = area rs \<union> B"
proof -
  have "rs = take i rs @ rs ! i # drop (Suc i) rs" using assms(1) by (rule id_take_nth_drop)
  moreover have "rs[i := r] = take i rs @ r # drop (Suc i) rs" using assms(1) by (rule upd_conv_take_nth_drop)
  ultimately have "area rs = area (take i rs) \<union> rgn_set (rs ! i) \<union> area (drop (Suc i) rs)"
    and "area (rs[i := r]) = area (take i rs) \<union> rgn_set r \<union> area (drop (Suc i) rs)"
    by (metis area_append area_Cons Un_assoc)+
  with assms(2) show ?thesis by blast
qed

section \<open>Array loops\<close>

lemma length_shift_down [simp]: "length (shift_down rs i k) = length rs"
  by (induction rs i k rule: shift_down.induct) auto

lemma nth_shift_down:
  "i + k < length rs \<Longrightarrow>
   shift_down rs i k ! j = (if i \<le> j \<and> j < i + k then rs ! Suc j else rs ! j)"
  by (induction rs i k rule: shift_down.induct) (auto simp: nth_list_update less_Suc_eq_le)

lemma length_shift_insert [simp]: "length (shift_insert base sz n rs) = length rs"
  by (induction base sz n rs rule: shift_insert.induct) auto

text \<open>Dropping region \<open>r\<close> of a table.\<close>

lemma remove_region_live:
  assumes "r < rgn_cnt t" "rgn_cnt t < rgn_max t" "rgn_max t < length (regions t)" "rgn_max t \<le> 4294967296"
  shows "live (memblock_remove_region t r) = take r (live t) @ drop (Suc r) (live t)"
    and "rgn_cnt (memblock_remove_region t r) = rgn_cnt t - 1"
    and "rgn_max (memblock_remove_region t r) = rgn_max t"
    and "length (regions (memblock_remove_region t r)) = length (regions t)"
proof -
  have u: "u64 (int (rgn_cnt t) - 1) = int (rgn_cnt t) - 1" using assms by simp
  show "rgn_cnt (memblock_remove_region t r) = rgn_cnt t - 1"
    "rgn_max (memblock_remove_region t r) = rgn_max t"
    "length (regions (memblock_remove_region t r)) = length (regions t)"
    by (simp_all add: memblock_remove_region_def Let_def u nat_diff_distrib)
  show "live (memblock_remove_region t r) = take r (live t) @ drop (Suc r) (live t)"
  proof (rule nth_equalityI)
    show "length (live (memblock_remove_region t r)) = length (take r (live t) @ drop (Suc r) (live t))"
      using assms by (auto simp: live_def memblock_remove_region_def Let_def u nat_diff_distrib min_def)
    fix j assume "j < length (live (memblock_remove_region t r))"
    then have "j < nat (int (rgn_cnt t) - 1)" by (simp add: live_def memblock_remove_region_def Let_def u)
    then have j: "j < rgn_cnt t - 1" by linarith
    have k: "nat (int (rgn_cnt t) - 1 - int r) = rgn_cnt t - 1 - r" by linarith
    show "live (memblock_remove_region t r) ! j = (take r (live t) @ drop (Suc r) (live t)) ! j"
      using j assms
      by (auto simp: live_def memblock_remove_region_def Let_def u nat_diff_distrib k nth_shift_down
          nth_append)
  qed
qed


text \<open>The insertion shift: regions above the new base move up by one, the rest stay.\<close>

lemma shift_insert_spec:
  assumes "n < length rs"
  shows "\<exists>p \<le> n. (\<forall>j < p. shift_insert base sz n rs ! j = rs ! j) \<and>
    (if p = 0 then shift_insert base sz n rs ! 0 = rs ! 0
     else shift_insert base sz n rs ! p = mk_region base sz \<and> rbase (rs ! (p - 1)) \<le> base) \<and>
    (\<forall>j. p < j \<and> j \<le> n \<longrightarrow> shift_insert base sz n rs ! j = rs ! (j - 1)) \<and>
    (\<forall>j. p \<le> j \<and> j < n \<longrightarrow> base < rbase (rs ! j)) \<and>
    (\<forall>j. n < j \<longrightarrow> shift_insert base sz n rs ! j = rs ! j)"
  using assms
proof (induction n arbitrary: rs)
  case 0
  then show ?case by auto
next
  case (Suc n)
  show ?case
  proof (cases "base < rbase (rs ! n)")
    case False
    with Suc.prems show ?thesis by (intro exI [of _ "Suc n"]) auto
  next
    case True
    from Suc.IH [of "rs[Suc n := rs ! n]"] Suc.prems
    obtain p where p: "p \<le> n"
      "\<forall>j < p. shift_insert base sz n (rs[Suc n := rs ! n]) ! j = rs[Suc n := rs ! n] ! j"
      "if p = 0 then shift_insert base sz n (rs[Suc n := rs ! n]) ! 0 = rs[Suc n := rs ! n] ! 0
       else shift_insert base sz n (rs[Suc n := rs ! n]) ! p = mk_region base sz \<and>
            rbase (rs[Suc n := rs ! n] ! (p - 1)) \<le> base"
      "\<forall>j. p < j \<and> j \<le> n \<longrightarrow> shift_insert base sz n (rs[Suc n := rs ! n]) ! j = rs[Suc n := rs ! n] ! (j - 1)"
      "\<forall>j. p \<le> j \<and> j < n \<longrightarrow> base < rbase (rs[Suc n := rs ! n] ! j)"
      "\<forall>j. n < j \<longrightarrow> shift_insert base sz n (rs[Suc n := rs ! n]) ! j = rs[Suc n := rs ! n] ! j"
      by auto
    show ?thesis
      using p True Suc.prems
      by (intro exI [of _ p]) (auto simp: nth_list_update less_Suc_eq le_Suc_eq split: if_splits)
  qed
qed

text \<open>
  The whole insertion into a non-empty sorted table, array step by array step, puts the region at
  its place among the live entries.
\<close>

lemma insert_live:
  fixes base sz :: int
  assumes "0 < n" "n < length rs" "good (take n rs)"
  defines "rs1 \<equiv> shift_insert base sz n rs"
  defines "rs2 \<equiv> (if base < rbase (rs1 ! 0) then rs1[0 := mk_region base sz] else rs1)"
  shows "\<exists>p \<le> n. take (Suc n) rs2 = take p (take n rs) @ mk_region base sz # drop p (take n rs) \<and>
    (\<forall>j < p. rbase (rs ! j) \<le> base) \<and> (\<forall>j. p \<le> j \<and> j < n \<longrightarrow> base < rbase (rs ! j))"
proof -
  obtain p where p: "p \<le> n" "\<forall>j < p. rs1 ! j = rs ! j"
    "if p = 0 then rs1 ! 0 = rs ! 0 else rs1 ! p = mk_region base sz \<and> rbase (rs ! (p - 1)) \<le> base"
    "\<forall>j. p < j \<and> j \<le> n \<longrightarrow> rs1 ! j = rs ! (j - 1)"
    "\<forall>j. p \<le> j \<and> j < n \<longrightarrow> base < rbase (rs ! j)"
    using shift_insert_spec [OF assms(2), of base sz] unfolding rs1_def by auto
  have len: "length rs1 = length rs" by (simp add: rs1_def)
  have mono: "rbase (rs ! i) \<le> rbase (rs ! j)" if "i \<le> j" "j < n" for i j
  proof (cases "i = j")
    case False
    with that have "rbase (take n rs ! i) + rsize (take n rs ! i) \<le> rbase (take n rs ! j)"
      using assms(2) by (intro good_ord [OF assms(3)]) auto
    moreover have "0 < rsize (take n rs ! i)"
      using assms(2) that by (intro region_okD(2) good_ok [OF assms(3)]) auto
    ultimately show ?thesis using that by simp
  qed simp
  have low: "\<forall>j < p. rbase (rs ! j) \<le> base"
  proof (intro allI impI)
    fix j assume "j < p"
    then have "rbase (rs ! j) \<le> rbase (rs ! (p - 1))" using p(1) by (intro mono) auto
    moreover have "rbase (rs ! (p - 1)) \<le> base" using p(3) \<open>j < p\<close> by simp
    ultimately show "rbase (rs ! j) \<le> base" by simp
  qed
  have rs2: "rs2 ! j = (if j < p then rs ! j else if j = p then mk_region base sz else rs ! (j - 1))"
    if "j \<le> n" for j
  proof (cases "p = 0")
    case True
    then have "base < rbase (rs1 ! 0)" using p(3,5) assms(1) by simp
    moreover have "0 < length rs1" using assms(2) len by linarith
    ultimately show ?thesis using True p(4) that len assms(2) by (auto simp: rs2_def nth_list_update)
  next
    case False
    then have "rs1 ! 0 = rs ! 0" "rbase (rs ! 0) \<le> base" using p(2) low by auto
    then have "rs2 = rs1" by (simp add: rs2_def)
    then show ?thesis using p False that by auto
  qed
  have len2: "length rs2 = length rs" using len by (simp add: rs2_def)
  have "take (Suc n) rs2 = take p (take n rs) @ mk_region base sz # drop p (take n rs)"
  proof (rule nth_equalityI)
    show "length (take (Suc n) rs2) = length (take p (take n rs) @ mk_region base sz # drop p (take n rs))"
      using assms(2) p(1) len2 by simp
    fix j assume "j < length (take (Suc n) rs2)"
    then have "j \<le> n" using assms(2) len2 by simp
    then show "take (Suc n) rs2 ! j = (take p (take n rs) @ mk_region base sz # drop p (take n rs)) ! j"
      using rs2 [of j] p(1) assms(2) len2 by (auto simp: nth_append nth_Cons')
  qed
  with p(1,5) low show ?thesis by blast
qed

lemma good_insert:
  assumes g: "good xs" and p: "p \<le> length xs" and r: "region_ok r"
    and low: "\<forall>j < p. rbase (xs ! j) \<le> rbase r"
    and high: "\<forall>j. p \<le> j \<and> j < length xs \<longrightarrow> rbase r < rbase (xs ! j)"
    and dis: "rgn_set r \<inter> area xs = {}"
  shows "good (take p xs @ r # drop p xs)"
proof (rule goodI)
  let ?ys = "take p xs @ r # drop p xs"
  have dis': "block (rbase r) (rsize r) \<inter> area xs = {}" using dis by (simp add: rgn_set_def)
  note side = disjoint_side [OF g _ region_okD(2) [OF r] dis']
  have ys: "?ys ! j = (if j < p then xs ! j else if j = p then r else xs ! (j - 1))" if "j \<le> length xs" for j
    using that p by (auto simp: nth_append nth_Cons')
  fix i
  show "region_ok (?ys ! i)" if "i < length ?ys"
    using that p r ys [of i] good_ok [OF g] by (cases "i \<le> p") auto
  fix j
  assume ij: "i < j" "j < length ?ys"
  have below: "rbase (xs ! k) + rsize (xs ! k) \<le> rbase r" if "k < p" for k
    using side [of k] low that p region_okD(2) [OF r] by fastforce
  have above: "rbase r + rsize r \<le> rbase (xs ! k)" if "p \<le> k" "k < length xs" for k
    using side [of k] high that region_okD(2) [OF good_ok [OF g, of k]] by fastforce
  show "rbase (?ys ! i) + rsize (?ys ! i) \<le> rbase (?ys ! j)"
    using ij p ys [of i] ys [of j] below [of i] above [of "j - 1"] good_ord [OF g, of i j]
      good_ord [OF g, of i "j - 1"] good_ord [OF g, of "i - 1" "j - 1"]
    by (auto split: if_splits)
qed


section \<open>Adding a region\<close>

text \<open>\<open>r'\<close> is region \<open>r\<close> grown at one end by the adjacent range.\<close>

definition grows :: "int \<Rightarrow> int \<Rightarrow> memblock_region \<Rightarrow> memblock_region \<Rightarrow> bool" where
  "grows base sz r r' \<longleftrightarrow> region_ok r' \<and> rsize r' = rsize r + sz \<and>
     (rbase r' = base \<and> base + sz = rbase r \<or> rbase r' = rbase r \<and> rbase r + rsize r = base)"

lemma grows_set: "grows base sz r r' \<Longrightarrow> 0 < sz \<Longrightarrow> region_ok r \<Longrightarrow> rgn_set r' = rgn_set r \<union> block base sz"
  by (auto simp: grows_def rgn_set_def region_ok_def)

text \<open>What the coalescing loop can do when the new range is disjoint from the table.\<close>

lemma add_scan_disjoint:
  assumes g: "good (take n rs)" and n: "n < length rs" and ik: "i + k = n"
    and r: "region_ok (mk_region base sz)" and dis: "block base sz \<inter> area (take n rs) = {}"
  shows "add_scan m base sz rs i k = Stop n rs 0 \<or>
    (\<exists>j r'. j < n \<and> add_scan m base sz rs i k = Stop j (rs[j := r']) 1 \<and> grows base sz (rs ! j) r')"
  using ik
proof (induction k arbitrary: i)
  case 0
  then show ?case by simp
next
  case (Suc k)
  have i: "i < n" using Suc.prems by simp
  then have "region_ok (take n rs ! i)" using n by (intro good_ok [OF g]) simp
  then have ok: "region_ok (rs ! i)" using i by simp
  note R = region_okD [OF ok] and B = region_okD [OF r, unfolded mk_region_def, simplified]
  have side: "base + sz \<le> rbase (rs ! i) \<or> rbase (rs ! i) + rsize (rs ! i) \<le> base"
    using disjoint_side [OF g _ B(2) dis, of i] i n by simp
  have ne: "\<not> (rbase (rs ! i) = base \<and> rsize (rs ! i) = sz)" using side R(2) B(2) by linarith
  have adj: "memblock_addrs_adjacent base sz (rbase (rs ! i)) (rsize (rs ! i)) =
      (if rbase (rs ! i) = base + sz then 1 else if base = rbase (rs ! i) + rsize (rs ! i) then - 1 else 0)"
    using B R by (simp add: memblock_addrs_adjacent_def)
  consider (up) "rbase (rs ! i) = base + sz" | (down) "rbase (rs ! i) \<noteq> base + sz" "base = rbase (rs ! i) + rsize (rs ! i)"
    | (none) "rbase (rs ! i) \<noteq> base + sz" "base \<noteq> rbase (rs ! i) + rsize (rs ! i)" by blast
  then show ?case
  proof cases
    case up
    define r' where "r' = \<lparr>rbase = base, rsize = rsize (rs ! i) + sz\<rparr>"
    have "add_scan m base sz rs i (Suc k) = Stop i (rs[i := r']) 1"
      using ne adj up R B by (simp add: Let_def memblock_memory_can_coalesce_def r'_def)
    moreover have "grows base sz (rs ! i) r'" using up R B by (simp add: grows_def region_ok_def r'_def)
    ultimately show ?thesis using i by blast
  next
    case down
    define r' where "r' = (rs ! i)\<lparr>rsize := rsize (rs ! i) + sz\<rparr>"
    have "add_scan m base sz rs i (Suc k) = Stop i (rs[i := r']) 1"
      using ne adj down R B by (simp add: Let_def memblock_memory_can_coalesce_def r'_def)
    moreover have "grows base sz (rs ! i) r'" using down R B by (simp add: grows_def region_ok_def r'_def)
    ultimately show ?thesis using i by blast
  next
    case none
    then have "add_scan m base sz rs i (Suc k) = add_scan m base sz rs (Suc i) k"
      using ne adj R by (auto simp: Let_def memblock_memory_can_coalesce_def)
    then show ?thesis using Suc.IH [of "Suc i"] Suc.prems by simp
  qed
qed

text \<open>Growing region \<open>j\<close> by an adjacent disjoint range keeps the table good.\<close>

lemma good_grow:
  assumes g: "good xs" and j: "j < length xs" and gr: "grows base sz (xs ! j) r'"
    and B: "0 < sz" and dis: "block base sz \<inter> area xs = {}"
  shows "good (xs[j := r'])"
proof -
  note ok = good_ok [OF g] and ord = good_ord [OF g] and side = disjoint_side [OF g _ B dis]
  have pos: "0 < rsize (xs ! i)" if "i < length xs" for i using region_okD(2) [OF ok [OF that]] .
  have r': "region_ok r'" using gr by (simp add: grows_def)
  show ?thesis
  proof (rule good_update [OF g j r'])
    fix i assume i: "i < j"
    then show "rbase (xs ! i) + rsize (xs ! i) \<le> rbase r'"
      using gr ord [of i j] side [of i] j pos [of i] pos [of j] by (force simp: grows_def)
  next
    fix i assume i: "j < i" "i < length xs"
    then show "rbase r' + rsize r' \<le> rbase (xs ! i)"
      using gr ord [of j i] side [of i] j pos [of i] pos [of j] by (force simp: grows_def)
  qed
qed

text \<open>Merging two adjacent neighbours of a good table.\<close>

lemma coalesce_live:
  assumes t: "Suc i < rgn_cnt t" "rgn_cnt t < rgn_max t" "rgn_max t < length (regions t)"
      "rgn_max t \<le> 4294967296"
    and g: "good (live t)" and adj: "memblock_regions_adjacent t i (Suc i) \<noteq> 0"
  defines "t' \<equiv> memblock_coalesce_regions t i (Suc i)"
  shows "good (live t') \<and> covers t' = covers t \<and> rgn_cnt t' = rgn_cnt t - 1 \<and>
    rgn_max t' = rgn_max t \<and> length (regions t') = length (regions t) \<and>
    (\<forall>r \<in> set (live t). \<exists>r' \<in> set (live t'). rgn_set r \<subseteq> rgn_set r')"
proof -
  let ?xs = "live t"
  have len: "length ?xs = rgn_cnt t" using t by (simp add: live_def)
  have nth: "?xs ! j = regions t ! j" if "j < rgn_cnt t" for j using that by (simp add: live_def)
  note ok = good_ok [OF g] and ord = good_ord [OF g]
  have R: "region_ok (regions t ! i)" "region_ok (regions t ! Suc i)"
    using ok [of i] ok [of "Suc i"] nth t(1) len by auto
  note Ri = region_okD [OF R(1)] and Rj = region_okD [OF R(2)]
  have "rbase (regions t ! i) + rsize (regions t ! i) \<le> rbase (regions t ! Suc i)"
    using ord [of i "Suc i"] nth t(1) len by simp
  then have touch: "rbase (regions t ! Suc i) = rbase (regions t ! i) + rsize (regions t ! i)"
    using adj Ri Rj by (auto simp: memblock_regions_adjacent_def memblock_addrs_adjacent_def split: if_splits)
  define r where "r = (regions t ! i)\<lparr>rsize := rsize (regions t ! i) + rsize (regions t ! Suc i)\<rparr>"
  define t1 where "t1 = t\<lparr>regions := (regions t)[i := r]\<rparr>"
  have t': "t' = memblock_remove_region t1 (Suc i)"
    using Ri Rj touch by (simp add: t'_def memblock_coalesce_regions_def t1_def r_def Let_def)
  have live1: "live t1 = ?xs[i := r]" using t by (simp add: t1_def live_def take_update_swap)
  have t1: "Suc i < rgn_cnt t1" "rgn_cnt t1 < rgn_max t1" "rgn_max t1 < length (regions t1)"
    "rgn_max t1 \<le> 4294967296" using t by (simp_all add: t1_def)
  note L = remove_region_live [OF t1]
  have split: "?xs = take i ?xs @ ?xs ! i # ?xs ! Suc i # drop (Suc (Suc i)) ?xs"
    using t(1) len by (metis Cons_nth_drop_Suc Suc_lessD id_take_nth_drop)
  have live': "live t' = take i ?xs @ r # drop (Suc (Suc i)) ?xs"
    using L(1) t(1) len by (simp add: t' live1 take_Suc_conv_app_nth)
  have rset: "rgn_set r = rgn_set (regions t ! i) \<union> rgn_set (regions t ! Suc i)"
    using touch Ri(2) Rj(2) by (auto simp: r_def rgn_set_def)
  have "area (live t') = area ?xs"
    unfolding live' using rset nth t(1) by (subst (3) split) auto
  moreover have "good (live t')"
  proof -
    have n: "live t' ! j = (if j < i then ?xs ! j else if j = i then r else ?xs ! Suc j)"
      if "j < length (live t')" for j
      using that t(1) len by (auto simp: live' nth_append nth_Cons')
    have len': "length (live t') = rgn_cnt t - 1" using t(1) len by (simp add: live')
    have rok: "region_ok r" using touch Ri Rj by (auto simp: r_def region_ok_def)
    show ?thesis
    proof (rule goodI)
      fix j
      assume "j < length (live t')"
      then show "region_ok (live t' ! j)" using n len' len rok ok by auto
    next
      fix j k
      assume jk: "j < k" "k < length (live t')"
      then have "Suc k < rgn_cnt t" using len' by simp
      with jk show "rbase (live t' ! j) + rsize (live t' ! j) \<le> rbase (live t' ! k)"
        using n [of j] n [of k] len' len t(1) ord [of j k] ord [of j "Suc k"] ord [of "Suc j" "Suc k"]
          ord [of "Suc i" "Suc k"] ord [of j i] nth touch
        by (auto simp: r_def split: if_splits)
    qed
  qed
  moreover have "\<exists>r' \<in> set (live t'). rgn_set q \<subseteq> rgn_set r'" if "q \<in> set ?xs" for q
  proof -
    have "q \<in> set (take i ?xs) \<or> q = ?xs ! i \<or> q = ?xs ! Suc i \<or> q \<in> set (drop (Suc (Suc i)) ?xs)"
      using that by (subst (asm) split) auto
    then show ?thesis using nth t(1) rset by (auto simp: live')
  qed
  ultimately show ?thesis using L(2-4) by (simp add: t' covers_def t1_def)
qed

text \<open>Insertion, when the table has room for one more entry below the limit.\<close>

lemma insert_region_adds:
  assumes t: "0 < rgn_cnt t" "Suc (rgn_cnt t) < rgn_max t" "rgn_max t < length (regions t)"
    and g: "good (live t)" and r: "region_ok (mk_region base sz)"
    and dis: "block base sz \<inter> covers t = {}"
  shows "\<exists>t'. insert_region t base sz = (0, t') \<and> good (live t') \<and>
    covers t' = covers t \<union> block base sz \<and> rgn_cnt t' = Suc (rgn_cnt t) \<and>
    rgn_max t' = rgn_max t \<and> length (regions t') = length (regions t) \<and>
    (\<exists>r \<in> set (live t'). block base sz \<subseteq> rgn_set r)"
proof -
  let ?n = "rgn_cnt t" and ?xs = "live t" and ?r = "mk_region base sz"
  have len: "length ?xs = ?n" using t by (simp add: live_def)
  define rs1 where "rs1 = shift_insert base sz ?n (regions t)"
  define rs2 where "rs2 = (if base < rbase (rs1 ! 0) then rs1[0 := ?r] else rs1)"
  define t' where "t' = t\<lparr>regions := rs2, rgn_cnt := Suc ?n\<rparr>"
  have "insert_region t base sz = (0, t')"
    using t(2) by (simp add: insert_region_def Let_def t'_def rs2_def rs1_def)
  moreover obtain p where p: "p \<le> ?n" "take (Suc ?n) rs2 = take p ?xs @ ?r # drop p ?xs"
    "\<forall>j < p. rbase (regions t ! j) \<le> base" "\<forall>j. p \<le> j \<and> j < ?n \<longrightarrow> base < rbase (regions t ! j)"
    using insert_live [of ?n "regions t" base sz] t g unfolding live_def rs2_def rs1_def by auto
  have live': "live t' = take p ?xs @ ?r # drop p ?xs" using p(2) by (simp add: t'_def live_def)
  have rset: "rgn_set ?r = block base sz" by (simp add: rgn_set_def mk_region_def)
  have nth: "?xs ! j = regions t ! j" if "j < ?n" for j using that by (simp add: live_def)
  have "good (live t')" unfolding live'
  proof (rule good_insert [OF g _ r])
    show "p \<le> length ?xs" using p(1) len by simp
    show "\<forall>j < p. rbase (?xs ! j) \<le> rbase ?r" using p(1,3) nth by (simp add: mk_region_def)
    show "\<forall>j. p \<le> j \<and> j < length ?xs \<longrightarrow> rbase ?r < rbase (?xs ! j)"
      using p(4) nth len by (simp add: mk_region_def)
    show "rgn_set ?r \<inter> area ?xs = {}" using dis by (simp add: rset covers_def)
  qed
  moreover have "area (take p ?xs) \<union> area (drop p ?xs) = area ?xs"
    by (metis area_append append_take_drop_id)
  then have "covers t' = covers t \<union> block base sz"
    by (auto simp: covers_def live' rset)
  moreover have "\<exists>r \<in> set (live t'). block base sz \<subseteq> rgn_set r" by (simp add: live' rset)
  moreover have "length rs2 = length (regions t)" by (simp add: rs2_def rs1_def)
  ultimately show ?thesis by (auto simp: t'_def)
qed

lemma block_range_ok:
  "0 \<le> base \<Longrightarrow> 0 < sz \<Longrightarrow> base + sz < 4294967296 \<Longrightarrow> region_ok (mk_region base sz)"
  by (simp add: region_ok_def mk_region_def)

lemma mb_wf_cases:
  assumes "mb_wf t"
  obtains "dummy t" "covers t = {}" "rbase (regions t ! 0) = 0" | "\<not> dummy t" "good (live t)"
proof (cases "dummy t")
  case True
  then have "live t = [regions t ! 0]"
    using assms by (cases "regions t") (auto simp: live_def dummy_def mb_wf_def)
  then have "covers t = {}" using True by (simp add: covers_def rgn_set_def dummy_def)
  moreover have "rbase (regions t ! 0) = 0"
    using True assms \<open>live t = _\<close> by (auto simp: mb_wf_def dummy_def good_def region_ok_def)
  ultimately show ?thesis using True that(1) by blast
qed (use assms that in \<open>auto simp: mb_wf_def\<close>)

text \<open>
  Adding a range disjoint from what the table covers: it succeeds and adds exactly that range, by
  growing a neighbour, by closing a hole between two, or by a new entry.
\<close>

lemma memblock_add_region_lemma:
  assumes wf: "mb_wf t" and cnt: "0 < rgn_cnt t" "Suc (rgn_cnt t) < rgn_max t"
    and r: "0 \<le> base" "0 < sz" "base + sz < 4294967296"
    and dis: "block base sz \<inter> covers t = {}"
    and res: "memblock_add_region m t base sz = (ret, t')"
  shows "0 \<le> ret \<and> mb_wf t' \<and> 0 < rgn_cnt t' \<and> rgn_cnt t' \<le> Suc (rgn_cnt t) \<and>
    rgn_max t' = rgn_max t \<and> covers t' = covers t \<union> block base sz \<and>
    (\<exists>q \<in> set (live t'). block base sz \<subseteq> rgn_set q)"
proof (rule mb_wf_cases [OF wf])
  let ?r = "mk_region base sz"
  have rok: "region_ok ?r" using r by (rule block_range_ok)
  have lens: "rgn_max t < length (regions t)" "rgn_max t \<le> 4294967296" using wf by (auto simp: mb_wf_def)
  {
    assume d: "dummy t" "covers t = {}"
    then have t': "ret = 0" "t' = t\<lparr>regions := (regions t)[0 := ?r]\<rparr>"
      using res by (simp_all add: memblock_add_region_def dummy_def)
    have "live t' = [?r]" using d lens by (cases "regions t") (auto simp: t'(2) live_def dummy_def)
    with d lens rok cnt show ?thesis
      by (auto simp: t' mb_wf_def covers_def good_def rgn_set_def mk_region_def dummy_def)
  }
  assume nd: "\<not> dummy t" and g: "good (live t)"
  let ?n = "rgn_cnt t" and ?rs = "regions t"
  have nlen: "?n < length ?rs" using cnt lens by simp
  have g': "good (take ?n ?rs)" using g by (simp add: live_def)
  have dis': "block base sz \<inter> area (take ?n ?rs) = {}" using dis by (simp add: covers_def live_def)
  have u: "u64 (int ?n - 1) = int ?n - 1" using cnt lens by simp
  note unf = memblock_add_region_def u Let_def
  from add_scan_disjoint [OF g' nlen _ rok dis', of 0 ?n m]
  consider (none) "add_scan m base sz ?rs 0 ?n = Stop ?n ?rs 0"
    | (grow) j r' where "j < ?n" "add_scan m base sz ?rs 0 ?n = Stop j (?rs[j := r']) 1"
        "grows base sz (?rs ! j) r'" by auto
  then show ?thesis
  proof cases
    case none
    then have "memblock_add_region m t base sz = insert_region t base sz"
      using cnt nd by (auto simp: unf dummy_def)
    with insert_region_adds [OF cnt lens(1) g rok dis] res show ?thesis
      using cnt lens by (auto simp: mb_wf_def)
  next
    case grow
    define t1 where "t1 = t\<lparr>regions := ?rs[j := r']\<rparr>"
    have live1: "live t1 = (live t)[j := r']" by (simp add: t1_def live_def take_update_swap)
    have jl: "j < length (live t)" "live t ! j = ?rs ! j" using grow(1) nlen by (simp_all add: live_def)
    have g1: "good (live t1)" unfolding live1
      using good_grow [OF g jl(1) _ r(2)] grow(3) jl(2) dis by (simp add: covers_def)
    have c1: "covers t1 = covers t \<union> block base sz"
      unfolding covers_def live1 using grow(3) jl good_ok [OF g jl(1)] r(2)
      by (intro area_update) (simp_all add: grows_set)
    have t1: "rgn_cnt t1 = ?n" "rgn_max t1 = rgn_max t" "length (regions t1) = length ?rs"
      by (simp_all add: t1_def)
    have "r' \<in> set (live t1)" using jl(1) by (simp add: live1 set_update_memI)
    moreover have "block base sz \<subseteq> rgn_set r'"
      using grows_set [OF grow(3) r(2)] good_ok [OF g jl(1)] jl(2) by simp
    ultimately have w1: "\<exists>q \<in> set (live t1). block base sz \<subseteq> rgn_set q" by blast
    show ?thesis
    proof (cases "Suc j < ?n \<and> memblock_regions_adjacent t1 j (Suc j) \<noteq> 0")
      case True
      then have "ret = 2" "t' = memblock_coalesce_regions t1 j (Suc j)"
        using res grow(2) nd by (auto simp: unf t1_def memblock_memory_can_coalesce_def dummy_def)
      moreover have co: "good (live t') \<and> covers t' = covers t1 \<and> rgn_cnt t' = rgn_cnt t1 - 1 \<and>
          rgn_max t' = rgn_max t1 \<and> length (regions t') = length (regions t1) \<and>
          (\<forall>r \<in> set (live t1). \<exists>r' \<in> set (live t'). rgn_set r \<subseteq> rgn_set r')"
        using coalesce_live [of j t1] True g1 t1 cnt lens \<open>t' = _\<close> by simp
      then have "\<exists>q \<in> set (live t'). block base sz \<subseteq> rgn_set q" using w1 by (meson subset_trans)
      ultimately show ?thesis using co True c1 t1 cnt lens by (auto simp: mb_wf_def)
    next
      case False
      then have "ret = 1" "t' = t1"
        using res grow(1,2) nd by (auto simp: unf t1_def memblock_memory_can_coalesce_def dummy_def)
      with g1 c1 t1 cnt lens w1 show ?thesis by (auto simp: mb_wf_def)
    qed
  qed
qed


section \<open>Removing a region\<close>

lemma remove_find_spec:
  "remove_find rs base en i k = Some j \<Longrightarrow> i \<le> j \<and> j < i + k \<and> u32 (rbase (rs ! j)) \<le> base \<and>
     en \<le> u32 (u32 (rbase (rs ! j)) + rsize (rs ! j))"
  "remove_find rs base en i k = None \<Longrightarrow> i \<le> l \<Longrightarrow> l < i + k \<Longrightarrow>
     \<not> (u32 (rbase (rs ! l)) \<le> base \<and> en \<le> u32 (u32 (rbase (rs ! l)) + rsize (rs ! l)))"
proof (induction k arbitrary: i)
  case (Suc k)
  { case 1 with Suc.IH(1) [of "Suc i"] show ?case by (auto simp: Let_def split: if_splits) }
  { case 2 with Suc.IH(2) [of "Suc i"] show ?case by (cases "l = i") (auto simp: Let_def split: if_splits) }
qed simp_all

text \<open>The first test of the loop, for the regions of a well-formed table.\<close>

lemma contains_iff:
  assumes "region_ok r" "0 < sz"
  shows "u32 (rbase r) \<le> base \<and> base + sz \<le> u32 (u32 (rbase r) + rsize r) \<longleftrightarrow> block base sz \<subseteq> rgn_set r"
proof -
  note R = region_okD [OF assms(1)]
  show ?thesis using R assms(2) by (auto simp: rgn_set_def block_def)
qed

lemma good_disjoint:
  "good rs \<Longrightarrow> i < length rs \<Longrightarrow> j < length rs \<Longrightarrow> i \<noteq> j \<Longrightarrow> rgn_set (rs ! i) \<inter> rgn_set (rs ! j) = {}"
  using good_ord [of rs i j] good_ord [of rs j i]
  by (cases i j rule: linorder_cases) (auto simp: rgn_set_def)

text \<open>The area left when region \<open>i\<close> shrinks by a part \<open>B\<close> of it.\<close>

lemma area_shrink:
  assumes g: "good rs" and i: "i < length rs" and B: "B \<subseteq> rgn_set (rs ! i)" and r: "rgn_set r = rgn_set (rs ! i) - B"
  shows "area (rs[i := r]) = area rs - B"
proof -
  have "x \<notin> B" if "j < length rs" "j \<noteq> i" "x \<in> rgn_set (rs ! j)" for j x
    using good_disjoint [OF g i that(1)] that B by blast
  then show ?thesis
    using i r B by (auto simp: area_nth nth_list_update split: if_splits)
qed

lemma area_drop_nth:
  assumes g: "good rs" and i: "i < length rs"
  shows "area (take i rs @ drop (Suc i) rs) = area rs - rgn_set (rs ! i)"
proof -
  have split: "rs = take i rs @ rs ! i # drop (Suc i) rs" using i by (rule id_take_nth_drop)
  have "rgn_set (rs ! i) \<inter> area (take i rs) = {}" "rgn_set (rs ! i) \<inter> area (drop (Suc i) rs) = {}"
    using good_disjoint [OF g i] i by (auto simp: area_nth disjoint_iff)
  then show ?thesis by (subst (3) split) auto
qed

lemma good_drop_nth: "good rs \<Longrightarrow> good (take i rs @ drop (Suc i) rs)"
  unfolding good_def sorted_wrt_append
  by (auto dest: in_set_takeD in_set_dropD)
     (auto simp: sorted_wrt_iff_nth_less in_set_conv_nth)


lemma memblock_remove_lemma:
  assumes wf: "mb_wf t" and cnt: "Suc (rgn_cnt t) < rgn_max t"
    and r: "0 \<le> base" "0 < sz" "base + sz < 4294967296"
    and i: "i < rgn_cnt t" "block base sz \<subseteq> rgn_set (live t ! i)"
    and res: "do_memblock_remove m t base sz = (ret, t')"
  shows "0 \<le> ret \<and> mb_wf t' \<and> rgn_max t' = rgn_max t \<and> covers t' = covers t - block base sz"
proof -
  let ?n = "rgn_cnt t" and ?rs = "regions t" and ?xs = "live t" and ?B = "block base sz"
  have lens: "?n < rgn_max t" "rgn_max t < length ?rs" "rgn_max t \<le> 4294967296"
    using wf by (auto simp: mb_wf_def)
  have nth: "?xs ! j = ?rs ! j" if "j < ?n" for j using that by (simp add: live_def)
  have len: "length ?xs = ?n" using lens by (simp add: live_def)
  have "?B \<noteq> {}" using r(2) by (auto simp: block_def)
  have nd: "\<not> dummy t"
  proof
    assume d: "dummy t"
    then have "rgn_set (?rs ! 0) = {}" by (simp add: dummy_def rgn_set_def)
    with d i nth \<open>?B \<noteq> {}\<close> show False by (auto simp: dummy_def)
  qed
  then have g: "good ?xs" using wf by (simp add: mb_wf_def)
  have ok: "region_ok (?rs ! j)" if "j < ?n" for j using good_ok [OF g, of j] nth len that by simp
  have en: "u32 (base + sz) = base + sz" using r by simp
  obtain j where j: "remove_find ?rs base (base + sz) 0 ?n = Some j"
    using remove_find_spec(2) [of ?rs base "base + sz" 0 ?n i] contains_iff [OF ok [OF i(1)] r(2), of base] i nth
    by (cases "remove_find ?rs base (base + sz) 0 ?n") auto
  from remove_find_spec(1) [OF j] have jn: "j < ?n" by simp
  then have inj: "?B \<subseteq> rgn_set (?rs ! j)"
    using remove_find_spec(1) [OF j] contains_iff [OF ok [OF jn] r(2), of base] by simp
  have jl: "j < length ?xs" "?xs ! j = ?rs ! j" using jn len nth by simp_all
  note R = region_okD [OF ok [OF jn]]
  have in': "rbase (?rs ! j) \<le> base" "base + sz \<le> rbase (?rs ! j) + rsize (?rs ! j)"
    using inj r(2) by (auto simp: rgn_set_def block_def)
  define upd where "upd r = t\<lparr>regions := ?rs[j := r]\<rparr>" for r
  have upd: "live (upd r) = ?xs[j := r]" "rgn_cnt (upd r) = ?n" "rgn_max (upd r) = rgn_max t"
    "length (regions (upd r)) = length ?rs" "covers (upd r) = area (?xs[j := r])" for r
    by (simp_all add: upd_def live_def take_update_swap covers_def)
  have shrink: "good (?xs[j := r])" if "region_ok r" "rgn_set r \<subseteq> rgn_set (?rs ! j)" for r
  proof (rule good_update [OF g jl(1) that(1)])
    have b: "rbase (?rs ! j) \<le> rbase r" "rbase r + rsize r \<le> rbase (?rs ! j) + rsize (?rs ! j)"
      using that(2) region_okD(2) [OF that(1)] by (auto simp: rgn_set_def block_def)
    show "rbase (?xs ! k) + rsize (?xs ! k) \<le> rbase r" if "k < j" for k
      using good_ord [OF g that jl(1)] jl b by simp
    show "rbase r + rsize r \<le> rbase (?xs ! k)" if "j < k" "k < length ?xs" for k
      using good_ord [OF g that] jl b by simp
  qed
  have wf_upd: "mb_wf (upd r)" if "region_ok r" "rgn_set r \<subseteq> rgn_set (?rs ! j)" for r
    using shrink [OF that] lens cnt upd by (simp add: mb_wf_def)
  note un = do_memblock_remove_def Let_def en j
  consider (whole) "rbase (?rs ! j) = base" "rbase (?rs ! j) + rsize (?rs ! j) = base + sz"
    | (front) "rbase (?rs ! j) = base" "base + sz < rbase (?rs ! j) + rsize (?rs ! j)"
    | (rear) "rbase (?rs ! j) < base" "rbase (?rs ! j) + rsize (?rs ! j) = base + sz"
    | (middle) "rbase (?rs ! j) < base" "base + sz < rbase (?rs ! j) + rsize (?rs ! j)"
    using in' by linarith
  then show ?thesis
  proof cases
    case whole
    then have B: "rgn_set (?rs ! j) = ?B" by (simp add: rgn_set_def)
    have t': "ret = 0" "t' = memblock_remove_region t j" using res whole R r by (simp_all add: un)
    note L = remove_region_live [OF jn lens]
    have "good (live t')" unfolding t'(2) L(1) by (rule good_drop_nth [OF g])
    moreover have "covers t' = covers t - ?B"
      unfolding covers_def t'(2) L(1) using area_drop_nth [OF g jl(1)] B jl by simp
    ultimately show ?thesis using L lens by (auto simp: t' mb_wf_def)
  next
    case front
    define r where "r = mk_region (base + sz) (rsize (?rs ! j) - sz)"
    have t': "ret = 0" "t' = upd r" using res front R r by (simp_all add: un r_def upd_def)
    have s: "rgn_set r = rgn_set (?rs ! j) - ?B" using front r(2) by (auto simp: rgn_set_def r_def mk_region_def)
    have "region_ok r" using front R r by (simp add: region_ok_def r_def mk_region_def)
    with wf_upd [of r] area_shrink [OF g jl(1), of ?B r] s inj jl upd show ?thesis
      by (auto simp: t' covers_def)
  next
    case rear
    define r where "r = (?rs ! j)\<lparr>rsize := rsize (?rs ! j) - sz\<rparr>"
    have t': "ret = 0" "t' = upd r" using res rear R r by (simp_all add: un r_def upd_def)
    have s: "rgn_set r = rgn_set (?rs ! j) - ?B" using rear r(2) by (auto simp: rgn_set_def r_def)
    have "region_ok r" using rear R r by (simp add: region_ok_def r_def)
    with wf_upd [of r] area_shrink [OF g jl(1), of ?B r] s inj jl upd show ?thesis
      by (auto simp: t' covers_def)
  next
    case middle
    define r where "r = (?rs ! j)\<lparr>rsize := base - rbase (?rs ! j)\<rparr>"
    define tl where "tl = rbase (?rs ! j) + rsize (?rs ! j) - (base + sz)"
    have add: "memblock_add_region m (upd r) (base + sz) tl = (ret, t')"
      using res middle R r by (simp add: un r_def upd_def tl_def)
    have s: "rgn_set r = rgn_set (?rs ! j) - block base (sz + tl)"
      using middle r(2) by (auto simp: rgn_set_def r_def tl_def)
    have sub: "block base (sz + tl) \<subseteq> rgn_set (?rs ! j)"
      using middle r(2) by (auto simp: rgn_set_def tl_def)
    have rok: "region_ok r" using middle R r by (simp add: region_ok_def r_def)
    have c: "covers (upd r) = covers t - block base (sz + tl)"
      using area_shrink [OF g jl(1), of "block base (sz + tl)" r] s sub jl upd by (simp add: covers_def)
    have tl: "0 < tl" "base + sz + tl < 4294967296" using middle R by (simp_all add: tl_def)
    have app: "block base (sz + tl) = ?B \<union> block (base + sz) tl"
      using r(2) tl(1) by (intro block_append [symmetric]) auto
    have "block (base + sz) tl \<inter> covers (upd r) = {}" using c app by blast
    then have "0 \<le> ret \<and> mb_wf t' \<and> rgn_max t' = rgn_max t \<and> covers t' = covers (upd r) \<union> block (base + sz) tl"
      using memblock_add_region_lemma [OF wf_upd _ _ _ tl(1) _ _ add] rok s sub cnt jn r tl upd by auto
    moreover have "rgn_set (?rs ! j) \<subseteq> covers t"
      using jl unfolding covers_def area_def by (metis UN_upper nth_mem)
    then have "block (base + sz) tl \<subseteq> covers t" using sub app by blast
    moreover note this
    moreover have "?B \<inter> block (base + sz) tl = {}" by auto
    ultimately show ?thesis using c app by blast
  qed
qed

text \<open>A range that no single region contains is not removed.\<close>

lemma memblock_remove_missing:
  assumes wf: "mb_wf t" and r: "0 \<le> base" "0 < sz" "base + sz < 4294967296" and nd: "\<not> dummy t"
    and i: "\<forall>i < rgn_cnt t. \<not> block base sz \<subseteq> rgn_set (live t ! i)"
  shows "do_memblock_remove m t base sz = (- 1, t)"
proof -
  have g: "good (live t)" and len: "length (live t) = rgn_cnt t"
    using wf nd by (auto simp: mb_wf_def live_def)
  have "remove_find (regions t) base (base + sz) 0 (rgn_cnt t) = None"
  proof (cases "remove_find (regions t) base (base + sz) 0 (rgn_cnt t)")
    case (Some j)
    then have j: "j < rgn_cnt t" using remove_find_spec(1) by fastforce
    then have "region_ok (regions t ! j)" using good_ok [OF g, of j] len by (simp add: live_def)
    with remove_find_spec(1) [OF Some] contains_iff [of "regions t ! j" sz base] r(2) i j
    show ?thesis by (simp add: live_def)
  qed
  then show ?thesis using r by (simp add: do_memblock_remove_def)
qed


section \<open>The search for a free range\<close>

lemma align_down_mask: "k < 32 \<Longrightarrow> memblock_align_down x (2 ^ k) = mask_down x (2 ^ k)"
proof -
  assume "k < 32"
  then have "(2::int) ^ k \<le> 2 ^ 31" by (intro power_increasing) auto
  then have "u32 (2 ^ k - 1) = 2 ^ k - 1" by (intro u32_id) auto
  then show ?thesis by (simp add: memblock_align_down_def mask_down_def)
qed

lemma overlaps_scan_Some:
  "overlaps_scan rs base sz i k = Some j \<Longrightarrow>
   i \<le> j \<and> j < i + k \<and> memblock_addrs_overlap (u32 (rbase (rs ! j))) (u32 (rsize (rs ! j))) base sz"
  by (induction k arbitrary: i) (fastforce split: if_splits)+

lemma overlaps_scan_None:
  "overlaps_scan rs base sz i k = None \<Longrightarrow> i \<le> j \<Longrightarrow> j < i + k \<Longrightarrow>
   \<not> memblock_addrs_overlap (u32 (rbase (rs ! j))) (u32 (rsize (rs ! j))) base sz"
proof (induction k arbitrary: i)
  case (Suc k)
  then show ?case by (cases "i = j") (auto split: if_splits)
qed simp

lemma wf_live:
  assumes "mb_wf t"
  shows "length (live t) = rgn_cnt t" and "\<And>i. i < rgn_cnt t \<Longrightarrow> live t ! i = regions t ! i"
  using assms by (auto simp: live_def mb_wf_def)

text \<open>For a well-formed table the test of the code is overlap with the covered set.\<close>

lemma overlaps_region_spec:
  assumes wf: "mb_wf t" and b: "0 \<le> base" "0 < sz" "base + sz < 4294967296"
  shows "case memblock_overlaps_region t base sz of
      None \<Rightarrow> block base sz \<inter> covers t = {}
    | Some j \<Rightarrow> j < rgn_cnt t \<and> region_ok (regions t ! j) \<and> rgn_set (regions t ! j) \<subseteq> covers t \<and>
        rbase (regions t ! j) < base + sz \<and> base < rbase (regions t ! j) + rsize (regions t ! j)"
proof (rule mb_wf_cases [OF wf])
  assume d: "dummy t" "covers t = {}" "rbase (regions t ! 0) = 0"
  then have "memblock_overlaps_region t base sz = None"
    using b by (simp add: memblock_overlaps_region_def dummy_def memblock_addrs_overlap_def)
  with d show ?thesis by simp
next
  assume nd: "\<not> dummy t" and g: "good (live t)"
  have ok: "region_ok (regions t ! i)" if "i < rgn_cnt t" for i
    using good_ok [OF g, of i] wf_live [OF wf] that by simp
  have ov: "memblock_addrs_overlap (u32 (rbase (regions t ! i))) (u32 (rsize (regions t ! i))) base sz \<longleftrightarrow>
      rbase (regions t ! i) < base + sz \<and> base < rbase (regions t ! i) + rsize (regions t ! i)"
    if "i < rgn_cnt t" for i
    using region_okD [OF ok [OF that]] b by (simp add: memblock_addrs_overlap_def)
  show ?thesis
  proof (cases "memblock_overlaps_region t base sz")
    case None
    then have "\<not> (rbase (regions t ! i) < base + sz \<and> base < rbase (regions t ! i) + rsize (regions t ! i))"
      if "i < rgn_cnt t" for i
      using overlaps_scan_None [of "regions t" base sz 0 "rgn_cnt t" i] ov that
      by (simp add: memblock_overlaps_region_def)
    then have "block base sz \<inter> rgn_set (live t ! i) = {}" if "i < length (live t)" for i
      using that wf_live [OF wf] by (fastforce simp: rgn_set_def)
    then show ?thesis using None by (auto simp: covers_def area_nth disjoint_iff)
  next
    case (Some j)
    then have j: "j < rgn_cnt t"
      and o: "memblock_addrs_overlap (u32 (rbase (regions t ! j))) (u32 (rsize (regions t ! j))) base sz"
      using overlaps_scan_Some [of "regions t" base sz 0 "rgn_cnt t" j]
      by (simp_all add: memblock_overlaps_region_def)
    have "rgn_set (regions t ! j) \<subseteq> covers t"
      using j wf_live [OF wf] unfolding covers_def area_def by (metis UN_upper nth_mem)
    with Some j o ok ov show ?thesis by auto
  qed
qed

text \<open>A base the search may return: aligned, within \<open>[start, en)\<close>, nothing reserved in it.\<close>

definition free_base :: "int set \<Rightarrow> int \<Rightarrow> int \<Rightarrow> int \<Rightarrow> int \<Rightarrow> int \<Rightarrow> bool" where
  "free_base used start en sz align b \<longleftrightarrow>
     start \<le> b \<and> align dvd b \<and> b + sz \<le> en \<and> block b sz \<inter> used = {}"

text \<open>
  The loop: every iteration passes strictly below a reserved region it had not passed, so the
  iterations the model allows are enough, and no free base is skipped.
\<close>

definition top_free :: "(int \<Rightarrow> bool) \<Rightarrow> int \<Rightarrow> bool" where
  "top_free P x \<longleftrightarrow> (if x = 0 then (\<forall>b. \<not> P b) else P x \<and> (\<forall>b. P b \<longrightarrow> b \<le> x))"

lemma find_region_loop_spec:
  assumes wf: "mb_wf res" and sz: "0 < sz" and k: "k < 32" and en: "en < 4294967296" and st: "0 < start"
    and base: "0 \<le> base" "2 ^ k dvd base" "base + sz \<le> en"
    and fuel: "card {j. j < rgn_cnt res \<and> rbase (regions res ! j) < base + sz} < fuel"
    and all: "\<And>b. free_base (covers res) start en sz (2 ^ k) b \<Longrightarrow> b \<le> base"
  shows "\<exists>x. find_region_loop res start sz (2 ^ k) fuel base = Some x \<and>
     top_free (free_base (covers res) start en sz (2 ^ k)) x"
  using base fuel all
proof (induction fuel arbitrary: base)
  case 0
  then show ?case by simp
next
  case (Suc fuel)
  let ?P = "free_base (covers res) start en sz (2 ^ k)"
  note base = Suc.prems(1-3) and all = Suc.prems(5)
  have spec: "case memblock_overlaps_region res base sz of
      None \<Rightarrow> block base sz \<inter> covers res = {}
    | Some j \<Rightarrow> j < rgn_cnt res \<and> region_ok (regions res ! j) \<and> rgn_set (regions res ! j) \<subseteq> covers res \<and>
        rbase (regions res ! j) < base + sz \<and> base < rbase (regions res ! j) + rsize (regions res ! j)"
    using overlaps_region_spec [OF wf base(1) sz] base en by simp
  consider (low) "base < start" | (hit) j where "start \<le> base" "memblock_overlaps_region res base sz = Some j"
    | (ok) "start \<le> base" "memblock_overlaps_region res base sz = None"
    by (cases "memblock_overlaps_region res base sz") force+
  then show ?case
  proof cases
    case low
    then have "\<not> ?P b" for b using all [of b] by (auto simp: free_base_def)
    with low show ?thesis by (auto simp: MEMBLOCK_ERROR_def top_free_def)
  next
    case ok
    with spec base have "?P base" by (simp add: free_base_def)
    with ok all st show ?thesis by (auto simp: top_free_def)
  next
    case hit
    let ?rb = "rbase (regions res ! j)"
    from hit spec have j: "j < rgn_cnt res" "region_ok (regions res ! j)" "rgn_set (regions res ! j) \<subseteq> covers res"
      "?rb < base + sz" "base < ?rb + rsize (regions res ! j)" by simp_all
    note R = region_okD [OF j(2)]
    have below: "b + sz \<le> ?rb" if "?P b" for b
    proof -
      have "block b sz \<inter> rgn_set (regions res ! j) = {}" using that j(3) by (auto simp: free_base_def)
      then have "b + sz \<le> ?rb \<or> ?rb + rsize (regions res ! j) \<le> b"
        using sz R(2) by (simp add: rgn_set_def block_disjoint_iff)
      with all [OF that] j(5) show ?thesis by linarith
    qed
    show ?thesis
    proof (cases "?rb < sz")
      case True
      have "\<not> ?P b" for b using below [of b] True st by (auto simp: free_base_def)
      with True hit R show ?thesis by (auto simp: MEMBLOCK_ERROR_def top_free_def)
    next
      case False
      define base' where "base' = mask_down (?rb - sz) (2 ^ k)"
      have step: "find_region_loop res start sz (2 ^ k) (Suc fuel) base =
          find_region_loop res start sz (2 ^ k) fuel base'"
        using hit R False sz k by (simp add: base'_def Let_def align_down_mask)
      have le: "base' \<le> ?rb - sz" by (simp add: base'_def mask_down_le)
      have "{i. i < rgn_cnt res \<and> rbase (regions res ! i) < base' + sz}
          \<subset> {i. i < rgn_cnt res \<and> rbase (regions res ! i) < base + sz}"
        using le j(1,4) by (intro psubsetI) (auto simp: set_eq_iff intro!: exI [of _ j])
      then have "card {i. i < rgn_cnt res \<and> rbase (regions res ! i) < base' + sz}
          < card {i. i < rgn_cnt res \<and> rbase (regions res ! i) < base + sz}"
        by (intro psubset_card_mono) simp_all
      then have "card {i. i < rgn_cnt res \<and> rbase (regions res ! i) < base' + sz} < fuel"
        using Suc.prems(4) by linarith
      moreover have "b \<le> base'" if "?P b" for b
        using below [OF that] that unfolding base'_def
        by (intro mask_down_greatest) (auto simp: free_base_def)
      ultimately show ?thesis
        unfolding step using Suc.IH [of base'] le j(4) base False R
        by (simp add: base'_def mask_down_nonneg mask_down_dvd)
    qed
  qed
qed

lemma card_below: "card {j. j < (n::nat) \<and> P j} < Suc n"
proof -
  have "card {j. j < n \<and> P j} \<le> card {..<n}" by (intro card_mono) auto
  then show ?thesis by simp
qed

text \<open>The page at address 0 is never returned when the search starts at 0.\<close>

lemma find_region_spec:
  assumes wf: "mb_wf res" and sz: "0 < sz" and k: "k < 32" and en: "en < 4294967296" "0 \<le> start"
  shows "\<exists>x. memblock_find_region res start en sz (2 ^ k) = Some x \<and>
     top_free (free_base (covers res) (if start = 0 then 4096 else start) en sz (2 ^ k)) x"
proof (cases "en < sz")
  case True
  then show ?thesis using en
    by (auto simp: memblock_find_region_def top_free_def free_base_def MEMBLOCK_ERROR_def)
next
  case False
  let ?b = "mask_down (en - sz) (2 ^ k)" and ?s = "if start = 0 then 4096 else start"
  have u: "u32 (en - sz) = en - sz" using False sz en by simp
  have "\<exists>x. find_region_loop res ?s sz (2 ^ k) (Suc (rgn_cnt res)) ?b = Some x \<and>
     top_free (free_base (covers res) ?s en sz (2 ^ k)) x"
  proof (rule find_region_loop_spec [OF wf sz k en(1)])
    show "0 < ?s" using en(2) by simp
    show "0 \<le> ?b" using False by (simp add: mask_down_nonneg)
    show "2 ^ k dvd ?b" by (rule mask_down_dvd)
    show "?b + sz \<le> en" using mask_down_le [of "en - sz" k] by linarith
    show "b \<le> ?b" if "free_base (covers res) ?s en sz (2 ^ k) b" for b
      using that by (intro mask_down_greatest) (auto simp: free_base_def)
  qed (rule card_below)
  then show ?thesis
    using False u
    by (cases "start = 0") (simp_all add: memblock_find_region_def Let_def align_down_mask [OF k] del: find_region_loop.simps)
qed


text \<open>Bases inside one of the first \<open>n\<close> memory regions.\<close>

definition mem_base :: "memblock \<Rightarrow> nat \<Rightarrow> int \<Rightarrow> int \<Rightarrow> int \<Rightarrow> int \<Rightarrow> int \<Rightarrow> bool" where
  "mem_base mb n start en sz align b \<longleftrightarrow>
     (\<exists>j < n. block b sz \<subseteq> rgn_set (regions (memory mb) ! j)) \<and>
     free_base (covers (reserved mb)) start en sz align b"

text \<open>\<open>x\<close> is the highest such base; 0 says that there is none, the first page left aside.\<close>

definition top_base :: "(int \<Rightarrow> bool) \<Rightarrow> int \<Rightarrow> bool" where
  "top_base P x \<longleftrightarrow> (x \<noteq> 0 \<longrightarrow> P x) \<and> (\<forall>b \<ge> 4096. P b \<longrightarrow> x \<noteq> 0 \<and> b \<le> x)"

lemma block_subset_rgn:
  "0 < sz \<Longrightarrow> block b sz \<subseteq> rgn_set r \<longleftrightarrow> rbase r \<le> b \<and> b + sz \<le> rbase r + rsize r"
  by (auto simp: rgn_set_def block_def)

lemma find_base_loop_spec:
  assumes mem: "good (live (memory mb))" and n: "n \<le> length (live (memory mb))" and res: "mb_wf (reserved mb)"
    and sz: "0 < sz" and k: "k < 32" and en: "en < 4294967296" "0 \<le> start"
  shows "\<exists>x. find_base_loop mb sz (2 ^ k) start en n = Some x \<and>
     top_base (mem_base mb n start en sz (2 ^ k)) x"
  using n
proof (induction n)
  case 0
  then show ?case by (simp add: top_base_def mem_base_def MEMBLOCK_ERROR_def)
next
  case (Suc i)
  let ?rs = "regions (memory mb)" and ?used = "covers (reserved mb)" and ?a = "(2::int) ^ k"
  let ?P = "\<lambda>n. mem_base mb n start en sz ?a"
  have nth: "live (memory mb) ! j = ?rs ! j" if "j \<le> i" for j using Suc.prems that by (simp add: live_def)
  have R: "region_ok (?rs ! j)" if "j \<le> i" for j
    using good_ok [OF mem, of j] nth [OF that] Suc.prems that by simp
  note Ri = region_okD [OF R [OF order_refl]]
  have ord: "rbase (?rs ! j) + rsize (?rs ! j) \<le> rbase (?rs ! i)" if "j < i" for j
    using good_ord [OF mem that] nth [of j] nth [of i] Suc.prems that by simp
  have split: "?P (Suc i) b \<longleftrightarrow> ?P i b \<or> free_base ?used (max (rbase (?rs ! i)) start)
      (min (rbase (?rs ! i) + rsize (?rs ! i)) en) sz ?a b" for b
    using sz by (auto simp: mem_base_def less_Suc_eq block_subset_rgn free_base_def)
  let ?bot = "max (rbase (?rs ! i)) start" and ?top = "min (rbase (?rs ! i) + rsize (?rs ! i)) en"
  from Suc obtain y where y: "find_base_loop mb sz ?a start en i = Some y" "top_base (?P i) y" by auto
  have skip: ?case if "find_base_loop mb sz ?a start en (Suc i) = find_base_loop mb sz ?a start en i"
    and "\<And>b. b \<ge> 4096 \<Longrightarrow> \<not> free_base ?used ?bot ?top sz ?a b"
    using y that split by (auto simp: top_base_def)
  consider (small) "rsize (?rs ! i) < sz"
    | (low) "sz \<le> rsize (?rs ! i)" "rbase (?rs ! i) + rsize (?rs ! i) \<le> start"
    | (none) "sz \<le> rsize (?rs ! i)" "start < rbase (?rs ! i) + rsize (?rs ! i)" "?top \<le> ?bot"
    | (search) "sz \<le> rsize (?rs ! i)" "start < rbase (?rs ! i) + rsize (?rs ! i)" "?bot < ?top"
    by linarith
  then show ?case
  proof cases
    case small
    with Ri show ?thesis by (intro skip) (auto simp: free_base_def)
  next
    case low
    have "\<not> ?P (Suc i) b" for b
      using low(2) ord Ri(2) sz
      by (fastforce simp: mem_base_def less_Suc_eq block_subset_rgn free_base_def)
    with low Ri show ?thesis by (simp add: top_base_def MEMBLOCK_ERROR_def)
  next
    case none
    with Ri sz show ?thesis by (intro skip) (auto simp: free_base_def Let_def)
  next
    case search
    have t: "?top < 4294967296" "0 \<le> ?bot" using en by auto
    obtain x where x: "memblock_find_region (reserved mb) ?bot ?top sz ?a = Some x"
      "top_free (free_base ?used (if ?bot = 0 then 4096 else ?bot) ?top sz ?a) x"
      using find_region_spec [OF res sz k t] by blast
    have step: "find_base_loop mb sz ?a start en (Suc i) =
        (if x = 0 then find_base_loop mb sz ?a start en i else Some x)"
      using search x(1) Ri by (simp add: Let_def MEMBLOCK_ERROR_def not_le [symmetric] del: max_less_iff_conj min_less_iff_conj not_le)
    have weak: "free_base ?used (if ?bot = 0 then 4096 else ?bot) ?top sz ?a b \<longleftrightarrow>
        free_base ?used ?bot ?top sz ?a b \<and> (?bot = 0 \<longrightarrow> 4096 \<le> b)" for b
      by (auto simp: free_base_def)
    show ?thesis
    proof (cases "x = 0")
      case True
      with x(2) weak step show ?thesis by (intro skip) (auto simp: top_free_def)
    next
      case False
      have fx: "free_base ?used ?bot ?top sz ?a x" and top: "\<And>b. free_base ?used ?bot ?top sz ?a b \<Longrightarrow> 4096 \<le> b \<Longrightarrow> b \<le> x"
        using x(2) False weak unfolding top_free_def by auto
      have "b \<le> x" if "?P i b" for b
      proof -
        from that obtain j where "j < i" "block b sz \<subseteq> rgn_set (?rs ! j)" by (auto simp: mem_base_def)
        then have "b + sz \<le> rbase (?rs ! i)" using ord sz by (fastforce simp: block_subset_rgn)
        with fx sz show ?thesis by (auto simp: free_base_def)
      qed
      with fx top split step False show ?thesis by (auto simp: top_base_def)
    qed
  qed
qed

lemma find_base_spec:
  assumes mem: "mb_wf (memory mb)" and res: "mb_wf (reserved mb)"
    and sz: "0 < sz" and k: "k < 32" and en: "en < 4294967296" "0 \<le> start"
  shows "\<exists>x. find_base_loop mb sz (2 ^ k) start en (rgn_cnt (memory mb)) = Some x \<and>
     top_base (mem_base mb (rgn_cnt (memory mb)) start en sz (2 ^ k)) x"
proof (rule mb_wf_cases [OF mem])
  assume d: "dummy (memory mb)"
  then have "rgn_set (regions (memory mb) ! 0) = {}" by (simp add: dummy_def rgn_set_def)
  then have "\<not> mem_base mb 1 start en sz (2 ^ k) b" for b using sz by (auto simp: mem_base_def)
  with d sz show ?thesis by (auto simp: dummy_def MEMBLOCK_ERROR_def top_base_def)
next
  assume "good (live (memory mb))"
  with find_base_loop_spec [OF this _ res sz k en, of "rgn_cnt (memory mb)"] wf_live(1) [OF mem] show ?thesis by simp
qed


section \<open>Allocation\<close>

lemma align_up_mask:
  assumes "0 < sz" "sz + 2 ^ k \<le> 4294967296" "k < 32"
  shows "memblock_align_up sz (2 ^ k) = mask_down (sz + 2 ^ k - 1) (2 ^ k)"
    and "sz \<le> memblock_align_up sz (2 ^ k)" and "memblock_align_up sz (2 ^ k) < 4294967296"
proof -
  have "(1::int) \<le> 2 ^ k" "(2::int) ^ k \<le> 2 ^ 31" using assms(3) power_increasing [of k 31 "2::int"] by auto
  then have "u32 (2 ^ k - 1) = 2 ^ k - 1" "u32 (sz + (2 ^ k - 1)) = sz + 2 ^ k - 1"
    using assms by (auto intro!: u32_id)
  then show e: "memblock_align_up sz (2 ^ k) = mask_down (sz + 2 ^ k - 1) (2 ^ k)"
    by (simp add: memblock_align_up_def mask_down_def)
  show "sz \<le> memblock_align_up sz (2 ^ k)" "memblock_align_up sz (2 ^ k) < 4294967296"
    using mask_down_gt [of "sz + 2 ^ k - 1" k] mask_down_le [of "sz + 2 ^ k - 1" k] assms(2)
    by (simp_all add: e)
qed

text \<open>The upper end of the search: the argument, or the current limit for the value 0.\<close>

definition alloc_end :: "memblock \<Rightarrow> int \<Rightarrow> int" where
  "alloc_end mb mx = (if mx = 0 then u32 (current_limit mb) else mx)"

lemma alloc_base_lemma:
  assumes mem: "mb_wf (memory mb)" and res: "mb_wf (reserved mb)"
    and room: "0 < rgn_cnt (reserved mb)" "Suc (rgn_cnt (reserved mb)) < rgn_max (reserved mb)"
    and sz: "0 < sz" "sz + 2 ^ k \<le> 4294967296" and k: "k < 32" and mx: "mx < 4294967296"
  defines "n \<equiv> memblock_align_up sz (2 ^ k)"
    and "P \<equiv> mem_base mb (rgn_cnt (memory mb)) 0 (alloc_end mb mx) (memblock_align_up sz (2 ^ k)) (2 ^ k)"
  shows "\<exists>x mb'. memblock_alloc_base mb sz (2 ^ k) mx = Some (x, mb') \<and> top_base P x \<and>
    memory mb' = memory mb \<and> current_limit mb' = current_limit mb \<and>
    (if x = 0 then mb' = mb
     else mb_wf (reserved mb') \<and> 0 < rgn_cnt (reserved mb') \<and>
          rgn_cnt (reserved mb') \<le> Suc (rgn_cnt (reserved mb)) \<and>
          rgn_max (reserved mb') = rgn_max (reserved mb) \<and>
          covers (reserved mb') = covers (reserved mb) \<union> block x n)"
proof -
  note al = align_up_mask [OF sz k, folded n_def]
  have n: "0 < n" using al(2) sz(1) by simp
  have ae: "alloc_end mb mx < 4294967296" using mx by (simp add: alloc_end_def u32_def)
  obtain x where x: "find_base_loop mb n (2 ^ k) 0 (alloc_end mb mx) (rgn_cnt (memory mb)) = Some x" "top_base P x"
    using find_base_spec [OF mem res n k ae, of 0] unfolding P_def n_def by auto
  have fb: "memblock_find_base mb n (2 ^ k) 0 mx = Some x"
    using x(1) by (simp add: memblock_find_base_def alloc_end_def MEMBLOCK_ALLOC_ACCESSIBLE_def)
  note un = memblock_alloc_base_def do_memblock_alloc_base_def n_def [symmetric] Let_def fb MEMBLOCK_ERROR_def
  show ?thesis
  proof (cases "x = 0")
    case True
    then show ?thesis using x(2) by (simp add: un)
  next
    case False
    then have P: "P x" using x(2) by (simp add: top_base_def)
    obtain r t where add: "memblock_add_region False (reserved mb) x n = (r, t)" by fastforce
    have b: "0 \<le> x" "x + n < 4294967296" "block x n \<inter> covers (reserved mb) = {}"
      using P ae unfolding P_def n_def by (auto simp: mem_base_def free_base_def)
    show ?thesis
      using memblock_add_region_lemma [OF res room b(1) n b(2,3) add] False x(2) add by (simp add: un)
  qed
qed


section \<open>Lookup\<close>

lemma search_loop_spec:
  assumes "good rs" "length rs = n" "\<And>j. j < n \<Longrightarrow> xs ! j = rs ! j"
    and "left < right" "right \<le> n"
    and "\<And>j. j < left \<Longrightarrow> rbase (rs ! j) + rsize (rs ! j) \<le> addr"
    and "\<And>j. right \<le> j \<Longrightarrow> j < n \<Longrightarrow> addr < rbase (rs ! j)"
  shows "case search_loop xs addr left right of
      Some i \<Rightarrow> i < n \<and> addr \<in> rgn_set (rs ! i) | None \<Rightarrow> addr \<notin> area rs"
  using assms
proof (induction xs addr left right rule: search_loop.induct)
  case (1 xs addr left right)
  define mid where "mid = (right + left) div 2"
  have mid: "left \<le> mid" "mid < right" "mid < n" "xs ! mid = rs ! mid"
    using 1 by (auto simp: mid_def)
  note R = region_okD [OF good_ok [OF 1(3)]]
  have Rm: "0 < rsize (rs ! mid)" "u64 (rbase (rs ! mid) + rsize (rs ! mid)) = rbase (rs ! mid) + rsize (rs ! mid)"
    using R [of mid] mid 1(4) by auto
  have mono: "rbase (rs ! i) \<le> rbase (rs ! j)" if "i \<le> j" "j < n" for i j
    using good_ord [OF 1(3), of i j] R(2) [of i] that 1(4) by (cases "i = j") force+
  have mono2: "rbase (rs ! i) + rsize (rs ! i) \<le> rbase (rs ! j) + rsize (rs ! j)" if "i \<le> j" "j < n" for i j
    using good_ord [OF 1(3), of i j] R(2) [of j] that 1(4) by (cases "i = j") force+
  have hi: "addr < rbase (rs ! j)" if "addr < rbase (rs ! mid)" "mid \<le> j" "j < n" for j
    using mono [of mid j] that by simp
  have lo: "rbase (rs ! j) + rsize (rs ! j) \<le> addr" if "rbase (rs ! mid) + rsize (rs ! mid) \<le> addr" "j < Suc mid" for j
    using mono2 [of j mid] that mid by simp
  have none: "addr \<notin> area rs" if "\<And>j. j < n \<Longrightarrow> addr < rbase (rs ! j) \<or> rbase (rs ! j) + rsize (rs ! j) \<le> addr"
    using that 1(4) by (fastforce simp: area_nth rgn_set_def)
  note step = search_loop.simps [of xs addr left right, folded mid_def, unfolded Let_def mid(4) Rm(2)]
  consider (down) "addr < rbase (rs ! mid)" "left < mid" | (nodown) "addr < rbase (rs ! mid)" "\<not> left < mid"
    | (up) "rbase (rs ! mid) + rsize (rs ! mid) \<le> addr" "mid + 1 < right"
    | (noup) "rbase (rs ! mid) + rsize (rs ! mid) \<le> addr" "\<not> mid + 1 < right"
    | (found) "rbase (rs ! mid) \<le> addr" "addr < rbase (rs ! mid) + rsize (rs ! mid)" by linarith
  then show ?case
  proof cases
    case down
    have "case search_loop xs addr left mid of Some i \<Rightarrow> i < n \<and> addr \<in> rgn_set (rs ! i) | None \<Rightarrow> addr \<notin> area rs"
      using 1(1) [of mid] down 1(3-5,8) hi mid by (simp add: mid_def)
    with down show ?thesis by (simp add: step)
  next
    case nodown
    then have "addr \<notin> area rs" using 1(8) hi mid by (intro none) (meson le_less_linear order_trans linorder_not_le)
    with nodown show ?thesis by (simp add: step)
  next
    case up
    have "case search_loop xs addr (mid + 1) right of Some i \<Rightarrow> i < n \<and> addr \<in> rgn_set (rs ! i) | None \<Rightarrow> addr \<notin> area rs"
      using 1(2) [of mid] up 1(3-5,7,9) lo mid Rm by (simp add: mid_def)
    with up Rm show ?thesis by (simp add: step)
  next
    case noup
    have "addr \<notin> area rs"
    proof (rule none)
      fix j assume "j < n"
      then show "addr < rbase (rs ! j) \<or> rbase (rs ! j) + rsize (rs ! j) \<le> addr"
        using lo [of j] 1(9) [of j] noup by (cases "j < Suc mid") auto
    qed
    with noup Rm show ?thesis by (simp add: step)
  next
    case found
    with Rm mid show ?thesis by (simp add: step rgn_set_def)
  qed
qed

lemma search_lemma:
  assumes wf: "mb_wf t" and cnt: "0 < rgn_cnt t" and a: "0 \<le> addr"
  shows "memblock_search t addr = Some i \<longleftrightarrow> i < rgn_cnt t \<and> addr \<in> rgn_set (live t ! i)"
    and "memblock_search t addr = None \<longleftrightarrow> addr \<notin> covers t"
proof -
  have "case memblock_search t addr of Some i \<Rightarrow> i < rgn_cnt t \<and> addr \<in> rgn_set (live t ! i)
    | None \<Rightarrow> addr \<notin> covers t"
  proof (rule mb_wf_cases [OF wf])
    assume d: "dummy t" "covers t = {}" "rbase (regions t ! 0) = 0"
    then show ?thesis using a by (simp add: memblock_search_def search_loop.simps dummy_def)
  next
    assume g: "good (live t)"
    show ?thesis unfolding memblock_search_def covers_def
      using wf_live [OF wf] cnt by (intro search_loop_spec [OF g]) auto
  qed
  note spec = this
  have dis: "i = j" if "i < rgn_cnt t" "j < rgn_cnt t" "addr \<in> rgn_set (live t ! i)" "addr \<in> rgn_set (live t ! j)" for i j
  proof (rule mb_wf_cases [OF wf])
    assume "dummy t" then show "i = j" using that by (simp add: dummy_def)
  next
    assume "good (live t)"
    from good_disjoint [OF this, of i j] that wf_live(1) [OF wf] show "i = j" by auto
  qed
  have cov: "addr \<in> covers t \<longleftrightarrow> (\<exists>i < rgn_cnt t. addr \<in> rgn_set (live t ! i))"
    using wf_live(1) [OF wf] by (simp add: covers_def area_nth)
  show "memblock_search t addr = Some i \<longleftrightarrow> i < rgn_cnt t \<and> addr \<in> rgn_set (live t ! i)"
    "memblock_search t addr = None \<longleftrightarrow> addr \<notin> covers t"
    using spec dis cov by (auto split: option.splits)
qed


section \<open>Properties\<close>

text \<open>
  Initialisation. From zeroed static arrays \<open>memblock_init\<close> sets up two well-formed tables that
  cover nothing, with the limit at the top of the address space.
\<close>

theorem memblock_init_wf:
  assumes "length mi = 129" "length ri = 129"
    and "\<forall>r \<in> set mi \<union> set ri. r = \<lparr>rbase = 0, rsize = 0\<rparr>"
    and "memblock_init mi ri (False, mb) = (d, mb')"
  shows "d \<and> mb_wf (memory mb') \<and> mb_wf (reserved mb') \<and> covers (memory mb') = {} \<and>
    covers (reserved mb') = {} \<and> current_limit mb' = 4294967295"
proof -
  have z: "mi ! 0 = \<lparr>rbase = 0, rsize = 0\<rparr>" "ri ! 0 = \<lparr>rbase = 0, rsize = 0\<rparr>"
    using assms(1-3) nth_mem [of 0 mi] nth_mem [of 0 ri] by auto
  have c: "covers t = {}" if "dummy t" "0 < length (regions t)" for t
    using that by (cases "regions t") (auto simp: covers_def live_def dummy_def rgn_set_def)
  have "memblock_init mi ri (False, mb) = (d, mb')" by (fact assms(4))
  then have "d" "dummy (memory mb')" "dummy (reserved mb')" "mb_wf (memory mb')" "mb_wf (reserved mb')"
    "0 < length (regions (memory mb'))" "0 < length (regions (reserved mb'))"
    "current_limit mb' = 4294967295"
    using assms(1,2) z
    by (auto simp: memblock_init_def Let_def INIT_MEMBLOCK_REGIONS_def dummy_def mb_wf_def nth_list_update
        MEMBLOCK_ALLOC_ANYWHERE_def u32_def)
  with c [of "memory mb'"] c [of "reserved mb'"] show ?thesis by blast
qed

theorem memblock_init_wf_witness:
  "mb_wf (reserved (snd (memblock_init (replicate 129 \<lparr>rbase = 0, rsize = 0\<rparr>)
     (replicate 129 \<lparr>rbase = 0, rsize = 0\<rparr>)
     (False, \<lparr>current_limit = 0, memory_size = 0, memory = undefined, reserved = undefined\<rparr>))))"
  using memblock_init_wf [of "replicate 129 \<lparr>rbase = 0, rsize = 0\<rparr>" "replicate 129 \<lparr>rbase = 0, rsize = 0\<rparr>",
      OF _ _ _ prod.collapse [symmetric]] by simp

definition mb_room :: "nat \<Rightarrow> memblock \<Rightarrow> bool" where
  "mb_room k mb \<longleftrightarrow> mb_wf (memory mb) \<and> mb_wf (reserved mb) \<and> 0 < rgn_cnt (reserved mb) \<and>
     rgn_cnt (reserved mb) + k < rgn_max (reserved mb)"

definition mb_avail :: "memblock \<Rightarrow> int set" where
  "mb_avail mb = covers (memory mb) - covers (reserved mb)"

definition mb_alloc :: "nat \<Rightarrow> memblock \<Rightarrow> int \<Rightarrow> (int \<times> memblock) option" where
  "mb_alloc k mb n = (case memblock_alloc mb n (2 ^ k) of
     None \<Rightarrow> None | Some (b, mb') \<Rightarrow> if b = 0 then None else Some (b, mb'))"

definition mb_req :: "nat \<Rightarrow> int \<Rightarrow> bool" where
  "mb_req k n \<longleftrightarrow> k < 32 \<and> 0 < n \<and> n + 2 ^ k \<le> 4294967296"

lemma mem_base_avail:
  assumes "mb_wf (memory mb)" "mem_base mb (rgn_cnt (memory mb)) start en sz a b"
  shows "block b sz \<subseteq> mb_avail mb"
proof -
  obtain j where j: "j < rgn_cnt (memory mb)" "block b sz \<subseteq> rgn_set (regions (memory mb) ! j)"
    using assms(2) by (auto simp: mem_base_def)
  then have "rgn_set (regions (memory mb) ! j) \<subseteq> covers (memory mb)"
    using wf_live [OF assms(1)] unfolding covers_def area_def by (metis UN_upper nth_mem)
  then show ?thesis using j assms(2) unfolding mb_avail_def mem_base_def free_base_def by blast
qed

lemma mb_alloc_law:
  assumes i: "mb_room (Suc k) mb" and n: "mb_req a n" and al: "mb_alloc a mb n = Some (b, mb')"
  shows "mb_room k mb' \<and> block b n \<subseteq> mb_avail mb \<and> mb_avail mb' \<subseteq> mb_avail mb - block b n"
proof -
  have mem: "mb_wf (memory mb)" and res: "mb_wf (reserved mb)" and room: "0 < rgn_cnt (reserved mb)"
    "Suc (rgn_cnt (reserved mb)) < rgn_max (reserved mb)" using i by (auto simp: mb_room_def)
  have a: "a < 32" "0 < n" "n + 2 ^ a \<le> 4294967296" using n by (auto simp: mb_req_def)
  have b: "memblock_alloc_base mb n (2 ^ a) 0 = Some (b, mb')" "b \<noteq> 0"
    using al by (auto simp: mb_alloc_def memblock_alloc_def MEMBLOCK_ALLOC_ACCESSIBLE_def split: option.splits if_splits)
  note L = alloc_base_lemma [OF mem res room a(2,3,1), of 0]
  have up: "n \<le> memblock_align_up n (2 ^ a)" by (rule align_up_mask(2) [OF a(2,3,1)])
  have P: "mem_base mb (rgn_cnt (memory mb)) 0 (alloc_end mb 0) (memblock_align_up n (2 ^ a)) (2 ^ a) b"
    using L b by (auto simp: top_base_def)
  have sub: "block b n \<subseteq> block b (memblock_align_up n (2 ^ a))" using up by auto
  have "mb_room k mb' \<and> mb_avail mb' = mb_avail mb - block b (memblock_align_up n (2 ^ a))"
    using L b i unfolding mb_room_def mb_avail_def by auto
  with mem_base_avail [OF mem P] sub show ?thesis by blast
qed

interpretation mb: range_allocator mb_room mb_avail "mb_req a" "mb_alloc a" for a
proof
  show "mb_room k mb" if "mb_room (Suc k) mb" for k mb using that by (auto simp: mb_room_def)
qed (use mb_alloc_law in blast)+

text \<open>
  C26: Allocations never overlap. Whatever sequence of sizes is requested, as long as the reserved
  table has room, the granted ranges lie in RAM that was not reserved, no two of them share a byte,
  and none of their bytes is available afterwards.
\<close>

theorem memblock_allocs_disjoint:
  assumes "mb_room (length ns) mb" and "\<forall>n \<in> set ns. mb_req k n"
    and "alloc_many (mb_alloc k) mb ns = (bs, mb')"
  shows "separate bs \<and> granted bs \<subseteq> mb_avail mb \<and> mb_avail mb' \<subseteq> mb_avail mb - granted bs"
  using mb.alloc_many_separate [OF assms] by blast

definition ex_table :: "memblock_region list \<Rightarrow> memblock_type" where
  "ex_table rs = \<lparr>rgn_cnt = length rs, rgn_max = length rs + 4,
     regions = rs @ replicate 6 (mk_region 0 0)\<rparr>"

definition ex_mb :: memblock where
  "ex_mb = \<lparr>current_limit = 4294967295, memory_size = 0, memory = ex_table [mk_region 0x50000000 0x4000000],
     reserved = ex_table [mk_region 0x50004000 0x4000, mk_region 0x53ff0000 0x8000]\<rparr>"

lemma ex_wf: "mb_wf (ex_table [mk_region 0x50000000 0x4000000])"
  "mb_wf (ex_table [mk_region 0x50004000 0x4000, mk_region 0x53ff0000 0x8000])"
  by (simp_all add: mb_wf_def ex_table_def live_def good_def region_ok_def mk_region_def)


lemma ex_room: "mb_room 3 ex_mb"
  using ex_wf by (simp add: mb_room_def ex_mb_def) (simp add: ex_table_def)

theorem memblock_allocs_disjoint_witness:
  "separate [(0x53ffe000 + 0x1000, 0x1000), (0x53ffc000 + 0x1000, 0x2000)] \<and>
   granted [(0x53fff000, 0x1000), (0x53ffd000, 0x2000)] \<subseteq> mb_avail ex_mb"
proof -
  have "fst (alloc_many (mb_alloc 12) ex_mb [0x1000, 0x2000]) = [(0x53fff000, 0x1000), (0x53ffd000, 0x2000)]"
    by code_simp
  then have "alloc_many (mb_alloc 12) ex_mb [0x1000, 0x2000] =
      ([(0x53fff000, 0x1000), (0x53ffd000, 0x2000)], snd (alloc_many (mb_alloc 12) ex_mb [0x1000, 0x2000]))"
    by (metis prod.collapse)
  from memblock_allocs_disjoint [OF _ _ this] ex_room show ?thesis
    by (simp add: mb_room_def mb_req_def)
qed

text \<open>
  C25: One allocation, completely. With room in the reserved table, \<open>memblock_alloc_base\<close> terminates
  and returns the highest base that is aligned, lies with the rounded size in one memory region below
  the limit and touches nothing reserved; exactly that range becomes reserved. It returns 0, with no
  change, only if there is no such base above the first page.
\<close>

theorem memblock_alloc_base_highest:
  assumes "mb_room 1 mb" and "mb_req k sz" and "mx < 4294967296"
  defines "n \<equiv> memblock_align_up sz (2 ^ k)"
    and "P \<equiv> mem_base mb (rgn_cnt (memory mb)) 0 (alloc_end mb mx) (memblock_align_up sz (2 ^ k)) (2 ^ k)"
  shows "\<exists>x mb'. memblock_alloc_base mb sz (2 ^ k) mx = Some (x, mb') \<and> memory mb' = memory mb \<and>
    (if x = 0 then mb' = mb \<and> (\<forall>b \<ge> 4096. \<not> P b)
     else P x \<and> (\<forall>b \<ge> 4096. P b \<longrightarrow> b \<le> x) \<and>
          mb_wf (reserved mb') \<and> covers (reserved mb') = covers (reserved mb) \<union> block x n)"
proof -
  have "mb_wf (memory mb)" "mb_wf (reserved mb)" "0 < rgn_cnt (reserved mb)"
    "Suc (rgn_cnt (reserved mb)) < rgn_max (reserved mb)" "0 < sz" "sz + 2 ^ k \<le> 4294967296" "k < 32"
    using assms(1,2) by (simp_all add: mb_room_def mb_req_def)
  from alloc_base_lemma [OF this assms(3)] show ?thesis
    unfolding n_def P_def top_base_def by (elim exE conjE) (auto split: if_splits)
qed

theorem memblock_alloc_base_highest_witness:
  "\<exists>x mb'. memblock_alloc_base ex_mb 0x1800 (2 ^ 12) 0 = Some (x, mb') \<and> x = 0x53ffe000 \<and>
    covers (reserved mb') = covers (reserved ex_mb) \<union> block 0x53ffe000 0x2000"
proof -
  have r: "mb_room 1 ex_mb" using ex_room by (simp add: mb_room_def)
  have "fst (the (memblock_alloc_base ex_mb 0x1800 (2 ^ 12) 0)) = 0x53ffe000" by code_simp
  moreover have "memblock_align_up 0x1800 (2 ^ 12) = 0x2000" by code_simp
  ultimately show ?thesis
    using memblock_alloc_base_highest [where mb = ex_mb and k = 12 and sz = "0x1800" and mx = 0] r by (auto simp: mb_req_def)
qed

text \<open>
  C27: Reserving a range that nothing covers succeeds and adds exactly that range, whether the code
  grows a neighbour, closes a hole between two or inserts an entry; the table stays sorted and
  disjoint.
\<close>

theorem memblock_reserve_adds:
  assumes "mb_room 1 mb" and "0 \<le> base" "0 < sz" "base + sz < 4294967296"
    and "block base sz \<inter> covers (reserved mb) = {}"
    and "memblock_reserve mb base sz = (ret, mb')"
  shows "0 \<le> ret \<and> mb_room 0 mb' \<and> memory mb' = memory mb \<and>
    covers (reserved mb') = covers (reserved mb) \<union> block base sz"
proof -
  obtain t where t: "memblock_add_region False (reserved mb) base sz = (ret, t)" "mb' = mb\<lparr>reserved := t\<rparr>"
    using assms(6) by (auto simp: memblock_reserve_def split: prod.splits)
  with memblock_add_region_lemma [OF _ _ _ assms(2-5) t(1)] assms(1) show ?thesis
    by (auto simp: mb_room_def)
qed

theorem memblock_reserve_adds_witness:
  "covers (reserved (snd (memblock_reserve ex_mb 0x50008000 0x1000))) =
     covers (reserved ex_mb) \<union> block 0x50008000 0x1000"
proof -
  have r: "mb_room 1 ex_mb" using ex_room by (simp add: mb_room_def)
  have "covers (reserved ex_mb) = block 0x50004000 0x4000 \<union> block 0x53ff0000 0x8000"
    by (simp add: covers_def live_def ex_mb_def ex_table_def rgn_set_def mk_region_def)
  then have "block 0x50008000 0x1000 \<inter> covers (reserved ex_mb) = {}"
    by (auto simp del: block_eq_empty)
  from memblock_reserve_adds [OF r _ _ _ this prod.collapse [symmetric]] show ?thesis by simp
qed

text \<open>
  C28: Freeing a range inside one reserved region removes exactly that range, whether the region
  disappears, is trimmed at one end or is split in two.
\<close>

theorem memblock_free_removes:
  assumes "mb_room 1 mb" and "0 \<le> base" "0 < sz" "base + sz < 4294967296"
    and "q \<in> set (live (reserved mb))" "block base sz \<subseteq> rgn_set q"
    and "memblock_free mb base sz = (ret, mb')"
  shows "0 \<le> ret \<and> mb_wf (reserved mb') \<and> memory mb' = memory mb \<and>
    covers (reserved mb') = covers (reserved mb) - block base sz"
proof -
  obtain t where t: "do_memblock_remove False (reserved mb) base sz = (ret, t)" "mb' = mb\<lparr>reserved := t\<rparr>"
    using assms(7) by (auto simp: memblock_free_def split: prod.splits)
  have wf: "mb_wf (reserved mb)" "Suc (rgn_cnt (reserved mb)) < rgn_max (reserved mb)"
    using assms(1) by (auto simp: mb_room_def)
  obtain i where "i < rgn_cnt (reserved mb)" "live (reserved mb) ! i = q"
    using assms(5) wf_live(1) [OF wf(1)] by (metis in_set_conv_nth)
  with memblock_remove_lemma [OF wf assms(2-4) _ _ t(1), of i] assms(6) t(2) show ?thesis by auto
qed

theorem memblock_free_removes_witness:
  "covers (reserved (snd (memblock_free ex_mb 0x50005000 0x1000))) =
     covers (reserved ex_mb) - block 0x50005000 0x1000"
proof -
  have r: "mb_room 1 ex_mb" using ex_room by (simp add: mb_room_def)
  have q: "mk_region 0x50004000 0x4000 \<in> set (live (reserved ex_mb))"
    by (simp add: live_def ex_mb_def ex_table_def)
  have "block 0x50005000 0x1000 \<subseteq> rgn_set (mk_region 0x50004000 0x4000)"
    by (auto simp: rgn_set_def mk_region_def)
  from memblock_free_removes [OF r _ _ _ q this prod.collapse [symmetric]] show ?thesis by simp
qed

text \<open>
  Reserving a range and freeing it again gives back the covered set there was before, although
  the reservation may have merged the range with its neighbours.
\<close>

theorem memblock_reserve_free:
  assumes "mb_room 2 mb" and "0 \<le> base" "0 < sz" "base + sz < 4294967296"
    and "block base sz \<inter> covers (reserved mb) = {}"
    and "memblock_reserve mb base sz = (r1, mb1)" "memblock_free mb1 base sz = (r2, mb2)"
  shows "0 \<le> r1 \<and> 0 \<le> r2 \<and> mb_wf (reserved mb2) \<and> covers (reserved mb2) = covers (reserved mb)"
proof -
  obtain t where t: "memblock_add_region False (reserved mb) base sz = (r1, t)" "mb1 = mb\<lparr>reserved := t\<rparr>"
    using assms(6) by (auto simp: memblock_reserve_def split: prod.splits)
  obtain u where u: "do_memblock_remove False t base sz = (r2, u)" "mb2 = mb1\<lparr>reserved := u\<rparr>"
    using assms(7) t by (auto simp: memblock_free_def split: prod.splits)
  have A: "0 \<le> r1 \<and> mb_wf t \<and> 0 < rgn_cnt t \<and> rgn_cnt t \<le> Suc (rgn_cnt (reserved mb)) \<and>
      rgn_max t = rgn_max (reserved mb) \<and> covers t = covers (reserved mb) \<union> block base sz \<and>
      (\<exists>q \<in> set (live t). block base sz \<subseteq> rgn_set q)"
    using assms(1) by (intro memblock_add_region_lemma [OF _ _ _ assms(2-5) t(1)]) (auto simp: mb_room_def)
  then obtain i where i: "i < rgn_cnt t" "block base sz \<subseteq> rgn_set (live t ! i)"
    using wf_live(1) [of t] by (metis in_set_conv_nth)
  have wf: "mb_wf t" "Suc (rgn_cnt t) < rgn_max t" using A assms(1) by (auto simp: mb_room_def)
  have "0 \<le> r2 \<and> mb_wf u \<and> rgn_max u = rgn_max t \<and> covers u = covers t - block base sz"
    by (rule memblock_remove_lemma [OF wf assms(2-4) i u(1)])
  with A assms(5) t u show ?thesis by auto
qed

theorem memblock_reserve_free_witness:
  "covers (reserved (snd (memblock_free (snd (memblock_reserve ex_mb 0x50008000 0x1000)) 0x50008000 0x1000))) =
     covers (reserved ex_mb)"
proof -
  have r: "mb_room 2 ex_mb" using ex_room by (simp add: mb_room_def)
  have "covers (reserved ex_mb) = block 0x50004000 0x4000 \<union> block 0x53ff0000 0x8000"
    by (simp add: covers_def live_def ex_mb_def ex_table_def rgn_set_def mk_region_def)
  then have "block 0x50008000 0x1000 \<inter> covers (reserved ex_mb) = {}"
    by (auto simp del: block_eq_empty)
  from memblock_reserve_free [OF r _ _ _ this prod.collapse [symmetric] prod.collapse [symmetric]]
  show ?thesis by simp
qed

text \<open>
  The binary search finds the region of an address if there is one, and
  \<open>memblock_is_memory\<close> decides whether an address is RAM.
\<close>

theorem memblock_search_correct:
  assumes "mb_wf t" "0 < rgn_cnt t" "0 \<le> addr"
  shows "(memblock_search t addr = Some i \<longleftrightarrow> i < rgn_cnt t \<and> addr \<in> rgn_set (live t ! i)) \<and>
    (memblock_search t addr = None \<longleftrightarrow> addr \<notin> covers t)"
  using search_lemma [OF assms] by blast+

theorem memblock_search_correct_witness:
  "memblock_search (reserved ex_mb) 0x53ff1234 = Some 1"
  using memblock_search_correct [where t = "reserved ex_mb" and addr = "0x53ff1234" and i = 1] ex_wf(2)
  by (simp add: ex_mb_def) (simp add: ex_table_def live_def rgn_set_def mk_region_def)

lemma last_disjoint:
  assumes "good xs" "xs \<noteq> []" "q \<in> set (butlast xs)"
  shows "rgn_set (last xs) \<inter> rgn_set q = {}"
proof -
  have "good (butlast xs @ [last xs])" using assms(1,2) by simp
  then have "rbase q + rsize q \<le> rbase (last xs)" using assms(3) unfolding good_def sorted_wrt_append by simp
  then show ?thesis by (auto simp: rgn_set_def)
qed

text \<open>
  The failure path loses a region. When the table has one free entry below its limit and the new
  range touches no region and lies below the highest one, \<open>memblock_add_region\<close> reports failure, but
  what its "undo" drops is the highest region: the new range stays covered and the other is gone.
\<close>

theorem memblock_add_region_full:
  assumes wf: "mb_wf t" "good (live t)" and cnt: "0 < rgn_cnt t" "Suc (rgn_cnt t) = rgn_max t"
    and r: "0 \<le> base" "0 < sz" "base + sz < 4294967296"
    and dis: "block base sz \<inter> covers t = {}"
    and apart: "\<forall>q \<in> set (live t). base + sz \<noteq> rbase q \<and> rbase q + rsize q \<noteq> base"
    and low: "base < rbase (last (live t))"
    and res: "memblock_add_region m t base sz = (ret, t')"
  shows "ret = - 1 \<and> block base sz \<subseteq> covers t' \<and> rgn_set (last (live t)) \<inter> covers t' = {}"
proof -
  let ?n = "rgn_cnt t" and ?rs = "regions t" and ?xs = "live t" and ?r = "mk_region base sz"
  have lens: "?n < length ?rs" "rgn_max t \<le> 4294967296" using wf by (auto simp: mb_wf_def)
  have len: "length ?xs = ?n" and nth: "\<And>j. j < ?n \<Longrightarrow> ?xs ! j = ?rs ! j" using wf_live [OF wf(1)] by auto
  have nd: "\<not> (?n = 1 \<and> rsize (?rs ! 0) = 0)"
    using good_ok [OF wf(2), of 0] nth [of 0] len cnt(1) by (auto simp: region_ok_def)
  have u: "u64 (int ?n - 1) = int ?n - 1" using cnt lens by simp
  have not_grow: "\<not> grows base sz (?rs ! j) r'" if "j < ?n" for j r'
    using apart nth [OF that] that len nth_mem [of j ?xs] by (auto simp: grows_def)
  have "add_scan m base sz ?rs 0 ?n = Stop ?n ?rs 0"
    using add_scan_disjoint [of ?n ?rs 0 ?n base sz m] wf(2) lens block_range_ok [OF r] dis not_grow
    by (auto simp: live_def covers_def)
  then have ins: "memblock_add_region m t base sz = insert_region t base sz"
    using cnt nd u lens by (auto simp: memblock_add_region_def Let_def)
  define rs1 where "rs1 = shift_insert base sz ?n ?rs"
  define rs2 where "rs2 = (if base < rbase (rs1 ! 0) then rs1[0 := ?r] else rs1)"
  have t': "ret = - 1" "t' = t\<lparr>regions := rs2, rgn_cnt := ?n\<rparr>"
    using res cnt(2) unfolding ins
    by (auto simp: insert_region_def Let_def memblock_double_array_def rs1_def rs2_def)
  obtain p where p: "p \<le> ?n" "take (Suc ?n) rs2 = take p ?xs @ ?r # drop p ?xs"
    "\<forall>j < p. rbase (?rs ! j) \<le> base"
    using insert_live [OF cnt(1) lens(1), of base sz] wf(2) unfolding live_def rs2_def rs1_def by auto
  have "last ?xs = ?rs ! (?n - 1)" using nth [of "?n - 1"] cnt(1) len by (subst last_conv_nth) auto
  then have "p \<noteq> ?n" using p(3) low cnt(1) by (metis diff_less leD zero_less_one)
  then have pn: "p < ?n" using p(1) by simp
  have "live t' = take ?n (take (Suc ?n) rs2)" by (simp add: t'(2) live_def)
  also have "\<dots> = take p ?xs @ ?r # butlast (drop p ?xs)"
    unfolding p(2) using pn len by (simp add: butlast_conv_take take_Cons')
  finally have l: "live t' = take p ?xs @ ?r # butlast (drop p ?xs)" .
  have ne: "?xs \<noteq> []" using len cnt(1) by auto
  then have "rgn_set (last ?xs) \<subseteq> covers t" by (auto simp: covers_def area_def intro!: bexI [of _ "last ?xs"])
  then have "rgn_set (last ?xs) \<inter> rgn_set ?r = {}"
    using dis unfolding rgn_set_def mk_region_def by auto
  moreover have "rgn_set (last ?xs) \<inter> rgn_set q = {}" if "q \<in> set (take p ?xs) \<union> set (butlast (drop p ?xs))" for q
    using that butlast_append [of "take p ?xs" "drop p ?xs"] pn len
    by (intro last_disjoint [OF wf(2) ne]) auto
  ultimately have "rgn_set (last ?xs) \<inter> covers t' = {}" unfolding covers_def l area_def by auto
  moreover have "block base sz \<subseteq> covers t'" by (auto simp: covers_def l rgn_set_def mk_region_def simp del: block_eq_empty)
  ultimately show ?thesis using t' by blast
qed

definition ex_full :: memblock_type where
  "ex_full = \<lparr>rgn_cnt = 2, rgn_max = 3,
     regions = [mk_region 0x1000 0x1000, mk_region 0x9000 0x1000, mk_region 0 0, mk_region 0 0]\<rparr>"

theorem memblock_add_region_full_witness:
  "fst (memblock_add_region False ex_full 0x4000 0x1000) = - 1 \<and>
   rgn_set (mk_region 0x9000 0x1000) \<inter> covers (snd (memblock_add_region False ex_full 0x4000 0x1000)) = {}"
proof -
  have "mb_wf ex_full" "good (live ex_full)" "block 0x4000 0x1000 \<inter> covers ex_full = {}"
    "live ex_full = [mk_region 0x1000 0x1000, mk_region 0x9000 0x1000]"
    by (auto simp: mb_wf_def ex_full_def live_def good_def region_ok_def mk_region_def covers_def rgn_set_def
        simp del: block_eq_empty)
  with memblock_add_region_full [where t = ex_full and base = "0x4000" and sz = "0x1000" and m = False,
      OF _ _ _ _ _ _ _ _ _ _ prod.collapse [symmetric]]
  show ?thesis by (simp add: mk_region_def) (simp add: ex_full_def)
qed


end
