(* ===== verification/Bitmap.thy ===== *)
theory Bitmap
  imports CPrelude
begin

text \<open>
  The bit arrays of \<^verbatim>\<open>lib/bitmap.c\<close>. A bit map is an array of 32-bit words
  (\<^verbatim>\<open>unsigned int *\<close>); bit \<open>nr\<close> is bit \<open>nr mod 32\<close> of word \<open>nr div 32\<close>. The C code checks no
  bounds: an access outside the array is the result \<open>None\<close>. The bit numbers are \<open>int\<close>s, so a
  caller's \<open>unsigned long\<close> is converted by \<open>s32\<close> at the call.

  The abstraction \<open>bits\<close> reads a map as the set of its set bits; the locale \<open>bit_array\<close> is the
  contract the boot-memory and page-block code rely on, interpreted here on the functions of the
  source.
\<close>

type_synonym bitmap = "32 word list"

section \<open>Operations\<close>

definition in_map :: "int \<Rightarrow> bitmap \<Rightarrow> bool" where
  "in_map nr byte \<longleftrightarrow> 0 \<le> nr \<and> nat (nr div 32) < length byte"

definition bit_mask :: "int \<Rightarrow> 32 word" where
  "bit_mask nr = push_bit (nat (nr mod 32)) 1"

definition test_and_set_bit :: "int \<Rightarrow> bitmap \<Rightarrow> (int \<times> bitmap) option" where
  "test_and_set_bit nr byte =
     (if \<not> in_map nr byte then None
      else let n = nat (nr div 32); msk = bit_mask nr
           in if byte ! n AND msk \<noteq> 0 then Some (1, byte)
              else Some (0, byte[n := byte ! n OR msk]))"

definition test_and_clear_bit :: "int \<Rightarrow> bitmap \<Rightarrow> (int \<times> bitmap) option" where
  "test_and_clear_bit nr byte =
     (if \<not> in_map nr byte then None
      else let n = nat (nr div 32); msk = NOT (bit_mask nr)
           in if byte ! n AND NOT msk \<noteq> 0 then Some (1, byte[n := byte ! n AND msk])
              else Some (0, byte[n := byte ! n AND msk]))"

definition test_bit :: "int \<Rightarrow> bitmap \<Rightarrow> int option" where
  "test_bit nr byte =
     (if \<not> in_map nr byte then None
      else if bit_mask nr AND byte ! nat (nr div 32) \<noteq> 0 then Some 1 else Some 0)"

definition set_bit_c :: "int \<Rightarrow> bitmap \<Rightarrow> bitmap option" where
  "set_bit_c nr byte =
     (if \<not> in_map nr byte then None
      else let n = nat (nr div 32) in Some (byte[n := byte ! n OR bit_mask nr]))"

definition clear_bit_c :: "int \<Rightarrow> bitmap \<Rightarrow> bitmap option" where
  "clear_bit_c nr byte =
     (if \<not> in_map nr byte then None
      else let n = nat (nr div 32) in Some (byte[n := byte ! n AND NOT (bit_mask nr)]))"

text \<open>
  The two searches. \<open>scan_word\<close> is the inner loop over the bits of one shifted word, looking for
  the bit value \<open>v\<close>; \<open>scan_words\<close> is the outer loop over \<^verbatim>\<open>size / 32 + 1\<close> words. The variable
  \<open>m\<close> keeps the offset within the first word and is added to the result of \<^emph>\<open>every\<close> word, as in
  the source.
\<close>

fun scan_word :: "32 word \<Rightarrow> 32 word \<Rightarrow> nat \<Rightarrow> nat \<Rightarrow> nat option" where
  "scan_word v msk j 0 = None"
| "scan_word v msk j (Suc k) =
     (if drop_bit j msk AND 1 = v then Some j else scan_word v msk (Suc j) k)"

fun scan_words ::
  "32 word \<Rightarrow> bitmap \<Rightarrow> int \<Rightarrow> nat \<Rightarrow> nat \<Rightarrow> nat \<Rightarrow> nat \<Rightarrow> int option" where
  "scan_words v byte n m offset i 0 = Some (- 1)"
| "scan_words v byte n m offset i (Suc k) =
     (if n + int i < 0 \<or> length byte \<le> nat (n + int i) then None
      else case scan_word v (drop_bit offset (byte ! nat (n + int i))) 0 (32 - offset) of
             Some j \<Rightarrow> Some (s32 (int m + int i * 32 + int j + n * 32))
           | None \<Rightarrow> scan_words v byte n m 0 (Suc i) k)"

definition find_next_zero_bit :: "bitmap \<Rightarrow> int \<Rightarrow> int \<Rightarrow> int option" where
  "find_next_zero_bit byte sz offset =
     (let n = s32 (offset div 32); off = nat (offset mod 32)
      in scan_words 0 byte n off off 0 (nat (sz div 32) + 1))"

definition find_next_bit :: "bitmap \<Rightarrow> int \<Rightarrow> int \<Rightarrow> int option" where
  "find_next_bit addr sz offset =
     (let n = offset div 32; off = nat (offset mod 32)
      in scan_words 1 addr n off off 0 (nat (sz div 32) + 1))"


section \<open>The set of set bits\<close>

definition bits :: "bitmap \<Rightarrow> int set" where
  "bits byte = {i. in_map i byte \<and> bit (byte ! nat (i div 32)) (nat (i mod 32))}"

definition bit_dom :: "bitmap \<Rightarrow> int set" where
  "bit_dom byte = {0..<32 * int (length byte)}"

lemma in_map_dom: "in_map nr byte \<longleftrightarrow> nr \<in> bit_dom byte"
  by (auto simp: in_map_def bit_dom_def)

lemma bits_dom: "bits byte \<subseteq> bit_dom byte"
  by (auto simp: bits_def in_map_dom)

lemma in_map_update [simp]: "in_map i (byte[n := w]) = in_map i byte"
  by (simp add: in_map_def)

lemma bit_dom_update [simp]: "bit_dom (byte[n := w]) = bit_dom byte"
  by (simp add: bit_dom_def)

lemma bit_dom_length: "bit_dom b' = bit_dom b \<longleftrightarrow> length b' = length b"
proof
  assume "bit_dom b' = bit_dom b"
  then have "card (bit_dom b') = card (bit_dom b)" by simp
  then show "length b' = length b" by (simp add: bit_dom_def)
qed (simp add: bit_dom_def)

lemma bit_bit_mask [simp]: "bit (bit_mask nr) n \<longleftrightarrow> n = nat (nr mod 32)"
proof -
  have "nat (nr mod 32) < 32" by (simp add: nat_less_iff)
  then show ?thesis by (auto simp: bit_mask_def bit_push_bit_iff bit_simps)
qed

lemma and_bit_mask: "(w :: 32 word) AND bit_mask nr \<noteq> 0 \<longleftrightarrow> bit w (nat (nr mod 32))"
proof
  assume "w AND bit_mask nr \<noteq> 0"
  then have "\<exists>n. bit (w AND bit_mask nr) n" by (metis bit_0_eq bit_eq_iff bot_apply bot_bool_def)
  then show "bit w (nat (nr mod 32))" by (auto simp: bit_and_iff)
next
  assume "bit w (nat (nr mod 32))"
  then have "bit (w AND bit_mask nr) (nat (nr mod 32))" by (simp add: bit_and_iff)
  then show "w AND bit_mask nr \<noteq> 0" by force
qed

lemma bit_mask_and: "bit_mask nr AND (w :: 32 word) \<noteq> 0 \<longleftrightarrow> bit w (nat (nr mod 32))"
  using and_bit_mask [of w nr] by (simp add: and.commute)

lemma same_bit:
  assumes "0 \<le> i" "0 \<le> nr"
  shows "i = nr \<longleftrightarrow> nat (i div 32) = nat (nr div 32) \<and> nat (i mod 32) = nat (nr mod 32)"
proof -
  have "i = i div 32 * 32 + i mod 32" "nr = nr div 32 * 32 + nr mod 32" by simp_all
  moreover have "0 \<le> i div 32" "0 \<le> nr div 32" using assms by simp_all
  ultimately show ?thesis by (metis eq_nat_nat_iff pos_mod_sign zero_less_numeral)
qed

lemma bits_nth: "i \<in> bits byte \<longleftrightarrow>
   0 \<le> i \<and> nat (i div 32) < length byte \<and> bit (byte ! nat (i div 32)) (nat (i mod 32))"
  by (auto simp: bits_def in_map_def)

lemma bits_update:
  assumes "in_map nr byte"
    and w: "\<And>k. k < 32 \<Longrightarrow> bit w k = (if k = nat (nr mod 32) then v else bit (byte ! nat (nr div 32)) k)"
  shows "bits (byte[nat (nr div 32) := w]) = (if v then insert nr (bits byte) else bits byte - {nr})"
proof (rule set_eqI)
  fix i
  have nr: "0 \<le> nr" "nat (nr div 32) < length byte" using assms(1) by (simp_all add: in_map_def)
  have k: "nat (i mod 32) < 32" by (simp add: nat_less_iff)
  show "i \<in> bits (byte[nat (nr div 32) := w]) \<longleftrightarrow>
        i \<in> (if v then insert nr (bits byte) else bits byte - {nr})"
  proof (cases "0 \<le> i \<and> nat (i div 32) = nat (nr div 32)")
    case True
    have "i \<in> bits (byte[nat (nr div 32) := w]) \<longleftrightarrow> bit w (nat (i mod 32))"
      unfolding bits_nth using True nr by (simp del: nat_less_iff)
    moreover have "i \<in> bits byte \<longleftrightarrow> bit (byte ! nat (nr div 32)) (nat (i mod 32))"
      unfolding bits_nth using True nr by (simp del: nat_less_iff)
    moreover have "i = nr \<longleftrightarrow> nat (i mod 32) = nat (nr mod 32)"
      using same_bit [of i nr] nr(1) True by blast
    ultimately show ?thesis using w [OF k] by simp
  next
    case False
    then have "i \<noteq> nr" using nr(1) by blast
    moreover have "i \<in> bits (byte[nat (nr div 32) := w]) \<longleftrightarrow> i \<in> bits byte"
      unfolding bits_nth using False by (metis length_list_update nth_list_update_neq)
    ultimately show ?thesis by simp
  qed
qed

lemma bits_or_mask:
  "in_map nr byte \<Longrightarrow>
   bits (byte[nat (nr div 32) := byte ! nat (nr div 32) OR bit_mask nr]) = insert nr (bits byte)"
  by (subst bits_update [where v = True]) (auto simp: bit_or_iff)

lemma bits_and_not_mask:
  "in_map nr byte \<Longrightarrow>
   bits (byte[nat (nr div 32) := byte ! nat (nr div 32) AND NOT (bit_mask nr)]) = bits byte - {nr}"
  by (subst bits_update [where v = False]) (auto simp: bit_and_iff bit_not_iff)

lemma bits_mem: "in_map nr byte \<Longrightarrow> nr \<in> bits byte \<longleftrightarrow> bit (byte ! nat (nr div 32)) (nat (nr mod 32))"
  by (simp add: bits_def)

lemma test_bit_spec:
  "in_map nr byte \<Longrightarrow> test_bit nr byte = Some (if nr \<in> bits byte then 1 else 0)"
  by (simp add: test_bit_def bit_mask_and bits_mem)

lemma set_bit_spec:
  assumes "in_map nr byte"
  shows "\<exists>b'. set_bit_c nr byte = Some b' \<and> bits b' = insert nr (bits byte) \<and> bit_dom b' = bit_dom byte"
  using assms by (simp add: set_bit_c_def Let_def bits_or_mask)

lemma clear_bit_spec:
  assumes "in_map nr byte"
  shows "\<exists>b'. clear_bit_c nr byte = Some b' \<and> bits b' = bits byte - {nr} \<and> bit_dom b' = bit_dom byte"
  using assms by (simp add: clear_bit_c_def Let_def bits_and_not_mask)

lemma test_and_set_bit_spec:
  assumes "in_map nr byte"
  shows "\<exists>b'. test_and_set_bit nr byte = Some (if nr \<in> bits byte then 1 else 0, b') \<and>
           bits b' = insert nr (bits byte) \<and> bit_dom b' = bit_dom byte"
  using assms
  by (auto simp: test_and_set_bit_def Let_def and_bit_mask bits_mem bits_or_mask)

lemma test_and_clear_bit_spec:
  assumes "in_map nr byte"
  shows "\<exists>b'. test_and_clear_bit nr byte = Some (if nr \<in> bits byte then 1 else 0, b') \<and>
           bits b' = bits byte - {nr} \<and> bit_dom b' = bit_dom byte"
  using assms
  by (auto simp: test_and_clear_bit_def Let_def and_bit_mask bits_mem bits_and_not_mask)


section \<open>The contract of a bit array\<close>

text \<open>
  What the clients of the bit operations use: inside the array every operation succeeds, reports
  the old bit, and changes that bit only; outside it there is no result.
\<close>

locale bit_array =
  fixes tst :: "int \<Rightarrow> 'b \<Rightarrow> int option"
    and st :: "int \<Rightarrow> 'b \<Rightarrow> 'b option"
    and cl :: "int \<Rightarrow> 'b \<Rightarrow> 'b option"
    and tas :: "int \<Rightarrow> 'b \<Rightarrow> (int \<times> 'b) option"
    and tac :: "int \<Rightarrow> 'b \<Rightarrow> (int \<times> 'b) option"
    and bset :: "'b \<Rightarrow> int set"
    and bdom :: "'b \<Rightarrow> int set"
  assumes tst: "i \<in> bdom b \<Longrightarrow> tst i b = Some (if i \<in> bset b then 1 else 0)"
    and st: "i \<in> bdom b \<Longrightarrow>
      \<exists>b'. st i b = Some b' \<and> bset b' = insert i (bset b) \<and> bdom b' = bdom b"
    and cl: "i \<in> bdom b \<Longrightarrow>
      \<exists>b'. cl i b = Some b' \<and> bset b' = bset b - {i} \<and> bdom b' = bdom b"
    and tas: "i \<in> bdom b \<Longrightarrow> \<exists>b'. tas i b = Some (if i \<in> bset b then 1 else 0, b') \<and>
      bset b' = insert i (bset b) \<and> bdom b' = bdom b"
    and tac: "i \<in> bdom b \<Longrightarrow> \<exists>b'. tac i b = Some (if i \<in> bset b then 1 else 0, b') \<and>
      bset b' = bset b - {i} \<and> bdom b' = bdom b"
    and outside: "i \<notin> bdom b \<Longrightarrow>
      tst i b = None \<and> st i b = None \<and> cl i b = None \<and> tas i b = None \<and> tac i b = None"
begin

lemma tst_set: "tst i b = Some 1 \<longleftrightarrow> i \<in> bdom b \<and> i \<in> bset b"
  using tst [of i b] outside [of i b] by (cases "i \<in> bdom b") auto

lemma tas_result:
  "tas i b = Some (r, b') \<Longrightarrow>
   i \<in> bdom b \<and> r = (if i \<in> bset b then 1 else 0) \<and> bset b' = insert i (bset b) \<and> bdom b' = bdom b"
  using tas [of i b] outside [of i b] by (cases "i \<in> bdom b") auto

lemma tac_result:
  "tac i b = Some (r, b') \<Longrightarrow>
   i \<in> bdom b \<and> r = (if i \<in> bset b then 1 else 0) \<and> bset b' = bset b - {i} \<and> bdom b' = bdom b"
  using tac [of i b] outside [of i b] by (cases "i \<in> bdom b") auto

text \<open>Writing a bit, as the page-block flags do.\<close>

lemma write_bit:
  "i \<in> bdom b \<Longrightarrow> \<exists>b'. (if c then st i b else cl i b) = Some b' \<and>
     bset b' = bset b - {i} \<union> (if c then {i} else {}) \<and> bdom b' = bdom b"
  using st [of i b] cl [of i b] by auto

text \<open>Setting and then clearing a clear bit restores the set.\<close>

lemma tas_tac:
  assumes "tas i b = Some (0, b1)" and "tac i b1 = Some (r, b2)"
  shows "r = 1 \<and> bset b2 = bset b"
proof -
  have "i \<notin> bset b" "bset b1 = insert i (bset b)"
    using tas_result [OF assms(1)] by (auto split: if_splits)
  then show ?thesis using tac_result [OF assms(2)] by auto
qed

end

interpretation bm: bit_array test_bit set_bit_c clear_bit_c test_and_set_bit test_and_clear_bit bits bit_dom
proof
  fix i and b :: bitmap
  show "i \<in> bit_dom b \<Longrightarrow> test_bit i b = Some (if i \<in> bits b then 1 else 0)"
    by (simp add: test_bit_spec in_map_dom)
  show "i \<in> bit_dom b \<Longrightarrow> \<exists>b'. set_bit_c i b = Some b' \<and> bits b' = insert i (bits b) \<and> bit_dom b' = bit_dom b"
    by (simp add: set_bit_spec in_map_dom)
  show "i \<in> bit_dom b \<Longrightarrow> \<exists>b'. clear_bit_c i b = Some b' \<and> bits b' = bits b - {i} \<and> bit_dom b' = bit_dom b"
    by (simp add: clear_bit_spec in_map_dom)
  show "i \<in> bit_dom b \<Longrightarrow> \<exists>b'. test_and_set_bit i b = Some (if i \<in> bits b then 1 else 0, b') \<and>
      bits b' = insert i (bits b) \<and> bit_dom b' = bit_dom b"
    by (simp add: test_and_set_bit_spec in_map_dom)
  show "i \<in> bit_dom b \<Longrightarrow> \<exists>b'. test_and_clear_bit i b = Some (if i \<in> bits b then 1 else 0, b') \<and>
      bits b' = bits b - {i} \<and> bit_dom b' = bit_dom b"
    by (simp add: test_and_clear_bit_spec in_map_dom)
  show "i \<notin> bit_dom b \<Longrightarrow> test_bit i b = None \<and> set_bit_c i b = None \<and> clear_bit_c i b = None \<and>
      test_and_set_bit i b = None \<and> test_and_clear_bit i b = None"
    by (simp add: in_map_dom test_bit_def set_bit_c_def clear_bit_c_def test_and_set_bit_def
        test_and_clear_bit_def)
qed


section \<open>The searches\<close>

lemma drop_bit_and_1: "drop_bit i (w :: 32 word) AND 1 = of_bool (bit w i)"
  by (simp add: and_one_eq bit_iff_odd_drop_bit mod_2_eq_odd)

lemma scan_word_Some:
  "scan_word v msk j k = Some r \<Longrightarrow>
   j \<le> r \<and> r < j + k \<and> drop_bit r msk AND 1 = v \<and> (\<forall>i. j \<le> i \<and> i < r \<longrightarrow> drop_bit i msk AND 1 \<noteq> v)"
proof (induction k arbitrary: j)
  case (Suc k)
  show ?case
  proof (cases "drop_bit j msk AND 1 = v")
    case False
    with Suc.prems Suc.IH [of "Suc j"] show ?thesis by (auto simp: Suc_le_eq nat_less_le)
  qed (use Suc.prems in auto)
qed simp

lemma scan_word_None:
  "scan_word v msk j k = None \<longleftrightarrow> (\<forall>i. j \<le> i \<and> i < j + k \<longrightarrow> drop_bit i msk AND 1 \<noteq> v)"
proof (induction k arbitrary: j)
  case (Suc k)
  show ?case
  proof (cases "drop_bit j msk AND 1 = v")
    case False
    with Suc.IH [of "Suc j"] show ?thesis by (auto simp: Suc_le_eq nat_less_le)
  qed auto
qed auto

text \<open>The value \<open>c\<close> is looked for from \<open>lo\<close> on: \<open>x\<close> is the first position that has it.\<close>

definition first_bit :: "bool \<Rightarrow> bitmap \<Rightarrow> int \<Rightarrow> int \<Rightarrow> bool" where
  "first_bit c byte lo x \<longleftrightarrow> lo \<le> x \<and> x \<in> bit_dom byte \<and> (x \<in> bits byte \<longleftrightarrow> c) \<and>
     (\<forall>y. lo \<le> y \<and> y < x \<longrightarrow> (y \<in> bits byte \<longleftrightarrow> \<not> c))"

definition no_bit :: "bool \<Rightarrow> bitmap \<Rightarrow> int \<Rightarrow> int \<Rightarrow> bool" where
  "no_bit c byte lo hi \<longleftrightarrow> (\<forall>y. lo \<le> y \<and> y < hi \<longrightarrow> (y \<in> bits byte \<longleftrightarrow> \<not> c))"

lemma no_bit_first:
  "no_bit c byte lo mid \<Longrightarrow> first_bit c byte mid x \<Longrightarrow> lo \<le> mid \<Longrightarrow> first_bit c byte lo x"
  unfolding no_bit_def first_bit_def by (meson linorder_not_less order_trans)

lemma no_bit_append: "no_bit c byte lo mid \<Longrightarrow> no_bit c byte mid hi \<Longrightarrow> no_bit c byte lo hi"
  unfolding no_bit_def by (meson linorder_not_less)

text \<open>One word: bit \<open>o + j\<close> of word \<open>w\<close> is position \<open>32 * w + o + j\<close> of the map.\<close>

lemma bits_word:
  assumes "0 \<le> w" "nat w < length byte" "l < 32"
  shows "w * 32 + int l \<in> bits byte \<longleftrightarrow> bit (byte ! nat w) l"
proof -
  have "(w * 32 + int l) div 32 = w" "(w * 32 + int l) mod 32 = int l" using assms(3) by simp_all
  then show ?thesis using assms(1,2) by (simp add: bits_nth)
qed

lemma scan_one_word_Some:
  assumes "0 \<le> w" "nat w < length byte" "l < 32"
    and s: "scan_word (of_bool c) (drop_bit l (byte ! nat w)) 0 (32 - l) = Some j"
  shows "first_bit c byte (w * 32 + int l) (w * 32 + int l + int j) \<and> l + j < 32"
proof -
  note r = scan_word_Some [OF s]
  have lj: "l + j < 32" using r assms(3) by linarith
  have "w * 32 + int l + int j \<in> bits byte \<longleftrightarrow> c"
    using r bits_word [OF assms(1,2) lj] by (simp add: drop_bit_and_1 of_bool_eq_iff add_ac)
  moreover have "y \<in> bits byte \<longleftrightarrow> \<not> c" if y: "w * 32 + int l \<le> y" "y < w * 32 + int l + int j" for y
  proof -
    define i where "i = nat (y - w * 32 - int l)"
    have i: "i < j" "y = w * 32 + int (l + i)" using y by (auto simp: i_def)
    moreover have "l + i < 32" using i(1) lj by simp
    ultimately show ?thesis
      using r bits_word [OF assms(1,2), of "l + i"] by (auto simp: drop_bit_and_1 add.commute)
  qed
  moreover have "w * 32 + int l + int j \<in> bit_dom byte" using assms(1,2) lj by (auto simp: bit_dom_def)
  ultimately show ?thesis using lj by (auto simp: first_bit_def)
qed

lemma scan_one_word_None:
  assumes "0 \<le> w" "nat w < length byte" "l < 32"
    and s: "scan_word (of_bool c) (drop_bit l (byte ! nat w)) 0 (32 - l) = None"
  shows "no_bit c byte (w * 32 + int l) ((w + 1) * 32)"
  unfolding no_bit_def
proof (intro allI impI)
  fix y
  assume y: "w * 32 + int l \<le> y \<and> y < (w + 1) * 32"
  define i where "i = nat (y - w * 32 - int l)"
  have i: "y = w * 32 + int (l + i)" "l + i < 32" using y by (auto simp: i_def)
  then show "y \<in> bits byte \<longleftrightarrow> \<not> c"
    using s bits_word [OF assms(1,2), of "l + i"]
    by (auto simp: scan_word_None drop_bit_and_1 add.commute)
qed

lemma scan_words_spec:
  assumes "0 \<le> n" "l < 32" "32 * int (length byte) \<le> 2147483584" "m < 32"
    and "scan_words (of_bool c) byte n m l i k = Some r"
  shows "(r = - 1 \<and> no_bit c byte ((n + int i) * 32 + int l) ((n + int i + int k) * 32)) \<or>
    (\<exists>x. first_bit c byte ((n + int i) * 32 + int l) x \<and>
         r = x + int m - (if x div 32 = n + int i then int l else 0))"
  using assms(2,5)
proof (induction k arbitrary: l i)
  case 0
  then show ?case by (auto simp: no_bit_def)
next
  case (Suc k)
  define w where "w = n + int i"
  have w: "0 \<le> w" "nat w < length byte" using Suc.prems(2) assms(1) by (auto simp: w_def split: if_splits)
  show ?case
  proof (cases "scan_word (of_bool c) (drop_bit l (byte ! nat w)) 0 (32 - l)")
    case (Some j)
    from scan_one_word_Some [OF w Suc.prems(1) Some]
    have f: "first_bit c byte (w * 32 + int l) (w * 32 + int l + int j)" and lj: "l + j < 32" by auto
    have "r = s32 (int m + int i * 32 + int j + n * 32)"
      using Suc.prems(2) w Some by (simp add: w_def split: if_splits)
    moreover have "int m + int i * 32 + int j + n * 32 = w * 32 + int j + int m" by (simp add: w_def)
    moreover have "w * 32 + int j + int m < 2147483648" using w assms(3,4) lj by linarith
    ultimately have "r = w * 32 + int j + int m" using w by simp
    moreover have "(w * 32 + int l + int j) div 32 = w" using lj by linarith
    ultimately show ?thesis using f unfolding w_def by (intro disjI2 exI [of _ "(n + int i) * 32 + int l + int j"]) simp
  next
    case None
    then have nb: "no_bit c byte (w * 32 + int l) ((w + 1) * 32)"
      using scan_one_word_None [OF w Suc.prems(1)] by simp
    have "scan_words (of_bool c) byte n m 0 (Suc i) k = Some r"
      using Suc.prems(2) w None by (simp add: w_def split: if_splits)
    from Suc.IH [OF _ this]
    consider "r = - 1" "no_bit c byte ((w + 1) * 32) ((w + 1 + int k) * 32)"
      | x where "first_bit c byte ((w + 1) * 32) x" "r = x + int m"
      by (auto simp: w_def algebra_simps split: if_splits)
    then show ?thesis
    proof cases
      case 1
      then show ?thesis using no_bit_append [OF nb] by (auto simp: w_def algebra_simps)
    next
      case 2
      then have "(w + 1) * 32 \<le> x" by (simp add: first_bit_def)
      then have "w + 1 \<le> x div 32" using zdiv_mono1 [of "(w + 1) * 32" x 32] by simp
      moreover have "first_bit c byte (w * 32 + int l) x"
        using no_bit_first [OF nb 2(1)] Suc.prems(1) by simp
      ultimately show ?thesis using 2(2) unfolding w_def by auto
    qed
  qed
qed


lemma scan_words_total:
  "0 \<le> n \<Longrightarrow> nat n + i + k \<le> length byte \<Longrightarrow> scan_words v byte n m l i k \<noteq> None"
  by (induction k arbitrary: l i) (auto split: option.splits)

text \<open>
  The result of the zero search, in full: either \<open>-1\<close> and there is no clear bit in the words that
  were read, or the first clear bit \<open>x\<close> at or after the offset exists, and the result is \<open>x\<close> if it
  lies in the word of the offset but \<open>x + offset mod 32\<close> if it lies in a later word.
\<close>

lemma find_next_zero_bit_spec:
  assumes "0 \<le> offset" "offset < 68719476736"
    and len: "32 * int (length byte) \<le> 2147483584"
    and r: "find_next_zero_bit byte sz offset = Some r"
  shows "(r = - 1 \<and> no_bit False byte offset ((offset div 32 + int (nat (sz div 32)) + 1) * 32)) \<or>
    (\<exists>x. first_bit False byte offset x \<and>
         r = (if x div 32 = offset div 32 then x else x + offset mod 32))"
proof -
  have o: "s32 (offset div 32) = offset div 32" "0 \<le> offset div 32" using assms(1,2) by simp_all
  have m: "int (nat (offset mod 32)) = offset mod 32" "nat (offset mod 32) < 32"
    by (simp_all add: nat_less_iff)
  have "scan_words (of_bool False) byte (offset div 32) (nat (offset mod 32)) (nat (offset mod 32)) 0
      (nat (sz div 32) + 1) = Some r"
    using r o by (simp add: find_next_zero_bit_def Let_def)
  from scan_words_spec [OF o(2) m(2) len m(2) this]
  have *: "(r = - 1 \<and> no_bit False byte (offset div 32 * 32 + offset mod 32)
        ((offset div 32 + int (nat (sz div 32) + 1)) * 32)) \<or>
    (\<exists>x. first_bit False byte (offset div 32 * 32 + offset mod 32) x \<and>
         r = x + offset mod 32 - (if x div 32 = offset div 32 then offset mod 32 else 0))"
    unfolding m(1) by simp
  have "offset div 32 * 32 + offset mod 32 = offset" by simp
  with * show ?thesis by (auto simp: algebra_simps)
qed

lemma find_next_bit_spec:
  assumes "0 \<le> offset"
    and len: "32 * int (length byte) \<le> 2147483584"
    and r: "find_next_bit byte sz offset = Some r"
  shows "(r = - 1 \<and> no_bit True byte offset ((offset div 32 + int (nat (sz div 32)) + 1) * 32)) \<or>
    (\<exists>x. first_bit True byte offset x \<and>
         r = (if x div 32 = offset div 32 then x else x + offset mod 32))"
proof -
  have n: "0 \<le> offset div 32" using assms(1) by simp
  have m: "int (nat (offset mod 32)) = offset mod 32" "nat (offset mod 32) < 32"
    by (simp_all add: nat_less_iff)
  have "scan_words (of_bool True) byte (offset div 32) (nat (offset mod 32)) (nat (offset mod 32)) 0
      (nat (sz div 32) + 1) = Some r"
    using r by (simp add: find_next_bit_def Let_def)
  from scan_words_spec [OF n m(2) len m(2) this]
  have *: "(r = - 1 \<and> no_bit True byte (offset div 32 * 32 + offset mod 32)
        ((offset div 32 + int (nat (sz div 32) + 1)) * 32)) \<or>
    (\<exists>x. first_bit True byte (offset div 32 * 32 + offset mod 32) x \<and>
         r = x + offset mod 32 - (if x div 32 = offset div 32 then offset mod 32 else 0))"
    unfolding m(1) by simp
  have "offset div 32 * 32 + offset mod 32 = offset" by simp
  with * show ?thesis by (auto simp: algebra_simps)
qed

text \<open>The set of a concrete map, by evaluation.\<close>

lemma bits_list:
  "bits byte = set (filter (\<lambda>i. bit (byte ! nat (i div 32)) (nat (i mod 32))) [0..32 * int (length byte) - 1])"
  by (auto simp: bits_def in_map_dom bit_dom_def)

section \<open>Properties\<close>

text \<open>The zero search is total where the words it reads exist.\<close>

lemma zero_search_result:
  assumes "0 \<le> offset" "0 \<le> sz" "offset div 32 + sz div 32 < int (length byte)"
    and "length byte \<le> 67108862"
  shows "\<exists>r. find_next_zero_bit byte sz offset = Some r \<and>
    (if r = - 1 then no_bit False byte offset ((offset div 32 + sz div 32 + 1) * 32)
     else \<exists>x. first_bit False byte offset x \<and>
            r = (if x div 32 = offset div 32 then x else x + offset mod 32))"
proof -
  have b: "0 \<le> offset div 32" "0 \<le> sz div 32" using assms(1,2) by simp_all
  have o: "offset < 68719476736" using assms(3,4) b by linarith
  have "s32 (offset div 32) = offset div 32" using o b by simp
  moreover have "nat (offset div 32) + 0 + (nat (sz div 32) + 1) \<le> length byte" using assms(3) b by linarith
  ultimately obtain r where r: "find_next_zero_bit byte sz offset = Some r"
    using scan_words_total [OF b(1), of 0 "nat (sz div 32) + 1" byte 0 "nat (offset mod 32)" "nat (offset mod 32)"]
    unfolding find_next_zero_bit_def Let_def by (metis not_None_eq)
  have len: "32 * int (length byte) \<le> 2147483584" using assms(4) by simp
  have ne: "(if x div 32 = offset div 32 then x else x + offset mod 32) \<noteq> - 1" if "first_bit False byte offset x" for x
    using that assms(1) pos_mod_sign [of 32 offset] by (auto simp: first_bit_def)
  have e: "int (nat (sz div 32)) = sz div 32" using b(2) by simp
  from find_next_zero_bit_spec [OF assms(1) o len r, unfolded e] show ?thesis
  proof
    assume "r = - 1 \<and> no_bit False byte offset ((offset div 32 + sz div 32 + 1) * 32)"
    with r show ?thesis by simp
  next
    assume "\<exists>x. first_bit False byte offset x \<and> r = (if x div 32 = offset div 32 then x else x + offset mod 32)"
    then obtain x where x: "first_bit False byte offset x" "r = (if x div 32 = offset div 32 then x else x + offset mod 32)"
      by blast
    from ne [OF x(1)] x(2) have "r \<noteq> - 1" by simp
    with r x show ?thesis by auto
  qed
qed

text \<open>
  The search for a zero bit, exactly. If the words it reads exist, it returns; \<open>-1\<close> means that no
  bit from the offset to the end of the last word read is clear; otherwise the first clear bit \<open>x\<close>
  exists and is the result if it lies in the word of the offset, but in a later word the result is
  \<open>x + offset mod 32\<close>, which is right only for an offset at a word boundary.
\<close>

theorem find_next_zero_bit_result:
  assumes "0 \<le> offset" "0 \<le> sz" "offset div 32 + sz div 32 < int (length byte)"
    and "length byte \<le> 67108862"
  shows "\<exists>r. find_next_zero_bit byte sz offset = Some r \<and>
    (if r = - 1 then no_bit False byte offset ((offset div 32 + sz div 32 + 1) * 32)
     else \<exists>x. first_bit False byte offset x \<and>
            r = (if x div 32 = offset div 32 then x else x + offset mod 32))"
  using assms by (rule zero_search_result)

theorem find_next_zero_bit_result_witness:
  "find_next_zero_bit [- 1, 0] 63 5 = Some 37 \<and> first_bit False [- 1, 0] 5 32"
proof
  show e: "find_next_zero_bit [- 1, 0] 63 5 = Some 37" by code_simp
  obtain x where "first_bit False [- 1, 0] 5 x" "37 = (if x div 32 = (5::int) div 32 then x else x + 5 mod 32)"
    using find_next_zero_bit_result [of 5 63 "[- 1, 0]"] unfolding e by auto
  moreover from this(2) have "x = 32" by (simp split: if_splits)
  ultimately show "first_bit False [- 1, 0] 5 32" by simp
qed

text \<open>
  At a word boundary both searches are right: the result is the first bit with the wanted value,
  or \<open>-1\<close> if the words read hold none.
\<close>

theorem find_next_aligned:
  assumes "0 \<le> offset" "32 dvd offset" "length byte \<le> 67108862" "offset < 68719476736" "0 \<le> sz"
    and "(if c then find_next_bit byte sz offset else find_next_zero_bit byte sz offset) = Some r"
  shows "if r = - 1 then no_bit c byte offset (offset + (sz div 32 + 1) * 32) else first_bit c byte offset r"
proof -
  have len: "32 * int (length byte) \<le> 2147483584" using assms(3) by simp
  have z: "offset mod 32 = 0" "0 \<le> sz div 32" using assms(2,5) by auto
  have e: "(offset div 32 + int (nat (sz div 32)) + 1) * 32 = offset + (sz div 32 + 1) * 32"
    using z by (simp add: algebra_simps) (metis assms(2) dvd_div_mult_self mult.commute)
  have spec: "(r = - 1 \<and> no_bit c byte offset (offset + (sz div 32 + 1) * 32)) \<or>
      (\<exists>x. first_bit c byte offset x \<and> r = (if x div 32 = offset div 32 then x else x + offset mod 32))"
  proof (cases c)
    case True
    with find_next_bit_spec [OF assms(1) len, of sz r] assms(6) show ?thesis unfolding e by simp
  next
    case False
    with find_next_zero_bit_spec [OF assms(1,4) len, of sz r] assms(6) show ?thesis unfolding e by simp
  qed
  then have "(r = - 1 \<and> no_bit c byte offset (offset + (sz div 32 + 1) * 32)) \<or> first_bit c byte offset r"
    unfolding z(1) add_0_right if_cancel by blast
  moreover have "r \<noteq> - 1" if "first_bit c byte offset r" using that assms(1) by (auto simp: first_bit_def)
  ultimately show ?thesis by auto
qed

theorem find_next_aligned_witness: "first_bit True [0, 0, 8] 32 67"
proof -
  have "find_next_bit [0, 0, 8] 63 32 = Some 67" by code_simp
  with find_next_aligned [where offset = 32 and byte = "[0, 0, 8]" and sz = 63 and c = True and r = 67]
  show ?thesis by simp
qed

text \<open>
  The bit operations are the set operations: \<open>test_and_set_bit\<close> and \<open>test_and_clear_bit\<close> return
  whether the bit was a member and insert or remove just that bit, also when they are used one after
  the other on any positions of one map.
\<close>

theorem bit_ops_set:
  assumes "i \<in> bit_dom byte" "j \<in> bit_dom byte"
    and "test_and_set_bit i byte = Some (r, b1)" "test_and_clear_bit j b1 = Some (q, b2)"
  shows "r = of_bool (i \<in> bits byte) \<and> q = of_bool (j = i \<or> j \<in> bits byte) \<and>
    bits b2 = insert i (bits byte) - {j} \<and> bit_dom b2 = bit_dom byte"
  using bm.tas_result [OF assms(3)] bm.tac_result [OF assms(4)] by (simp add: insert_iff)

theorem bit_ops_set_witness:
  "bits (snd (the (test_and_clear_bit 3 (snd (the (test_and_set_bit 40 [8, 0])))))) = {40}"
proof -
  have "test_and_set_bit 40 [8, 0] = Some (0, [8, 256])" "test_and_clear_bit 3 [8, 256] = Some (1, [0, 256])"
    by code_simp+
  moreover have "bits [8, 0] = {3}" unfolding bits_list by code_simp
  ultimately show ?thesis
    using bit_ops_set [of 40 "[8, 0]" 3 0 "[8, 256]" 1 "[0, 256]"] by (auto simp: bit_dom_def)
qed


end
