(* ===== verification/Bootmem.thy ===== *)
theory Bootmem
  imports Allocator Bitmap "HOL-Library.Monad_Syntax"
begin

unbundle bit_operations_syntax

text \<open>
  The boot-time page allocator of \<^verbatim>\<open>mm/bootmem.c\<close> and \<^verbatim>\<open>include/linux/bootmem.h\<close>. A node keeps
  one bit per page frame (set: reserved), the byte offset where its last allocation ended and a hint.

  \<open>node_bootmem_map\<close> is the memory from the map's address on, as a list of words: the C code reads
  past the map itself, because the zero-bit search scans \<^verbatim>\<open>size / 32 + 1\<close> words from the word of its
  offset. A function that touches memory outside the list, or that does not return, has the result
  \<open>None\<close>. Operations on one node return it; operations on the node list \<^verbatim>\<open>bdata_list\<close> take and return
  the list of nodes. Debug output and kmemleak calls have no effect, \<^verbatim>\<open>BUG\<close> and \<^verbatim>\<open>BUG_ON\<close> only print;
  clearing the allocated memory is outside the model.
\<close>

section \<open>Data\<close>

record bootmem_data =
  node_min_pfn :: int
  node_low_pfn :: int
  node_bootmem_map :: "bitmap option"
  last_end_off :: int
  hint_idx :: int

definition BOOTMEM_DEFAULT :: int where "BOOTMEM_DEFAULT = 0"
definition BOOTMEM_EXCLUSIVE :: int where "BOOTMEM_EXCLUSIVE = push_bit 0 1"
definition EBUSY :: int where "EBUSY = 16"
definition ARCH_LOW_ADDRESS_LIMIT :: int where "ARCH_LOW_ADDRESS_LIMIT = 0xffffffff"

definition align_idx :: "bootmem_data \<Rightarrow> int \<Rightarrow> int \<Rightarrow> int" where
  "align_idx bdata idx step =
     (let base = node_min_pfn bdata in u64 (ALIGN (u64 (base + idx)) step - base))"

definition align_off :: "bootmem_data \<Rightarrow> int \<Rightarrow> int \<Rightarrow> int" where
  "align_off bdata off align =
     (let base = PFN_PHYS (node_min_pfn bdata) in u64 (ALIGN (u64 (base + off)) align - base))"

definition bootmap_bytes :: "int \<Rightarrow> int" where
  "bootmap_bytes pages = ALIGN (u64 (pages + 7) div 8) 8"

definition bootmem_bootmap_pages :: "int \<Rightarrow> int" where
  "bootmem_bootmap_pages pages = drop_bit PAGE_SHIFT (PAGE_ALIGN (bootmap_bytes pages))"


section \<open>Marking pages free and reserved\<close>

text \<open>The loops over the bits; \<open>k\<close> counts the pages left, the bit number is converted to \<open>int\<close>.\<close>

fun free_loop :: "int \<Rightarrow> nat \<Rightarrow> bitmap \<Rightarrow> bitmap option" where
  "free_loop idx 0 byte = Some byte"
| "free_loop idx (Suc k) byte =
     do { (r, byte) \<leftarrow> test_and_clear_bit (s32 idx) byte; free_loop (idx + 1) k byte }"

definition free_range :: "bootmem_data \<Rightarrow> int \<Rightarrow> int \<Rightarrow> bootmem_data option" where
  "free_range bdata sidx eidx =
     (let bdata = (if hint_idx bdata > sidx then bdata\<lparr>hint_idx := sidx\<rparr> else bdata)
      in do { byte \<leftarrow> node_bootmem_map bdata;
              byte \<leftarrow> free_loop sidx (nat (eidx - sidx)) byte;
              Some (bdata\<lparr>node_bootmem_map := Some byte\<rparr>) })"

text \<open>
  The reservation loop stops at a bit that is already set if the flags ask for exclusive use:
  \<open>Some (Inl idx, byte)\<close> is the page it stopped at.
\<close>

fun reserve_loop :: "bool \<Rightarrow> int \<Rightarrow> nat \<Rightarrow> bitmap \<Rightarrow> (int option \<times> bitmap) option" where
  "reserve_loop exclusive idx 0 byte = Some (None, byte)"
| "reserve_loop exclusive idx (Suc k) byte =
     do { (r, byte) \<leftarrow> test_and_set_bit (s32 idx) byte;
          if r \<noteq> 0 \<and> exclusive then Some (Some idx, byte)
          else reserve_loop exclusive (idx + 1) k byte }"

definition reserve_range :: "bootmem_data \<Rightarrow> int \<Rightarrow> int \<Rightarrow> int \<Rightarrow> (int \<times> bootmem_data) option" where
  "reserve_range bdata sidx eidx flags =
     do { byte \<leftarrow> node_bootmem_map bdata;
          (stop, byte) \<leftarrow> reserve_loop (flags AND BOOTMEM_EXCLUSIVE \<noteq> 0) sidx (nat (eidx - sidx)) byte;
          let bdata = bdata\<lparr>node_bootmem_map := Some byte\<rparr>;
          (case stop of
             None \<Rightarrow> Some (0, bdata)
           | Some idx \<Rightarrow> do { bdata \<leftarrow> free_range bdata sidx idx; Some (- EBUSY, bdata) }) }"

definition mark_bootmem_node ::
  "bootmem_data \<Rightarrow> int \<Rightarrow> int \<Rightarrow> bool \<Rightarrow> int \<Rightarrow> (int \<times> bootmem_data) option" where
  "mark_bootmem_node bdata start en reserve flags =
     (let sidx = u64 (start - node_min_pfn bdata); eidx = u64 (en - node_min_pfn bdata)
      in if reserve then reserve_range bdata sidx eidx flags
         else do { bdata \<leftarrow> free_range bdata sidx eidx; Some (0, bdata) })"

text \<open>
  One pass over the node list from \<open>pos\<close>: \<open>Done\<close> is \<^verbatim>\<open>return 0\<close>, \<open>Failed err pos\<close> a failed reservation
  in the node of \<open>pos\<close>, and \<open>Fell_off\<close> the end of the list, where the code calls \<^verbatim>\<open>BUG\<close> and returns
  no value.
\<close>

datatype mark_exit = Done | Failed int int | Fell_off

fun mark_nodes ::
  "int \<Rightarrow> bool \<Rightarrow> int \<Rightarrow> int \<Rightarrow> bootmem_data list \<Rightarrow> (mark_exit \<times> bootmem_data list) option" where
  "mark_nodes en reserve flags pos [] = Some (Fell_off, [])"
| "mark_nodes en reserve flags pos (b # bs) =
     (if pos < node_min_pfn b \<or> node_low_pfn b \<le> pos then
        do { (x, bs) \<leftarrow> mark_nodes en reserve flags pos bs; Some (x, b # bs) }
      else
        let mx = min (node_low_pfn b) en
        in do { (err, b) \<leftarrow> mark_bootmem_node b pos mx reserve flags;
                if reserve \<and> err \<noteq> 0 then Some (Failed err pos, b # bs)
                else if mx = en then Some (Done, b # bs)
                else do { (x, bs) \<leftarrow> mark_nodes en reserve flags (node_low_pfn b) bs;
                          Some (x, b # bs) } })"

text \<open>A failed reservation frees what was marked in earlier nodes. No value is \<open>None\<close> inside the pair.\<close>

definition mark_bootmem ::
  "int \<Rightarrow> int \<Rightarrow> bool \<Rightarrow> int \<Rightarrow> bootmem_data list \<Rightarrow> (int option \<times> bootmem_data list) option" where
  "mark_bootmem start en reserve flags bs =
     do { (x, bs) \<leftarrow> mark_nodes en reserve flags start bs;
          (case x of
             Done \<Rightarrow> Some (Some 0, bs)
           | Fell_off \<Rightarrow> Some (None, bs)
           | Failed err pos \<Rightarrow>
               do { (y, bs) \<leftarrow> mark_nodes pos False 0 start bs; Some (Some err, bs) }) }"

definition free_bootmem :: "int \<Rightarrow> int \<Rightarrow> bootmem_data list \<Rightarrow> bootmem_data list option" where
  "free_bootmem addr sz bs =
     do { (r, bs) \<leftarrow> mark_bootmem (PFN_UP addr) (PFN_DOWN (u64 (addr + sz))) False 0 bs; Some bs }"

definition reserve_bootmem ::
  "int \<Rightarrow> int \<Rightarrow> int \<Rightarrow> bootmem_data list \<Rightarrow> (int option \<times> bootmem_data list) option" where
  "reserve_bootmem addr sz flags bs =
     mark_bootmem (PFN_DOWN addr) (PFN_UP (u64 (addr + sz))) True flags bs"


section \<open>Allocation\<close>

text \<open>The scan of a candidate block for a reserved page: \<open>Some (Some i)\<close> is the first one.\<close>

fun scan_block :: "bitmap \<Rightarrow> int \<Rightarrow> nat \<Rightarrow> int option option" where
  "scan_block byte i 0 = Some None"
| "scan_block byte i (Suc k) =
     do { t \<leftarrow> test_bit (s32 i) byte; if t \<noteq> 0 then Some (Some i) else scan_block byte (i + 1) k }"

text \<open>
  The search loop of \<open>alloc_bootmem_core\<close>, with its \<^verbatim>\<open>goto find_block\<close> and the fallback below the
  hint. \<open>Some None\<close> says that the node has no block. The search of the bit map may answer \<open>-1\<close>,
  which becomes the largest \<open>unsigned long\<close>.
\<close>

partial_function (option) find_block ::
  "bootmem_data \<Rightarrow> bitmap \<Rightarrow> int \<Rightarrow> int \<Rightarrow> int \<Rightarrow> int \<Rightarrow> int \<Rightarrow> int option option" where
  "find_block bdata byte pages step midx fallback sidx =
     do { r \<leftarrow> find_next_zero_bit byte midx sidx;
          let sidx = align_idx bdata (u64 r) step;
          let eidx = u64 (sidx + pages);
          if midx \<le> sidx \<or> midx < eidx then
            (if fallback \<noteq> 0
             then find_block bdata byte pages step midx 0 (align_idx bdata (u64 (fallback - 1)) step)
             else Some None)
          else
            do { hit \<leftarrow> scan_block byte sidx (nat (eidx - sidx));
                 (case hit of
                    None \<Rightarrow> Some (Some sidx)
                  | Some i \<Rightarrow>
                      (let sidx = align_idx bdata i step;
                           sidx = (if sidx = i then u64 (sidx + step) else sidx)
                       in find_block bdata byte pages step midx fallback sidx)) } }"

text \<open>
  The second half of the loop body: a region that follows the last allocation within its page starts
  there, the pages are reserved, and the answer is the region's address.
\<close>

definition take_block :: "bootmem_data \<Rightarrow> int \<Rightarrow> int \<Rightarrow> int \<Rightarrow> (int \<times> bootmem_data) option" where
  "take_block bdata sz align sidx =
     (let start_off =
            (if last_end_off bdata mod 4096 \<noteq> 0 \<and> u64 (PFN_DOWN (last_end_off bdata) + 1) = sidx
             then align_off bdata (last_end_off bdata) align
             else PFN_PHYS sidx);
          merge = of_bool (PFN_DOWN start_off < sidx);
          end_off = u64 (start_off + sz);
          bdata = bdata\<lparr>last_end_off := end_off, hint_idx := PFN_UP end_off\<rparr>
      in do { (err, bdata) \<leftarrow> reserve_range bdata (PFN_DOWN start_off + merge) (PFN_UP end_off) BOOTMEM_EXCLUSIVE;
              Some (phys_to_virt (u64 (PFN_PHYS (node_min_pfn bdata) + start_off)), bdata) })"

definition alloc_bootmem_core ::
  "bootmem_data \<Rightarrow> int \<Rightarrow> int \<Rightarrow> int \<Rightarrow> int \<Rightarrow> (int \<times> bootmem_data) option" where
  "alloc_bootmem_core bdata sz align goal limit =
     (case node_bootmem_map bdata of
        None \<Rightarrow> Some (0, bdata)
      | Some byte \<Rightarrow>
          let mn = node_min_pfn bdata; mx = node_low_pfn bdata;
              goal = drop_bit PAGE_SHIFT goal; limit = drop_bit PAGE_SHIFT limit;
              mx = (if limit \<noteq> 0 \<and> limit < mx then limit else mx)
          in if mx \<le> mn then Some (0, bdata)
             else
               let step = max (drop_bit PAGE_SHIFT align) 1;
                   start = (if goal \<noteq> 0 \<and> mn < goal \<and> goal < mx then ALIGN goal step else ALIGN mn step);
                   sidx = u64 (start - mn); midx = u64 (mx - mn);
                   hinted = sidx < hint_idx bdata;
                   fallback = (if hinted then u64 (sidx + 1) else 0);
                   sidx = (if hinted then align_idx bdata (hint_idx bdata) step else sidx)
               in do { found \<leftarrow> find_block bdata byte (PFN_UP sz) step midx fallback sidx;
                       (case found of
                          None \<Rightarrow> Some (0, bdata)
                        | Some sidx \<Rightarrow> take_block bdata sz align sidx) })"

text \<open>
  The wrappers. \<open>slab\<close> is \<open>Some p\<close> once the slab allocator is up and \<open>kzalloc\<close> answers \<open>p\<close>; node 0 is
  the preferred node. The list walk stops at the first node that answers.
\<close>

definition alloc_arch_preferred_bootmem ::
  "int option \<Rightarrow> bootmem_data list \<Rightarrow> int \<Rightarrow> int \<Rightarrow> int \<Rightarrow> int \<Rightarrow> (int \<times> bootmem_data list) option" where
  "alloc_arch_preferred_bootmem slab bs sz align goal limit =
     (case slab of
        Some p \<Rightarrow> Some (p, bs)
      | None \<Rightarrow> (case bs of
          [] \<Rightarrow> None
        | b # bs \<Rightarrow> do { (p, b) \<leftarrow> alloc_bootmem_core b sz align goal limit; Some (p, b # bs) }))"

fun alloc_nodes ::
  "bootmem_data list \<Rightarrow> int \<Rightarrow> int \<Rightarrow> int \<Rightarrow> int \<Rightarrow> (int \<times> bootmem_data list) option" where
  "alloc_nodes [] sz align goal limit = Some (0, [])"
| "alloc_nodes (b # bs) sz align goal limit =
     (if goal \<noteq> 0 \<and> node_low_pfn b \<le> PFN_DOWN goal then
        do { (p, bs) \<leftarrow> alloc_nodes bs sz align goal limit; Some (p, b # bs) }
      else if limit \<noteq> 0 \<and> PFN_DOWN limit \<le> node_min_pfn b then Some (0, b # bs)
      else do { (p, b) \<leftarrow> alloc_bootmem_core b sz align goal limit;
                if p \<noteq> 0 then Some (p, b # bs)
                else do { (p, bs) \<leftarrow> alloc_nodes bs sz align goal limit; Some (p, b # bs) } })"

definition alloc_bootmem_try ::
  "int option \<Rightarrow> bootmem_data list \<Rightarrow> int \<Rightarrow> int \<Rightarrow> int \<Rightarrow> int \<Rightarrow> (int \<times> bootmem_data list) option" where
  "alloc_bootmem_try slab bs sz align goal limit =
     do { (p, bs) \<leftarrow> alloc_arch_preferred_bootmem slab bs sz align goal limit;
          if p \<noteq> 0 then Some (p, bs) else alloc_nodes bs sz align goal limit }"

definition alloc_bootmem_nopanic_limit ::
  "int option \<Rightarrow> bootmem_data list \<Rightarrow> int \<Rightarrow> int \<Rightarrow> int \<Rightarrow> int \<Rightarrow> (int \<times> bootmem_data list) option" where
  "alloc_bootmem_nopanic_limit slab bs sz align goal limit =
     do { (p, bs) \<leftarrow> alloc_bootmem_try slab bs sz align goal limit;
          if p = 0 \<and> goal \<noteq> 0 then alloc_bootmem_try slab bs sz align 0 limit else Some (p, bs) }"

definition alloc_bootmem_limit ::
  "int option \<Rightarrow> bootmem_data list \<Rightarrow> int \<Rightarrow> int \<Rightarrow> int \<Rightarrow> int \<Rightarrow> (int \<times> bootmem_data list) option" where
  "alloc_bootmem_limit slab bs sz align goal limit =
     alloc_bootmem_nopanic_limit slab bs sz align goal limit"

text \<open>The node variants; the machine has one node, the head of the list.\<close>

definition alloc_bootmem_node_with ::
  "(bootmem_data list \<Rightarrow> (int \<times> bootmem_data list) option) \<Rightarrow>
   int option \<Rightarrow> bootmem_data list \<Rightarrow> int \<Rightarrow> int \<Rightarrow> int \<Rightarrow> int \<Rightarrow> (int \<times> bootmem_data list) option" where
  "alloc_bootmem_node_with rest slab bs sz align goal limit =
     do { (p, bs) \<leftarrow> alloc_arch_preferred_bootmem slab bs sz align goal limit;
          if p \<noteq> 0 then Some (p, bs)
          else (case bs of
                  [] \<Rightarrow> None
                | b # others \<Rightarrow>
                    do { (p, b) \<leftarrow> alloc_bootmem_core b sz align goal limit;
                         if p \<noteq> 0 then Some (p, b # others) else rest (b # others) }) }"

definition alloc_bootmem_node_limit ::
  "int option \<Rightarrow> bootmem_data list \<Rightarrow> int \<Rightarrow> int \<Rightarrow> int \<Rightarrow> int \<Rightarrow> (int \<times> bootmem_data list) option" where
  "alloc_bootmem_node_limit slab bs sz align goal limit =
     alloc_bootmem_node_with (\<lambda>bs. alloc_bootmem_limit slab bs sz align goal limit) slab bs sz align goal limit"

definition alloc_bootmem_node_c ::
  "int option \<Rightarrow> bootmem_data list \<Rightarrow> int \<Rightarrow> int \<Rightarrow> int \<Rightarrow> (int \<times> bootmem_data list) option" where
  "alloc_bootmem_node_c slab bs sz align goal =
     (case slab of Some p \<Rightarrow> Some (p, bs)
      | None \<Rightarrow> alloc_bootmem_node_limit slab bs sz align goal 0)"

definition alloc_bootmem_low ::
  "int option \<Rightarrow> bootmem_data list \<Rightarrow> int \<Rightarrow> int \<Rightarrow> int \<Rightarrow> (int \<times> bootmem_data list) option" where
  "alloc_bootmem_low slab bs sz align goal =
     alloc_bootmem_limit slab bs sz align goal ARCH_LOW_ADDRESS_LIMIT"

definition alloc_bootmem_nopanic ::
  "int option \<Rightarrow> bootmem_data list \<Rightarrow> int \<Rightarrow> int \<Rightarrow> int \<Rightarrow> (int \<times> bootmem_data list) option" where
  "alloc_bootmem_nopanic slab bs sz align goal = alloc_bootmem_nopanic_limit slab bs sz align goal 0"

definition alloc_bootmem_node_nopanic ::
  "int option \<Rightarrow> bootmem_data list \<Rightarrow> int \<Rightarrow> int \<Rightarrow> int \<Rightarrow> (int \<times> bootmem_data list) option" where
  "alloc_bootmem_node_nopanic slab bs sz align goal =
     alloc_bootmem_node_with (\<lambda>bs. alloc_bootmem_nopanic slab bs sz align goal) slab bs sz align goal 0"

definition alloc_bootmem ::
  "int option \<Rightarrow> bootmem_data list \<Rightarrow> int \<Rightarrow> int \<Rightarrow> int \<Rightarrow> (int \<times> bootmem_data list) option" where
  "alloc_bootmem slab bs sz align goal = alloc_bootmem_limit slab bs sz align goal 0"


section \<open>Handing the pages to the page allocator\<close>

text \<open>
  \<open>free_all_bootmem_core\<close> calls \<^verbatim>\<open>__free_pages_bootmem\<close> on blocks of pages; the model returns those
  calls, as pairs of page frame and order, with the count. \<open>map_pfn\<close> is the frame of the map.
\<close>

fun free_vec :: "32 word \<Rightarrow> int \<Rightarrow> nat \<Rightarrow> nat \<Rightarrow> (int \<times> nat) list" where
  "free_vec vec start off 0 = []"
| "free_vec vec start off (Suc k) =
     (if vec = 0 then []
      else (if vec AND 1 \<noteq> 0 then [(start + int off, 0)] else [])
           @ free_vec (drop_bit 1 vec) start (Suc off) k)"

function free_words :: "bootmem_data \<Rightarrow> bitmap \<Rightarrow> bool \<Rightarrow> int \<Rightarrow> (int \<times> nat) list option" where
  "free_words bdata byte aligned start =
     (if start < node_low_pfn bdata then
        let idx = start - node_min_pfn bdata
        in if idx < 0 \<or> length byte \<le> nat (idx div 32) then None
           else let vec = NOT (byte ! nat (idx div 32))
                in do { rest \<leftarrow> free_words bdata byte aligned (start + 32);
                        Some ((if aligned \<and> vec = - 1 \<and> start + 32 < node_low_pfn bdata then [(start, 5)]
                               else free_vec vec start 0 32) @ rest) }
      else Some [])"
  by pat_completeness auto
termination
  by (relation "measure (\<lambda>(b, _, _, start). nat (node_low_pfn b - start))") auto

declare free_words.simps [simp del]

definition free_all_bootmem_core :: "int \<Rightarrow> bootmem_data \<Rightarrow> (int \<times> (int \<times> nat) list) option" where
  "free_all_bootmem_core map_pfn bdata =
     (case node_bootmem_map bdata of
        None \<Rightarrow> Some (0, [])
      | Some byte \<Rightarrow>
          do { let aligned = (node_min_pfn bdata AND (32 - 1) = 0);
               calls \<leftarrow> free_words bdata byte aligned (node_min_pfn bdata);
               let pages = bootmem_bootmap_pages (u64 (node_low_pfn bdata - node_min_pfn bdata));
               Some (u64 ((\<Sum>(p, o') \<leftarrow> calls. 2 ^ o') + pages),
                     calls @ map (\<lambda>i. (map_pfn + int i, 0)) [0..<nat pages]) })"

text \<open>All nodes, each with the frame of its map.\<close>

fun free_all_bootmem :: "(int \<times> bootmem_data) list \<Rightarrow> (int \<times> (int \<times> nat) list) option" where
  "free_all_bootmem [] = Some (0, [])"
| "free_all_bootmem ((map_pfn, b) # bs) =
     do { (n, calls) \<leftarrow> free_all_bootmem_core map_pfn b;
          (m, rest) \<leftarrow> free_all_bootmem bs;
          Some (u64 (n + m), calls @ rest) }"


section \<open>Registering a node\<close>

fun link_bootmem :: "bootmem_data \<Rightarrow> bootmem_data list \<Rightarrow> bootmem_data list" where
  "link_bootmem bdata [] = [bdata]"
| "link_bootmem bdata (ent # bs) =
     (if node_min_pfn bdata < node_min_pfn ent then bdata # ent # bs else ent # link_bootmem bdata bs)"

text \<open>\<open>mem\<close> is the memory from the place of the map on; the bytes of the map are set to \<^verbatim>\<open>0xFF\<close>.\<close>

definition init_bootmem_core ::
  "bootmem_data \<Rightarrow> bitmap \<Rightarrow> int \<Rightarrow> int \<Rightarrow> bootmem_data list \<Rightarrow> (int \<times> bootmem_data list) option" where
  "init_bootmem_core bdata mem start en bs =
     (let mapsize = bootmap_bytes (u64 (en - start)); n = nat (mapsize div 4)
      in if length mem < n then None
         else Some (mapsize, link_bootmem
                (bdata\<lparr>node_min_pfn := start, node_low_pfn := en,
                       node_bootmem_map := Some (replicate n (- 1) @ drop n mem)\<rparr>) bs))"

section \<open>The marking loops\<close>

lemma free_loop_spec:
  assumes "block idx (int k) \<subseteq> bit_dom byte" "0 \<le> idx" "idx + int k < 2147483648"
  shows "\<exists>byte'. free_loop idx k byte = Some byte' \<and> bits byte' = bits byte - block idx (int k) \<and>
    bit_dom byte' = bit_dom byte"
  using assms
proof (induction k arbitrary: idx byte)
  case (Suc k)
  have "idx \<in> bit_dom byte" using Suc.prems(1) by (auto simp: block_def)
  from bm.tac [OF this] obtain b1 where b1: "test_and_clear_bit idx byte = Some (if idx \<in> bits byte then 1 else 0, b1)"
    "bits b1 = bits byte - {idx}" "bit_dom b1 = bit_dom byte" by blast
  have "block (idx + 1) (int k) \<subseteq> bit_dom b1" using Suc.prems(1) b1(3) by (auto simp: block_def)
  from Suc.IH [OF this] Suc.prems(2,3) obtain b2 where "free_loop (idx + 1) k b1 = Some b2"
    "bits b2 = bits b1 - block (idx + 1) (int k)" "bit_dom b2 = bit_dom b1" by auto
  with b1 Suc.prems(2,3) show ?case by (auto simp: block_def)
qed simp

lemma reserve_loop_spec:
  assumes "block idx (int k) \<subseteq> bit_dom byte" "0 \<le> idx" "idx + int k < 2147483648"
  shows "\<exists>stop byte'. reserve_loop ex idx k byte = Some (stop, byte') \<and> bit_dom byte' = bit_dom byte \<and>
    (case stop of
       None \<Rightarrow> bits byte' = bits byte \<union> block idx (int k) \<and> (ex \<longrightarrow> block idx (int k) \<inter> bits byte = {})
     | Some i \<Rightarrow> ex \<and> idx \<le> i \<and> i < idx + int k \<and> i \<in> bits byte \<and>
         bits byte' = bits byte \<union> block idx (i - idx) \<and> block idx (i - idx) \<inter> bits byte = {})"
  using assms
proof (induction k arbitrary: idx byte)
  case (Suc k)
  have dom: "idx \<in> bit_dom byte" using Suc.prems(1) by (auto simp: block_def)
  from bm.tas [OF this] obtain b1 where b1: "test_and_set_bit idx byte = Some (if idx \<in> bits byte then 1 else 0, b1)"
    "bits b1 = insert idx (bits byte)" "bit_dom b1 = bit_dom byte" by blast
  have u: "s32 idx = idx" using Suc.prems by simp
  show ?case
  proof (cases "idx \<in> bits byte \<and> ex")
    case True
    with b1 u show ?thesis by (auto simp: insert_absorb)
  next
    case False
    have "block (idx + 1) (int k) \<subseteq> bit_dom b1" using Suc.prems(1) b1(3) by (auto simp: block_def)
    from Suc.IH [OF this] Suc.prems(2,3) obtain stop b2 where s: "reserve_loop ex (idx + 1) k b1 = Some (stop, b2)"
      "bit_dom b2 = bit_dom b1"
      "case stop of
         None \<Rightarrow> bits b2 = bits b1 \<union> block (idx + 1) (int k) \<and> (ex \<longrightarrow> block (idx + 1) (int k) \<inter> bits b1 = {})
       | Some i \<Rightarrow> ex \<and> idx + 1 \<le> i \<and> i < idx + 1 + int k \<and> i \<in> bits b1 \<and>
           bits b2 = bits b1 \<union> block (idx + 1) (i - (idx + 1)) \<and> block (idx + 1) (i - (idx + 1)) \<inter> bits b1 = {}"
      by auto
    have r: "reserve_loop ex idx (Suc k) byte = Some (stop, b2)" using b1 u s(1) False by auto
    show ?thesis
    proof (cases stop)
      case None
      have "block idx (int (Suc k)) = insert idx (block (idx + 1) (int k))" by (auto simp: block_def)
      with None r s b1 False show ?thesis by (auto simp del: reserve_loop.simps)
    next
      case (Some i)
      with s(3) have i: "idx + 1 \<le> i" by simp
      then have "block idx (i - idx) = insert idx (block (idx + 1) (i - (idx + 1)))" by (auto simp: block_def)
      with Some r s b1 False i show ?thesis by (auto simp del: reserve_loop.simps)
    qed
  qed
qed simp

section \<open>Well-formed nodes\<close>

definition bd_ok :: "bootmem_data \<Rightarrow> bool" where
  "bd_ok b \<longleftrightarrow> 0 \<le> node_min_pfn b \<and> node_min_pfn b < node_low_pfn b \<and> node_low_pfn b \<le> 1048576 \<and>
     (case node_bootmem_map b of
        None \<Rightarrow> False
      | Some byte \<Rightarrow> node_low_pfn b - node_min_pfn b \<le> 32 * int (length byte) \<and> length byte \<le> 67108862)"

text \<open>The reserved page frames of a node and of a list of nodes: the abstract value.\<close>

definition frames :: "bootmem_data \<Rightarrow> int set" where
  "frames b = {node_min_pfn b ..< node_low_pfn b}"

definition held :: "bootmem_data \<Rightarrow> int set" where
  "held b = {p \<in> frames b. p - node_min_pfn b \<in> bits (the (node_bootmem_map b))}"

definition same_node :: "bootmem_data \<Rightarrow> bootmem_data \<Rightarrow> bool" where
  "same_node b b' \<longleftrightarrow> node_min_pfn b' = node_min_pfn b \<and> node_low_pfn b' = node_low_pfn b \<and> bd_ok b'"

lemma frames_same [simp]: "same_node b b' \<Longrightarrow> frames b' = frames b"
  by (simp add: same_node_def frames_def)

lemma bd_okD:
  assumes "bd_ok b"
  obtains byte where "node_bootmem_map b = Some byte" "{0..<node_low_pfn b - node_min_pfn b} \<subseteq> bit_dom byte"
    "length byte \<le> 67108862"
  using assms by (auto simp: bd_ok_def bit_dom_def split: option.splits)

text \<open>Freeing and reserving a range of a node, by page index.\<close>

lemma free_range_spec:
  assumes ok: "bd_ok b" and r: "0 \<le> s" "e \<le> node_low_pfn b - node_min_pfn b"
  shows "\<exists>b'. free_range b s e = Some b' \<and> same_node b b' \<and>
    bits (the (node_bootmem_map b')) = bits (the (node_bootmem_map b)) - {s..<e} \<and>
    last_end_off b' = last_end_off b \<and> hint_idx b' = min (hint_idx b) s"
proof -
  obtain byte where m: "node_bootmem_map b = Some byte" "{0..<node_low_pfn b - node_min_pfn b} \<subseteq> bit_dom byte"
    using ok by (elim bd_okD)
  define b0 where "b0 = (if hint_idx b > s then b\<lparr>hint_idx := s\<rparr> else b)"
  have "block s (int (nat (e - s))) = {s..<e}" by (auto simp: block_def)
  moreover have "{s..<e} \<subseteq> bit_dom byte" using m(2) r by auto
  moreover have "s + int (nat (e - s)) < 2147483648 \<or> e \<le> s" using r ok by (auto simp: bd_ok_def)
  ultimately obtain byte' where f: "free_loop s (nat (e - s)) byte = Some byte'"
    "bits byte' = bits byte - {s..<e}" "bit_dom byte' = bit_dom byte"
    using free_loop_spec [of s "nat (e - s)" byte] r(1) by fastforce
  define b' where "b' = b0\<lparr>node_bootmem_map := Some byte'\<rparr>"
  have "free_range b s e = Some b'"
    using f(1) m(1) by (simp add: free_range_def b0_def b'_def)
  moreover have "same_node b b'" using ok m(1) f(3)
    by (simp add: same_node_def bd_ok_def b'_def b0_def bit_dom_length)
  ultimately show ?thesis using f(2) m(1) by (auto simp: b'_def b0_def)
qed

lemma reserve_range_spec:
  assumes ok: "bd_ok b" and r: "0 \<le> s" "e \<le> node_low_pfn b - node_min_pfn b" "0 \<le> hint_idx b"
  defines "B \<equiv> bits (the (node_bootmem_map b))"
  shows "\<exists>err b'. reserve_range b s e flags = Some (err, b') \<and> same_node b b' \<and> last_end_off b' = last_end_off b \<and>
    (if flags AND BOOTMEM_EXCLUSIVE \<noteq> 0 \<and> {s..<e} \<inter> B \<noteq> {}
     then err = - EBUSY \<and> bits (the (node_bootmem_map b')) = B \<and> hint_idx b' = min (hint_idx b) s
     else err = 0 \<and> bits (the (node_bootmem_map b')) = B \<union> {s..<e} \<and> hint_idx b' = hint_idx b)"
proof -
  obtain byte where m: "node_bootmem_map b = Some byte" "{0..<node_low_pfn b - node_min_pfn b} \<subseteq> bit_dom byte"
    using ok by (elim bd_okD)
  have B: "B = bits byte" by (simp add: B_def m(1))
  let ?ex = "flags AND BOOTMEM_EXCLUSIVE \<noteq> 0"
  have blk: "block s (int (nat (e - s))) = {s..<e}" by (auto simp: block_def)
  have sub: "{s..<e} \<subseteq> bit_dom byte" using m(2) r by auto
  have rl: "\<exists>stop byte'. reserve_loop ?ex s (nat (e - s)) byte = Some (stop, byte') \<and> bit_dom byte' = bit_dom byte \<and>
    (case stop of
       None \<Rightarrow> bits byte' = bits byte \<union> {s..<e} \<and> (?ex \<longrightarrow> {s..<e} \<inter> bits byte = {})
     | Some i \<Rightarrow> ?ex \<and> s \<le> i \<and> i < e \<and> i \<in> bits byte \<and>
         bits byte' = bits byte \<union> block s (i - s) \<and> block s (i - s) \<inter> bits byte = {})"
  proof (cases "s \<le> e")
    case True
    then have "s + int (nat (e - s)) < 2147483648" using r ok by (auto simp: bd_ok_def)
    moreover have n: "int (nat (e - s)) = e - s" "s + (e - s) = e" using True by simp_all
    ultimately show ?thesis
      using reserve_loop_spec [of s "nat (e - s)" byte ?ex] r(1) sub blk unfolding n
      by (simp cong: option.case_cong)
  next
    case False
    then show ?thesis by simp
  qed
  then obtain stop byte' where s: "reserve_loop ?ex s (nat (e - s)) byte = Some (stop, byte')"
    "bit_dom byte' = bit_dom byte"
    "case stop of
       None \<Rightarrow> bits byte' = bits byte \<union> {s..<e} \<and> (?ex \<longrightarrow> {s..<e} \<inter> bits byte = {})
     | Some i \<Rightarrow> ?ex \<and> s \<le> i \<and> i < e \<and> i \<in> bits byte \<and>
         bits byte' = bits byte \<union> block s (i - s) \<and> block s (i - s) \<inter> bits byte = {}" by blast
  define b1 where "b1 = b\<lparr>node_bootmem_map := Some byte'\<rparr>"
  have same: "same_node b b1" "bd_ok b1" using ok m(1) s(2)
    by (simp_all add: same_node_def bd_ok_def b1_def bit_dom_length)
  show ?thesis
  proof (cases stop)
    case None
    then have "reserve_range b s e flags = Some (0, b1)"
      using m(1) s(1) by (simp add: reserve_range_def b1_def)
    with None s(3) same show ?thesis by (auto simp: B b1_def)
  next
    case (Some i)
    with s(3) have i: "?ex" "s \<le> i" "i < e" "i \<in> bits byte" "bits byte' = bits byte \<union> block s (i - s)"
      "block s (i - s) \<inter> bits byte = {}" by simp_all
    have "i \<le> node_low_pfn b1 - node_min_pfn b1" using i(3) r(2) by (simp add: b1_def)
    from free_range_spec [OF same(2) r(1) this] obtain b2 where b2: "free_range b1 s i = Some b2" "same_node b1 b2"
      "bits (the (node_bootmem_map b2)) = bits byte' - {s..<i}"
      "last_end_off b2 = last_end_off b1" "hint_idx b2 = min (hint_idx b1) s" by (auto simp: b1_def)
    have "reserve_range b s e flags = Some (- EBUSY, b2)"
      using m(1) s(1) Some b2(1) by (simp add: reserve_range_def b1_def)
    moreover have "block s (i - s) = {s..<i}" by (simp add: block_def)
    then have "bits byte' - {s..<i} = bits byte" using i(5,6) by auto
    moreover have "same_node b b2" using same(1) b2(2) by (simp add: same_node_def)
    moreover have "{s..<e} \<inter> B \<noteq> {}" using i(2-4) B by auto
    ultimately show ?thesis using b2(3-5) i(1) B by (simp add: b1_def)
  qed
qed


section \<open>Ranges over several nodes\<close>

definition nodes_ok :: "bootmem_data list \<Rightarrow> bool" where
  "nodes_ok bs \<longleftrightarrow> (\<forall>b \<in> set bs. bd_ok b \<and> 0 \<le> hint_idx b) \<and> sorted_wrt (\<lambda>a b. node_low_pfn a \<le> node_min_pfn b) bs"

definition all_frames :: "bootmem_data list \<Rightarrow> int set" where
  "all_frames bs = (\<Union>b \<in> set bs. frames b)"

definition all_held :: "bootmem_data list \<Rightarrow> int set" where
  "all_held bs = (\<Union>b \<in> set bs. held b)"

lemma node_list_simps [simp]:
  "all_frames [] = {}" "all_frames (b # bs) = frames b \<union> all_frames bs"
  "all_held [] = {}" "all_held (b # bs) = held b \<union> all_held bs"
  by (simp_all add: all_frames_def all_held_def)

lemma nodes_ok_Cons [simp]:
  "nodes_ok [] = True"
  "nodes_ok (b # bs) \<longleftrightarrow> bd_ok b \<and> 0 \<le> hint_idx b \<and> (\<forall>p \<in> all_frames bs. node_low_pfn b \<le> p) \<and> nodes_ok bs"
proof -
  have "(\<forall>c \<in> set bs. node_low_pfn b \<le> node_min_pfn c) \<longleftrightarrow> (\<forall>p \<in> all_frames bs. node_low_pfn b \<le> p)"
    if "\<forall>c \<in> set bs. bd_ok c"
    using that by (fastforce simp: all_frames_def frames_def bd_ok_def)
  then show "nodes_ok (b # bs) \<longleftrightarrow> bd_ok b \<and> 0 \<le> hint_idx b \<and> (\<forall>p \<in> all_frames bs. node_low_pfn b \<le> p) \<and> nodes_ok bs"
    by (auto simp: nodes_ok_def)
qed (simp add: nodes_ok_def)

lemma held_frames: "held b \<subseteq> frames b" "all_held bs \<subseteq> all_frames bs"
  by (auto simp: held_def all_held_def all_frames_def)

text \<open>Marking part of a node, in page frames.\<close>

lemma mark_node_spec:
  assumes ok: "bd_ok b" "0 \<le> hint_idx b" and r: "node_min_pfn b \<le> s" "s \<le> e" "e \<le> node_low_pfn b"
  shows "\<exists>err b'. mark_bootmem_node b s e reserve flags = Some (err, b') \<and> same_node b b' \<and> 0 \<le> hint_idx b' \<and>
    (if \<not> reserve then err = 0 \<and> held b' = held b - {s..<e}
     else if flags AND BOOTMEM_EXCLUSIVE \<noteq> 0 \<and> {s..<e} \<inter> held b \<noteq> {} then err = - EBUSY \<and> held b' = held b
     else err = 0 \<and> held b' = held b \<union> {s..<e})"
proof -
  let ?m = "node_min_pfn b"
  have u: "u64 (s - ?m) = s - ?m" "u64 (e - ?m) = e - ?m" using ok r by (auto simp: bd_ok_def)
  have i: "0 \<le> s - ?m" "e - ?m \<le> node_low_pfn b - ?m" using r by simp_all
  have shift: "p - ?m \<in> {s - ?m..<e - ?m} \<longleftrightarrow> p \<in> {s..<e}" for p by auto
  have meet: "{s - ?m..<e - ?m} \<inter> bits (the (node_bootmem_map b)) \<noteq> {} \<longleftrightarrow> {s..<e} \<inter> held b \<noteq> {}"
  proof
    assume "{s - ?m..<e - ?m} \<inter> bits (the (node_bootmem_map b)) \<noteq> {}"
    then obtain i where "i \<in> bits (the (node_bootmem_map b))" "s - ?m \<le> i" "i < e - ?m" by auto
    then have "i + ?m \<in> {s..<e} \<inter> held b" using r by (auto simp: held_def frames_def)
    then show "{s..<e} \<inter> held b \<noteq> {}" by blast
  next
    assume "{s..<e} \<inter> held b \<noteq> {}"
    then obtain p where "p \<in> {s..<e}" "p - ?m \<in> bits (the (node_bootmem_map b))" unfolding held_def by blast
    then have "p - ?m \<in> {s - ?m..<e - ?m} \<inter> bits (the (node_bootmem_map b))" by auto
    then show "{s - ?m..<e - ?m} \<inter> bits (the (node_bootmem_map b)) \<noteq> {}" by blast
  qed
  show ?thesis
  proof (cases reserve)
    case False
    from free_range_spec [OF ok(1) i] obtain b' where b': "free_range b (s - ?m) (e - ?m) = Some b'" "same_node b b'"
      "bits (the (node_bootmem_map b')) = bits (the (node_bootmem_map b)) - {s - ?m..<e - ?m}"
      "hint_idx b' = min (hint_idx b) (s - ?m)" by auto
    then have "held b' = held b - {s..<e}"
      by (auto simp: held_def same_node_def frames_def)
    with b' False u ok r show ?thesis by (simp add: mark_bootmem_node_def)
  next
    case True
    from reserve_range_spec [OF ok(1) i ok(2), of flags] obtain err b' where
      b': "reserve_range b (s - ?m) (e - ?m) flags = Some (err, b')" "same_node b b'"
      "if flags AND BOOTMEM_EXCLUSIVE \<noteq> 0 \<and> {s..<e} \<inter> held b \<noteq> {}
       then err = - EBUSY \<and> bits (the (node_bootmem_map b')) = bits (the (node_bootmem_map b)) \<and>
            hint_idx b' = min (hint_idx b) (s - ?m)
       else err = 0 \<and> bits (the (node_bootmem_map b')) = bits (the (node_bootmem_map b)) \<union> {s - ?m..<e - ?m} \<and>
            hint_idx b' = hint_idx b" unfolding meet by auto
    have h: "0 \<le> hint_idx b'" using b'(3) ok(2) r(1) by (auto split: if_splits)
    have "held b' = (if flags AND BOOTMEM_EXCLUSIVE \<noteq> 0 \<and> {s..<e} \<inter> held b \<noteq> {} then held b else held b \<union> {s..<e})"
      using b'(2,3) r by (auto simp: held_def same_node_def frames_def split: if_splits)
    with b' True u h show ?thesis by (auto simp: mark_bootmem_node_def split: if_splits)
  qed
qed

text \<open>
  A pass over the nodes: a range of frames that exist is marked in every node it crosses; an
  exclusive reservation stops at the first node with a reserved page of the range.
\<close>

definition marked :: "int \<Rightarrow> int \<Rightarrow> bool \<Rightarrow> int \<Rightarrow> bootmem_data list \<Rightarrow> mark_exit \<Rightarrow> bootmem_data list \<Rightarrow> bool" where
  "marked pos en reserve flags bs x bs' \<longleftrightarrow>
     list_all2 same_node bs bs' \<and> nodes_ok bs' \<and>
     (case x of
        Done \<Rightarrow> all_held bs' = (if reserve then all_held bs \<union> {pos..<en} else all_held bs - {pos..<en}) \<and>
          (reserve \<and> flags AND BOOTMEM_EXCLUSIVE \<noteq> 0 \<longrightarrow> {pos..<en} \<inter> all_held bs = {})
      | Failed err p \<Rightarrow> reserve \<and> flags AND BOOTMEM_EXCLUSIVE \<noteq> 0 \<and> err = - EBUSY \<and> pos \<le> p \<and> p < en \<and>
          {pos..<p} \<inter> all_held bs = {} \<and> {p..<en} \<inter> all_held bs \<noteq> {} \<and>
          all_held bs' = all_held bs \<union> {pos..<p}
      | Fell_off \<Rightarrow> False)"

lemma same_all_frames: "list_all2 same_node bs bs' \<Longrightarrow> all_frames bs' = all_frames bs"
  by (induction bs bs' rule: list_all2_induct) simp_all

lemma mark_nodes_spec:
  assumes "nodes_ok bs" "pos \<le> en" "insert pos {pos..<en} \<subseteq> all_frames bs"
  shows "\<exists>x bs'. mark_nodes en reserve flags pos bs = Some (x, bs') \<and> marked pos en reserve flags bs x bs'"
  using assms
proof (induction bs arbitrary: pos)
  case Nil
  then show ?case by simp
next
  case (Cons b bs)
  have ok: "bd_ok b" "0 \<le> hint_idx b" "\<And>p. p \<in> all_frames bs \<Longrightarrow> node_low_pfn b \<le> p" "nodes_ok bs"
    using Cons.prems(1) by auto
  have hb: "held b \<subseteq> frames b" "all_held bs \<subseteq> all_frames bs" by (rule held_frames)+
  have sep: "p < node_low_pfn b" if "p \<in> held b" for p using that hb by (auto simp: frames_def)
  have sep': "node_low_pfn b \<le> p" if "p \<in> all_held bs" for p using that hb ok(3) by auto
  have "pos \<in> frames b \<union> all_frames bs" using Cons.prems(2,3) by auto
  then consider (here) "node_min_pfn b \<le> pos" "pos < node_low_pfn b" | (later) "node_low_pfn b \<le> pos"
    using ok(3) by (fastforce simp: frames_def)
  then show ?case
  proof cases
    case later
    then have "insert pos {pos..<en} \<subseteq> all_frames bs" using Cons.prems(3) by (force simp: frames_def)
    from Cons.IH [OF ok(4) Cons.prems(2) this] obtain x bs' where
      x: "mark_nodes en reserve flags pos bs = Some (x, bs')" "marked pos en reserve flags bs x bs'" by blast
    have "held b \<inter> {pos..<en'} = {}" for en' using sep later by fastforce
    then have "marked pos en reserve flags (b # bs) x (b # bs')"
      using x(2) ok same_all_frames [of bs bs']
      by (auto simp: marked_def same_node_def split: mark_exit.splits if_splits)
    with x(1) later show ?thesis by auto
  next
    case here
    let ?mx = "min (node_low_pfn b) en"
    have mx: "pos \<le> ?mx" "?mx \<le> node_low_pfn b" using here Cons.prems(2) by auto
    from mark_node_spec [OF ok(1,2) here(1) mx, of reserve flags] obtain err b' where
      b': "mark_bootmem_node b pos ?mx reserve flags = Some (err, b')" "same_node b b'" "0 \<le> hint_idx b'"
      "if \<not> reserve then err = 0 \<and> held b' = held b - {pos..<?mx}
       else if flags AND BOOTMEM_EXCLUSIVE \<noteq> 0 \<and> {pos..<?mx} \<inter> held b \<noteq> {} then err = - EBUSY \<and> held b' = held b
       else err = 0 \<and> held b' = held b \<union> {pos..<?mx}" by blast
    have ok': "bd_ok b'" "node_low_pfn b' = node_low_pfn b" using b'(2) by (auto simp: same_node_def)
    have refl: "list_all2 same_node bs bs"
      using ok(4) by (auto simp: list_all2_same same_node_def nodes_ok_def)
    consider (fail) "reserve" "err \<noteq> 0" | (stop) "\<not> (reserve \<and> err \<noteq> 0)" "en \<le> node_low_pfn b"
      | (go) "\<not> (reserve \<and> err \<noteq> 0)" "node_low_pfn b < en" by linarith
    then show ?thesis
    proof cases
      case fail
      then have f: "flags AND BOOTMEM_EXCLUSIVE \<noteq> 0" "{pos..<?mx} \<inter> held b \<noteq> {}" "err = - EBUSY" "held b' = held b"
        using b'(4) by (auto split: if_splits)
      then have "{pos..<en} \<inter> held b \<noteq> {}" by auto
      then have "marked pos en reserve flags (b # bs) (Failed err pos) (b' # bs)"
        using fail(1) f b'(2,3) ok ok' refl Cons.prems(2) by (auto simp: marked_def)
      with fail b'(1) here show ?thesis by (auto simp: Let_def)
    next
      case stop
      then have "?mx = en" by simp
      moreover have "all_held bs \<inter> {pos..<en} = {}" using sep' stop(2) by fastforce
      ultimately have "marked pos en reserve flags (b # bs) Done (b' # bs)"
        using b'(2-4) stop(1) ok ok' refl by (auto simp: marked_def EBUSY_def split: if_splits)
      with stop b'(1) here \<open>?mx = en\<close> show ?thesis by (auto simp: Let_def)
    next
      case go
      then have mx': "?mx = node_low_pfn b" by simp
      have "insert (node_low_pfn b) {node_low_pfn b..<en} \<subseteq> all_frames bs"
      proof
        fix p assume "p \<in> insert (node_low_pfn b) {node_low_pfn b..<en}"
        then have p: "p \<in> {node_low_pfn b..<en}" using go(2) by auto
        then have "p \<in> {pos..<en}" using here by simp
        then have "p \<in> frames b \<union> all_frames bs" using Cons.prems(3) by auto
        with p show "p \<in> all_frames bs" by (auto simp: frames_def)
      qed
      from Cons.IH [OF ok(4) less_imp_le [OF go(2)] this] obtain x bs' where
        x: "mark_nodes en reserve flags (node_low_pfn b) bs = Some (x, bs')"
        "marked (node_low_pfn b) en reserve flags bs x bs'" by blast
      have split: "{pos..<q} = {pos..<node_low_pfn b} \<union> {node_low_pfn b..<q}" if "node_low_pfn b \<le> q" for q
        using here that by auto
      have apart: "held b \<inter> {node_low_pfn b..<q} = {}" "all_held bs \<inter> {pos..<node_low_pfn b} = {}" for q
        using sep sep' by fastforce+
      have "marked pos en reserve flags (b # bs) x (b' # bs')"
      proof (cases x)
        case Done
        with x(2) b' go mx' split [of en] apart ok ok' same_all_frames [of bs bs'] show ?thesis
          by (auto simp: marked_def EBUSY_def split: if_splits)
      next
        case (Failed e p)
        with x(2) have p: "node_low_pfn b \<le> p" by (simp add: marked_def)
        have "{pos..<en} \<inter> all_held (b # bs) \<noteq> {}" if "{p..<en} \<inter> all_held bs \<noteq> {}"
        proof -
          have "{p..<en} \<subseteq> {pos..<en}" using p here by auto
          with that show ?thesis unfolding node_list_simps by blast
        qed
        with Failed x(2) b' go mx' split [of p] p here apart ok ok' same_all_frames [of bs bs'] show ?thesis
          by (auto simp: marked_def EBUSY_def split: if_splits)
      qed (use x(2) in \<open>simp add: marked_def\<close>)
      moreover have "mark_nodes en reserve flags pos (b # bs) = Some (x, b' # bs')"
        using go b'(1) here x(1) mx' ok'(2) by (auto simp: Let_def)
      ultimately show ?thesis by blast
    qed
  qed
qed


text \<open>The whole operation: a failed exclusive reservation leaves the reserved set as it was.\<close>

lemma mark_bootmem_spec:
  assumes ok: "nodes_ok bs" and r: "start < en" "{start..<en} \<subseteq> all_frames bs"
  shows "\<exists>r bs'. mark_bootmem start en reserve flags bs = Some (Some r, bs') \<and> nodes_ok bs' \<and>
    all_frames bs' = all_frames bs \<and>
    (if \<not> reserve then r = 0 \<and> all_held bs' = all_held bs - {start..<en}
     else if flags AND BOOTMEM_EXCLUSIVE \<noteq> 0 \<and> {start..<en} \<inter> all_held bs \<noteq> {}
       then r = - EBUSY \<and> all_held bs' = all_held bs
     else r = 0 \<and> all_held bs' = all_held bs \<union> {start..<en})"
proof -
  have r': "start \<le> en" "insert start {start..<en} \<subseteq> all_frames bs" using r by auto
  from mark_nodes_spec [OF ok r', of reserve flags] obtain x bs1 where
    x: "mark_nodes en reserve flags start bs = Some (x, bs1)" "marked start en reserve flags bs x bs1" by blast
  have fr: "all_frames bs1 = all_frames bs" "nodes_ok bs1"
    using x(2) same_all_frames by (auto simp: marked_def)
  show ?thesis
  proof (cases x)
    case Done
    with x fr show ?thesis by (auto simp: mark_bootmem_def marked_def split: if_splits)
  next
    case (Failed err p)
    with x(2) have f: "reserve" "flags AND BOOTMEM_EXCLUSIVE \<noteq> 0" "err = - EBUSY" "start \<le> p" "p < en"
      "{start..<p} \<inter> all_held bs = {}" "{p..<en} \<inter> all_held bs \<noteq> {}" "all_held bs1 = all_held bs \<union> {start..<p}"
      by (simp_all add: marked_def)
    have "insert start {start..<p} \<subseteq> all_frames bs1" using r f(5) fr(1) by (auto simp: subset_eq)
    from mark_nodes_spec [OF fr(2) f(4) this, of False 0] obtain y bs2 where
      y: "mark_nodes p False 0 start bs1 = Some (y, bs2)" "marked start p False 0 bs1 y bs2" by blast
    then have "all_held bs2 = all_held bs1 - {start..<p}" "nodes_ok bs2" "all_frames bs2 = all_frames bs1"
      using same_all_frames by (auto simp: marked_def split: mark_exit.splits)
    moreover have "{start..<en} \<inter> all_held bs \<noteq> {}"
    proof -
      have "{p..<en} \<subseteq> {start..<en}" using f(4) by auto
      with f(7) show ?thesis by blast
    qed
    ultimately show ?thesis using x(1) y(1) Failed f fr by (auto simp: mark_bootmem_def)
  qed (use x(2) in \<open>simp add: marked_def\<close>)
qed

lemma pfn_range:
  assumes "0 \<le> addr" "0 \<le> sz" "addr + sz < 18446744073709547521"
  shows "PFN_UP (u64 (addr + sz)) = (addr + sz + 4095) div 4096" "PFN_DOWN (u64 (addr + sz)) = (addr + sz) div 4096"
    "PFN_UP addr = (addr + 4095) div 4096" "PFN_DOWN addr = addr div 4096"
  using assms by (simp_all add: PFN_UP_div PFN_DOWN_div)

lemma page_bounds:
  "(x :: int) \<le> p * 4096 \<longleftrightarrow> (x + 4095) div 4096 \<le> p" "(p + 1) * 4096 \<le> (x :: int) \<longleftrightarrow> p < x div 4096"
proof -
  have d: "y = (y div 4096) * 4096 + y mod 4096" "0 \<le> y mod 4096" "y mod 4096 < 4096" for y :: int by simp_all
  show "(p + 1) * 4096 \<le> x \<longleftrightarrow> p < x div 4096"
    using d(1) [of x] d(2,3) [of x] by (cases "p < x div 4096") (auto simp: algebra_simps)
  show "x \<le> p * 4096 \<longleftrightarrow> (x + 4095) div 4096 \<le> p"
    using d(1) [of "x + 4095"] d(2,3) [of "x + 4095"] by (cases "(x + 4095) div 4096 \<le> p") (auto simp: algebra_simps)
qed

text \<open>
  C32: Reserving a byte range that lies in the registered nodes marks every page the range touches, in
  all nodes it crosses. An exclusive reservation is all or nothing: if any of those pages was taken
  it returns \<open>- EBUSY\<close> and the reserved set is what it was before.
\<close>

theorem reserve_bootmem_atomic:
  assumes "nodes_ok bs" "0 \<le> addr" "0 < sz" "addr + sz < 18446744073709547521"
  defines "R \<equiv> {addr div 4096..<(addr + sz + 4095) div 4096}"
  assumes "R \<subseteq> all_frames bs"
  shows "\<exists>r bs'. reserve_bootmem addr sz flags bs = Some (Some r, bs') \<and> nodes_ok bs' \<and>
    (if flags AND BOOTMEM_EXCLUSIVE \<noteq> 0 \<and> R \<inter> all_held bs \<noteq> {} then r = - EBUSY \<and> all_held bs' = all_held bs
     else r = 0 \<and> all_held bs' = all_held bs \<union> R)"
proof -
  note pf = pfn_range [OF assms(2) less_imp_le [OF assms(3)] assms(4)]
  have "addr div 4096 < (addr + sz + 4095) div 4096" using assms(3) by linarith
  from mark_bootmem_spec [OF assms(1) this, of True flags] assms(6) show ?thesis
    unfolding R_def reserve_bootmem_def pf by (auto split: if_splits)
qed

text \<open>
  C33: Freeing a byte range clears exactly the pages that lie in it entirely.
\<close>

theorem free_bootmem_exact:
  assumes "nodes_ok bs" "0 \<le> addr" "0 \<le> sz" "addr + sz < 18446744073709547521"
    and "(addr + 4095) div 4096 < (addr + sz) div 4096"
    and "{(addr + 4095) div 4096..<(addr + sz) div 4096} \<subseteq> all_frames bs"
  shows "\<exists>bs'. free_bootmem addr sz bs = Some bs' \<and> nodes_ok bs' \<and> all_frames bs' = all_frames bs \<and>
    all_held bs' = all_held bs - {p. addr \<le> p * 4096 \<and> (p + 1) * 4096 \<le> addr + sz}"
proof -
  have "{p. addr \<le> p * 4096 \<and> (p + 1) * 4096 \<le> addr + sz} = {(addr + 4095) div 4096..<(addr + sz) div 4096}"
    using page_bounds by auto
  moreover obtain bs' where "mark_bootmem ((addr + 4095) div 4096) ((addr + sz) div 4096) False 0 bs = Some (Some 0, bs')"
    "nodes_ok bs'" "all_frames bs' = all_frames bs"
    "all_held bs' = all_held bs - {(addr + 4095) div 4096..<(addr + sz) div 4096}"
    using mark_bootmem_spec [OF assms(1,5,6), of False 0] by auto
  ultimately show ?thesis
    unfolding free_bootmem_def pfn_range [OF assms(2-4)] by simp
qed


section \<open>The search for a block\<close>

lemma scan_block_free:
  assumes "scan_block byte i k = Some None" "0 \<le> i" "i + int k \<le> 2147483648"
  shows "block i (int k) \<inter> bits byte = {}"
  using assms
proof (induction k arbitrary: i)
  case (Suc k)
  have u: "s32 i = i" using Suc.prems by simp
  obtain t where t: "test_bit i byte = Some t" using Suc.prems(1) u by (cases "test_bit i byte") auto
  with Suc.prems(1) u have tk: "t = 0" "scan_block byte (i + 1) k = Some None"
    by (auto split: if_splits)
  have "i \<in> bit_dom byte" using t bm.outside [of i byte] by auto
  then have "i \<notin> bits byte" using bm.tst [of i byte] t tk(1) by (simp split: if_splits)
  moreover have "block (i + 1) (int k) \<inter> bits byte = {}" using Suc.IH [OF tk(2)] Suc.prems(2,3) by simp
  moreover have "block i (int (Suc k)) = insert i (block (i + 1) (int k))" by (auto simp: block_def)
  ultimately show ?case by simp
qed simp

text \<open>One iteration, with the bindings named.\<close>

lemma find_block_body:
  fixes f :: "bootmem_data \<Rightarrow> bitmap \<Rightarrow> int \<Rightarrow> int \<Rightarrow> int \<Rightarrow> int \<Rightarrow> int \<Rightarrow> int option option"
  assumes "find_next_zero_bit byte midx sidx \<bind>
     (\<lambda>r. let sidx = align_idx bdata (u64 r) step; eidx = u64 (sidx + pages)
          in if midx \<le> sidx \<or> midx < eidx
             then if fallback \<noteq> 0
                  then f bdata byte pages step midx 0
                        (align_idx bdata (u64 (fallback - 1)) step)
                  else Some None
             else scan_block byte sidx (nat (eidx - sidx)) \<bind>
                  (\<lambda>hit. case hit of None \<Rightarrow> Some (Some sidx)
                         | Some i \<Rightarrow>
                             let sidx = align_idx bdata i step
                             in Let (if sidx = i then u64 (sidx + step)
                                     else sidx)
                                 (f bdata byte pages step midx
                                   fallback))) =
     Some y"
  obtains z s1 e1 where "find_next_zero_bit byte midx sidx = Some z" "s1 = align_idx bdata (u64 z) step" "e1 = u64 (s1 + pages)"
    "(if midx \<le> s1 \<or> midx < e1
        then (if fallback \<noteq> 0 then f bdata byte pages step midx 0 (align_idx bdata (u64 (fallback - 1)) step) else Some None)
        else do { hit \<leftarrow> scan_block byte s1 (nat (e1 - s1));
                  (case hit of None \<Rightarrow> Some (Some s1)
                   | Some i \<Rightarrow> f bdata byte pages step midx fallback (if align_idx bdata i step = i then u64 (align_idx bdata i step + step) else align_idx bdata i step)) }) = Some y"
proof (cases "find_next_zero_bit byte midx sidx")
  case None
  with assms show ?thesis by simp
next
  case (Some z)
  show ?thesis
    by (rule that [OF Some refl refl], rule trans [OF _ assms]) (simp only: Some Option.bind.simps Let_def)
qed

lemma find_block_found_aux:
  assumes "find_block b byte pages step midx fallback sidx = Some r"
  shows "\<forall>s. r = Some s \<longrightarrow> (\<exists>t. s = align_idx b t step \<and> s < midx \<and> u64 (s + pages) \<le> midx \<and>
    scan_block byte s (nat (u64 (s + pages) - s)) = Some None)"
proof (rule find_block.raw_induct [OF _ assms], goal_cases)
  case (1 f b byte pages step midx fallback sidx r)
  note IH = 1(1)
  from 1(2) obtain z s1 e1 where d: "s1 = align_idx b (u64 z) step" "e1 = u64 (s1 + pages)"
    and body: "(if midx \<le> s1 \<or> midx < e1
        then (if fallback \<noteq> 0 then f b byte pages step midx 0 (align_idx b (u64 (fallback - 1)) step) else Some None)
        else do { hit \<leftarrow> scan_block byte s1 (nat (e1 - s1));
                  (case hit of None \<Rightarrow> Some (Some s1)
                   | Some i \<Rightarrow> f b byte pages step midx fallback (if align_idx b i step = i then u64 (align_idx b i step + step) else align_idx b i step)) }) = Some r"
    by (rule find_block_body)
  show ?case
  proof (cases "midx \<le> s1 \<or> midx < e1")
    case True
    show ?thesis
    proof (cases "fallback = 0")
      case False
      have "f b byte pages step midx 0 (align_idx b (u64 (fallback - 1)) step) = Some r"
        using body by (simp only: True False if_True if_False simp_thms)
      then show ?thesis by (rule IH)
    qed (use body True in simp)
  next
    case False
    then obtain hit where h: "scan_block byte s1 (nat (e1 - s1)) = Some hit"
      using body by (cases "scan_block byte s1 (nat (e1 - s1))") simp_all
    show ?thesis
    proof (cases hit)
      case None
      with body False h have "r = Some s1" by simp
      with False h None show ?thesis by (auto simp: d)
    next
      case (Some i)
      have "f b byte pages step midx fallback
          (if align_idx b i step = i then u64 (align_idx b i step + step) else align_idx b i step) = Some r"
        using body by (simp only: False h Some if_False Option.bind.simps option.case)
      then show ?thesis by (rule IH)
    qed
  qed
qed

lemmas find_block_found = find_block_found_aux [rule_format]

lemma ALIGN_mask: "k < 64 \<Longrightarrow> ALIGN x (2 ^ k) = mask_down (u64 (x + (2 ^ k - 1))) (2 ^ k)"
proof -
  assume k: "k < 64"
  have "(2::int) ^ k \<le> 2 ^ 63" using k by (intro power_increasing) auto
  then have "u64 (2 ^ k - 1) = 2 ^ k - 1" by (intro u64_id) auto
  then show ?thesis by (simp add: ALIGN_def mask_down_def)
qed

lemma ALIGN_props:
  assumes "k < 64"
  shows "2 ^ k dvd ALIGN x (2 ^ k)" "0 \<le> ALIGN x (2 ^ k)" "ALIGN x (2 ^ k) < 18446744073709551616"
  unfolding ALIGN_mask [OF assms]
  using mask_down_dvd mask_down_nonneg [OF u64_bounds(1)]
    order.strict_trans1 [OF mask_down_le u64_bounds(2)] by auto

lemma align_idx_dvd:
  assumes "k < 64" "0 \<le> node_min_pfn b" "node_min_pfn b + s < 18446744073709551616" "align_idx b t (2 ^ k) = s"
  shows "0 \<le> s" "2 ^ k dvd node_min_pfn b + s"
proof -
  define A where "A = ALIGN (u64 (node_min_pfn b + t)) (2 ^ k)"
  note A = ALIGN_props [OF assms(1), of "u64 (node_min_pfn b + t)", folded A_def]
  have s: "s = u64 (A - node_min_pfn b)" using assms(4) by (simp add: align_idx_def A_def Let_def)
  then show "0 \<le> s" by (simp add: u64_bounds)
  have "(node_min_pfn b + s) mod 18446744073709551616 = A mod 18446744073709551616"
    unfolding s u64_def by (simp add: mod_simps)
  then have "node_min_pfn b + s = A" using A assms(2,3) \<open>0 \<le> s\<close> by simp
  then show "2 ^ k dvd node_min_pfn b + s" using A(1) by simp
qed

text \<open>\<^verbatim>\<open>max(align >> PAGE_SHIFT, 1)\<close> for a power of two.\<close>

lemma step_pow2: "max (drop_bit 12 ((2::int) ^ a)) 1 = 2 ^ (a - 12)"
proof (cases "12 \<le> a")
  case True
  then obtain d where "a = 12 + d" by (auto simp: le_iff_add)
  moreover have "(1::int) \<le> 2 ^ d" by simp
  ultimately show ?thesis by (simp add: drop_bit_eq_div power_add)
next
  case False
  then have "(2::int) ^ a < 2 ^ 12" by (intro power_strict_increasing) auto
  then have "drop_bit 12 ((2::int) ^ a) = 0" by (simp add: drop_bit_eq_div)
  with False show ?thesis by (simp add: max_def)
qed

lemma step_dvd: "(2::int) ^ (a - 12) dvd x \<Longrightarrow> 2 ^ a dvd x * 4096"
proof -
  assume "(2::int) ^ (a - 12) dvd x"
  then have "(2::int) ^ (a - 12) * 2 ^ 12 dvd x * 2 ^ 12" by (rule mult_dvd_mono) simp
  moreover have "(2::int) ^ a dvd 2 ^ (a - 12) * 2 ^ 12"
    by (simp only: power_add [symmetric]) (intro le_imp_power_dvd, simp)
  ultimately have "(2::int) ^ a dvd x * 2 ^ 12" by (rule dvd_trans [rotated])
  then show ?thesis by simp
qed


text \<open>
  The state between allocations: the page that holds a partial last allocation is reserved.
\<close>

definition node_pages :: "bootmem_data \<Rightarrow> int" where
  "node_pages b = node_low_pfn b - node_min_pfn b"

definition node_bits :: "bootmem_data \<Rightarrow> int set" where
  "node_bits b = bits (the (node_bootmem_map b))"

definition bd_alloc_ok :: "bootmem_data \<Rightarrow> bool" where
  "bd_alloc_ok b \<longleftrightarrow> bd_ok b \<and> 0 \<le> hint_idx b \<and> 0 \<le> last_end_off b \<and> last_end_off b \<le> node_pages b * 4096 \<and>
     (last_end_off b mod 4096 \<noteq> 0 \<longrightarrow> last_end_off b div 4096 \<in> node_bits b)"

text \<open>
  What an allocation that starts at byte \<open>off\<close> of the node does: it takes the free pages from \<open>pg\<close> on
  and, if \<open>off\<close> lies below page \<open>pg\<close>, the rest of the page of the last allocation.
\<close>

definition boot_block :: "bootmem_data \<Rightarrow> int \<Rightarrow> nat \<Rightarrow> int \<Rightarrow> int \<Rightarrow> bootmem_data \<Rightarrow> bool" where
  "boot_block b sz a off pg b' \<longleftrightarrow>
     (let e = (off + sz + 4095) div 4096 in
      same_node b b' \<and> bd_alloc_ok b' \<and> last_end_off b' = off + sz \<and>
      2 ^ a dvd node_min_pfn b * 4096 + off \<and> 0 \<le> off \<and> 0 \<le> pg \<and> e \<le> node_pages b \<and>
      {pg..<e} \<inter> node_bits b = {} \<and> node_bits b' = node_bits b \<union> {pg..<e} \<and>
      (off = pg * 4096 \<or>
       last_end_off b mod 4096 \<noteq> 0 \<and> last_end_off b div 4096 + 1 = pg \<and> last_end_off b \<le> off \<and> off < pg * 4096))"

lemma boot_offset:
  assumes ok: "bd_alloc_ok b" and a: "a < 32" and s: "0 \<le> s" "s < node_pages b" "2 ^ (a - 12) dvd node_min_pfn b + s"
  defines "off \<equiv> (if last_end_off b mod 4096 \<noteq> 0 \<and> u64 (PFN_DOWN (last_end_off b) + 1) = s
     then align_off b (last_end_off b) (2 ^ a) else PFN_PHYS s)"
  shows "2 ^ a dvd node_min_pfn b * 4096 + off \<and> 0 \<le> off \<and> PFN_DOWN off + of_bool (PFN_DOWN off < s) = s \<and> off \<le> s * 4096 \<and>
    (off = s * 4096 \<or>
     last_end_off b mod 4096 \<noteq> 0 \<and> last_end_off b div 4096 + 1 = s \<and> last_end_off b \<le> off \<and> off < s * 4096)"
proof -
  let ?l = "last_end_off b" and ?m = "node_min_pfn b"
  have b: "0 \<le> ?m" "?m + node_pages b \<le> 1048576" "0 \<le> ?l" "?l \<le> node_pages b * 4096"
    using ok by (auto simp: bd_alloc_ok_def bd_ok_def node_pages_def)
  have m: "PFN_PHYS ?m = ?m * 4096" "PFN_PHYS s = s * 4096" using b s by (simp_all add: PFN_PHYS_mult)
  have dv: "2 ^ a dvd (?m + s) * 4096" using s(3) by (rule step_dvd)
  have l: "0 \<le> ?l div 4096" "?l div 4096 \<le> node_pages b" using b by linarith+
  have u: "u64 (PFN_DOWN ?l + 1) = ?l div 4096 + 1" using l b by (simp add: PFN_DOWN_div)
  show ?thesis
  proof (cases "?l mod 4096 \<noteq> 0 \<and> ?l div 4096 + 1 = s")
    case False
    then have "off = s * 4096" unfolding off_def u m by auto
    with dv s(1) show ?thesis by (simp add: PFN_DOWN_div algebra_simps)
  next
    case True
    have dm: "?l = ?l div 4096 * 4096 + ?l mod 4096" "0 \<le> ?l mod 4096" "?l mod 4096 < 4096" by simp_all
    have "s = ?l div 4096 + 1" using True by simp
    then have le: "?l \<le> s * 4096" "(s - 1) * 4096 \<le> ?l" using dm by (simp_all add: algebra_simps)
    have p: "(2::int) ^ a \<le> 2 ^ 31" using a by (intro power_increasing) auto
    define A where "A = ALIGN (?m * 4096 + ?l) (2 ^ a)"
    have x: "0 \<le> ?m * 4096 + ?l" "?m * 4096 + ?l + 2 ^ a \<le> 18446744073709551616" "a < 64"
      using b p a power_increasing [of a 31 "2::int"] by auto
    have A: "?m * 4096 + ?l \<le> A" "2 ^ a dvd A" "A \<le> (?m + s) * 4096" "A < 18446744073709551616"
      unfolding A_def using ALIGN_ge [OF x] ALIGN_dvd [OF x] ALIGN_least [OF x dv] ALIGN_props(3) [OF x(3)] le by auto
    have "off = align_off b ?l (2 ^ a)" unfolding off_def u using True by simp
    also have "\<dots> = u64 (ALIGN (u64 (?m * 4096 + ?l)) (2 ^ a) - ?m * 4096)" by (simp add: align_off_def m Let_def)
    also have "u64 (?m * 4096 + ?l) = ?m * 4096 + ?l" using x zero_less_power [of "2::int" a] by (intro u64_id) linarith+
    also have "u64 (ALIGN (?m * 4096 + ?l) (2 ^ a) - ?m * 4096) = A - ?m * 4096"
      using A b unfolding A_def [symmetric] by (intro u64_id) linarith+
    finally have off: "off = A - ?m * 4096" .
    then have o: "?l \<le> off" "off \<le> s * 4096" "2 ^ a dvd ?m * 4096 + off" using A by (simp_all add: algebra_simps)
    have "(s - 1) * 4096 \<le> off" using o(1) le(2) by linarith
    then have d: "s - 1 \<le> off div 4096" "off div 4096 \<le> s"
      using o(2) zdiv_mono1 [of "(s - 1) * 4096" off 4096] zdiv_mono1 [of off "s * 4096" 4096] by simp_all
    then have "PFN_DOWN off + of_bool (PFN_DOWN off < s) = s" by (auto simp: PFN_DOWN_div)
    with o True b(3) show ?thesis by auto
  qed
qed

lemma round_up_partial:
  assumes "(y :: int) mod 4096 \<noteq> 0"
  shows "(y + 4095) div 4096 = y div 4096 + 1"
proof -
  have m: "0 \<le> y mod 4096" "y mod 4096 < 4096" by simp_all
  have "y + 4095 = (y mod 4096 - 1) + (y div 4096 + 1) * 4096" by simp
  then have "(y + 4095) div 4096 = (y div 4096 + 1) + (y mod 4096 - 1) div 4096"
    by (metis div_mult_self1 zero_neq_numeral)
  moreover have "(y mod 4096 - 1) div 4096 = 0" using m assms by (intro div_pos_pos_trivial) linarith+
  ultimately show ?thesis by simp
qed

text \<open>The state an allocation leaves has its partial last page reserved again.\<close>

lemma next_alloc_ok:
  assumes ok: "bd_alloc_ok b" and sz: "0 < sz" and same: "same_node b b'" and h: "0 \<le> hint_idx b'"
    and l: "last_end_off b' = off + sz" and bits: "node_bits b' = node_bits b \<union> {s..<e}"
    and off: "0 \<le> off \<and> e \<le> node_pages b"
    and O: "off = s * 4096 \<or> last_end_off b mod 4096 \<noteq> 0 \<and> last_end_off b div 4096 + 1 = s \<and> last_end_off b \<le> off \<and> off < s * 4096"
    and e: "e = (off + sz + 4095) div 4096"
  shows "bd_alloc_ok b'"
  unfolding bd_alloc_ok_def
proof (intro conjI impI)
  show "bd_ok b'" using same by (simp add: same_node_def)
  show "0 \<le> hint_idx b'" by (fact h)
  show "0 \<le> last_end_off b'" using l off sz by simp
  have "off + sz \<le> e * 4096" unfolding e by linarith
  moreover have "node_pages b' = node_pages b" using same by (simp add: same_node_def node_pages_def)
  ultimately show "last_end_off b' \<le> node_pages b' * 4096" using l off by linarith
  assume un: "last_end_off b' mod 4096 \<noteq> 0"
  have q: "(off + sz) div 4096 = e - 1" using round_up_partial [of "off + sz"] un unfolding l e by simp
  show "last_end_off b' div 4096 \<in> node_bits b'"
  proof (cases "s < e")
    case True
    then show ?thesis using q l bits by auto
  next
    case False
    then have "off \<noteq> s * 4096" using sz unfolding e by linarith
    then have o: "last_end_off b mod 4096 \<noteq> 0" "last_end_off b div 4096 + 1 = s" "last_end_off b \<le> off" using O by auto
    have "last_end_off b div 4096 \<le> (off + sz) div 4096" using o(3) sz by (simp add: zdiv_mono1)
    then have "(off + sz) div 4096 = s - 1" using False q o(2) by linarith
    then have "last_end_off b' div 4096 = last_end_off b div 4096" using l o(2) by simp
    then show ?thesis using ok o(1) bits by (simp add: bd_alloc_ok_def)
  qed
qed

lemma take_block_spec:
  assumes ok: "bd_alloc_ok b" and sz: "0 < sz" "sz \<le> 4294967296" and a: "a < 32"
    and s: "0 \<le> s" "2 ^ (a - 12) dvd node_min_pfn b + s" "s + (sz + 4095) div 4096 \<le> node_pages b"
    and free: "{s..<s + (sz + 4095) div 4096} \<inter> node_bits b = {}"
  shows "\<exists>off b'. take_block b sz (2 ^ a) s = Some (phys_to_virt (node_min_pfn b * 4096 + off), b') \<and> boot_block b sz a off s b'"
proof -
  let ?m = "node_min_pfn b"
  have bb: "0 \<le> ?m" "?m < node_low_pfn b" "?m + node_pages b \<le> 1048576" "bd_ok b"
    using ok by (auto simp: bd_alloc_ok_def bd_ok_def node_pages_def)
  obtain byte where byte: "node_bootmem_map b = Some byte" using bb(4) by (elim bd_okD)
  have "0 < (sz + 4095) div 4096" using sz(1) by linarith
  then have s': "s < node_pages b" "s < 1048576" using s bb by linarith+
  define off where "off = (if last_end_off b mod 4096 \<noteq> 0 \<and> u64 (PFN_DOWN (last_end_off b) + 1) = s
     then align_off b (last_end_off b) (2 ^ a) else PFN_PHYS s)"
  have O: "2 ^ a dvd ?m * 4096 + off" "0 \<le> off" "PFN_DOWN off + of_bool (PFN_DOWN off < s) = s" "off \<le> s * 4096"
    "off = s * 4096 \<or> last_end_off b mod 4096 \<noteq> 0 \<and> last_end_off b div 4096 + 1 = s \<and> last_end_off b \<le> off \<and> off < s * 4096"
    using boot_offset [OF ok a s(1) s'(1) s(2), folded off_def] by auto
  define e where "e = (off + sz + 4095) div 4096"
  have e: "e \<le> s + (sz + 4095) div 4096" unfolding e_def using O(4) by linarith
  have small: "off + sz < 18446744073709547521" using O(4) s' sz by linarith
  then have pe: "u64 (off + sz) = off + sz" "PFN_UP (off + sz) = e" using O(2) sz by (simp_all add: PFN_UP_div e_def)
  define b1 where "b1 = b\<lparr>last_end_off := off + sz, hint_idx := e\<rparr>"
  have e1: "0 \<le> e" unfolding e_def using O(2) sz by linarith
  have b1: "bd_ok b1" "0 \<le> hint_idx b1" "node_bits b1 = node_bits b" "node_min_pfn b1 = ?m" "node_low_pfn b1 = node_low_pfn b"
    "last_end_off b1 = off + sz"
    using bb(4) e1 byte by (auto simp: b1_def bd_ok_def node_bits_def)
  have "{s..<e} \<subseteq> {s..<s + (sz + 4095) div 4096}" using e by auto
  then have disj: "{s..<e} \<inter> node_bits b = {}" using free by blast
  have "e \<le> node_low_pfn b1 - node_min_pfn b1" using e s(3) b1 by (simp add: node_pages_def)
  from reserve_range_spec [OF b1(1) s(1) this b1(2), of BOOTMEM_EXCLUSIVE] disj
  obtain b2 where b2: "reserve_range b1 s e BOOTMEM_EXCLUSIVE = Some (0, b2)" "same_node b1 b2"
    "last_end_off b2 = off + sz" "node_bits b2 = node_bits b \<union> {s..<e}" "hint_idx b2 = e"
    using b1 by (auto simp: node_bits_def b1_def)
  have "PFN_PHYS ?m + off = ?m * 4096 + off" using bb s' s(1) by (simp add: PFN_PHYS_mult node_pages_def)
  moreover have "u64 (?m * 4096 + off) = ?m * 4096 + off" using bb s' O by (intro u64_id) linarith+
  ultimately have res: "take_block b sz (2 ^ a) s = Some (phys_to_virt (?m * 4096 + off), b2)"
    using b2(1,2) O(3) b1
    by (simp add: take_block_def Let_def off_def [symmetric] pe b1_def [symmetric] same_node_def)
  have same: "same_node b b2" using b2(2) b1 by (simp add: same_node_def)
  have "bd_alloc_ok b2"
    using next_alloc_ok [OF ok sz(1) same _ b2(3) b2(4) _ O(5) e_def] b2(5) e1 O(2) e s(3) by simp
  then have "boot_block b sz a off s b2"
    using O b2(3,4) s(1) e s(3) same disj unfolding boot_block_def Let_def e_def [symmetric] by auto
  with res show ?thesis by blast
qed

text \<open>The first half, unfolded: the search runs with these bounds and the block is taken where it ends.\<close>

lemma alloc_core_unfold:
  fixes limit goal sz :: int and a :: nat
  assumes ok: "bd_ok b" and byte: "node_bootmem_map b = Some byte"
  defines "mx \<equiv> (if drop_bit 12 limit \<noteq> 0 \<and> drop_bit 12 limit < node_low_pfn b then drop_bit 12 limit else node_low_pfn b)"
  defines "start \<equiv> (if drop_bit 12 goal \<noteq> 0 \<and> node_min_pfn b < drop_bit 12 goal \<and> drop_bit 12 goal < mx
      then ALIGN (drop_bit 12 goal) (2 ^ (a - 12)) else ALIGN (node_min_pfn b) (2 ^ (a - 12)))"
  defines "sidx \<equiv> u64 (start - node_min_pfn b)"
  shows "alloc_bootmem_core b sz (2 ^ a) goal limit =
    (if mx \<le> node_min_pfn b then Some (0, b)
     else do { found \<leftarrow> find_block b byte (PFN_UP sz) (2 ^ (a - 12)) (mx - node_min_pfn b)
                 (if sidx < hint_idx b then u64 (sidx + 1) else 0)
                 (if sidx < hint_idx b then align_idx b (hint_idx b) (2 ^ (a - 12)) else sidx);
               (case found of None \<Rightarrow> Some (0, b) | Some s \<Rightarrow> take_block b sz (2 ^ a) s) })"
proof -
  have "u64 (mx - node_min_pfn b) = mx - node_min_pfn b" if "\<not> mx \<le> node_min_pfn b"
    using that ok by (intro u64_id) (auto simp: mx_def bd_ok_def)
  then show ?thesis
    unfolding alloc_bootmem_core_def byte option.case Let_def PAGE_SHIFT_def step_pow2
      mx_def [symmetric] start_def [symmetric] sidx_def [symmetric] by simp
qed

text \<open>What the search finds is a free aligned block inside the node.\<close>

lemma find_block_block:
  assumes ok: "bd_alloc_ok b" and sz: "0 < sz" "sz \<le> 4294967296" and a: "a < 32"
    and byte: "node_bootmem_map b = Some byte"
    and f: "find_block b byte (PFN_UP sz) (2 ^ (a - 12)) midx fallback sidx = Some (Some s)" and m: "midx \<le> node_pages b"
  shows "0 \<le> s" "2 ^ (a - 12) dvd node_min_pfn b + s" "s + (sz + 4095) div 4096 \<le> node_pages b"
    "{s..<s + (sz + 4095) div 4096} \<inter> node_bits b = {}"
proof -
  have bb: "0 \<le> node_min_pfn b" "node_min_pfn b + node_pages b \<le> 1048576"
    using ok by (auto simp: bd_alloc_ok_def bd_ok_def node_pages_def)
  obtain t where t: "s = align_idx b t (2 ^ (a - 12))" "s < midx" "u64 (s + PFN_UP sz) \<le> midx"
    "scan_block byte s (nat (u64 (s + PFN_UP sz) - s)) = Some None"
    using find_block_found [OF f] by blast
  have k: "a - 12 < 64" using a by simp
  have "node_min_pfn b + s < 18446744073709551616" using t(2) m bb by linarith
  note dvd = align_idx_dvd [OF k bb(1) this t(1) [symmetric]]
  then show "0 \<le> s" "2 ^ (a - 12) dvd node_min_pfn b + s" by blast+
  have np: "PFN_UP sz = (sz + 4095) div 4096" using sz by (simp add: PFN_UP_div)
  have q: "0 \<le> (sz + 4095) div 4096" "(sz + 4095) div 4096 \<le> 1048576" using sz by linarith+
  then have u: "u64 (s + PFN_UP sz) = s + (sz + 4095) div 4096"
    using dvd(1) t(2) m bb unfolding np by (intro u64_id) linarith+
  show "s + (sz + 4095) div 4096 \<le> node_pages b" using t(3) m unfolding u by simp
  then show "{s..<s + (sz + 4095) div 4096} \<inter> node_bits b = {}"
    using scan_block_free [OF t(4)] dvd(1) bb q unfolding u by (simp add: block_def node_bits_def byte)
qed

lemma alloc_core_lemma:
  assumes ok: "bd_alloc_ok b" and sz: "0 < sz" "sz \<le> 4294967296" and a: "a < 32"
    and r: "alloc_bootmem_core b sz (2 ^ a) goal limit = Some (p, b')"
  shows "p = 0 \<and> b' = b \<or> (\<exists>off pg. p = phys_to_virt (node_min_pfn b * 4096 + off) \<and> boot_block b sz a off pg b')"
proof -
  have bb: "bd_ok b" using ok by (simp add: bd_alloc_ok_def)
  obtain byte where byte: "node_bootmem_map b = Some byte" using bb by (elim bd_okD)
  define mx where "mx = (if drop_bit 12 limit \<noteq> 0 \<and> drop_bit 12 limit < node_low_pfn b then drop_bit 12 limit else node_low_pfn b)"
  have mxl: "mx - node_min_pfn b \<le> node_pages b" by (simp add: mx_def node_pages_def)
  note un = alloc_core_unfold [OF bb byte, of sz a goal limit, folded mx_def]
  consider (none) "p = 0 \<and> b' = b"
    | (block) s fallback sidx where "find_block b byte (PFN_UP sz) (2 ^ (a - 12)) (mx - node_min_pfn b) fallback sidx = Some (Some s)"
        "take_block b sz (2 ^ a) s = Some (p, b')"
    using r unfolding un by (auto simp: bind_eq_Some_conv split: if_splits option.splits)
  then show ?thesis
  proof cases
    case (block s fallback sidx)
    from take_block_spec [OF ok sz a find_block_block [OF ok sz a byte block(1) mxl]] block(2) show ?thesis by auto
  qed simp
qed

section \<open>Sequences of allocations\<close>

text \<open>The physical byte addresses an allocation may still get.\<close>

definition boot_avail :: "bootmem_data \<Rightarrow> int set" where
  "boot_avail b = {x. x div 4096 \<in> frames b \<and> x div 4096 - node_min_pfn b \<notin> node_bits b} \<union>
     {x. last_end_off b mod 4096 \<noteq> 0 \<and> node_min_pfn b * 4096 + last_end_off b \<le> x \<and>
         x < node_min_pfn b * 4096 + (last_end_off b div 4096 + 1) * 4096}"

definition boot_req :: "nat \<Rightarrow> int \<Rightarrow> bool" where
  "boot_req a n \<longleftrightarrow> a < 32 \<and> 0 < n \<and> n \<le> 4294967296"

text \<open>The physical address of the region, or no answer for a null pointer.\<close>

definition boot_alloc :: "nat \<Rightarrow> int \<Rightarrow> int \<Rightarrow> bootmem_data \<Rightarrow> int \<Rightarrow> (int \<times> bootmem_data) option" where
  "boot_alloc a goal limit b n =
     do { (p, b') \<leftarrow> alloc_bootmem_core b n (2 ^ a) goal limit;
          if p = 0 then None else Some (virt_to_phys p, b') }"

text \<open>By offset in the node.\<close>

definition tail_off :: "bootmem_data \<Rightarrow> int \<Rightarrow> bool" where
  "tail_off b y \<longleftrightarrow> last_end_off b mod 4096 \<noteq> 0 \<and> last_end_off b \<le> y \<and> y < (last_end_off b div 4096 + 1) * 4096"

definition page_off :: "bootmem_data \<Rightarrow> int \<Rightarrow> bool" where
  "page_off b y \<longleftrightarrow> 0 \<le> y div 4096 \<and> y div 4096 < node_pages b \<and> y div 4096 \<notin> node_bits b"

lemma boot_avail_off: "node_min_pfn b * 4096 + y \<in> boot_avail b \<longleftrightarrow> page_off b y \<or> tail_off b y"
proof -
  have "(node_min_pfn b * 4096 + y) div 4096 = node_min_pfn b + y div 4096" by simp
  then show ?thesis
    by (simp add: boot_avail_def page_off_def tail_off_def frames_def node_pages_def del: div_mult_self3) linarith
qed

lemma page_below: "(y :: int) < p * 4096 \<longleftrightarrow> y div 4096 < p"
  by linarith

text \<open>The parts of a block: what the pages give and what the old tail gives.\<close>

lemma boot_block_split:
  assumes blk: "boot_block b n a off pg b'" and y: "off \<le> y"
  shows "pg \<le> y div 4096 \<or> (tail_off b y \<and> y div 4096 = last_end_off b div 4096)"
proof (cases "y < pg * 4096")
  case False
  then show ?thesis by (simp add: page_below not_less)
next
  case True
  with blk y have l: "last_end_off b mod 4096 \<noteq> 0" "last_end_off b div 4096 + 1 = pg" "last_end_off b \<le> y"
    by (auto simp: boot_block_def Let_def)
  then have "tail_off b y" using True by (simp add: tail_off_def)
  moreover have "last_end_off b div 4096 \<le> y div 4096" using l(3) by (simp add: zdiv_mono1)
  moreover have "y div 4096 < pg" using True by (simp add: page_below)
  ultimately show ?thesis using l(2) by simp
qed

lemma boot_block_avail:
  assumes blk: "boot_block b n a off pg b'" and y: "off \<le> y" "y < off + n"
  shows "page_off b y \<or> tail_off b y"
proof -
  have B: "0 \<le> pg" "(off + n + 4095) div 4096 \<le> node_pages b" "{pg..<(off + n + 4095) div 4096} \<inter> node_bits b = {}"
    using blk by (auto simp: boot_block_def Let_def)
  have "y div 4096 < (off + n + 4095) div 4096" using y(2) by linarith
  with boot_block_split [OF blk y(1)] B show ?thesis by (force simp: page_off_def)
qed

lemma boot_block_rest:
  assumes ok: "bd_alloc_ok b" and n: "0 < n" and blk: "boot_block b n a off pg b'"
    and y: "page_off b' y \<or> tail_off b' y"
  shows "(page_off b y \<or> tail_off b y) \<and> \<not> (off \<le> y \<and> y < off + n)"
proof -
  define e where "e = (off + n + 4095) div 4096"
  have B: "0 \<le> pg" "e \<le> node_pages b" "{pg..<e} \<inter> node_bits b = {}" "node_bits b' = node_bits b \<union> {pg..<e}"
    "node_pages b' = node_pages b" "last_end_off b' = off + n"
    using blk by (auto simp: boot_block_def Let_def e_def same_node_def node_pages_def)
  have taken: "last_end_off b div 4096 \<in> node_bits b" if "tail_off b z" for z
    using ok that by (simp add: bd_alloc_ok_def tail_off_def)
  from y show ?thesis
  proof
    assume p: "page_off b' y"
    then have "page_off b y" "y div 4096 \<notin> {pg..<e}" by (auto simp: page_off_def B)
    moreover have "\<not> (off \<le> y \<and> y < off + n)"
    proof
      assume r: "off \<le> y \<and> y < off + n"
      then have "y div 4096 < e" unfolding e_def by linarith
      with boot_block_split [OF blk, of y] r \<open>y div 4096 \<notin> {pg..<e}\<close>
      have "tail_off b y" "y div 4096 = last_end_off b div 4096" by auto
      with taken \<open>page_off b y\<close> show False by (auto simp: page_off_def)
    qed
    ultimately show ?thesis by blast
  next
    assume t: "tail_off b' y"
    then have t': "(off + n) mod 4096 \<noteq> 0" "off + n \<le> y" "y < ((off + n) div 4096 + 1) * 4096"
      by (simp_all add: tail_off_def B)
    have "(off + n) div 4096 \<le> y div 4096" using t'(2) by (simp add: zdiv_mono1)
    moreover have "y div 4096 < (off + n) div 4096 + 1" using t'(3) by (simp only: page_below)
    ultimately have q: "y div 4096 = e - 1" using round_up_partial [OF t'(1)] by (simp add: e_def)
    have "pg \<le> y div 4096 \<or> tail_off b y" using boot_block_split [OF blk, of y] t'(2) n by auto
    then have "page_off b y \<or> tail_off b y"
    proof
      assume "pg \<le> y div 4096"
      then have "y div 4096 \<in> {pg..<e}" using q by simp
      with B(1-3) show ?thesis by (auto simp: page_off_def)
    qed simp
    with t'(2) show ?thesis by simp
  qed
qed

lemma boot_block_law:
  assumes ok: "bd_alloc_ok b" and n: "0 < n" and blk: "boot_block b n a off pg b'"
  shows "block (node_min_pfn b * 4096 + off) n \<subseteq> boot_avail b \<and>
    boot_avail b' \<subseteq> boot_avail b - block (node_min_pfn b * 4096 + off) n"
proof -
  have m: "node_min_pfn b' = node_min_pfn b" using blk by (simp add: boot_block_def Let_def same_node_def)
  have x: "\<exists>y. x = node_min_pfn b * 4096 + y" for x by (rule exI [of _ "x - node_min_pfn b * 4096"]) simp
  have "x \<in> boot_avail b" if "x \<in> block (node_min_pfn b * 4096 + off) n" for x
    using x [of x] that boot_block_avail [OF blk] by (auto simp: boot_avail_off)
  moreover have "x \<in> boot_avail b \<and> x \<notin> block (node_min_pfn b * 4096 + off) n" if "x \<in> boot_avail b'" for x
    using x [of x] that boot_block_rest [OF ok n blk] boot_avail_off [of b'] by (auto simp: boot_avail_off m)
  ultimately show ?thesis by blast
qed

lemma boot_alloc_law:
  assumes ok: "bd_alloc_ok b" and n: "boot_req a n" and al: "boot_alloc a goal limit b n = Some (x, b')"
  shows "bd_alloc_ok b' \<and> block x n \<subseteq> boot_avail b \<and> boot_avail b' \<subseteq> boot_avail b - block x n"
proof -
  obtain p where p: "alloc_bootmem_core b n (2 ^ a) goal limit = Some (p, b')" "p \<noteq> 0" "x = virt_to_phys p"
    using al by (auto simp: boot_alloc_def bind_eq_Some_conv split: if_splits)
  have r: "a < 32" "0 < n" "n \<le> 4294967296" using n by (auto simp: boot_req_def)
  from alloc_core_lemma [OF ok r(2,3,1) p(1)] p(2) obtain off pg where
    o: "p = phys_to_virt (node_min_pfn b * 4096 + off)" "boot_block b n a off pg b'" by blast
  have "0 \<le> off" "off + n \<le> node_pages b' * 4096" "same_node b b'" "bd_alloc_ok b'" "last_end_off b' = off + n"
    using o(2) by (auto simp: boot_block_def bd_alloc_ok_def Let_def)
  then have "0 \<le> node_min_pfn b * 4096 + off" "node_min_pfn b * 4096 + off < 18446744073709551616"
    using ok r(2) by (auto simp: bd_alloc_ok_def bd_ok_def same_node_def node_pages_def)
  then have "x = node_min_pfn b * 4096 + off" using phys_virt_inverse o(1) p(3) by simp
  with boot_block_law [OF ok r(2) o(2)] \<open>bd_alloc_ok b'\<close> show ?thesis by simp
qed

interpretation boot: range_allocator "\<lambda>k. bd_alloc_ok" boot_avail "boot_req a" "boot_alloc a goal limit" for a goal limit
  by standard (use boot_alloc_law in blast)+

text \<open>
  C29: Boot-time allocations never overlap. Whatever sizes are requested one after the other, the byte
  ranges handed out (including those that share the page where the previous one ended) are pairwise
  disjoint, lie in pages that were free or in the unused rest of the last page, and are not available
  afterwards.
\<close>

theorem bootmem_allocs_disjoint:
  assumes "bd_alloc_ok b" and "\<forall>n \<in> set ns. boot_req a n"
    and "alloc_many (boot_alloc a goal limit) b ns = (rs, b')"
  shows "separate rs \<and> granted rs \<subseteq> boot_avail b \<and> boot_avail b' \<subseteq> boot_avail b - granted rs"
  using boot.alloc_many_separate [OF assms] by blast

text \<open>The search as a case distinction, for evaluation.\<close>

lemma find_block_code [code]:
  "find_block bdata byte pages step midx fallback sidx =
     (case find_next_zero_bit byte midx sidx of
        None \<Rightarrow> None
      | Some r \<Rightarrow>
          let sidx = align_idx bdata (u64 r) step; eidx = u64 (sidx + pages)
          in if midx \<le> sidx \<or> midx < eidx then
               if fallback \<noteq> 0
               then find_block bdata byte pages step midx 0 (align_idx bdata (u64 (fallback - 1)) step)
               else Some None
             else case scan_block byte sidx (nat (eidx - sidx)) of
                    None \<Rightarrow> None
                  | Some None \<Rightarrow> Some (Some sidx)
                  | Some (Some i) \<Rightarrow>
                      let s = align_idx bdata i step
                      in find_block bdata byte pages step midx fallback (if s = i then u64 (s + step) else s))"
  by (subst find_block.simps) (auto simp: Let_def split: option.splits)

definition ex_node :: bootmem_data where
  "ex_node = \<lparr>node_min_pfn = 0x50000, node_low_pfn = 0x50010, node_bootmem_map = Some [0xFFFF0003, - 1, - 1],
     last_end_off = 0, hint_idx = 0\<rparr>"

lemma ex_node_ok: "bd_alloc_ok ex_node"
  by (simp add: bd_alloc_ok_def bd_ok_def ex_node_def node_pages_def)

theorem bootmem_allocs_disjoint_witness:
  "granted [(0x50002000, 100), (0x50002080, 0x2000), (0x50004080, 8)] \<subseteq> boot_avail ex_node"
proof -
  have "fst (alloc_many (boot_alloc 5 0 0) ex_node [100, 0x2000, 8]) = [(0x50002000, 100), (0x50002080, 0x2000), (0x50004080, 8)]"
    by code_simp
  then have "alloc_many (boot_alloc 5 0 0) ex_node [100, 0x2000, 8] =
      ([(0x50002000, 100), (0x50002080, 0x2000), (0x50004080, 8)], snd (alloc_many (boot_alloc 5 0 0) ex_node [100, 0x2000, 8]))"
    by (metis prod.collapse)
  from bootmem_allocs_disjoint [OF ex_node_ok _ this] show ?thesis by (simp add: boot_req_def)
qed


text \<open>
  C30: One boot-time allocation. If it answers at all, it either changes nothing and answers 0, or it
  reserves a run of pages that were all free, up to the page where the region ends; the region has the
  alignment asked for and starts in the first of those pages or, if the last allocation ended inside
  the page before, at or after that end.
\<close>

theorem alloc_bootmem_core_block:
  assumes "bd_alloc_ok b" "boot_req a sz" "alloc_bootmem_core b sz (2 ^ a) goal limit = Some (p, b')"
  shows "p = 0 \<and> b' = b \<or> (\<exists>off pg. p = phys_to_virt (node_min_pfn b * 4096 + off) \<and> boot_block b sz a off pg b')"
proof -
  have r: "a < 32" "0 < sz" "sz \<le> 4294967296" using assms(2) by (auto simp: boot_req_def)
  show ?thesis by (rule alloc_core_lemma [OF assms(1) r(2,3,1) assms(3)])
qed

theorem alloc_bootmem_core_block_witness:
  "\<exists>off pg b'. phys_to_virt 0x50002000 = phys_to_virt (node_min_pfn ex_node * 4096 + off) \<and> boot_block ex_node 5000 12 off pg b'"
proof -
  have "fst (the (alloc_bootmem_core ex_node 5000 (2 ^ 12) 0 0)) = phys_to_virt 0x50002000"
    "alloc_bootmem_core ex_node 5000 (2 ^ 12) 0 0 \<noteq> None" "phys_to_virt 0x50002000 \<noteq> 0" by code_simp+
  then obtain b' where "alloc_bootmem_core ex_node 5000 (2 ^ 12) 0 0 = Some (phys_to_virt 0x50002000, b')" by auto
  from alloc_bootmem_core_block [OF ex_node_ok _ this] show ?thesis
    using \<open>phys_to_virt 0x50002000 \<noteq> 0\<close> by (auto simp: boot_req_def)
qed


section \<open>Does the search return?\<close>

lemma scan_block_total:
  assumes "block i (int k) \<subseteq> bit_dom byte" "0 \<le> i" "i + int k \<le> 2147483648"
  shows "\<exists>r. scan_block byte i k = Some r \<and> (\<forall>j. r = Some j \<longrightarrow> i \<le> j \<and> j < i + int k)"
  using assms
proof (induction k arbitrary: i)
  case (Suc k)
  have d: "i \<in> bit_dom byte" using Suc.prems(1) by (auto simp: block_def)
  have u: "s32 i = i" using Suc.prems by simp
  have "block (i + 1) (int k) \<subseteq> bit_dom byte" using Suc.prems(1) by (auto simp: block_def)
  then obtain r where "scan_block byte (i + 1) k = Some r" "\<forall>j. r = Some j \<longrightarrow> i + 1 \<le> j \<and> j < i + 1 + int k"
    using Suc.IH [of "i + 1"] Suc.prems by auto
  then show ?case using bm.tst [OF d] u by auto
qed simp

text \<open>With page granularity the index only grows, so the loop ends.\<close>

lemma align_idx_1:
  assumes "0 \<le> node_min_pfn b" "0 \<le> i" "node_min_pfn b + i < 18446744073709551616"
  shows "align_idx b i 1 = i"
  using assms mask_down_pow2 [of "node_min_pfn b + i" 0]
  by (simp add: align_idx_def ALIGN_def mask_down_def Let_def)

lemma align_idx_minus_1:
  "0 \<le> node_min_pfn b \<Longrightarrow> node_min_pfn b \<le> 1048576 \<Longrightarrow> align_idx b 18446744073709551615 1 = 18446744073709551615"
  using mask_down_pow2 [of "u64 (node_min_pfn b + 18446744073709551615)" 0]
  by (simp add: align_idx_def ALIGN_def mask_down_def Let_def u64_def mod_simps)

lemma zero_bit_range:
  assumes "0 \<le> offset" "0 \<le> sz" "offset div 32 + sz div 32 < int (length byte)" "length byte \<le> 67108862"
  shows "\<exists>r. find_next_zero_bit byte sz offset = Some r \<and> (r = - 1 \<or> offset \<le> r \<and> r < 2147483648)"
proof -
  have "0 \<le> offset mod 32" "offset mod 32 < 32" by simp_all
  moreover have "offset \<le> x \<and> x < 32 * int (length byte)" if "first_bit False byte offset x" for x
    using that by (auto simp: first_bit_def bit_dom_def)
  ultimately show ?thesis
    using zero_search_result [OF assms] assms(4) by (auto split: if_splits) fastforce+
qed

text \<open>\<open>n\<close> is the number of pages of the node.\<close>

lemma find_block_returns_aux:
  assumes b: "0 \<le> node_min_pfn b" "node_min_pfn b \<le> 1048576" and n: "midx \<le> n" "n \<le> 1048576"
    and mem: "n \<le> 32 * int (length byte)" "2 * (n div 32) < int (length byte)" "length byte \<le> 67108862"
    and pages: "0 < pages" "pages \<le> 1048576" and s: "0 \<le> sidx" "sidx \<le> n" "0 \<le> midx"
    and fb: "fallback = 0 \<or> (\<exists>r. find_block b byte pages 1 midx 0 (align_idx b (u64 (fallback - 1)) 1) = Some r)"
  shows "\<exists>r. find_block b byte pages 1 midx fallback sidx = Some r"
  using s
proof (induction "nat (n - sidx)" arbitrary: sidx rule: less_induct)
  case less
  have w: "sidx div 32 \<le> n div 32" "midx div 32 \<le> n div 32" using less.prems n by (auto intro: zdiv_mono1)
  then have "sidx div 32 + midx div 32 < int (length byte)" using mem(2) by linarith
  then obtain r where r: "find_next_zero_bit byte midx sidx = Some r" "r = - 1 \<or> sidx \<le> r \<and> r < 2147483648"
    using zero_bit_range less.prems mem(3) by blast
  have align: "align_idx b i 1 = i" if "0 \<le> i" "i < 2147483648" for i using b that by (intro align_idx_1) auto
  show ?case
  proof (cases "r = - 1 \<or> midx \<le> r \<or> midx < r + pages")
    case True
    have "midx \<le> align_idx b (u64 r) 1 \<or> midx < u64 (align_idx b (u64 r) 1 + pages)"
    proof (cases "r = - 1")
      case True
      then have "align_idx b (u64 r) 1 = 18446744073709551615" using b by (simp add: align_idx_minus_1)
      with n less.prems(3) show ?thesis by simp
    next
      case False
      with r(2) less.prems(1) have "0 \<le> r" "r < 2147483648" by auto
      with align [of r] True False pages show ?thesis by simp
    qed
    then show ?thesis using r(1) fb by (subst find_block_code) (auto simp: Let_def)
  next
    case False
    with r(2) less.prems(1) have q: "0 \<le> r" "r < 2147483648" "sidx \<le> r" "r < midx" "r + pages \<le> midx" by auto
    have u: "u64 r = r" "align_idx b r 1 = r" "u64 (r + pages) = r + pages" using q align pages by auto
    have "block r (int (nat pages)) \<subseteq> bit_dom byte" using q pages n mem(1) by (auto simp: bit_dom_def)
    from scan_block_total [OF this q(1)] obtain hit where
      h: "scan_block byte r (nat pages) = Some hit" "\<forall>j. hit = Some j \<longrightarrow> r \<le> j \<and> j < r + pages"
      using q pages n by auto
    show ?thesis
    proof (cases hit)
      case None
      then show ?thesis using r(1) u h(1) q by (subst find_block_code) (simp add: Let_def)
    next
      case (Some j)
      with h(2) have j: "r \<le> j" "j < r + pages" by auto
      then have "align_idx b j 1 = j" "u64 (j + 1) = j + 1" using q n align pages by auto
      moreover have "\<exists>r. find_block b byte pages 1 midx fallback (j + 1) = Some r"
        using j q n less.prems by (intro less.hyps) auto
      ultimately show ?thesis using r(1) u h(1) q Some by (subst find_block_code) (simp add: Let_def)
    qed
  qed
qed

lemma find_block_returns:
  assumes b: "0 \<le> node_min_pfn b" "node_min_pfn b \<le> 1048576" and n: "midx \<le> n" "n \<le> 1048576"
    and mem: "n \<le> 32 * int (length byte)" "2 * (n div 32) < int (length byte)" "length byte \<le> 67108862"
    and pages: "0 < pages" "pages \<le> 1048576" and s: "0 \<le> sidx" "sidx \<le> n" "0 \<le> midx"
    and f: "fallback = 0 \<or> 0 < fallback \<and> fallback - 1 \<le> n"
  shows "\<exists>r. find_block b byte pages 1 midx fallback sidx = Some r"
proof -
  have "\<exists>r. find_block b byte pages 1 midx 0 i = Some r" if "0 \<le> i" "i \<le> n" for i
    using that by (intro find_block_returns_aux [OF b n mem pages _ _ s(3)]) auto
  moreover have "align_idx b (u64 (fallback - 1)) 1 = fallback - 1" if "0 < fallback" "fallback - 1 \<le> n"
    using that b n by (simp add: align_idx_1)
  ultimately have "fallback = 0 \<or> (\<exists>r. find_block b byte pages 1 midx 0 (align_idx b (u64 (fallback - 1)) 1) = Some r)"
    using f by auto
  then show ?thesis by (intro find_block_returns_aux [OF b n mem pages s]) auto
qed

text \<open>
  For an alignment of at most a page, \<open>alloc_bootmem_core\<close> always returns: the search loop, with its
  jumps back and its second try below the hint, ends after finitely many rounds, and no access leaves the
  memory of the map, provided that memory goes on for as many words again as the map has.
\<close>

theorem alloc_bootmem_core_returns:
  assumes ok: "bd_alloc_ok b" and hint: "hint_idx b \<le> node_pages b" and r: "boot_req a sz" "a \<le> 12"
    and mem: "node_bootmem_map b = Some byte" "2 * (node_pages b div 32) < int (length byte)"
    and gl: "0 \<le> goal" "0 \<le> limit"
  shows "\<exists>p b'. alloc_bootmem_core b sz (2 ^ a) goal limit = Some (p, b')"
proof -
  let ?m = "node_min_pfn b"
  have bb: "0 \<le> ?m" "?m < node_low_pfn b" "?m + node_pages b \<le> 1048576" "bd_ok b" "0 \<le> hint_idx b"
    using ok by (auto simp: bd_alloc_ok_def bd_ok_def node_pages_def)
  have byte: "node_pages b \<le> 32 * int (length byte)" "length byte \<le> 67108862"
    using bb(4) mem(1) by (auto simp: bd_ok_def node_pages_def)
  define mx where "mx = (if drop_bit 12 limit \<noteq> 0 \<and> drop_bit 12 limit < node_low_pfn b then drop_bit 12 limit else node_low_pfn b)"
  define start where "start = (if drop_bit 12 goal \<noteq> 0 \<and> ?m < drop_bit 12 goal \<and> drop_bit 12 goal < mx
      then ALIGN (drop_bit 12 goal) 1 else ALIGN ?m 1)"
  have k: "(2::int) ^ (a - 12) = 1" using r(2) by simp
  note un = alloc_core_unfold [OF bb(4) mem(1), of sz a goal limit, folded mx_def, unfolded k, folded start_def]
  have mxl: "mx - ?m \<le> node_pages b" by (simp add: mx_def node_pages_def)
  have AL: "ALIGN x 1 = x" if "0 \<le> x" "x \<le> 1048576" for x
    using that mask_down_pow2 [of x 0] by (simp add: ALIGN_def mask_down_def)
  have np: "0 < node_pages b" using bb by (simp add: node_pages_def)
  have "?m \<le> start \<and> start - ?m \<le> node_pages b"
  proof (cases "drop_bit 12 goal \<noteq> 0 \<and> ?m < drop_bit 12 goal \<and> drop_bit 12 goal < mx")
    case True
    then have "start = drop_bit 12 goal" using mxl bb gl(1) AL [of "drop_bit 12 goal"] unfolding start_def by auto
    with True mxl show ?thesis by simp
  next
    case False
    then have "start = ?m" using bb np AL [of ?m] unfolding start_def by auto
    with np show ?thesis by simp
  qed
  then have st: "?m \<le> start" "start - ?m \<le> node_pages b" by simp_all
  define sidx where "sidx = u64 (start - ?m)"
  have us: "sidx = start - ?m" unfolding sidx_def using st bb by (intro u64_id) auto
  have sz: "0 < sz" "sz \<le> 4294967296" using r(1) by (auto simp: boot_req_def)
  have pages: "PFN_UP sz = (sz + 4095) div 4096" using sz by (simp add: PFN_UP_div)
  have pg: "0 < (sz + 4095) div 4096" "(sz + 4095) div 4096 \<le> 1048576" using sz by linarith+
  define fallback where "fallback = (if sidx < hint_idx b then u64 (sidx + 1) else 0)"
  define s where "s = (if sidx < hint_idx b then align_idx b (hint_idx b) 1 else sidx)"
  have fb: "fallback = 0 \<or> 0 < fallback \<and> fallback - 1 \<le> node_pages b"
    using st us bb by (auto simp: fallback_def)
  have "align_idx b (hint_idx b) 1 = hint_idx b" using bb hint by (intro align_idx_1) auto
  then have s: "0 \<le> s" "s \<le> node_pages b" using st us hint bb by (auto simp: s_def)
  show ?thesis
  proof (cases "mx \<le> ?m")
    case True
    then show ?thesis by (simp add: un)
  next
    case False
    have "\<exists>r. find_block b byte ((sz + 4095) div 4096) 1 (mx - ?m) fallback s = Some r"
      using bb mxl byte mem(2) pg s fb False by (intro find_block_returns [where n = "node_pages b"]) auto
    then obtain found where f: "find_block b byte (PFN_UP sz) 1 (mx - ?m) fallback s = Some found" unfolding pages by blast
    note un' = un [folded sidx_def, folded fallback_def s_def, unfolded f]
    show ?thesis
    proof (cases found)
      case None
      then show ?thesis using False by (simp add: un')
    next
      case (Some q)
      have a: "a < 32" using r(2) by simp
      have f': "find_block b byte (PFN_UP sz) (2 ^ (a - 12)) (mx - ?m) fallback s = Some (Some q)"
        using f Some by (simp add: k)
      from take_block_spec [OF ok sz a find_block_block [OF ok sz a mem(1) f' mxl]] show ?thesis
        using False Some by (auto simp: un')
    qed
  qed
qed

text \<open>
  C31: With an alignment of several pages the same loop can fail to end. In a node whose pages are all
  reserved, the bit search answers \<open>-1\<close>, which \<open>align_idx\<close> rounds up to page 0 of an aligned node; the
  scan rejects page 0 and the search starts again from the next step. There is no result, although every
  access the loop makes is inside the map's memory.
\<close>

theorem find_block_diverges:
  assumes b: "node_min_pfn b = 0x50000" and full: "bits byte = bit_dom byte" and dom: "96 \<le> 32 * int (length byte)"
    "length byte \<le> 67108862"
  shows "find_block b byte 1 2 32 0 0 = None \<and>
    (\<forall>s \<in> {0, 2}. find_next_zero_bit byte 32 s = Some (- 1)) \<and> align_idx b (u64 (- 1)) 2 = 0 \<and>
    scan_block byte 0 1 = Some (Some 0)"
proof -
  have al: "align_idx b 18446744073709551615 2 = 0" "align_idx b 0 2 = 0"
    by (simp_all add: align_idx_def b ALIGN_def Let_def u64_def)
  have z: "find_next_zero_bit byte 32 s = Some (- 1)" if "s = 0 \<or> s = 2" for s
  proof -
    have "s div 32 + 32 div 32 < int (length byte)" using that dom by auto
    from zero_search_result [OF _ _ this dom(2)] that full show ?thesis
      by (auto simp: first_bit_def split: if_splits)
  qed
  have dom0: "0 \<in> bit_dom byte" using dom by (auto simp: bit_dom_def)
  then have t: "test_bit 0 byte = Some 1" using bm.tst [OF dom0] full by simp
  have sc: "scan_block byte 0 1 = Some (Some 0)" using t by (simp add: s32_def)
  have "\<not> (b' = b \<and> byte' = byte \<and> p = 1 \<and> st = 2 \<and> m = 32 \<and> fb = 0 \<and> (s = 0 \<or> s = 2))"
    if "find_block b' byte' p st m fb s = Some r" for b' byte' p st m fb s r
  proof (rule find_block.raw_induct [OF _ that], goal_cases)
    case (1 f b' byte' p st m fb s r)
    note IH = 1(1)
    show ?case
    proof
      assume eqs: "b' = b \<and> byte' = byte \<and> p = 1 \<and> st = 2 \<and> m = 32 \<and> fb = 0 \<and> (s = 0 \<or> s = 2)"
    obtain z s1 e1 where d: "find_next_zero_bit byte' m s = Some z" "s1 = align_idx b' (u64 z) st" "e1 = u64 (s1 + p)"
      and body: "(if m \<le> s1 \<or> m < e1
          then (if fb \<noteq> 0 then f b' byte' p st m 0 (align_idx b' (u64 (fb - 1)) st) else Some None)
          else do { hit \<leftarrow> scan_block byte' s1 (nat (e1 - s1));
                    (case hit of None \<Rightarrow> Some (Some s1)
                     | Some i \<Rightarrow> f b' byte' p st m fb (if align_idx b' i st = i then u64 (align_idx b' i st + st) else align_idx b' i st)) }) = Some r"
      using 1(2) by (rule find_block_body)
    have "z = - 1" using d(1) z eqs by auto
    then have v: "s1 = 0" "e1 = 1" using d(2,3) al eqs by simp_all
    have e: "b' = b" "byte' = byte" "p = 1" "st = 2" "m = 32" "fb = 0" using eqs by auto
    have sc': "scan_block byte 0 (Suc 0) = Some (Some 0)" using sc by simp
    have "f b byte 1 2 32 0 2 = Some r" using body by (simp add: e v sc' al del: scan_block.simps)
      from IH [OF this] show False by simp
    qed
  qed
  then have "find_block b byte 1 2 32 0 0 = None" by (cases "find_block b byte 1 2 32 0 0") (simp, blast)
  with z sc al show ?thesis by simp
qed


theorem alloc_bootmem_core_returns_witness:
  "\<exists>p b'. alloc_bootmem_core ex_node 0x9000 (2 ^ 12) 0x50004000 0 = Some (p, b')"
  using alloc_bootmem_core_returns [OF ex_node_ok, where a = 12 and sz = "0x9000" and byte = "[0xFFFF0003, - 1, - 1]"
    and goal = "0x50004000" and limit = 0]
  by (simp add: boot_req_def) (simp add: ex_node_def node_pages_def)

lemma bits_ones:
  assumes "0 \<le> i" "i < 32 * int n"
  shows "i \<in> bits (replicate n (- 1) @ ws)"
proof -
  have "nat (i div 32) < n" "nat (i mod 32) < 32" using assms by linarith+
  then show ?thesis using assms(1) by (simp add: bits_def in_map_def nth_append)
qed

theorem find_block_diverges_witness:
  "find_block ex_node [- 1, - 1, - 1] 1 2 32 0 0 = None"
proof -
  have "bits [- 1, - 1, - 1] = bit_dom [- 1, - 1, - 1]"
    using bits_ones [of _ 3 "[]"] bits_dom [of "[- 1, - 1, - 1]"] by (auto simp: numeral_3_eq_3 bit_dom_def)
  with find_block_diverges [of ex_node "[- 1, - 1, - 1]"] show ?thesis by (simp add: ex_node_def)
qed

definition ex_nodes :: "bootmem_data list" where
  "ex_nodes = [ex_node, \<lparr>node_min_pfn = 0x50010, node_low_pfn = 0x50020, node_bootmem_map = Some [0xFFFF8000],
     last_end_off = 0, hint_idx = 0\<rparr>]"

lemma ex_nodes_ok: "nodes_ok ex_nodes" "all_frames ex_nodes = {0x50000..<0x50020}"
  by (auto simp: ex_nodes_def ex_node_def bd_ok_def frames_def)

theorem reserve_bootmem_atomic_witness:
  "\<exists>r bs'. reserve_bootmem 0x5000e800 0x4000 BOOTMEM_EXCLUSIVE ex_nodes = Some (Some r, bs') \<and> nodes_ok bs'"
  using reserve_bootmem_atomic [OF ex_nodes_ok(1), where addr = "0x5000e800" and sz = "0x4000" and flags = BOOTMEM_EXCLUSIVE]
  by (auto simp: ex_nodes_ok(2))

theorem free_bootmem_exact_witness:
  "\<exists>bs'. free_bootmem 0x5000e800 0x4000 ex_nodes = Some bs' \<and>
     all_held bs' = all_held ex_nodes - {p. 0x5000e800 \<le> p * 4096 \<and> (p + 1) * 4096 \<le> 0x50012800}"
  using free_bootmem_exact [OF ex_nodes_ok(1), where addr = "0x5000e800" and sz = "0x4000"]
  by (auto simp: ex_nodes_ok(2))


section \<open>Registration\<close>

lemma link_bootmem_set: "set (link_bootmem b bs) = insert b (set bs)"
  by (induction bs) auto

lemma link_bootmem_ok:
  assumes "nodes_ok bs" "bd_ok b" "0 \<le> hint_idx b" "frames b \<inter> all_frames bs = {}"
  shows "nodes_ok (link_bootmem b bs)"
  using assms
proof (induction bs)
  case Nil
  then show ?case by simp
next
  case (Cons c bs)
  have c: "bd_ok c" "0 \<le> hint_idx c" "\<And>p. p \<in> all_frames bs \<Longrightarrow> node_low_pfn c \<le> p" "nodes_ok bs"
    using Cons.prems(1) by auto
  have ord: "node_low_pfn b \<le> node_min_pfn c \<or> node_low_pfn c \<le> node_min_pfn b"
  proof (rule ccontr)
    assume "\<not> ?thesis"
    then have "max (node_min_pfn b) (node_min_pfn c) \<in> frames b \<inter> frames c"
      using Cons.prems(2) c(1) by (auto simp: frames_def bd_ok_def)
    with Cons.prems(4) show False by auto
  qed
  have fr: "all_frames (link_bootmem b bs) = frames b \<union> all_frames bs"
    by (simp add: all_frames_def link_bootmem_set)
  show ?case
  proof (cases "node_min_pfn b < node_min_pfn c")
    case True
    then have "node_low_pfn b \<le> node_min_pfn c" using ord c(1) by (auto simp: bd_ok_def)
    then have "node_low_pfn b \<le> p" if "p \<in> frames c \<union> all_frames bs" for p
      using that c by (fastforce simp: frames_def bd_ok_def)
    with True Cons.prems c show ?thesis by auto
  next
    case False
    then have "node_low_pfn c \<le> node_min_pfn b" using ord Cons.prems(2) by (auto simp: bd_ok_def)
    then have "node_low_pfn c \<le> p" if "p \<in> all_frames (link_bootmem b bs)" for p
      using that c(3) unfolding fr by (auto simp: frames_def)
    moreover have "nodes_ok (link_bootmem b bs)" using Cons by auto
    ultimately show ?thesis using False c by simp
  qed
qed

lemma bootmap_bytes_bounds:
  assumes "0 \<le> pages" "pages \<le> 1048576"
  shows "8 dvd bootmap_bytes pages" "(pages + 7) div 8 \<le> bootmap_bytes pages" "bootmap_bytes pages < (pages + 7) div 8 + 8"
proof -
  have b: "0 \<le> (pages + 7) div 8" "(pages + 7) div 8 + 2 ^ 3 \<le> 18446744073709551616" "(3::nat) < 64"
    using assms by simp_all
  have "u64 (pages + 7) = pages + 7" using assms by simp
  then have e: "bootmap_bytes pages = ALIGN ((pages + 7) div 8) (2 ^ 3)" by (simp add: bootmap_bytes_def)
  show "8 dvd bootmap_bytes pages" "(pages + 7) div 8 \<le> bootmap_bytes pages" "bootmap_bytes pages < (pages + 7) div 8 + 8"
    unfolding e using ALIGN_dvd [OF b] ALIGN_ge [OF b] ALIGN_lt [OF b] by simp_all
qed

text \<open>
  Registering a node. The map covers the node, every page of it starts out reserved, and the node
  list stays sorted and disjoint.
\<close>

theorem init_bootmem_core_reserves:
  assumes "0 \<le> start" "start < en" "en \<le> 1048576" and "0 \<le> hint_idx b" and "length mem \<le> 67108862"
    and "nodes_ok bs" "{start..<en} \<inter> all_frames bs = {}"
    and "init_bootmem_core b mem start en bs = Some (n, bs')"
  shows "en - start \<le> n * 8 \<and> nodes_ok bs' \<and> all_frames bs' = all_frames bs \<union> {start..<en} \<and>
    all_held bs' = all_held bs \<union> {start..<en}"
proof -
  have u: "u64 (en - start) = en - start" using assms(1-3) by simp
  note B = bootmap_bytes_bounds [of "en - start"]
  define w where "w = nat (bootmap_bytes (en - start) div 4)"
  define b' where "b' = b\<lparr>node_min_pfn := start, node_low_pfn := en, node_bootmem_map := Some (replicate w (- 1) @ drop w mem)\<rparr>"
  have r: "\<not> length mem < w" "n = bootmap_bytes (en - start)" "bs' = link_bootmem b' bs"
    using assms(8) by (auto simp: init_bootmem_core_def Let_def u w_def b'_def split: if_splits)
  obtain q where q: "bootmap_bytes (en - start) = 8 * q" using B(1) assms(1-3) by auto
  have "(en - start + 7) div 8 \<le> n" using B(2) r(2) assms(1-3) by simp
  then have n8: "en - start \<le> n * 8" by linarith
  then have q0: "0 \<le> q" using q r(2) assms(2) by linarith
  have "bootmap_bytes (en - start) div 4 = 2 * q" unfolding q by simp
  then have w: "int w = 2 * q" using q0 by (simp add: w_def)
  then have len: "en - start \<le> 32 * int w" using n8 r(2) q by simp
  have ok: "bd_ok b'" using assms(1-3,5) r(1) len by (simp add: bd_ok_def b'_def)
  have fr: "frames b' = {start..<en}" by (simp add: frames_def b'_def)
  have "p - start \<in> bits (replicate w (- 1) @ drop w mem)" if "p \<in> {start..<en}" for p
    using that len by (intro bits_ones) auto
  then have held: "held b' = {start..<en}" unfolding held_def fr by (auto simp: b'_def)
  have h: "0 \<le> hint_idx b'" using assms(4) by (simp add: b'_def)
  have "nodes_ok bs'" unfolding r(3) using link_bootmem_ok [OF assms(6) ok h] assms(7) fr by blast
  moreover have "all_frames bs' = all_frames bs \<union> {start..<en}" "all_held bs' = all_held bs \<union> {start..<en}"
    unfolding r(3) all_frames_def all_held_def link_bootmem_set using held fr by auto
  ultimately show ?thesis using n8 by blast
qed

theorem init_bootmem_core_reserves_witness:
  "case init_bootmem_core ex_node [0, 0, 0, 0] 0x50020 0x50040 ex_nodes of
     None \<Rightarrow> False | Some (n, bs) \<Rightarrow> nodes_ok bs \<and> all_held bs = all_held ex_nodes \<union> {0x50020..<0x50040}"
proof (cases "init_bootmem_core ex_node [0, 0, 0, 0] 0x50020 0x50040 ex_nodes")
  case None
  moreover have "init_bootmem_core ex_node [0, 0, 0, 0] 0x50020 0x50040 ex_nodes \<noteq> None" by code_simp
  ultimately show ?thesis by simp
next
  case (Some r)
  obtain n bs where r: "r = (n, bs)" by fastforce
  have "0 \<le> hint_idx ex_node" by (simp add: ex_node_def)
  from init_bootmem_core_reserves [OF _ _ _ this _ ex_nodes_ok(1) _ Some [unfolded r]] Some r show ?thesis
    by (auto simp: ex_nodes_ok(2))
qed

text \<open>
  The size of the map in pages is rounded down. \<open>bootmem_bootmap_pages\<close> is meant to say how many pages
  hold the map; because \<open>PAGE_ALIGN\<close> of this program rounds down, the pages it counts hold the map only if
  the map fills them exactly, and for a node of up to 127 MiB the answer is 0.
\<close>

theorem bootmem_bootmap_pages_short:
  assumes "0 < pages" "pages \<le> 1048576"
  shows "(bootmap_bytes pages \<le> bootmem_bootmap_pages pages * 4096 \<longleftrightarrow> 4096 dvd bootmap_bytes pages) \<and>
    (pages \<le> 32704 \<longrightarrow> bootmem_bootmap_pages pages = 0)"
proof -
  have e: "bootmem_bootmap_pages pages = bootmap_bytes pages div 4096"
    by (simp add: bootmem_bootmap_pages_def PAGE_ALIGN_div PAGE_SHIFT_def drop_bit_eq_div)
  have d: "bootmap_bytes pages = bootmap_bytes pages div 4096 * 4096 + bootmap_bytes pages mod 4096"
    "0 \<le> bootmap_bytes pages mod 4096" by simp_all
  have "bootmap_bytes pages \<le> bootmap_bytes pages div 4096 * 4096 \<longleftrightarrow> bootmap_bytes pages mod 4096 = 0"
    using d by linarith
  moreover have "bootmap_bytes pages div 4096 = 0" if "pages \<le> 32704"
  proof -
    note B = bootmap_bytes_bounds [of pages]
    obtain q where q: "bootmap_bytes pages = 8 * q" using B(1) assms by auto
    have "(pages + 7) div 8 \<le> 4088" using that by linarith
    then have "0 \<le> bootmap_bytes pages" "bootmap_bytes pages < 4096" using B(2,3) q assms by linarith+
    then show ?thesis by simp
  qed
  ultimately show ?thesis by (simp add: e dvd_eq_mod_eq_0)
qed

theorem bootmem_bootmap_pages_short_witness: "bootmem_bootmap_pages 16384 = 0"
  using bootmem_bootmap_pages_short [of 16384] by simp


section \<open>Freeing everything\<close>

text \<open>The page frames a sequence of \<^verbatim>\<open>__free_pages_bootmem\<close> calls releases, one entry per release.\<close>

definition call_frames :: "(int \<times> nat) list \<Rightarrow> int list" where
  "call_frames calls = concat (map (\<lambda>(p, k). map (\<lambda>i. p + int i) [0..<2 ^ k]) calls)"

lemma call_frames_simps [simp]:
  "call_frames [] = []" "call_frames ((p, k) # cs) = map (\<lambda>i. p + int i) [0..<2 ^ k] @ call_frames cs"
  "call_frames (cs @ ds) = call_frames cs @ call_frames ds"
  by (simp_all add: call_frames_def)

lemma free_vec_frames:
  "sorted_wrt (<) (call_frames (free_vec v start off k)) \<and>
   set (call_frames (free_vec v start off k)) = {start + int (off + j) |j. j < k \<and> bit v j}"
proof (induction v start off k rule: free_vec.induct)
  case (2 v start off k)
  show ?case
  proof (cases "v = 0")
    case False
    let ?rest = "call_frames (free_vec (drop_bit 1 v) start (Suc off) k)"
    have IH: "sorted_wrt (<) ?rest" "set ?rest = {start + int (Suc off + j) |j. j < k \<and> bit (drop_bit 1 v) j}"
      using 2 False by auto
    have b0: "v AND 1 \<noteq> 0 \<longleftrightarrow> bit v 0" by (simp add: and_one_eq odd_iff_mod_2_eq_one bit_0 flip: odd_iff_mod_2_eq_one)
    have shift: "{start + int (off + j) |j. j < Suc k \<and> bit v j} =
        {start + int (Suc off + j) |j. j < k \<and> bit (drop_bit 1 v) j} \<union> (if bit v 0 then {start + int off} else {})"
      (is "?L = ?R \<union> ?Z")
    proof (intro set_eqI iffI)
      fix x assume "x \<in> ?L"
      then obtain j where j: "x = start + int (off + j)" "j < Suc k" "bit v j" by auto
      then show "x \<in> ?R \<union> ?Z" by (cases j) (auto simp: bit_drop_bit_eq)
    next
      fix x assume "x \<in> ?R \<union> ?Z"
      then consider j where "x = start + int (Suc off + j)" "j < k" "bit v (Suc j)" | "x = start + int off" "bit v 0"
        by (auto simp: bit_drop_bit_eq split: if_splits)
      then show "x \<in> ?L" by cases (auto intro: exI [of _ "Suc _"] exI [of _ 0])
    qed
    have "start + int off < x" if "x \<in> set ?rest" for x using that unfolding IH(2) by auto
    with IH shift b0 False show ?thesis by auto
  qed simp
qed simp

text \<open>
  The words of the map from a given page on: the calls release exactly the pages that are not
  reserved, in ascending order, as blocks of 32 where a whole word is free. The bits of the last word
  beyond the node are set.
\<close>

lemma free_words_frames:
  assumes m: "node_bootmem_map b = Some byte" and ok: "bd_ok b"
    and tl: "\<And>i. node_pages b \<le> i \<Longrightarrow> i < (node_pages b + 31) div 32 * 32 \<Longrightarrow> i \<in> bits byte"
    and s: "start = node_min_pfn b + 32 * int w"
  shows "\<exists>calls. free_words b byte al start = Some calls \<and> sorted_wrt (<) (call_frames calls) \<and>
    set (call_frames calls) = {p \<in> frames b. start \<le> p \<and> p \<notin> held b}"
  using s
proof (induction "nat (node_low_pfn b - start)" arbitrary: start w rule: less_induct)
  case less
  let ?m = "node_min_pfn b"
  note s = less.prems
  have size: "node_pages b \<le> 32 * int (length byte)" using ok m by (simp add: bd_ok_def node_pages_def)
  show ?case
  proof (cases "start < node_low_pfn b")
    case False
    then show ?thesis by (subst free_words.simps) (auto simp: frames_def)
  next
    case True
    have wl: "w < length byte" using True s size by (simp add: node_pages_def)
    have start: "start - ?m = 32 * int w" using s by simp
    define vec where "vec = NOT (byte ! w)"
    have bitv: "bit vec j \<longleftrightarrow> 32 * int w + int j \<notin> bits byte" if "j < 32" for j
      using bits_word [of "int w" byte j] wl that by (simp add: vec_def bit_not_iff mult.commute)
    have next_start: "start + 32 = ?m + 32 * int (Suc w)" using s by simp
    from less.hyps [OF _ next_start] True obtain rest where rest: "free_words b byte al (start + 32) = Some rest"
      "sorted_wrt (<) (call_frames rest)" "set (call_frames rest) = {p \<in> frames b. start + 32 \<le> p \<and> p \<notin> held b}" by auto
    define here where "here = (if al \<and> vec = - 1 \<and> start + 32 < node_low_pfn b then [(start, 5)] else free_vec vec start 0 32)"
    have fw: "free_words b byte al start = Some (here @ rest)"
      using True rest(1) wl by (subst free_words.simps) (simp add: Let_def start here_def vec_def nat_mult_distrib)
    have H: "sorted_wrt (<) (call_frames here) \<and> set (call_frames here) = {start + int j |j. j < 32 \<and> bit vec j}"
    proof (cases "al \<and> vec = - 1 \<and> start + 32 < node_low_pfn b")
      case True
      have "sorted_wrt (<) (map (\<lambda>i. start + int i) [0..<32])" by (simp add: sorted_wrt_map)
      with True show ?thesis by (auto simp: here_def)
    next
      case False
      then have "here = free_vec vec start 0 32" unfolding here_def by (rule if_not_P)
      then show ?thesis using free_vec_frames [of vec start 0 32] by simp
    qed
    have in_node: "32 * int w + int j < node_pages b" if "j < 32" "32 * int w + int j \<notin> bits byte" for j
    proof (rule ccontr)
      assume "\<not> ?thesis"
      then have g: "node_pages b \<le> 32 * int w + int j" by simp
      have "32 * int w < node_pages b" using True start by (simp add: node_pages_def)
      then have "int w < (node_pages b + 31) div 32" by linarith
      then have "32 * int w + 32 \<le> (node_pages b + 31) div 32 * 32" by linarith
      with that(1) have "32 * int w + int j < (node_pages b + 31) div 32 * 32" by linarith
      from tl [OF g this] that(2) show False by blast
    qed
    have set_here: "{start + int j |j. j < 32 \<and> bit vec j} = {p \<in> frames b. start \<le> p \<and> p < start + 32 \<and> p \<notin> held b}"
      (is "?L = ?R")
    proof (intro set_eqI iffI)
      fix p assume "p \<in> ?L"
      then obtain j where j: "p = start + int j" "j < 32" "bit vec j" by auto
      then have n: "32 * int w + int j \<notin> bits byte" using bitv by simp
      with in_node [OF j(2)] j s m show "p \<in> ?R" by (auto simp: frames_def node_pages_def held_def)
    next
      fix p assume p: "p \<in> ?R"
      define j where "j = nat (p - start)"
      have j: "p = start + int j" "j < 32" using p by (auto simp: j_def)
      have "p - ?m \<notin> bits byte" using p m by (auto simp: held_def)
      then have "32 * int w + int j \<notin> bits byte" using j(1) s by (simp add: algebra_simps)
      then show "p \<in> ?L" using bitv [OF j(2)] j by auto
    qed
    have "sorted_wrt (<) (call_frames (here @ rest))"
      using H rest(2,3) by (fastforce simp: sorted_wrt_append)
    moreover have "set (call_frames (here @ rest)) = {p \<in> frames b. start \<le> p \<and> p \<notin> held b}"
      using H set_here rest(3) by auto
    ultimately show ?thesis using fw by blast
  qed
qed

lemma count_calls: "(\<Sum>(p, k) \<leftarrow> calls. 2 ^ k) = int (length (call_frames calls))"
  by (induction calls) auto

lemma strict_sorted_distinct: "sorted_wrt (<) (xs :: int list) \<Longrightarrow> distinct xs"
  by (induction xs) auto

text \<open>
  C34: Handing the node over. The calls to \<^verbatim>\<open>__free_pages_bootmem\<close> release every page that is not
  reserved, exactly once and in ascending order, no reserved page, and then the pages that
  \<open>bootmem_bootmap_pages\<close> counts for the map; the count returned is the number of pages released.
\<close>

theorem free_all_bootmem_core_exact:
  assumes "bd_ok b" and "node_bootmem_map b = Some byte"
    and "\<forall>i. node_pages b \<le> i \<and> i < (node_pages b + 31) div 32 * 32 \<longrightarrow> i \<in> bits byte"
  defines "k \<equiv> bootmem_bootmap_pages (node_pages b)"
  shows "\<exists>calls. free_all_bootmem_core map_pfn b =
      Some (int (card (frames b - held b)) + k, calls @ map (\<lambda>i. (map_pfn + int i, 0)) [0..<nat k]) \<and>
    distinct (call_frames calls) \<and> set (call_frames calls) = frames b - held b"
proof -
  obtain calls where c: "free_words b byte (node_min_pfn b AND (32 - 1) = 0) (node_min_pfn b) = Some calls"
    "sorted_wrt (<) (call_frames calls)" "set (call_frames calls) = {p \<in> frames b. node_min_pfn b \<le> p \<and> p \<notin> held b}"
    using free_words_frames [OF assms(2,1), of "node_min_pfn b" 0 "node_min_pfn b AND (32 - 1) = 0"] assms(3) by auto
  have st: "set (call_frames calls) = frames b - held b" unfolding c(3) by (auto simp: frames_def)
  have d: "distinct (call_frames calls)" by (rule strict_sorted_distinct [OF c(2)])
  have len: "length (call_frames calls) = card (frames b - held b)"
    using distinct_card [OF d] st by simp
  have np: "0 < node_pages b" "node_pages b \<le> 1048576" using assms(1) by (auto simp: bd_ok_def node_pages_def)
  have u: "u64 (node_low_pfn b - node_min_pfn b) = node_pages b"
    using np unfolding node_pages_def by (intro u64_id) auto
  have "card (frames b - held b) \<le> card (frames b)" by (intro card_mono) (auto simp: frames_def)
  then have cb: "int (card (frames b - held b)) \<le> 1048576" using np by (simp add: frames_def node_pages_def)
  have e: "k = bootmap_bytes (node_pages b) div 4096"
    by (simp add: k_def bootmem_bootmap_pages_def PAGE_ALIGN_div PAGE_SHIFT_def drop_bit_eq_div)
  have "0 \<le> bootmap_bytes (node_pages b)" "bootmap_bytes (node_pages b) < 1048576"
    using bootmap_bytes_bounds [of "node_pages b"] np by linarith+
  then have "0 \<le> k" "k \<le> 1048576" unfolding e by linarith+
  then have "u64 (int (card (frames b - held b)) + k) = int (card (frames b - held b)) + k"
    using cb by (intro u64_id) auto
  then have "free_all_bootmem_core map_pfn b =
      Some (int (card (frames b - held b)) + k, calls @ map (\<lambda>i. (map_pfn + int i, 0)) [0..<nat k])"
    using c(1) by (simp add: free_all_bootmem_core_def assms(2) u k_def [symmetric] count_calls len Let_def)
  with d st show ?thesis by blast
qed

theorem free_all_bootmem_core_exact_witness:
  "\<exists>calls. free_all_bootmem_core 0x50000 ex_node =
      Some (int (card (frames ex_node - held ex_node)), calls) \<and> set (call_frames calls) = frames ex_node - held ex_node"
proof -
  have ok: "bd_ok ex_node" using ex_node_ok by (simp add: bd_alloc_ok_def)
  have m: "node_bootmem_map ex_node = Some [0xFFFF0003, - 1, - 1]" "node_pages ex_node = 16"
    by (simp_all add: ex_node_def node_pages_def)
  have "bits [0xFFFF0003, - 1, - 1] = {0, 1} \<union> {16..95}" unfolding bits_list by code_simp
  then have t: "\<forall>i. node_pages ex_node \<le> i \<and> i < (node_pages ex_node + 31) div 32 * 32 \<longrightarrow> i \<in> bits [0xFFFF0003, - 1, - 1]"
    by (auto simp: m)
  have "bootmem_bootmap_pages 16 = 0" by code_simp
  with free_all_bootmem_core_exact [OF ok m(1) t, of "0x50000"] show ?thesis unfolding m(2) by auto
qed


end
