(* ===== verification/PageTypes.thy ===== *)
theory PageTypes
  imports Bitmap "HOL-Library.Monad_Syntax"
begin

text \<open>
  The data of the page allocator: \<^verbatim>\<open>struct page\<close> (\<^verbatim>\<open>mm_types.h\<close>), \<^verbatim>\<open>struct zone\<close> and its parts
  (\<^verbatim>\<open>mmzone.h\<close>), the accessors of \<^verbatim>\<open>mm.h\<close>, \<^verbatim>\<open>page-flags.h\<close>, \<^verbatim>\<open>internal.h\<close>, \<^verbatim>\<open>vmstat.h\<close> and the
  list primitives of \<^verbatim>\<open>list.h\<close> on the lists a page can be on.

  A \<^verbatim>\<open>struct page *\<close> is its page frame number, an \<^typ>\<open>int\<close>: \<^verbatim>\<open>page + k\<close> is \<open>page + k\<close>, and
  \<^verbatim>\<open>page_to_pfn\<close> and \<^verbatim>\<open>pfn_to_page\<close> are the identity. A \<^verbatim>\<open>list_head\<close> is the list of the pages on it,
  in order from \<^verbatim>\<open>next\<close>. \<open>zstate\<close> is what the code that holds \<^verbatim>\<open>zone->lock\<close> can reach: the zone, the
  array of page structures, the global counters and the two globals the allocator reads.
\<close>

section \<open>Pages\<close>

record page =
  pg_flags :: "64 word"
  pg_count :: int
  pg_mapcount :: int
  pg_private :: int
  pg_mapping :: int

definition PG_locked :: nat where "PG_locked = 0"
definition PG_lru :: nat where "PG_lru = 5"
definition PG_active :: nat where "PG_active = 6"
definition PG_slab :: nat where "PG_slab = 7"
definition PG_reserved :: nat where "PG_reserved = 10"
definition PG_private :: nat where "PG_private = 11"
definition PG_private_2 :: nat where "PG_private_2 = 12"
definition PG_writeback :: nat where "PG_writeback = 13"
definition PG_compound :: nat where "PG_compound = 14"
definition PG_swapcache :: nat where "PG_swapcache = 15"
definition PG_reclaim :: nat where "PG_reclaim = 17"
definition PG_unevictable :: nat where "PG_unevictable = 19"
definition PG_mlocked :: nat where "PG_mlocked = 20"
definition PG_hwpoison :: nat where "PG_hwpoison = 21"
definition NR_PAGEFLAGS :: nat where "NR_PAGEFLAGS = 22"

definition flag :: "nat \<Rightarrow> 64 word" where
  "flag k = push_bit k 1"

definition PAGE_FLAGS_CHECK_AT_FREE :: "64 word" where
  "PAGE_FLAGS_CHECK_AT_FREE =
     flag PG_lru OR flag PG_locked OR flag PG_private OR flag PG_private_2 OR flag PG_writeback
     OR flag PG_reserved OR flag PG_slab OR flag PG_swapcache OR flag PG_active
     OR flag PG_unevictable OR flag PG_mlocked OR flag PG_hwpoison"

definition PAGE_FLAGS_CHECK_AT_PREP :: "64 word" where
  "PAGE_FLAGS_CHECK_AT_PREP = push_bit NR_PAGEFLAGS 1 - 1"

text \<open>The macros that generate the test, set and clear functions of a flag.\<close>

definition TESTPAGEFLAG :: "nat \<Rightarrow> page \<Rightarrow> bool" where
  "TESTPAGEFLAG k p = (pg_flags p AND flag k \<noteq> 0)"

definition SETPAGEFLAG :: "nat \<Rightarrow> page \<Rightarrow> page" where
  "SETPAGEFLAG k p = p\<lparr>pg_flags := pg_flags p OR flag k\<rparr>"

definition CLEARPAGEFLAG :: "nat \<Rightarrow> page \<Rightarrow> page" where
  "CLEARPAGEFLAG k p = p\<lparr>pg_flags := pg_flags p AND NOT (flag k)\<rparr>"

definition ZONES_PGSHIFT :: nat where "ZONES_PGSHIFT = 30"

definition ZONES_MASK :: "64 word" where "ZONES_MASK = push_bit 2 1 - 1"

definition page_zonenum :: "page \<Rightarrow> nat" where
  "page_zonenum p = unat (drop_bit ZONES_PGSHIFT (pg_flags p) AND ZONES_MASK)"

definition page_zone_id :: "page \<Rightarrow> nat" where
  "page_zone_id p = unat (drop_bit ZONES_PGSHIFT (pg_flags p) AND ZONES_MASK)"

definition set_page_zone :: "nat \<Rightarrow> page \<Rightarrow> page" where
  "set_page_zone zone p =
     (let f = pg_flags p AND NOT (push_bit ZONES_PGSHIFT ZONES_MASK)
      in p\<lparr>pg_flags := f OR push_bit ZONES_PGSHIFT (of_nat zone AND ZONES_MASK)\<rparr>)"

text \<open>
  The node and section fields have width 0 and shift 0, so that setting them changes nothing;
  \<^verbatim>\<open>set_page_links\<close> passes the zone where the node belongs.
\<close>

definition set_page_node :: "nat \<Rightarrow> page \<Rightarrow> page" where
  "set_page_node node p =
     (let f = pg_flags p AND NOT (push_bit 0 (push_bit 0 1 - 1))
      in p\<lparr>pg_flags := f OR push_bit 0 (of_nat node AND (push_bit 0 1 - 1))\<rparr>)"

definition set_page_section :: "int \<Rightarrow> page \<Rightarrow> page" where
  "set_page_section section p =
     (let f = pg_flags p AND NOT (push_bit 0 (push_bit 0 1 - 1))
      in p\<lparr>pg_flags := f OR push_bit 0 (of_int section AND (push_bit 0 1 - 1))\<rparr>)"

definition pfn_to_section_nr :: "int \<Rightarrow> int" where
  "pfn_to_section_nr pfn = drop_bit (28 - PAGE_SHIFT) pfn"

definition set_page_links :: "nat \<Rightarrow> nat \<Rightarrow> int \<Rightarrow> page \<Rightarrow> page" where
  "set_page_links zone node pfn p =
     set_page_section (pfn_to_section_nr pfn) (set_page_node zone (set_page_zone zone p))"

definition page_mapcount :: "page \<Rightarrow> int" where
  "page_mapcount p = s32 (pg_mapcount p + 1)"

definition page_mapped :: "page \<Rightarrow> bool" where
  "page_mapped p = (0 \<le> pg_mapcount p)"

definition reset_page_mapcount :: "page \<Rightarrow> page" where
  "reset_page_mapcount p = p\<lparr>pg_mapcount := - 1\<rparr>"

definition PageBuddy :: "page \<Rightarrow> bool" where
  "PageBuddy p = (pg_mapcount p = - 2)"

definition ClearPageBuddy :: "page \<Rightarrow> page" where
  "ClearPageBuddy p = p\<lparr>pg_mapcount := - 1\<rparr>"

definition SetPageBuddy :: "page \<Rightarrow> page" where
  "SetPageBuddy p = p\<lparr>pg_mapcount := - 2\<rparr>"

definition page_order :: "page \<Rightarrow> int" where
  "page_order p = pg_private p"

definition set_page_private :: "int \<Rightarrow> page \<Rightarrow> page" where
  "set_page_private v p = p\<lparr>pg_private := v\<rparr>"

definition set_page_count :: "int \<Rightarrow> page \<Rightarrow> page" where
  "set_page_count v p = p\<lparr>pg_count := v\<rparr>"

definition set_page_refcounted :: "page \<Rightarrow> page" where
  "set_page_refcounted p = set_page_count 1 p"

definition init_page_count :: "page \<Rightarrow> page" where
  "init_page_count p = p\<lparr>pg_count := 1\<rparr>"

definition PageAnon :: "page \<Rightarrow> bool" where
  "PageAnon p = (pg_mapping p AND 1 \<noteq> 0)"

definition set_page_order :: "int \<Rightarrow> page \<Rightarrow> page" where
  "set_page_order order p = SetPageBuddy (set_page_private order p)"

definition rmv_page_order :: "page \<Rightarrow> page" where
  "rmv_page_order p = set_page_private 0 (ClearPageBuddy p)"


section \<open>Zones\<close>

definition MAX_ORDER :: nat where "MAX_ORDER = 11"
definition pageblock_order :: nat where "pageblock_order = MAX_ORDER - 1"
definition pageblock_nr_pages :: int where "pageblock_nr_pages = push_bit pageblock_order 1"
definition NR_PAGEBLOCK_BITS :: int where "NR_PAGEBLOCK_BITS = 3"

definition MIGRATE_UNMOVABLE :: nat where "MIGRATE_UNMOVABLE = 0"
definition MIGRATE_RECLAIMABLE :: nat where "MIGRATE_RECLAIMABLE = 1"
definition MIGRATE_MOVABLE :: nat where "MIGRATE_MOVABLE = 2"
definition MIGRATE_PCPTYPES :: nat where "MIGRATE_PCPTYPES = 3"
definition MIGRATE_RESERVE :: nat where "MIGRATE_RESERVE = 3"
definition MIGRATE_ISOLATE :: nat where "MIGRATE_ISOLATE = 4"
definition MIGRATE_TYPES :: nat where "MIGRATE_TYPES = 5"

definition NR_FREE_PAGES :: nat where "NR_FREE_PAGES = 0"
definition NR_MLOCK :: nat where "NR_MLOCK = 6"

record per_cpu_pages =
  pcp_count :: int
  pcp_high :: int
  pcp_batch :: int
  pcp_lists :: "nat \<Rightarrow> int list"

text \<open>\<open>free_list order t\<close> and \<open>nr_free order\<close> are the parts of \<^verbatim>\<open>free_area[order]\<close>; \<open>zone_no\<close> is
  the index of the zone in \<^verbatim>\<open>node_zones\<close>.\<close>

record zone =
  zone_no :: nat
  watermark :: "nat \<Rightarrow> int"
  lowmem_reserve :: "nat \<Rightarrow> int"
  pageset :: per_cpu_pages
  all_unreclaimable :: int
  free_list :: "nat \<Rightarrow> nat \<Rightarrow> int list"
  nr_free :: "nat \<Rightarrow> int"
  pageblock_flags :: bitmap
  pages_scanned :: int
  vm_stat :: "nat \<Rightarrow> int"
  zone_start_pfn :: int
  spanned_pages :: int
  present_pages :: int

record zstate = zone +
  mem_map :: "int \<Rightarrow> page"
  global_stat :: "nat \<Rightarrow> int"
  page_group_by_mobility_disabled :: bool

text \<open>Changing one page structure.\<close>

definition upd_page :: "int \<Rightarrow> (page \<Rightarrow> page) \<Rightarrow> zstate \<Rightarrow> zstate" where
  "upd_page p f z = z\<lparr>mem_map := (mem_map z)(p := f (mem_map z p))\<rparr>"

text \<open>
  The list primitives. \<^verbatim>\<open>list_del(&page->lru)\<close> needs no list argument: it unlinks the page from
  whichever list it is on.
\<close>

definition list_del :: "int \<Rightarrow> zstate \<Rightarrow> zstate" where
  "list_del p z = z\<lparr>free_list := \<lambda>order t. remove1 p (free_list z order t),
     pageset := (pageset z)\<lparr>pcp_lists := \<lambda>t. remove1 p (pcp_lists (pageset z) t)\<rparr>\<rparr>"

definition upd_free_list :: "nat \<Rightarrow> nat \<Rightarrow> int list \<Rightarrow> zstate \<Rightarrow> zstate" where
  "upd_free_list order t ps z =
     z\<lparr>free_list := (free_list z)(order := (free_list z order)(t := ps))\<rparr>"

definition list_add :: "int \<Rightarrow> nat \<Rightarrow> nat \<Rightarrow> zstate \<Rightarrow> zstate" where
  "list_add p order t z = upd_free_list order t (p # free_list z order t) z"

definition list_add_tail :: "int \<Rightarrow> nat \<Rightarrow> nat \<Rightarrow> zstate \<Rightarrow> zstate" where
  "list_add_tail p order t z = upd_free_list order t (free_list z order t @ [p]) z"

definition nr_free_add :: "nat \<Rightarrow> int \<Rightarrow> zstate \<Rightarrow> zstate" where
  "nr_free_add order d z = z\<lparr>nr_free := (nr_free z)(order := u64 (nr_free z order + d))\<rparr>"

text \<open>
  The counters of \<^verbatim>\<open>vmstat.h\<close>. \<^verbatim>\<open>atomic_long_add\<close> casts the counter to \<^verbatim>\<open>atomic_t\<close>, so that the
  addition is the one of 32-bit \<open>int\<close>s.
\<close>

definition zone_page_state_add :: "int \<Rightarrow> nat \<Rightarrow> zstate \<Rightarrow> zstate" where
  "zone_page_state_add x item z =
     z\<lparr>vm_stat := (vm_stat z)(item := s32 (vm_stat z item + x)),
       global_stat := (global_stat z)(item := s32 (global_stat z item + x))\<rparr>"

definition mod_zone_page_state :: "nat \<Rightarrow> int \<Rightarrow> zstate \<Rightarrow> zstate" where
  "mod_zone_page_state item delta z = zone_page_state_add delta item z"

definition dec_zone_page_state :: "nat \<Rightarrow> zstate \<Rightarrow> zstate" where
  "dec_zone_page_state item z = zone_page_state_add (- 1) item z"

end
