(* ===== verification/Buddy.thy ===== *)
theory Buddy
  imports PageTypes Allocator
begin

text \<open>
  The buddy allocator of \<^verbatim>\<open>mm/page_alloc.c\<close>: freeing a block with its merges, taking a block out
  with its splits, the fallback between migrate types and the page-block flags.

  \<open>valid\<close> stands for \<^verbatim>\<open>pfn_valid_within\<close>, which the program answers with \<^verbatim>\<open>memblock_is_memory\<close>.
  A function that takes a page works on the zone of that page, the \<open>zstate\<close> it is given.
  An access of the page-block bit map outside its words is the result \<open>None\<close>.
\<close>

section \<open>Page-block flags\<close>

definition pfn_to_bitidx :: "zstate \<Rightarrow> int \<Rightarrow> int" where
  "pfn_to_bitidx z pfn =
     (let pfn' = u64 (pfn - zone_start_pfn z)
      in s32 (u64 (drop_bit pageblock_order pfn' * NR_PAGEBLOCK_BITS)))"

text \<open>\<open>k\<close> bits are left, the next one is \<open>start_bitidx\<close> and has the flag value \<open>v\<close>.\<close>

fun set_flags_loop :: "nat \<Rightarrow> int \<Rightarrow> int \<Rightarrow> int \<Rightarrow> int \<Rightarrow> bitmap \<Rightarrow> bitmap option" where
  "set_flags_loop 0 flags bitidx start_bitidx v byte = Some byte"
| "set_flags_loop (Suc k) flags bitidx start_bitidx v byte =
     do { byte' \<leftarrow> (if flags AND v \<noteq> 0
                   then set_bit_c (s32 (bitidx + start_bitidx)) byte
                   else clear_bit_c (s32 (bitidx + start_bitidx)) byte);
          set_flags_loop k flags bitidx (start_bitidx + 1) (u64 (push_bit 1 v)) byte' }"

definition set_pageblock_flags_group ::
  "int \<Rightarrow> int \<Rightarrow> int \<Rightarrow> int \<Rightarrow> zstate \<Rightarrow> zstate option" where
  "set_pageblock_flags_group page flags start_bitidx end_bitidx z =
     do { byte \<leftarrow> set_flags_loop (nat (end_bitidx - start_bitidx + 1)) flags (pfn_to_bitidx z page)
                   start_bitidx 1 (pageblock_flags z);
          Some (z\<lparr>pageblock_flags := byte\<rparr>) }"

fun get_flags_loop :: "nat \<Rightarrow> int \<Rightarrow> int \<Rightarrow> int \<Rightarrow> int \<Rightarrow> bitmap \<Rightarrow> int option" where
  "get_flags_loop 0 bitidx start_bitidx v flags byte = Some flags"
| "get_flags_loop (Suc k) bitidx start_bitidx v flags byte =
     do { b \<leftarrow> test_bit (s32 (bitidx + start_bitidx)) byte;
          get_flags_loop k bitidx (start_bitidx + 1) (u64 (push_bit 1 v))
            (if b \<noteq> 0 then flags OR v else flags) byte }"

definition get_pageblock_flags_group :: "int \<Rightarrow> int \<Rightarrow> int \<Rightarrow> zstate \<Rightarrow> int option" where
  "get_pageblock_flags_group page start_bitidx end_bitidx z =
     get_flags_loop (nat (end_bitidx - start_bitidx + 1)) (pfn_to_bitidx z page) start_bitidx 1 0
       (pageblock_flags z)"

definition PB_migrate :: int where "PB_migrate = 0"
definition PB_migrate_end :: int where "PB_migrate_end = PB_migrate + 3 - 1"

definition get_pageblock_migratetype :: "int \<Rightarrow> zstate \<Rightarrow> nat option" where
  "get_pageblock_migratetype page z =
     map_option (\<lambda>f. nat (s32 f)) (get_pageblock_flags_group page PB_migrate PB_migrate_end z)"

definition set_pageblock_migratetype :: "int \<Rightarrow> nat \<Rightarrow> zstate \<Rightarrow> zstate option" where
  "set_pageblock_migratetype page migratetype z =
     (let t = if page_group_by_mobility_disabled z then MIGRATE_UNMOVABLE else migratetype
      in set_pageblock_flags_group page (int t) PB_migrate PB_migrate_end z)"


section \<open>Freeing\<close>

definition find_buddy_index :: "int \<Rightarrow> nat \<Rightarrow> int" where
  "find_buddy_index page_idx order = page_idx XOR push_bit order 1"

definition page_is_buddy :: "(int \<Rightarrow> bool) \<Rightarrow> zstate \<Rightarrow> int \<Rightarrow> int \<Rightarrow> nat \<Rightarrow> bool" where
  "page_is_buddy valid z page buddy order =
     (if \<not> valid buddy then False
      else if page_zone_id (mem_map z page) \<noteq> page_zone_id (mem_map z buddy) then False
      else PageBuddy (mem_map z buddy) \<and> page_order (mem_map z buddy) = int order)"

text \<open>
  The merge loop. Its result is the state, the variables \<open>page\<close>, \<open>page_idx\<close>, \<open>order\<close>, \<open>buddy\<close> and
  \<open>buddy_idx\<close> after the loop. \<open>buddy\<close> and \<open>buddy_idx\<close> are not set when the loop body never runs; they
  are not read in that case.
\<close>

function merge_loop :: "(int \<Rightarrow> bool) \<Rightarrow> int \<Rightarrow> int \<Rightarrow> nat \<Rightarrow> int \<Rightarrow> int \<Rightarrow> zstate
    \<Rightarrow> zstate \<times> int \<times> int \<times> nat \<times> int \<times> int" where
  "merge_loop valid page page_idx order buddy buddy_idx z =
     (if order < MAX_ORDER - 1
      then let buddy_idx = find_buddy_index page_idx order;
               buddy = page + (buddy_idx - page_idx)
           in if \<not> page_is_buddy valid z page buddy order
              then (z, page, page_idx, order, buddy, buddy_idx)
              else let z = list_del buddy z;
                       z = nr_free_add order (- 1) z;
                       z = upd_page buddy rmv_page_order z;
                       combined_idx = buddy_idx AND page_idx;
                       page = page + (combined_idx - page_idx)
                   in merge_loop valid page combined_idx (Suc order) buddy buddy_idx z
      else (z, page, page_idx, order, buddy, buddy_idx))"
  by pat_completeness auto
termination by (relation "measure (\<lambda>(_, _, _, order, _). MAX_ORDER - order)") auto

declare merge_loop.simps [simp del]

definition do_free_one_page :: "(int \<Rightarrow> bool) \<Rightarrow> int \<Rightarrow> nat \<Rightarrow> nat \<Rightarrow> zstate \<Rightarrow> zstate" where
  "do_free_one_page valid page order migratetype z =
     (let page_idx = page AND (push_bit MAX_ORDER 1 - 1);
          (z, page, page_idx, order, buddy, buddy_idx) =
            merge_loop valid page page_idx order page page_idx z;
          z = upd_page page (set_page_order (int order)) z;
          at_tail =
            (if order < MAX_ORDER - 2 \<and> valid buddy
             then let combined_idx = buddy_idx AND page_idx;
                      higher_page = page + (combined_idx - page_idx);
                      buddy_idx = find_buddy_index combined_idx (order + 1);
                      higher_buddy = page + (buddy_idx - combined_idx)
                  in page_is_buddy valid z higher_page higher_buddy (order + 1)
             else False);
          z = (if at_tail then list_add_tail page order migratetype z
               else list_add page order migratetype z)
      in nr_free_add order 1 z)"

definition free_one_page :: "(int \<Rightarrow> bool) \<Rightarrow> int \<Rightarrow> nat \<Rightarrow> nat \<Rightarrow> zstate \<Rightarrow> zstate" where
  "free_one_page valid page order migratetype z =
     (let z = z\<lparr>all_unreclaimable := 0, pages_scanned := 0\<rparr>;
          z = do_free_one_page valid page order migratetype z
      in mod_zone_page_state NR_FREE_PAGES (push_bit order 1) z)"


section \<open>Taking a block\<close>

text \<open>\<open>expand\<close>: the upper halves go back, the lower half is split further.\<close>

fun expand_from :: "int \<Rightarrow> nat \<Rightarrow> nat \<Rightarrow> nat \<Rightarrow> zstate \<Rightarrow> zstate" where
  "expand_from page low 0 migratetype z = z"
| "expand_from page low (Suc high) migratetype z =
     (if low < Suc high
      then let half = push_bit high 1;
               z = list_add (page + half) high migratetype z;
               z = nr_free_add high 1 z;
               z = upd_page (page + half) (set_page_order (int high)) z
           in expand_from page low high migratetype z
      else z)"

definition expand :: "int \<Rightarrow> nat \<Rightarrow> nat \<Rightarrow> nat \<Rightarrow> zstate \<Rightarrow> zstate" where
  "expand page low high migratetype z = expand_from page low high migratetype z"

text \<open>\<open>k\<close> orders are left to try, from \<open>current_order\<close> upwards.\<close>

fun smallest_loop :: "nat \<Rightarrow> nat \<Rightarrow> nat \<Rightarrow> nat \<Rightarrow> zstate \<Rightarrow> (int \<times> zstate) option" where
  "smallest_loop 0 current_order order migratetype z = None"
| "smallest_loop (Suc k) current_order order migratetype z =
     (case free_list z current_order migratetype of
        [] \<Rightarrow> smallest_loop k (Suc current_order) order migratetype z
      | page # _ \<Rightarrow>
          let z = list_del page z;
              z = upd_page page rmv_page_order z;
              z = nr_free_add current_order (- 1) z
          in Some (page, expand page order current_order migratetype z))"

definition rmqueue_smallest :: "nat \<Rightarrow> nat \<Rightarrow> zstate \<Rightarrow> (int \<times> zstate) option" where
  "rmqueue_smallest order migratetype z =
     smallest_loop (MAX_ORDER - order) order order migratetype z"

text \<open>
  \<open>move_freepages\<close>: \<open>k\<close> bounds the number of steps; the loop advances by at least one page, so the
  number of pages in the range is enough (lemma \<open>move_loop_enough\<close>).
\<close>

fun move_loop :: "nat \<Rightarrow> (int \<Rightarrow> bool) \<Rightarrow> int \<Rightarrow> int \<Rightarrow> nat \<Rightarrow> int \<Rightarrow> zstate \<Rightarrow> int \<times> zstate" where
  "move_loop 0 valid page end_page migratetype pages_moved z = (pages_moved, z)"
| "move_loop (Suc k) valid page end_page migratetype pages_moved z =
     (if end_page < page then (pages_moved, z)
      else if \<not> valid page then move_loop k valid (page + 1) end_page migratetype pages_moved z
      else if \<not> PageBuddy (mem_map z page)
      then move_loop k valid (page + 1) end_page migratetype pages_moved z
      else let order = nat (page_order (mem_map z page));
               z = list_del page z;
               z = list_add page order migratetype z
           in move_loop k valid (page + push_bit order 1) end_page migratetype
                (s32 (pages_moved + push_bit order 1)) z)"

definition move_freepages ::
  "(int \<Rightarrow> bool) \<Rightarrow> int \<Rightarrow> int \<Rightarrow> nat \<Rightarrow> zstate \<Rightarrow> int \<times> zstate" where
  "move_freepages valid start_page end_page migratetype z =
     move_loop (nat (end_page - start_page + 1)) valid start_page end_page migratetype 0 z"

definition move_freepages_block ::
  "(int \<Rightarrow> bool) \<Rightarrow> int \<Rightarrow> nat \<Rightarrow> zstate \<Rightarrow> int \<times> zstate" where
  "move_freepages_block valid page migratetype z =
     (let start_pfn = mask_down page pageblock_nr_pages;
          start_page = start_pfn;
          end_page = start_page + pageblock_nr_pages - 1;
          end_pfn = start_pfn + pageblock_nr_pages - 1;
          start_page = (if start_pfn < zone_start_pfn z then page else start_page)
      in if zone_start_pfn z + spanned_pages z \<le> end_pfn then (0, z)
         else move_freepages valid start_page end_page migratetype z)"

fun change_loop :: "nat \<Rightarrow> int \<Rightarrow> nat \<Rightarrow> zstate \<Rightarrow> zstate option" where
  "change_loop 0 pageblock_page migratetype z = Some z"
| "change_loop (Suc k) pageblock_page migratetype z =
     do { z' \<leftarrow> set_pageblock_migratetype pageblock_page migratetype z;
          change_loop k (pageblock_page + pageblock_nr_pages) migratetype z' }"

definition change_pageblock_range :: "int \<Rightarrow> nat \<Rightarrow> nat \<Rightarrow> zstate \<Rightarrow> zstate option" where
  "change_pageblock_range pageblock_page start_order migratetype z =
     change_loop (nat (push_bit (start_order - pageblock_order) 1)) pageblock_page migratetype z"

text \<open>
  The fallback table. Its rows have four entries of which the source gives three, so that the fourth
  is 0; the row of \<^verbatim>\<open>MIGRATE_ISOLATE\<close> is not given at all.
\<close>

definition fallbacks :: "nat \<Rightarrow> nat list" where
  "fallbacks t =
     (if t = MIGRATE_UNMOVABLE then [MIGRATE_RECLAIMABLE, MIGRATE_MOVABLE, MIGRATE_RESERVE, 0]
      else if t = MIGRATE_RECLAIMABLE then [MIGRATE_UNMOVABLE, MIGRATE_MOVABLE, MIGRATE_RESERVE, 0]
      else if t = MIGRATE_MOVABLE then [MIGRATE_RECLAIMABLE, MIGRATE_UNMOVABLE, MIGRATE_RESERVE, 0]
      else if t = MIGRATE_RESERVE then [MIGRATE_RESERVE, MIGRATE_RESERVE, MIGRATE_RESERVE, 0]
      else [0, 0, 0, 0])"

text \<open>The body of the loops once a list with a block is found.\<close>

definition steal_block ::
  "(int \<Rightarrow> bool) \<Rightarrow> nat \<Rightarrow> nat \<Rightarrow> nat \<Rightarrow> nat \<Rightarrow> int \<Rightarrow> zstate \<Rightarrow> (int \<times> zstate) option" where
  "steal_block valid order start_migratetype current_order migratetype page z =
     (let z = nr_free_add current_order (- 1) z
      in do {
        (migratetype, z) \<leftarrow>
          (if pageblock_order div 2 \<le> current_order \<or> start_migratetype = MIGRATE_RECLAIMABLE
              \<or> page_group_by_mobility_disabled z
           then let (pages, z) = move_freepages_block valid page start_migratetype z
                in do {
                  z \<leftarrow> (if push_bit (pageblock_order - 1) 1 \<le> u64 pages
                          \<or> page_group_by_mobility_disabled z
                       then set_pageblock_migratetype page start_migratetype z else Some z);
                  Some (start_migratetype, z) }
           else Some (migratetype, z));
        let z = upd_page page rmv_page_order (list_del page z);
        z \<leftarrow> (if pageblock_order \<le> current_order
             then change_pageblock_range page current_order start_migratetype z else Some z);
        Some (page, expand page order current_order migratetype z) })"

text \<open>
  The two loops: over the entries of the fallback row, and over the orders downwards, \<open>k\<close> orders
  being left. The outer option is \<open>None\<close> for an access outside the bit map, the inner one for the
  C result \<open>NULL\<close>.
\<close>

fun fallback_types ::
  "(int \<Rightarrow> bool) \<Rightarrow> nat \<Rightarrow> nat \<Rightarrow> nat \<Rightarrow> nat list \<Rightarrow> zstate \<Rightarrow> (int \<times> zstate) option option" where
  "fallback_types valid order start_migratetype current_order [] z = Some None"
| "fallback_types valid order start_migratetype current_order (t # ts) z =
     (if t = MIGRATE_RESERVE then fallback_types valid order start_migratetype current_order ts z
      else case free_list z current_order t of
          [] \<Rightarrow> fallback_types valid order start_migratetype current_order ts z
        | page # _ \<Rightarrow>
            map_option Some (steal_block valid order start_migratetype current_order t page z))"

fun fallback_orders ::
  "nat \<Rightarrow> (int \<Rightarrow> bool) \<Rightarrow> nat \<Rightarrow> nat \<Rightarrow> zstate \<Rightarrow> (int \<times> zstate) option option" where
  "fallback_orders 0 valid order start_migratetype z = Some None"
| "fallback_orders (Suc k) valid order start_migratetype z =
     do { r \<leftarrow> fallback_types valid order start_migratetype (order + k)
                 (fallbacks start_migratetype) z;
          case r of None \<Rightarrow> fallback_orders k valid order start_migratetype z
                  | Some x \<Rightarrow> Some (Some x) }"

definition rmqueue_fallback ::
  "(int \<Rightarrow> bool) \<Rightarrow> nat \<Rightarrow> nat \<Rightarrow> zstate \<Rightarrow> (int \<times> zstate) option option" where
  "rmqueue_fallback valid order start_migratetype z =
     fallback_orders (MAX_ORDER - order) valid order start_migratetype z"

definition rmqueue :: "(int \<Rightarrow> bool) \<Rightarrow> nat \<Rightarrow> nat \<Rightarrow> zstate \<Rightarrow> (int \<times> zstate) option option" where
  "rmqueue valid order migratetype z =
     (case rmqueue_smallest order migratetype z of
        Some x \<Rightarrow> Some (Some x)
      | None \<Rightarrow>
          if migratetype = MIGRATE_RESERVE then Some None
          else do { r \<leftarrow> rmqueue_fallback valid order migratetype z;
                    case r of Some x \<Rightarrow> Some (Some x)
                            | None \<Rightarrow> Some (rmqueue_smallest order MIGRATE_RESERVE z) })"

end
