(* ===== verification/BuddyInv.thy ===== *)
theory BuddyInv
  imports Buddy
begin

text \<open>
  The invariant of the buddy allocator and what its operations do to the set of free pages. A state
  is read as its set of free blocks \<open>(page, order)\<close>; the two primitive changes, taking a block out of
  its list and putting one on a list, are proved once, and the operations of \<open>Buddy\<close> are composed
  of them.
\<close>

named_theorems buddy_consts \<open>the numeric constants of the allocator\<close>

lemmas [buddy_consts] = MAX_ORDER_def pageblock_order_def MIGRATE_TYPES_def NR_PAGEBLOCK_BITS_def
  pageblock_nr_pages_def MIGRATE_UNMOVABLE_def MIGRATE_RECLAIMABLE_def MIGRATE_MOVABLE_def
  MIGRATE_RESERVE_def MIGRATE_ISOLATE_def MIGRATE_PCPTYPES_def

lemma page_order_simps [simp]:
  "page_zone_id (set_page_order k p) = page_zone_id p"
  "page_zone_id (rmv_page_order p) = page_zone_id p"
  "PageBuddy (set_page_order k p)" "\<not> PageBuddy (rmv_page_order p)"
  "page_order (set_page_order k p) = k"
  "pg_flags (set_page_order k p) = pg_flags p" "pg_flags (rmv_page_order p) = pg_flags p"
  "pg_count (set_page_order k p) = pg_count p" "pg_count (rmv_page_order p) = pg_count p"
  "pg_mapping (set_page_order k p) = pg_mapping p" "pg_mapping (rmv_page_order p) = pg_mapping p"
  by (simp_all add: set_page_order_def rmv_page_order_def page_zone_id_def PageBuddy_def
      page_order_def SetPageBuddy_def ClearPageBuddy_def set_page_private_def)


section \<open>Blocks\<close>

definition listed :: "zstate \<Rightarrow> nat \<Rightarrow> int \<Rightarrow> bool" where
  "listed z order p \<longleftrightarrow> (\<exists>t. p \<in> set (free_list z order t))"

definition blocks :: "zstate \<Rightarrow> (int \<times> nat) set" where
  "blocks z = {(p, order). listed z order p}"

definition free_set :: "zstate \<Rightarrow> int set" where
  "free_set z = (\<Union>(p, order) \<in> blocks z. block p (2 ^ order))"

definition zone_pages :: "(int \<Rightarrow> bool) \<Rightarrow> zstate \<Rightarrow> int set" where
  "zone_pages valid z = {p. valid p \<and> page_zone_id (mem_map z p) = zone_no z}"

definition pcp_pages :: "zstate \<Rightarrow> int set" where
  "pcp_pages z = (\<Union>t. set (pcp_lists (pageset z) t))"

definition list_count :: "zstate \<Rightarrow> nat \<Rightarrow> int" where
  "list_count z order = (\<Sum>t<MIGRATE_TYPES. int (length (free_list z order t)))"

definition apart :: "(int \<times> nat) set \<Rightarrow> bool" where
  "apart B \<longleftrightarrow> (\<forall>(p, i) \<in> B. \<forall>(q, j) \<in> B.
     (p, i) \<noteq> (q, j) \<longrightarrow> block p (2 ^ i) \<inter> block q (2 ^ j) = {})"

text \<open>The lists: every listed page is on one list, once, and only the lists that exist are used.\<close>

definition lists_ok :: "zstate \<Rightarrow> bool" where
  "lists_ok z \<longleftrightarrow>
     (\<forall>i t. distinct (free_list z i t)) \<and>
     (\<forall>i j t u p. p \<in> set (free_list z i t) \<longrightarrow> p \<in> set (free_list z j u) \<longrightarrow> i = j \<and> t = u) \<and>
     (\<forall>i t p. p \<in> set (free_list z i t) \<longrightarrow> i < MAX_ORDER \<and> t < MIGRATE_TYPES)"

text \<open>A listed block is aligned, lies in the zone, and its first page says so.\<close>

definition block_ok :: "(int \<Rightarrow> bool) \<Rightarrow> zstate \<Rightarrow> int \<Rightarrow> nat \<Rightarrow> bool" where
  "block_ok valid z p i \<longleftrightarrow>
     2 ^ i dvd p \<and> block p (2 ^ i) \<subseteq> zone_pages valid z \<and>
     PageBuddy (mem_map z p) \<and> page_order (mem_map z p) = int i"

definition buddy_inv :: "(int \<Rightarrow> bool) \<Rightarrow> zstate \<Rightarrow> bool" where
  "buddy_inv valid z \<longleftrightarrow>
     lists_ok z \<and>
     (\<forall>(p, i) \<in> blocks z. block_ok valid z p i) \<and>
     (\<forall>p \<in> zone_pages valid z. PageBuddy (mem_map z p) \<longrightarrow> (\<exists>i. (p, i) \<in> blocks z)) \<and>
     apart (blocks z) \<and>
     (\<forall>i. nr_free z i = u64 (list_count z i)) \<and>
     pcp_pages z \<inter> free_set z = {} \<and>
     0 \<le> zone_start_pfn z \<and>
     zone_pages valid z = {p. valid p \<and> zone_start_pfn z \<le> p \<and> p < zone_start_pfn z + spanned_pages z}"

lemma buddy_invD:
  assumes "buddy_inv valid z"
  shows "lists_ok z" "(p, i) \<in> blocks z \<Longrightarrow> block_ok valid z p i"
    "p \<in> zone_pages valid z \<Longrightarrow> PageBuddy (mem_map z p) \<Longrightarrow> \<exists>i. (p, i) \<in> blocks z"
    "apart (blocks z)" "nr_free z i = u64 (list_count z i)" "pcp_pages z \<inter> free_set z = {}"
    "0 \<le> zone_start_pfn z"
    "zone_pages valid z = {p. valid p \<and> zone_start_pfn z \<le> p \<and> p < zone_start_pfn z + spanned_pages z}"
  using assms unfolding buddy_inv_def by auto

lemma blocks_listed: "(p, i) \<in> blocks z \<longleftrightarrow> (\<exists>t. p \<in> set (free_list z i t))"
  by (simp add: blocks_def listed_def)

lemma free_setI: "(p, i) \<in> blocks z \<Longrightarrow> x \<in> block p (2 ^ i) \<Longrightarrow> x \<in> free_set z"
  unfolding free_set_def by blast

lemma free_setE:
  assumes "x \<in> free_set z" obtains p i where "(p, i) \<in> blocks z" "x \<in> block p (2 ^ i)"
  using assms by (auto simp: free_set_def)

lemma head_in_free_set: "(p, i) \<in> blocks z \<Longrightarrow> p \<in> free_set z"
  by (rule free_setI) auto

lemma blocks_order:
  assumes "lists_ok z" "(p, i) \<in> blocks z" shows "i < MAX_ORDER"
  using assms unfolding lists_ok_def blocks_listed by blast

lemma blocks_apart:
  assumes "apart (blocks z)" "(p, i) \<in> blocks z" "(q, j) \<in> blocks z"
    "x \<in> block p (2 ^ i)" "x \<in> block q (2 ^ j)"
  shows "q = p \<and> j = i"
  using assms unfolding apart_def by blast

lemma free_set_zone:
  assumes "buddy_inv valid z" shows "free_set z \<subseteq> zone_pages valid z"
  using buddy_invD(2) [OF assms] by (auto simp: free_set_def block_ok_def)

lemma zone_pages_nonneg:
  assumes "buddy_inv valid z" "p \<in> zone_pages valid z" shows "0 \<le> p"
  using buddy_invD(7,8) [OF assms(1)] assms(2) by auto

lemma blocks_same:
  assumes "\<And>i t. set (free_list z' i t) = set (free_list z i t)"
  shows "blocks z' = blocks z"
  by (simp add: blocks_def listed_def assms)

lemma free_set_blocks: "blocks z' = blocks z \<Longrightarrow> free_set z' = free_set z"
  by (simp add: free_set_def)


section \<open>Taking a block out of its list\<close>

definition take_out :: "int \<Rightarrow> nat \<Rightarrow> zstate \<Rightarrow> zstate" where
  "take_out p i z = nr_free_add i (- 1) (upd_page p rmv_page_order (list_del p z))"

named_theorems buddy_ops \<open>the primitive state changes\<close>

lemmas [buddy_ops] = take_out_def nr_free_add_def upd_page_def list_del_def list_add_def
  list_add_tail_def upd_free_list_def

lemma take_out_fields [simp]:
  "zone_no (take_out p i z) = zone_no z"
  "zone_start_pfn (take_out p i z) = zone_start_pfn z"
  "spanned_pages (take_out p i z) = spanned_pages z"
  "free_list (take_out p i z) j t = remove1 p (free_list z j t)"
  "mem_map (take_out p i z) = (mem_map z)(p := rmv_page_order (mem_map z p))"
  "nr_free (take_out p i z) j = (if j = i then u64 (nr_free z i - 1) else nr_free z j)"
  by (simp_all add: buddy_ops)

lemma zone_pages_take_out [simp]: "zone_pages valid (take_out p i z) = zone_pages valid z"
  by (auto simp: zone_pages_def)

lemma pcp_pages_take_out: "p \<notin> pcp_pages z \<Longrightarrow> pageset (take_out p i z) = pageset z"
  by (simp add: buddy_ops pcp_pages_def remove1_idem)

lemma remove1_elsewhere:
  assumes "lists_ok z" "p \<in> set (free_list z i t)"
    and "\<not> (j = i \<and> u = t)"
  shows "remove1 p (free_list z j u) = free_list z j u"
  using assms unfolding lists_ok_def by (metis remove1_idem)

lemma blocks_take_out:
  assumes "lists_ok z" "(p, i) \<in> blocks z"
  shows "blocks (take_out p i z) = blocks z - {(p, i)}"
proof -
  have "distinct (free_list z j t)" for j t using assms(1) by (simp add: lists_ok_def)
  moreover have "(p, j) \<in> blocks z \<Longrightarrow> j = i" for j
    using assms unfolding lists_ok_def blocks_listed by blast
  ultimately show ?thesis by (auto simp: blocks_listed set_remove1_eq)
qed

lemma free_set_take_out:
  assumes "buddy_inv valid z" "(p, i) \<in> blocks z"
  shows "free_set (take_out p i z) = free_set z - block p (2 ^ i)"
proof -
  have "free_set (take_out p i z) = (\<Union>(q, j) \<in> blocks z - {(p, i)}. block q (2 ^ j))"
    unfolding free_set_def blocks_take_out [OF buddy_invD(1) [OF assms(1)] assms(2)] ..
  also have "\<dots> = free_set z - block p (2 ^ i)"
    using blocks_apart [OF buddy_invD(4) [OF assms(1)] assms(2)]
    unfolding free_set_def by auto
  finally show ?thesis .
qed

lemma list_count_take_out:
  assumes "lists_ok z" "p \<in> set (free_list z i t)"
  shows "list_count (take_out p i z) j = list_count z j - of_bool (j = i)"
proof -
  have t: "t < MIGRATE_TYPES" using assms unfolding lists_ok_def by blast
  have pos: "0 < length (free_list z i t)" using assms(2) by (cases "free_list z i t") auto
  have "int (length (remove1 p (free_list z j u)))
      = int (length (free_list z j u)) - (if u = t then of_bool (j = i) else 0)" for u
  proof (cases "j = i \<and> u = t")
    case True then show ?thesis using pos assms(2) by (simp add: length_remove1 of_nat_diff Suc_le_eq)
  qed (auto simp: remove1_elsewhere [OF assms])
  then have "list_count (take_out p i z) j = (\<Sum>u<MIGRATE_TYPES.
      int (length (free_list z j u)) - (if u = t then of_bool (j = i) else 0))"
    by (simp only: list_count_def take_out_fields)
  also have "\<dots> = list_count z j - of_bool (j = i)"
    using t by (simp add: list_count_def sum_subtractf)
  finally show ?thesis .
qed

lemma u64_diff: "u64 (u64 x - y) = u64 (x - y)" and u64_sum: "u64 (u64 x + y) = u64 (x + y)"
  by (simp_all add: u64_def mod_simps)

lemma take_out_inv:
  assumes inv: "buddy_inv valid z" and mem: "(p, i) \<in> blocks z"
  shows "buddy_inv valid (take_out p i z)"
proof -
  let ?z = "take_out p i z"
  note D = buddy_invD [OF inv]
  obtain t where t: "p \<in> set (free_list z i t)" using mem by (auto simp: blocks_listed)
  have B: "blocks ?z = blocks z - {(p, i)}" by (rule blocks_take_out [OF D(1) mem])
  have F: "free_set ?z = free_set z - block p (2 ^ i)" by (rule free_set_take_out [OF inv mem])
  have lists: "lists_ok ?z"
    using D(1) unfolding lists_ok_def take_out_fields
    by (meson distinct_remove1 notin_set_remove1)
  have uniq: "(p, j) \<in> blocks z \<Longrightarrow> j = i" for j
    using D(1) mem unfolding lists_ok_def blocks_listed by blast
  have ok: "block_ok valid ?z q j" if "(q, j) \<in> blocks ?z" for q j
    using D(2) [of q j] that uniq unfolding B by (auto simp: block_ok_def)
  have heads: "\<exists>j. (q, j) \<in> blocks ?z"
    if "q \<in> zone_pages valid ?z" "PageBuddy (mem_map ?z q)" for q
    using that D(3) [of q] unfolding B by (auto split: if_splits)
  have ap: "apart (blocks ?z)" using D(4) unfolding B apart_def by blast
  have nr: "nr_free ?z j = u64 (list_count ?z j)" for j
    by (simp add: list_count_take_out [OF D(1) t] D(5) u64_diff)
  have pcp: "pcp_pages ?z \<inter> free_set ?z = {}"
  proof -
    have "pcp_pages ?z \<subseteq> pcp_pages z"
      using set_remove1_subset by (fastforce simp: pcp_pages_def buddy_ops)
    then show ?thesis using D(6) unfolding F by blast
  qed
  show ?thesis unfolding buddy_inv_def using lists ok heads ap nr pcp D(7,8) by auto
qed


section \<open>Putting a block on a list\<close>

definition put :: "bool \<Rightarrow> int \<Rightarrow> nat \<Rightarrow> nat \<Rightarrow> zstate \<Rightarrow> zstate" where
  "put at_tail p i t z =
     nr_free_add i 1 (upd_page p (set_page_order (int i))
       ((if at_tail then list_add_tail else list_add) p i t z))"

lemma put_fields [simp]:
  "zone_no (put e p i t z) = zone_no z"
  "zone_start_pfn (put e p i t z) = zone_start_pfn z"
  "spanned_pages (put e p i t z) = spanned_pages z"
  "pageset (put e p i t z) = pageset z"
  "free_list (put e p i t z) j u =
     (if j = i \<and> u = t then if e then free_list z i t @ [p] else p # free_list z i t
      else free_list z j u)"
  "mem_map (put e p i t z) = (mem_map z)(p := set_page_order (int i) (mem_map z p))"
  "nr_free (put e p i t z) j = (if j = i then u64 (nr_free z i + 1) else nr_free z j)"
  by (auto simp: put_def buddy_ops)

lemma zone_pages_put [simp]: "zone_pages valid (put e p i t z) = zone_pages valid z"
  by (auto simp: zone_pages_def)

lemma blocks_put: "blocks (put e p i t z) = insert (p, i) (blocks z)"
  by (auto simp: blocks_listed split: if_splits)

lemma free_set_put: "free_set (put e p i t z) = free_set z \<union> block p (2 ^ i)"
  by (auto simp: free_set_def blocks_put)

text \<open>A block that may be put on a list: aligned, in the zone, and not free already.\<close>

definition usable :: "(int \<Rightarrow> bool) \<Rightarrow> zstate \<Rightarrow> int \<Rightarrow> nat \<Rightarrow> bool" where
  "usable valid z p i \<longleftrightarrow>
     i < MAX_ORDER \<and> 2 ^ i dvd p \<and> block p (2 ^ i) \<subseteq> zone_pages valid z \<and>
     block p (2 ^ i) \<inter> (free_set z \<union> pcp_pages z) = {}"

lemma list_count_put:
  assumes "t < MIGRATE_TYPES"
  shows "list_count (put e p i t z) j = list_count z j + of_bool (j = i)"
proof -
  have "int (length (free_list (put e p i t z) j u))
      = int (length (free_list z j u)) + (if u = t then of_bool (j = i) else 0)" for u
    by auto
  then have "list_count (put e p i t z) j = (\<Sum>u<MIGRATE_TYPES.
      int (length (free_list z j u)) + (if u = t then of_bool (j = i) else 0))"
    by (simp only: list_count_def)
  also have "\<dots> = list_count z j + of_bool (j = i)"
    using assms by (simp add: list_count_def sum.distrib)
  finally show ?thesis .
qed

lemma put_inv:
  assumes inv: "buddy_inv valid z" and u: "usable valid z p i" and t: "t < MIGRATE_TYPES"
  shows "buddy_inv valid (put e p i t z)"
proof -
  let ?z = "put e p i t z"
  note D = buddy_invD [OF inv]
  have B: "blocks ?z = insert (p, i) (blocks z)" by (rule blocks_put)
  have F: "free_set ?z = free_set z \<union> block p (2 ^ i)" by (rule free_set_put)
  have p: "p \<in> block p (2 ^ i)" by simp
  have new: "(p, j) \<notin> blocks z" for j
    using u p head_in_free_set [of p j z] unfolding usable_def by blast
  then have new': "p \<notin> set (free_list z j s)" for j s by (auto simp: blocks_listed)
  have i: "i < MAX_ORDER" using u by (simp add: usable_def)
  have lists: "lists_ok ?z"
    using D(1) new' t i unfolding lists_ok_def put_fields
    by (auto split: if_splits)
  have ok: "block_ok valid ?z q j" if "(q, j) \<in> blocks ?z" for q j
    using D(2) [of q j] that new [of j] u unfolding B by (auto simp: block_ok_def usable_def)
  have heads: "\<exists>j. (q, j) \<in> blocks ?z"
    if "q \<in> zone_pages valid ?z" "PageBuddy (mem_map ?z q)" for q
    using that D(3) [of q] unfolding B by (auto split: if_splits)
  have disj: "block p (2 ^ i) \<inter> block q (2 ^ j) = {}" if "(q, j) \<in> blocks z" for q j
    using u free_setI [OF that] unfolding usable_def by blast
  have ap: "apart (blocks ?z)" using D(4) disj unfolding B apart_def by fastforce
  have nr: "nr_free ?z j = u64 (list_count ?z j)" for j
    by (simp add: list_count_put [OF t] D(5) u64_sum)
  have pcp: "pcp_pages ?z \<inter> free_set ?z = {}"
    using D(6) u unfolding F usable_def by (auto simp: pcp_pages_def)
  show ?thesis unfolding buddy_inv_def using lists ok heads ap nr pcp D(7,8) by auto
qed


section \<open>Buddies\<close>

definition buddy_of :: "int \<Rightarrow> nat \<Rightarrow> int" where
  "buddy_of p i = flip_bit i p"

definition parent_of :: "int \<Rightarrow> nat \<Rightarrow> int" where
  "parent_of p i = unset_bit i p"

lemma find_buddy_index_flip: "find_buddy_index p i = flip_bit i p"
  by (simp add: find_buddy_index_def flip_bit_eq_xor)

lemma parent_and: "flip_bit i p AND p = unset_bit i (p :: int)"
  by (rule bit_eqI) (auto simp: bit_and_iff bit_flip_bit_iff bit_unset_bit_iff)

lemma buddy_of_eq: "buddy_of p i = (if bit p i then p - 2 ^ i else p + 2 ^ i)"
  by (simp add: buddy_of_def flip_bit_eq_if set_bit_eq unset_bit_eq)

lemma parent_of_eq: "parent_of p i = (if bit p i then p - 2 ^ i else p)"
  by (simp add: parent_of_def unset_bit_eq)

lemma buddy_invol [simp]: "buddy_of (buddy_of p i) i = p"
  unfolding buddy_of_def by (rule bit_eqI) (auto simp: bit_flip_bit_iff)

lemma buddy_neq: "buddy_of p i \<noteq> p"
  by (simp add: buddy_of_eq)

lemma aligned_Suc: "2 ^ i dvd (p :: int) \<Longrightarrow> \<not> bit p i \<Longrightarrow> 2 ^ Suc i dvd p"
  by (auto simp: bit_iff_odd elim!: dvdE)

lemma buddy_aligned: "2 ^ i dvd p \<Longrightarrow> 2 ^ i dvd buddy_of p i"
  by (simp add: buddy_of_eq)

lemma parent_aligned: "2 ^ i dvd p \<Longrightarrow> 2 ^ Suc i dvd parent_of p i"
proof -
  assume a: "2 ^ i dvd p"
  have "2 ^ i dvd parent_of p i" using a by (simp add: parent_of_eq)
  moreover have "\<not> bit (parent_of p i) i" by (simp add: parent_of_def bit_unset_bit_iff)
  ultimately show ?thesis by (rule aligned_Suc)
qed

lemma block_parent: "block p (2 ^ i) \<union> block (buddy_of p i) (2 ^ i) = block (parent_of p i) (2 ^ Suc i)"
  using block_append [of "2 ^ i" "2 ^ i" "parent_of p i"]
  by (auto simp: buddy_of_eq parent_of_eq Un_commute)

lemma block_buddy_disjoint: "block p (2 ^ i) \<inter> block (buddy_of p i) (2 ^ i) = {}"
  by (auto simp: buddy_of_eq split: if_splits)

text \<open>The index of a page within its 2048 pages has the same bits below \<open>MAX_ORDER\<close>.\<close>

lemma page_idx_bit:
  assumes "page_idx = page mod 2048" "i < 11"
  shows "bit page_idx i = bit (page :: int) i"
proof -
  have "page_idx = take_bit 11 page" using assms(1) by (simp add: take_bit_eq_mod)
  then show ?thesis using assms(2) by (simp add: bit_take_bit_iff)
qed

lemma buddy_offset:
  assumes "page_idx = page mod 2048" "i < 11"
  shows "page + (find_buddy_index page_idx i - page_idx) = buddy_of page i"
  using page_idx_bit [OF assms]
  by (simp add: find_buddy_index_flip flip_bit_eq_if set_bit_eq unset_bit_eq buddy_of_eq)

lemma parent_offset:
  assumes "page_idx = page mod 2048" "i < 11"
  shows "page + ((find_buddy_index page_idx i AND page_idx) - page_idx) = parent_of page i"
    "(find_buddy_index page_idx i AND page_idx) = parent_of page i mod 2048"
proof -
  note b = page_idx_bit [OF assms]
  show "page + ((find_buddy_index page_idx i AND page_idx) - page_idx) = parent_of page i"
    using b by (simp add: find_buddy_index_flip parent_and unset_bit_eq parent_of_eq)
  have "unset_bit i (take_bit 11 page) = take_bit 11 (unset_bit i page)"
    by (rule bit_eqI) (auto simp: bit_take_bit_iff bit_unset_bit_iff)
  then show "(find_buddy_index page_idx i AND page_idx) = parent_of page i mod 2048"
    using assms(1) by (simp add: find_buddy_index_flip parent_and parent_of_def take_bit_eq_mod)
qed

lemma page_is_buddy_listed:
  assumes inv: "buddy_inv valid z" and p: "p \<in> zone_pages valid z"
  shows "page_is_buddy valid z p b i \<longleftrightarrow> (b, i) \<in> blocks z"
proof
  assume b: "page_is_buddy valid z p b i"
  then have bz: "b \<in> zone_pages valid z" and bb: "PageBuddy (mem_map z b)"
    and bo: "page_order (mem_map z b) = int i"
    using p by (auto simp: page_is_buddy_def zone_pages_def split: if_splits)
  then obtain j where j: "(b, j) \<in> blocks z" using buddy_invD(3) [OF inv bz bb] by blast
  then have "page_order (mem_map z b) = int j"
    using buddy_invD(2) [OF inv j] by (simp add: block_ok_def)
  with bo j show "(b, i) \<in> blocks z" by simp
next
  assume "(b, i) \<in> blocks z"
  then have ok: "block_ok valid z b i" by (rule buddy_invD(2) [OF inv])
  then have "b \<in> zone_pages valid z" by (auto simp: block_ok_def)
  with ok p show "page_is_buddy valid z p b i"
    by (simp add: page_is_buddy_def block_ok_def zone_pages_def)
qed

text \<open>Two buddies are never free side by side.\<close>

definition merged :: "zstate \<Rightarrow> bool" where
  "merged z \<longleftrightarrow> (\<forall>(p, i) \<in> blocks z. i < MAX_ORDER - 1 \<longrightarrow> (buddy_of p i, i) \<notin> blocks z)"

lemma merged_take_out:
  "lists_ok z \<Longrightarrow> (p, i) \<in> blocks z \<Longrightarrow> merged z \<Longrightarrow> merged (take_out p i z)"
  by (auto simp: merged_def blocks_take_out)

lemma merged_put:
  assumes "merged z" "i < MAX_ORDER - 1 \<Longrightarrow> (buddy_of p i, i) \<notin> blocks z"
  shows "merged (put e p i t z)"
  using assms buddy_neq [of p i] unfolding merged_def blocks_put by auto


lemma take_out_usable:
  assumes inv: "buddy_inv valid z" and b: "(p, i) \<in> blocks z"
  shows "usable valid (take_out p i z) p i"
proof -
  have "p \<notin> pcp_pages z" using buddy_invD(6) [OF inv] head_in_free_set [OF b] by blast
  then have "pcp_pages (take_out p i z) = pcp_pages z" by (simp add: pcp_pages_take_out pcp_pages_def)
  moreover have "block p (2 ^ i) \<subseteq> free_set z" using free_setI [OF b] by blast
  ultimately show ?thesis
    using buddy_invD(2) [OF inv b] blocks_order [OF buddy_invD(1) [OF inv] b]
      free_set_take_out [OF inv b] buddy_invD(6) [OF inv]
    by (auto simp: usable_def block_ok_def)
qed

text \<open>Moving a block to another list of its order.\<close>

lemma relist_take_put:
  assumes inv: "buddy_inv valid z" and b: "(p, i) \<in> blocks z"
  shows "list_add p i t (list_del p z) = put False p i t (take_out p i z)"
proof -
  have "PageBuddy (mem_map z p)" "page_order (mem_map z p) = int i"
    using buddy_invD(2) [OF inv b] by (auto simp: block_ok_def)
  then have m: "set_page_order (int i) (rmv_page_order (mem_map z p)) = mem_map z p"
    by (simp add: set_page_order_def rmv_page_order_def PageBuddy_def page_order_def
        SetPageBuddy_def ClearPageBuddy_def set_page_private_def)
  have "u64 (u64 (nr_free z i - 1) + 1) = nr_free z i"
    by (simp add: u64_sum buddy_invD(5) [OF inv])
  then show ?thesis using m
    by (cases z) (simp add: put_def buddy_ops fun_upd_idem fun_eq_iff)
qed

end
