(* ===== verification/BuddyOps.thy ===== *)
theory BuddyOps
  imports BuddyInv
begin

section \<open>What stays the same\<close>

text \<open>\<open>frame z z'\<close>: only free lists, their counters, the buddy marks of pages and the
  page-block flags differ.\<close>

definition frame :: "zstate \<Rightarrow> zstate \<Rightarrow> bool" where
  "frame z z' \<longleftrightarrow>
     z'\<lparr>free_list := free_list z, nr_free := nr_free z, mem_map := mem_map z,
        pageblock_flags := pageblock_flags z\<rparr> = z \<and>
     length (pageblock_flags z') = length (pageblock_flags z) \<and>
     (\<forall>p. pg_flags (mem_map z' p) = pg_flags (mem_map z p) \<and>
          pg_count (mem_map z' p) = pg_count (mem_map z p) \<and>
          pg_mapping (mem_map z' p) = pg_mapping (mem_map z p) \<and>
          pg_mapcount (mem_map z' p) \<in> {pg_mapcount (mem_map z p), - 1, - 2})"

lemma frame_refl [simp]: "frame z z"
  by (simp add: frame_def)

lemma frame_fields:
  assumes "frame z z'"
  shows "zone_no z' = zone_no z" "pageset z' = pageset z" "zone_start_pfn z' = zone_start_pfn z"
    "spanned_pages z' = spanned_pages z"
    "vm_stat z' = vm_stat z" "global_stat z' = global_stat z" "watermark z' = watermark z"
    "page_group_by_mobility_disabled z' = page_group_by_mobility_disabled z"
    "pg_flags (mem_map z' p) = pg_flags (mem_map z p)"
    "pg_count (mem_map z' p) = pg_count (mem_map z p)"
    "pg_mapping (mem_map z' p) = pg_mapping (mem_map z p)"
    "pg_mapcount (mem_map z' p) \<in> {pg_mapcount (mem_map z p), - 1, - 2}"
    "length (pageblock_flags z') = length (pageblock_flags z)"
  using assms by (cases z, cases z', simp add: frame_def)+

lemma frame_zone_pages: "frame z z' \<Longrightarrow> zone_pages valid z' = zone_pages valid z"
  by (simp add: zone_pages_def page_zone_id_def frame_fields)

lemma frame_pcp_pages: "frame z z' \<Longrightarrow> pcp_pages z' = pcp_pages z"
  by (simp add: pcp_pages_def frame_fields)

lemma frame_trans: "frame a b \<Longrightarrow> frame b c \<Longrightarrow> frame a c"
  by (cases a, cases b, cases c) (simp add: frame_def, metis)

lemma frame_take_out:
  assumes "buddy_inv valid z" "(p, i) \<in> blocks z"
  shows "frame z (take_out p i z)"
proof -
  have "p \<notin> pcp_pages z"
    using buddy_invD(6) [OF assms(1)] head_in_free_set [OF assms(2)] by blast
  then have "pageset (take_out p i z) = pageset z" by (rule pcp_pages_take_out)
  then show ?thesis
    by (cases z) (simp add: frame_def buddy_ops rmv_page_order_def ClearPageBuddy_def set_page_private_def)
qed

lemma frame_put: "frame z (put e p i t z)"
  by (cases z) (auto simp: frame_def put_def buddy_ops set_page_order_def SetPageBuddy_def
      set_page_private_def)


section \<open>The merge loop\<close>

text \<open>What holds of a block on its way back into the free lists.\<close>

definition freeing :: "(int \<Rightarrow> bool) \<Rightarrow> zstate \<Rightarrow> int \<Rightarrow> nat \<Rightarrow> bool" where
  "freeing valid z p i \<longleftrightarrow> buddy_inv valid z \<and> merged z \<and> usable valid z p i"

lemma usable_page: "usable valid z p i \<Longrightarrow> p \<in> zone_pages valid z"
  by (auto simp: usable_def)

lemma usable_not_listed: "usable valid z p i \<Longrightarrow> (p, j) \<notin> blocks z"
proof
  assume "usable valid z p i" "(p, j) \<in> blocks z"
  then have "p \<in> block p (2 ^ i) \<inter> (free_set z \<union> pcp_pages z)"
    using head_in_free_set by fastforce
  with \<open>usable valid z p i\<close> show False unfolding usable_def by blast
qed

lemma merge_step:
  assumes f: "freeing valid z p i" and b: "(buddy_of p i, i) \<in> blocks z" and i: "i < MAX_ORDER - 1"
  shows "freeing valid (take_out (buddy_of p i) i z) (parent_of p i) (Suc i)"
    and "free_set (take_out (buddy_of p i) i z) \<union> block (parent_of p i) (2 ^ Suc i)
       = free_set z \<union> block p (2 ^ i)"
proof -
  let ?b = "buddy_of p i" and ?z = "take_out (buddy_of p i) i z"
  from f have inv: "buddy_inv valid z" and m: "merged z" and u: "usable valid z p i"
    by (auto simp: freeing_def)
  have ok: "block_ok valid z ?b i" by (rule buddy_invD(2) [OF inv b])
  have F: "free_set ?z = free_set z - block ?b (2 ^ i)" by (rule free_set_take_out [OF inv b])
  have sub: "block ?b (2 ^ i) \<subseteq> free_set z" using free_setI [OF b] by blast
  have P: "block (parent_of p i) (2 ^ Suc i) = block p (2 ^ i) \<union> block ?b (2 ^ i)"
    by (simp add: block_parent)
  have pc: "pcp_pages ?z = pcp_pages z" by (rule frame_pcp_pages [OF frame_take_out [OF inv b]])
  have "usable valid ?z (parent_of p i) (Suc i)"
    unfolding usable_def P F pc zone_pages_take_out
    using u ok i sub parent_aligned [of i p] buddy_invD(6) [OF inv]
    by (auto simp: usable_def block_ok_def)
  then show "freeing valid ?z (parent_of p i) (Suc i)"
    unfolding freeing_def
    using take_out_inv [OF inv b] merged_take_out [OF buddy_invD(1) [OF inv] b m] by blast
  show "free_set ?z \<union> block (parent_of p i) (2 ^ Suc i) = free_set z \<union> block p (2 ^ i)"
    unfolding F P using sub by blast
qed

lemma merge_loop_ok:
  assumes "freeing valid z p i" "page_idx = p mod 2048"
    "merge_loop valid p page_idx i b bi z = (z', p', idx', i', b', bi')"
  shows "freeing valid z' p' i' \<and> free_set z' \<union> block p' (2 ^ i') = free_set z \<union> block p (2 ^ i)
     \<and> (i' < MAX_ORDER - 1 \<longrightarrow> (buddy_of p' i', i') \<notin> blocks z') \<and> frame z z'
     \<and> (\<forall>q. q \<notin> free_set z \<longrightarrow> mem_map z' q = mem_map z q)"
  using assms
proof (induction "MAX_ORDER - i" arbitrary: p page_idx i b bi z rule: less_induct)
  case less
  note f = less.prems(1) and idx = less.prems(2)
  from f have inv: "buddy_inv valid z" and u: "usable valid z p i" by (auto simp: freeing_def)
  have pz: "p \<in> zone_pages valid z" by (rule usable_page [OF u])
  show ?case
  proof (cases "i < MAX_ORDER - 1")
    case False
    then have "(z', p', idx', i', b', bi') = (z, p, page_idx, i, b, bi)"
      using less.prems(3) by (simp add: merge_loop.simps)
    then show ?thesis using f False by simp
  next
    case True
    then have i: "i < 11" by (simp add: buddy_consts)
    have bud: "p + (find_buddy_index page_idx i - page_idx) = buddy_of p i"
      by (rule buddy_offset [OF idx i])
    show ?thesis
    proof (cases "(buddy_of p i, i) \<in> blocks z")
      case False
      then have "(z', p', i') = (z, p, i)"
        using less.prems(3) \<open>i < MAX_ORDER - 1\<close> page_is_buddy_listed [OF inv pz]
        by (subst (asm) merge_loop.simps) (simp add: Let_def bud)
      then show ?thesis using f False by simp
    next
      case b: True
      then have isb: "page_is_buddy valid z p (buddy_of p i) i"
        using page_is_buddy_listed [OF inv pz] by blast
      let ?z = "take_out (buddy_of p i) i z" and ?ci = "find_buddy_index page_idx i AND page_idx"
      have z: "upd_page (buddy_of p i) rmv_page_order
          (nr_free_add i (- 1) (list_del (buddy_of p i) z)) = ?z"
        by (simp add: buddy_ops)
      have ci: "?ci = parent_of p i mod 2048" by (rule parent_offset(2) [OF idx i])
      have par: "p + (?ci - page_idx) = parent_of p i" by (rule parent_offset(1) [OF idx i])
      note step = merge_step [OF f b True]
      have run: "merge_loop valid (parent_of p i) ?ci (Suc i) (buddy_of p i)
          (find_buddy_index page_idx i) ?z = (z', p', idx', i', b', bi')"
        using less.prems(3) True isb by (subst (asm) merge_loop.simps) (simp add: Let_def bud par z)
      have "freeing valid z' p' i' \<and> free_set z' \<union> block p' (2 ^ i') =
          free_set ?z \<union> block (parent_of p i) (2 ^ Suc i)
          \<and> (i' < MAX_ORDER - 1 \<longrightarrow> (buddy_of p' i', i') \<notin> blocks z') \<and> frame ?z z'
          \<and> (\<forall>q. q \<notin> free_set ?z \<longrightarrow> mem_map z' q = mem_map ?z q)"
        by (rule less.hyps [OF _ step(1) ci run]) (use True in \<open>simp add: buddy_consts\<close>)
      then show ?thesis
        using step(2) frame_trans [OF frame_take_out [OF inv b]] free_set_take_out [OF inv b]
          head_in_free_set [OF b] by auto
    qed
  qed
qed


section \<open>Freeing a block\<close>

text \<open>The outcome of an operation that leaves \<open>free_set\<close> as \<open>F\<close>.\<close>

definition leaves :: "(int \<Rightarrow> bool) \<Rightarrow> zstate \<Rightarrow> int set \<Rightarrow> zstate \<Rightarrow> bool" where
  "leaves valid z F z' \<longleftrightarrow> buddy_inv valid z' \<and> merged z' \<and> free_set z' = F \<and> frame z z' \<and>
     (\<forall>q. q \<notin> free_set z \<union> F \<longrightarrow> mem_map z' q = mem_map z q)"

lemma leavesD:
  assumes "leaves valid z F z'"
  shows "buddy_inv valid z'" "merged z'" "free_set z' = F" "frame z z'"
    "q \<notin> free_set z \<union> F \<Longrightarrow> mem_map z' q = mem_map z q"
  using assms by (simp_all add: leaves_def)

lemma put_leaves:
  assumes "freeing valid z p i" "t < MIGRATE_TYPES"
    "i < MAX_ORDER - 1 \<Longrightarrow> (buddy_of p i, i) \<notin> blocks z"
  shows "leaves valid z (free_set z \<union> block p (2 ^ i)) (put e p i t z)"
  unfolding leaves_def
  using assms put_inv merged_put [OF _ assms(3)] free_set_put frame_put by (auto simp: freeing_def)

lemma page_idx_mod: "page AND (push_bit MAX_ORDER 1 - 1) = (page :: int) mod 2048"
  using take_bit_eq_mask [of 11 page]
  by (simp add: MAX_ORDER_def take_bit_eq_mod mask_eq_exp_minus_1 push_bit_eq_mult)

lemma do_free_one_page_ok:
  assumes f: "freeing valid z p i" and t: "t < MIGRATE_TYPES"
  shows "leaves valid z (free_set z \<union> block p (2 ^ i)) (do_free_one_page valid p i t z)"
proof -
  obtain z' p' idx' i' b' bi' where run:
    "merge_loop valid p (p mod 2048) i p (p mod 2048) z = (z', p', idx', i', b', bi')"
    by (metis prod_cases6)
  note L = merge_loop_ok [OF f refl run]
  have "\<exists>e. do_free_one_page valid p i t z = put e p' i' t z'"
  proof -
    have "do_free_one_page valid p i t z \<in> {put True p' i' t z', put False p' i' t z'}"
      unfolding do_free_one_page_def Let_def page_idx_mod run prod.case
      by (simp add: put_def buddy_ops split: if_split)
    then show ?thesis by auto
  qed
  then obtain e where "do_free_one_page valid p i t z = put e p' i' t z'" by blast
  moreover have "leaves valid z' (free_set z' \<union> block p' (2 ^ i')) (put e p' i' t z')"
    using L t by (intro put_leaves) auto
  ultimately show ?thesis using L frame_trans unfolding leaves_def by auto
qed


section \<open>Taking a block\<close>

text \<open>A block that an operation has taken out and hands to its caller.\<close>

definition takes :: "(int \<Rightarrow> bool) \<Rightarrow> zstate \<Rightarrow> int \<Rightarrow> nat \<Rightarrow> zstate \<Rightarrow> bool" where
  "takes valid z p i z' \<longleftrightarrow>
     leaves valid z (free_set z - block p (2 ^ i)) z' \<and>
     2 ^ i dvd p \<and> block p (2 ^ i) \<subseteq> free_set z"

lemma take_out_takes:
  assumes "buddy_inv valid z" "merged z" "(p, i) \<in> blocks z"
  shows "takes valid z p i (take_out p i z)"
  unfolding takes_def leaves_def
  using assms take_out_inv merged_take_out [OF buddy_invD(1)] free_set_take_out frame_take_out
    buddy_invD(2) [OF assms(1,3)] free_setI [OF assms(3)] head_in_free_set [OF assms(3)]
  by (auto simp: block_ok_def)

lemma block_mono: "n \<le> m \<Longrightarrow> block a n \<subseteq> block a m"
  by auto

lemma block_pow_mono: "i \<le> j \<Longrightarrow> block p (2 ^ i) \<subseteq> block p (2 ^ j)"
  by (rule block_mono) (simp add: power_increasing)

lemma half_block:
  "block p (2 ^ Suc h) = block p (2 ^ h) \<union> block (p + 2 ^ h) (2 ^ h)"
  "block p (2 ^ h) \<inter> block (p + 2 ^ h) (2 ^ h) = {}"
  using block_append [of "2 ^ h" "2 ^ h" p] by auto

lemma put_after:
  "upd_page p (set_page_order (int i)) (nr_free_add i 1 (list_add p i t z)) = put False p i t z"
  by (cases z) (simp add: put_def buddy_ops)

lemma take_out_after:
  "nr_free_add i (- 1) (upd_page p rmv_page_order (list_del p z)) = take_out p i z"
  "upd_page p rmv_page_order (list_del p (nr_free_add i (- 1) z)) = take_out p i z"
  by (cases z, simp add: buddy_ops)+

lemma expand_from_ok:
  assumes "freeing valid z p high" "low \<le> high" "t < MIGRATE_TYPES"
  shows "leaves valid z (free_set z \<union> (block p (2 ^ high) - block p (2 ^ low)))
           (expand_from p low high t z)"
  using assms
proof (induction high arbitrary: z)
  case 0 then show ?case by (simp add: leaves_def freeing_def)
next
  case (Suc h)
  show ?case
  proof (cases "low = Suc h")
    case True then show ?thesis using Suc.prems(1) by (simp add: leaves_def freeing_def)
  next
    case False
    then have low: "low \<le> h" using Suc.prems(2) by simp
    let ?q = "p + 2 ^ h"
    let ?z = "put False ?q h t z"
    from Suc.prems(1) have inv: "buddy_inv valid z" "merged z" and u: "usable valid z p (Suc h)"
      by (auto simp: freeing_def)
    have dvd: "2 ^ Suc h dvd p" and hM: "Suc h < MAX_ORDER" using u by (simp_all add: usable_def)
    have dvd': "2 ^ h dvd p" using power_le_dvd [OF dvd, of h] by simp
    have uq: "usable valid z ?q h" and up: "usable valid z p h"
      using u dvd' hM unfolding usable_def half_block(1) by (simp_all del: in_block) blast+
    have "\<not> bit p h" using dvd by (auto simp: bit_iff_odd elim!: dvdE)
    then have q: "?q = set_bit h p" by (simp add: set_bit_eq)
    have "bit ?q h" unfolding q by (simp add: bit_set_bit_iff)
    then have "buddy_of ?q h = p" by (simp add: buddy_of_eq)
    then have "leaves valid z (free_set z \<union> block ?q (2 ^ h)) ?z"
      using inv uq Suc.prems(3) usable_not_listed [OF up, of h]
      by (intro put_leaves) (auto simp: freeing_def)
    note L = leavesD [OF this]
    have "freeing valid ?z p h"
      using L(1,2) up half_block(2) [of p h]
      unfolding freeing_def usable_def L(3) frame_pcp_pages [OF L(4)] frame_zone_pages [OF L(4)]
      by auto
    then have IH: "leaves valid ?z (free_set ?z \<union> (block p (2 ^ h) - block p (2 ^ low)))
        (expand_from p low h t ?z)"
      by (rule Suc.IH [OF _ low Suc.prems(3)])
    have step: "expand_from p low (Suc h) t z = expand_from p low h t ?z"
      using low by (simp add: Let_def put_after push_bit_eq_mult)
    have sub: "block p (2 ^ low) \<subseteq> block p (2 ^ h)"
      using low by (rule block_pow_mono)
    have F: "free_set ?z \<union> (block p (2 ^ h) - block p (2 ^ low)) =
        free_set z \<union> (block p (2 ^ Suc h) - block p (2 ^ low))"
      using sub half_block [of p h] unfolding L(3) by blast
    have "?q \<in> free_set z \<union> (block p (2 ^ Suc h) - block p (2 ^ low))"
      using power_increasing [OF low, of "2 :: int"] by simp
    then have "mem_map ?z q = mem_map z q"
      if "q \<notin> free_set z \<union> (block p (2 ^ Suc h) - block p (2 ^ low))" for q
      using that by auto
    moreover have "free_set ?z \<subseteq> free_set z \<union> (block p (2 ^ Suc h) - block p (2 ^ low))"
      using F by blast
    ultimately show ?thesis
      using IH frame_trans [OF L(4)] unfolding step F leaves_def by auto
  qed
qed

lemma take_expand:
  assumes inv: "buddy_inv valid z" "merged z" and b: "(p, j) \<in> blocks z"
    and "i \<le> j" "t < MIGRATE_TYPES"
  shows "takes valid z p i (expand p i j t (take_out p j z))"
proof -
  note T = take_out_takes [OF inv b]
  have "freeing valid (take_out p j z) p j"
    using T take_out_usable [OF inv(1) b] by (simp add: freeing_def takes_def leaves_def)
  then have L: "leaves valid (take_out p j z)
      (free_set (take_out p j z) \<union> (block p (2 ^ j) - block p (2 ^ i)))
      (expand p i j t (take_out p j z))"
    unfolding expand_def using assms(4,5) by (rule expand_from_ok)
  have sub: "block p (2 ^ i) \<subseteq> block p (2 ^ j)"
    using assms(4) by (rule block_pow_mono)
  have "2 ^ i dvd p" using T assms(4) power_le_dvd by (auto simp: takes_def)
  moreover have "free_set (take_out p j z) \<union> (block p (2 ^ j) - block p (2 ^ i))
      = free_set z - block p (2 ^ i)"
    using T sub by (auto simp: takes_def leaves_def)
  ultimately show ?thesis
    using L T sub frame_trans [of z "take_out p j z"] unfolding takes_def leaves_def by auto
qed


section \<open>The smallest block\<close>

lemma smallest_loop_Some:
  assumes inv: "buddy_inv valid z" "merged z" and t: "t < MIGRATE_TYPES"
    and "order \<le> cur" "smallest_loop k cur order t z = Some (p, z')"
  shows "\<exists>j. cur \<le> j \<and> (p, j) \<in> blocks z \<and> p \<in> set (free_list z j t) \<and>
    (\<forall>i. cur \<le> i \<longrightarrow> i < j \<longrightarrow> free_list z i t = []) \<and> takes valid z p order z'"
  using assms(4,5)
proof (induction k arbitrary: cur)
  case (Suc k)
  show ?case
  proof (cases "free_list z cur t")
    case Nil
    then have "smallest_loop k (Suc cur) order t z = Some (p, z')" using Suc.prems(2) by simp
    from Suc.IH [OF _ this] Suc.prems(1) obtain j where
      "Suc cur \<le> j" "(p, j) \<in> blocks z" "p \<in> set (free_list z j t)"
      "\<forall>i. Suc cur \<le> i \<longrightarrow> i < j \<longrightarrow> free_list z i t = []" "takes valid z p order z'"
      by auto
    then show ?thesis using Nil by (intro exI [of _ j]) (metis Suc_leD Suc_le_eq le_neq_implies_less)
  next
    case (Cons q qs)
    then have q: "p = q" "z' = expand p order cur t (take_out p cur z)"
      using Suc.prems(2) by (auto simp: Let_def take_out_after)
    have b: "(p, cur) \<in> blocks z" using Cons q by (auto simp: blocks_listed intro: exI [of _ t])
    then show ?thesis
      using take_expand [OF inv b Suc.prems(1) t] Cons q by (intro exI [of _ cur]) auto
  qed
qed simp

lemma smallest_loop_None:
  "smallest_loop k cur order t z = None \<longleftrightarrow> (\<forall>i. cur \<le> i \<longrightarrow> i < cur + k \<longrightarrow> free_list z i t = [])"
proof (induction k arbitrary: cur)
  case (Suc k)
  show ?case
  proof (cases "free_list z cur t")
    case Nil
    then show ?thesis using Suc.IH [of "Suc cur"] by (auto simp: le_Suc_eq) (metis Suc_leI add_Suc le_neq_implies_less)
  next
    case (Cons q qs)
    then show ?thesis by (auto simp: Let_def intro!: exI [of _ cur])
  qed
qed simp

lemma rmqueue_smallest_Some:
  assumes "buddy_inv valid z" "merged z" "t < MIGRATE_TYPES"
    "rmqueue_smallest order t z = Some (p, z')"
  shows "\<exists>j. order \<le> j \<and> (p, j) \<in> blocks z \<and> p \<in> set (free_list z j t) \<and>
    (\<forall>i. order \<le> i \<longrightarrow> i < j \<longrightarrow> free_list z i t = []) \<and> takes valid z p order z'"
  using smallest_loop_Some [OF assms(1-3) order_refl] assms(4)
  by (simp add: rmqueue_smallest_def)

lemma rmqueue_smallest_None:
  assumes "buddy_inv valid z"
  shows "rmqueue_smallest order t z = None \<longleftrightarrow> (\<forall>i. order \<le> i \<longrightarrow> free_list z i t = [])"
proof -
  have "free_list z i t = []" if "MAX_ORDER \<le> i" for i
    using buddy_invD(1) [OF assms] that unfolding lists_ok_def
    by (metis last_in_set not_le)
  then have "free_list z i t = []" if "\<not> i < order + (MAX_ORDER - order)" for i
    using that by simp
  then show ?thesis
    unfolding rmqueue_smallest_def smallest_loop_None by blast
qed


section \<open>Moving blocks between the lists of an order\<close>

definition relists :: "(int \<Rightarrow> bool) \<Rightarrow> zstate \<Rightarrow> zstate \<Rightarrow> bool" where
  "relists valid z z' \<longleftrightarrow>
     buddy_inv valid z' \<and> merged z' \<and> blocks z' = blocks z \<and> frame z z' \<and>
     mem_map z' = mem_map z"

lemma relists_refl: "buddy_inv valid z \<Longrightarrow> merged z \<Longrightarrow> relists valid z z"
  by (simp add: relists_def)

lemma relists_trans: "relists valid a b \<Longrightarrow> relists valid b c \<Longrightarrow> relists valid a c"
  using frame_trans by (auto simp: relists_def)

lemma relist_one:
  assumes inv: "buddy_inv valid z" "merged z" and b: "(p, i) \<in> blocks z" and t: "t < MIGRATE_TYPES"
  shows "relists valid z (list_add p i t (list_del p z))"
proof -
  note eq = relist_take_put [OF inv(1) b]
  have "freeing valid (take_out p i z) p i"
    using take_out_inv [OF inv(1) b] merged_take_out [OF buddy_invD(1) [OF inv(1)] b inv(2)]
      take_out_usable [OF inv(1) b] by (simp add: freeing_def)
  moreover have B: "blocks (take_out p i z) = blocks z - {(p, i)}"
    by (rule blocks_take_out [OF buddy_invD(1) [OF inv(1)] b])
  moreover have "i < MAX_ORDER - 1 \<Longrightarrow> (buddy_of p i, i) \<notin> blocks z"
    using inv(2) b by (auto simp: merged_def)
  ultimately have "leaves valid (take_out p i z)
      (free_set (take_out p i z) \<union> block p (2 ^ i)) (put False p i t (take_out p i z))"
    using t by (intro put_leaves) auto
  note L = leavesD [OF this]
  have "blocks (put False p i t (take_out p i z)) = blocks z"
    unfolding blocks_put B using b by auto
  moreover have "mem_map (list_add p i t (list_del p z)) = mem_map z" by (simp add: buddy_ops)
  ultimately show ?thesis unfolding relists_def
    using L frame_trans [OF frame_take_out [OF inv(1) b] L(4)] by (simp add: eq)
qed

lemma move_loop_ok:
  assumes "buddy_inv valid z" "merged z" "t < MIGRATE_TYPES"
    "zone_start_pfn z \<le> page" "end_page < zone_start_pfn z + spanned_pages z"
  shows "relists valid z (snd (move_loop k valid page end_page t n z))"
  using assms
proof (induction k valid page end_page t n z rule: move_loop.induct)
  case (2 k valid page end_page t n z)
  note inv = "2.prems"(1,2)
  show ?case
  proof (cases "end_page < page")
    case True then show ?thesis using relists_refl [OF inv] by simp
  next
    case le: False
    show ?thesis
    proof (cases "valid page \<and> PageBuddy (mem_map z page)")
      case False
      then show ?thesis using 2 le by auto
    next
      case v: True
      have "page \<in> zone_pages valid z"
        using buddy_invD(8) [OF inv(1)] v le "2.prems"(4,5) by auto
      then obtain i where b: "(page, i) \<in> blocks z" using buddy_invD(3) [OF inv(1)] v by blast
      then have o: "nat (page_order (mem_map z page)) = i"
        using buddy_invD(2) [OF inv(1) b] by (simp add: block_ok_def)
      let ?z = "list_add page i t (list_del page z)"
      note R = relist_one [OF inv b "2.prems"(3)]
      then have R': "buddy_inv valid ?z" "merged ?z" "frame z ?z" by (simp_all add: relists_def)
      have "relists valid ?z (snd (move_loop k valid (page + push_bit i 1) end_page t
          (s32 (n + push_bit i 1)) ?z))"
        using 2(3) [OF le _ _ refl refl refl] v R' "2.prems"(3-5)
          add_increasing2 [of "2 ^ i" "zone_start_pfn z" page]
        by (simp add: o frame_fields push_bit_eq_mult)
      then show ?thesis
        using relists_trans [OF R] v le o by (simp add: Let_def)
    qed
  qed
qed (simp add: relists_refl)

lemma move_freepages_block_ok:
  assumes "buddy_inv valid z" "merged z" "t < MIGRATE_TYPES" "page \<in> zone_pages valid z"
  shows "relists valid z (snd (move_freepages_block valid page t z))"
proof -
  have "zone_start_pfn z \<le> page" using assms(1,4) buddy_invD(8) by blast
  then show ?thesis
    unfolding move_freepages_block_def move_freepages_def Let_def
    using assms(1-3) by (auto intro!: move_loop_ok relists_refl)
qed

end
