(* ===== verification/BuddyAlloc.thy ===== *)
theory BuddyAlloc
  imports BuddyOps
begin

section \<open>Setting page-block flags\<close>

lemma buddy_inv_flags [simp]:
  "buddy_inv valid (z\<lparr>pageblock_flags := b\<rparr>) = buddy_inv valid z"
  "blocks (z\<lparr>pageblock_flags := b\<rparr>) = blocks z" "merged (z\<lparr>pageblock_flags := b\<rparr>) = merged z"
  by (simp_all add: buddy_inv_def lists_ok_def blocks_def listed_def block_ok_def apart_def
      list_count_def pcp_pages_def free_set_def zone_pages_def merged_def)

lemma frame_flags: "length b = length (pageblock_flags z) \<Longrightarrow> frame z (z\<lparr>pageblock_flags := b\<rparr>)"
  by (cases z) (simp add: frame_def)

lemma relists_flags:
  "relists valid z z' \<Longrightarrow> length b = length (pageblock_flags z') \<Longrightarrow>
   relists valid z (z'\<lparr>pageblock_flags := b\<rparr>)"
  using frame_trans [OF _ frame_flags] by (simp add: relists_def)

lemma set_pageblock_migratetype_eq:
  "set_pageblock_migratetype page t z = map_option (\<lambda>b. z\<lparr>pageblock_flags := b\<rparr>)
     (set_flags_loop 3 (if page_group_by_mobility_disabled z then 0 else int t)
        (pfn_to_bitidx z page) 0 1 (pageblock_flags z))"
  by (simp add: set_pageblock_migratetype_def set_pageblock_flags_group_def PB_migrate_def
      PB_migrate_end_def MIGRATE_UNMOVABLE_def map_option_bind o_def split: if_split
      cong: option.case_cong) (simp add: map_conv_bind_option o_def)

lemma set_flags_loop_length: "set_flags_loop k f i s v b = Some b' \<Longrightarrow> length b' = length b"
proof (induction k arbitrary: s v b)
  case (Suc k)
  then obtain b1 where b1: "(if f AND v \<noteq> 0 then set_bit_c (s32 (i + s)) b else clear_bit_c (s32 (i + s)) b)
      = Some b1" and r: "set_flags_loop k f i (s + 1) (u64 (push_bit 1 v)) b1 = Some b'"
    by (auto split: bind_splits)
  have "length b1 = length b"
    using b1 by (auto simp: set_bit_c_def clear_bit_c_def Let_def split: if_splits)
  then show ?case using Suc.IH [OF r] by simp
qed simp

lemma set_pageblock_migratetype_relists:
  "set_pageblock_migratetype page t z = Some z' \<Longrightarrow>
   \<exists>b. z' = z\<lparr>pageblock_flags := b\<rparr> \<and> length b = length (pageblock_flags z)"
  using set_flags_loop_length by (auto simp: set_pageblock_migratetype_eq)

lemma change_loop_flags:
  "change_loop k page t z = Some z' \<Longrightarrow>
   \<exists>b. z' = z\<lparr>pageblock_flags := b\<rparr> \<and> length b = length (pageblock_flags z)"
proof (induction k arbitrary: page z)
  case 0 then show ?case by (intro exI [of _ "pageblock_flags z"]) simp
next
  case (Suc k)
  then obtain z1 b where z1: "set_pageblock_migratetype page t z = Some z1"
    and r: "change_loop k (page + pageblock_nr_pages) t z1 = Some z'"
    and b: "z1 = z\<lparr>pageblock_flags := b\<rparr>" "length b = length (pageblock_flags z)"
    using set_pageblock_migratetype_relists by (auto split: bind_splits) blast
  from Suc.IH [OF r] obtain c where "z' = z1\<lparr>pageblock_flags := c\<rparr>" "length c = length (pageblock_flags z1)"
    by blast
  then show ?case using b(2) unfolding b(1) by auto
qed


section \<open>The fallback\<close>

text \<open>The counter of the list is lowered first; nothing in between looks at it.\<close>

lemma nr_free_commute:
  "list_del p (nr_free_add c d z) = nr_free_add c d (list_del p z)"
  "list_add p i t (nr_free_add c d z) = nr_free_add c d (list_add p i t z)"
  "(nr_free_add c d z)\<lparr>pageblock_flags := b\<rparr> = nr_free_add c d (z\<lparr>pageblock_flags := b\<rparr>)"
  by (cases z, simp add: buddy_ops)+

lemma nr_free_add_fields [simp]:
  "mem_map (nr_free_add c d z) = mem_map z" "pageblock_flags (nr_free_add c d z) = pageblock_flags z"
  "zone_start_pfn (nr_free_add c d z) = zone_start_pfn z"
  "spanned_pages (nr_free_add c d z) = spanned_pages z"
  "page_group_by_mobility_disabled (nr_free_add c d z) = page_group_by_mobility_disabled z"
  by (simp_all add: nr_free_add_def)

lemma move_loop_nr_free:
  "move_loop k valid page e t n (nr_free_add c d z)
     = map_prod id (nr_free_add c d) (move_loop k valid page e t n z)"
  by (induction k valid page e t n z rule: move_loop.induct) (simp_all add: nr_free_commute Let_def)

lemma move_freepages_block_nr_free:
  "move_freepages_block valid page t (nr_free_add c d z)
     = map_prod id (nr_free_add c d) (move_freepages_block valid page t z)"
  by (simp add: move_freepages_block_def move_freepages_def Let_def move_loop_nr_free)

lemma set_pageblock_migratetype_nr_free:
  "set_pageblock_migratetype page u (nr_free_add c d z)
     = map_option (nr_free_add c d) (set_pageblock_migratetype page u z)"
  by (simp add: set_pageblock_migratetype_eq pfn_to_bitidx_def option.map_comp o_def nr_free_commute)

text \<open>What happens to the lists before the block is taken out.\<close>

definition claim_block ::
  "(int \<Rightarrow> bool) \<Rightarrow> nat \<Rightarrow> nat \<Rightarrow> nat \<Rightarrow> int \<Rightarrow> zstate \<Rightarrow> (nat \<times> zstate) option" where
  "claim_block valid st cur t page z =
     (if pageblock_order div 2 \<le> cur \<or> st = MIGRATE_RECLAIMABLE \<or> page_group_by_mobility_disabled z
      then case move_freepages_block valid page st z of (pages, z) \<Rightarrow>
             map_option (Pair st)
               (if push_bit (pageblock_order - 1) 1 \<le> u64 pages \<or> page_group_by_mobility_disabled z
                then set_pageblock_migratetype page st z else Some z)
      else Some (t, z))"

lemma steal_block_claim:
  "steal_block valid order st cur t page z =
     do { (t', z) \<leftarrow> claim_block valid st cur t page z;
          let z = take_out page cur z;
          z \<leftarrow> (if pageblock_order \<le> cur then change_pageblock_range page cur st z else Some z);
          Some (page, expand page order cur t' z) }"
  unfolding steal_block_def claim_block_def Let_def nr_free_add_fields
    move_freepages_block_nr_free set_pageblock_migratetype_nr_free
  by (auto simp: take_out_after(2) set_pageblock_migratetype_nr_free map_option_bind
      split: prod.split bind_split option.split)

lemma claim_block_relists:
  assumes "buddy_inv valid z" "merged z" "st < MIGRATE_TYPES" "page \<in> zone_pages valid z"
    "t < MIGRATE_TYPES" "claim_block valid st cur t page z = Some (t', z')"
  shows "relists valid z z' \<and> t' < MIGRATE_TYPES"
proof -
  obtain n z1 where m: "move_freepages_block valid page st z = (n, z1)" by fastforce
  have R: "relists valid z z1" using move_freepages_block_ok [OF assms(1-4)] m by simp
  have flags: "relists valid z z2" if "set_pageblock_migratetype page st z1 = Some z2" for z2
    using set_pageblock_migratetype_relists [OF that] relists_flags [OF R] by auto
  show ?thesis
    using assms(3,5,6) R flags relists_refl [OF assms(1,2)]
    by (auto simp: claim_block_def m split: if_splits)
qed

lemma take_out_flags:
  "(take_out p i z)\<lparr>pageblock_flags := b\<rparr> = take_out p i (z\<lparr>pageblock_flags := b\<rparr>)"
  by (cases z) (simp add: buddy_ops)

lemma takes_relists:
  assumes "relists valid z z1" "takes valid z1 p i z'"
  shows "takes valid z p i z'"
  using assms free_set_blocks [of z1 z] frame_trans [of z z1 z']
  by (auto simp: relists_def takes_def leaves_def)

lemma steal_block_takes:
  assumes inv: "buddy_inv valid z" "merged z" and b: "(page, cur) \<in> blocks z"
    and st: "st < MIGRATE_TYPES" and t: "t < MIGRATE_TYPES" and o: "order \<le> cur"
    and run: "steal_block valid order st cur t page z = Some (p, z')"
  shows "p = page \<and> takes valid z page order z'"
proof -
  have pz: "page \<in> zone_pages valid z"
    using free_set_zone [OF inv(1)] head_in_free_set [OF b] by blast
  from run obtain t' z1 z2 where
    c: "claim_block valid st cur t page z = Some (t', z1)"
    and z2: "(if pageblock_order \<le> cur then change_pageblock_range page cur st (take_out page cur z1)
              else Some (take_out page cur z1)) = Some z2"
    and z': "p = page" "z' = expand page order cur t' z2"
    unfolding steal_block_claim Let_def by (auto split: bind_splits prod.splits if_splits)
  have R: "relists valid z z1" and t': "t' < MIGRATE_TYPES"
    using claim_block_relists [OF inv st pz t c] by simp_all
  obtain fl where fl: "z2 = (take_out page cur z1)\<lparr>pageblock_flags := fl\<rparr>"
    and len: "length fl = length (pageblock_flags (take_out page cur z1))"
  proof (cases "pageblock_order \<le> cur")
    case True
    then have "change_loop (nat (push_bit (cur - pageblock_order) 1)) page st (take_out page cur z1)
        = Some z2" using z2 by (simp add: change_pageblock_range_def)
    from change_loop_flags [OF this] show ?thesis using that by blast
  next
    case False
    then show ?thesis using z2 by (intro that [of "pageblock_flags (take_out page cur z1)"]) simp_all
  qed
  let ?z1 = "z1\<lparr>pageblock_flags := fl\<rparr>"
  have "pageblock_flags (take_out page cur z1) = pageblock_flags z1" by (simp add: buddy_ops)
  then have R': "relists valid z ?z1" using relists_flags [OF R] len by simp
  have "takes valid ?z1 page order (expand page order cur t' (take_out page cur ?z1))"
    using R' b o t' by (intro take_expand) (auto simp: relists_def)
  then show ?thesis
    using takes_relists [OF R'] unfolding z' fl take_out_flags by simp
qed

lemma fallbacks_types: "t \<in> set (fallbacks st) \<Longrightarrow> t < MIGRATE_TYPES"
  by (auto simp: fallbacks_def buddy_consts split: if_splits)

lemma fallback_types_takes:
  assumes "buddy_inv valid z" "merged z" "st < MIGRATE_TYPES" "order \<le> cur"
    "\<forall>t \<in> set ts. t < MIGRATE_TYPES"
    "fallback_types valid order st cur ts z = Some (Some (p, z'))"
  shows "takes valid z p order z'"
  using assms(5,6)
proof (induction ts)
  case (Cons t ts)
  show ?case
  proof (cases "t = MIGRATE_RESERVE \<or> free_list z cur t = []")
    case True
    then show ?thesis using Cons by (auto split: if_splits)
  next
    case False
    then obtain page ps where l: "free_list z cur t = page # ps" by (cases "free_list z cur t") auto
    have "(page, cur) \<in> blocks z" using l by (auto simp: blocks_listed intro: exI [of _ t])
    then show ?thesis
      using False l Cons.prems steal_block_takes [OF assms(1,2) _ assms(3) _ assms(4)]
      by auto
  qed
qed simp

lemma fallback_orders_takes:
  assumes "buddy_inv valid z" "merged z" "st < MIGRATE_TYPES"
    "fallback_orders k valid order st z = Some (Some (p, z'))"
  shows "takes valid z p order z'"
  using assms(4)
proof (induction k)
  case (Suc k)
  then obtain r where r: "fallback_types valid order st (order + k) (fallbacks st) z = Some r"
    and c: "(case r of None \<Rightarrow> fallback_orders k valid order st z | Some x \<Rightarrow> Some (Some x))
        = Some (Some (p, z'))"
    by (auto split: bind_splits)
  show ?case
  proof (cases r)
    case None then show ?thesis using c Suc.IH by simp
  next
    case (Some x)
    then have "fallback_types valid order st (order + k) (fallbacks st) z = Some (Some (p, z'))"
      using r c by simp
    then show ?thesis
      using fallback_types_takes [OF assms(1-3) le_add1 [of order k]] fallbacks_types by blast
  qed
qed simp

lemma rmqueue_takes:
  assumes inv: "buddy_inv valid z" "merged z" and t: "t < MIGRATE_TYPES"
    and run: "rmqueue valid order t z = Some (Some (p, z'))"
  shows "takes valid z p order z'"
proof (cases "rmqueue_smallest order t z")
  case (Some x)
  then have "rmqueue_smallest order t z = Some (p, z')" using run by (simp add: rmqueue_def)
  from rmqueue_smallest_Some [OF inv t this] show ?thesis by blast
next
  case None
  then obtain r where r: "rmqueue_fallback valid order t z = Some r"
    and c: "(case r of Some x \<Rightarrow> Some (Some x)
             | None \<Rightarrow> Some (rmqueue_smallest order MIGRATE_RESERVE z)) = Some (Some (p, z'))"
    using run by (auto simp: rmqueue_def split: bind_splits if_splits)
  show ?thesis
  proof (cases r)
    case (Some x)
    then have "rmqueue_fallback valid order t z = Some (Some (p, z'))" using r c by simp
    then show ?thesis unfolding rmqueue_fallback_def by (rule fallback_orders_takes [OF inv t])
  next
    case None
    then have s: "rmqueue_smallest order MIGRATE_RESERVE z = Some (p, z')" using c by simp
    have "MIGRATE_RESERVE < MIGRATE_TYPES" by (simp add: buddy_consts)
    from rmqueue_smallest_Some [OF inv this s] show ?thesis by blast
  qed
qed

end
