(* ===== verification/BuddyProps.thy ===== *)
theory BuddyProps
  imports BuddyAlloc
begin

text \<open>
  What the buddy allocator promises: the page-block flags are a map from page blocks to migrate
  types, the free blocks are determined by the set of free pages, a request fails only when no list
  it may use has a large enough block, and the properties of the allocator built on these.
\<close>

section \<open>Freeing with the counters\<close>

lemma buddy_inv_more [simp]:
  "buddy_inv valid (z\<lparr>all_unreclaimable := a, pages_scanned := s\<rparr>) = buddy_inv valid z"
  "buddy_inv valid (z\<lparr>vm_stat := v, global_stat := g\<rparr>) = buddy_inv valid z"
  "merged (z\<lparr>all_unreclaimable := a, pages_scanned := s\<rparr>) = merged z"
  "merged (z\<lparr>vm_stat := v, global_stat := g\<rparr>) = merged z"
  "free_set (z\<lparr>all_unreclaimable := a, pages_scanned := s\<rparr>) = free_set z"
  "free_set (z\<lparr>vm_stat := v, global_stat := g\<rparr>) = free_set z"
  "pcp_pages (z\<lparr>all_unreclaimable := a, pages_scanned := s\<rparr>) = pcp_pages z"
  "pcp_pages (z\<lparr>vm_stat := v, global_stat := g\<rparr>) = pcp_pages z"
  "zone_pages valid (z\<lparr>all_unreclaimable := a, pages_scanned := s\<rparr>) = zone_pages valid z"
  "zone_pages valid (z\<lparr>vm_stat := v, global_stat := g\<rparr>) = zone_pages valid z"
  by (simp_all add: buddy_inv_def lists_ok_def blocks_def listed_def block_ok_def apart_def
      list_count_def pcp_pages_def free_set_def zone_pages_def merged_def)

lemma free_one_page_ok:
  assumes f: "freeing valid z p i" and t: "t < MIGRATE_TYPES"
  shows "buddy_inv valid (free_one_page valid p i t z) \<and> merged (free_one_page valid p i t z)
     \<and> free_set (free_one_page valid p i t z) = free_set z \<union> block p (2 ^ i)
     \<and> pageset (free_one_page valid p i t z) = pageset z
     \<and> zone_pages valid (free_one_page valid p i t z) = zone_pages valid z
     \<and> vm_stat (free_one_page valid p i t z) NR_FREE_PAGES = s32 (vm_stat z NR_FREE_PAGES + 2 ^ i)
     \<and> (\<forall>q. q \<notin> free_set z \<union> block p (2 ^ i) \<longrightarrow>
          mem_map (free_one_page valid p i t z) q = mem_map z q)"
proof -
  let ?z = "z\<lparr>all_unreclaimable := 0, pages_scanned := 0\<rparr>"
  have "freeing valid ?z p i" using f by (simp add: freeing_def usable_def)
  from do_free_one_page_ok [OF this t]
  have L: "leaves valid ?z (free_set z \<union> block p (2 ^ i)) (do_free_one_page valid p i t ?z)" by simp
  note D = leavesD [OF L]
  show ?thesis
    using D(1-3) frame_fields [OF D(4)] frame_zone_pages [OF D(4), of valid] D(5)
    by (simp add: free_one_page_def Let_def mod_zone_page_state_def zone_page_state_add_def
        push_bit_eq_mult)
qed


section \<open>The free blocks are determined by the free pages\<close>

definition canon :: "int set \<Rightarrow> (int \<times> nat) set" where
  "canon F = {(p, i). i < MAX_ORDER \<and> 2 ^ i dvd p \<and> block p (2 ^ i) \<subseteq> F \<and>
     (i < MAX_ORDER - 1 \<longrightarrow> \<not> block (parent_of p i) (2 ^ Suc i) \<subseteq> F)}"

lemma dvd_gap:
  assumes "(a :: int) dvd u" "a dvd v" "u < v" shows "u + a \<le> v"
  using assms zdvd_imp_le [of a "v - u"] by auto

lemma dyadic_nest:
  assumes "2 ^ i dvd p" "2 ^ j dvd q" "i \<le> j" "block p (2 ^ i) \<inter> block q (2 ^ j) \<noteq> {}"
  shows "block p (2 ^ i) \<subseteq> block q (2 ^ j)"
proof -
  obtain x where x: "p \<le> x" "x < p + 2 ^ i" "q \<le> x" "x < q + 2 ^ j" using assms(4) by auto
  have q: "2 ^ i dvd q" and j: "(2 :: int) ^ i dvd 2 ^ j"
    using assms(2,3) power_le_dvd by (auto simp: le_imp_power_dvd)
  have "q \<le> p" using dvd_gap [OF assms(1) q] x by linarith
  moreover have "p + 2 ^ i \<le> q + 2 ^ j" using dvd_gap [OF assms(1) dvd_add [OF q j]] x by linarith
  ultimately show ?thesis by auto
qed

lemma whole_block_listed:
  assumes inv: "buddy_inv valid z" and m: "merged z"
  shows "i < MAX_ORDER \<Longrightarrow> 2 ^ i dvd p \<Longrightarrow> block p (2 ^ i) \<subseteq> free_set z \<Longrightarrow>
    (\<And>q j. (q, j) \<in> blocks z \<Longrightarrow> block q (2 ^ j) \<inter> block p (2 ^ i) \<noteq> {} \<Longrightarrow> j \<le> i) \<Longrightarrow>
    (p, i) \<in> blocks z"
proof (induction i arbitrary: p)
  case 0
  then have "p \<in> free_set z" by auto
  then obtain q j where q: "(q, j) \<in> blocks z" "p \<in> block q (2 ^ j)" by (rule free_setE)
  then have "p \<in> block q (2 ^ j) \<inter> block p (2 ^ 0)" by simp
  then have "j \<le> 0" using 0(4) [OF q(1)] by blast
  moreover from this have "q = p" using q(2) by simp
  ultimately show ?case using q(1) by simp
next
  case (Suc i)
  show ?case
  proof (cases "\<exists>q. (q, Suc i) \<in> blocks z \<and> block q (2 ^ Suc i) \<inter> block p (2 ^ Suc i) \<noteq> {}")
    case True
    then obtain q where q: "(q, Suc i) \<in> blocks z" "block q (2 ^ Suc i) \<inter> block p (2 ^ Suc i) \<noteq> {}"
      by blast
    have dq: "2 ^ Suc i dvd q" using buddy_invD(2) [OF inv q(1)] by (simp add: block_ok_def)
    have "block q (2 ^ Suc i) \<subseteq> block p (2 ^ Suc i)"
      by (rule dyadic_nest [OF dq Suc.prems(2) order_refl q(2)])
    moreover have "block p (2 ^ Suc i) \<subseteq> block q (2 ^ Suc i)"
      using q(2) by (intro dyadic_nest [OF Suc.prems(2) dq order_refl]) blast
    moreover have "q \<in> block q (2 ^ Suc i)" "p \<in> block p (2 ^ Suc i)" by simp_all
    ultimately have "q = p" by (meson in_block order_antisym subsetD)
    then show ?thesis using q(1) by simp
  next
    case False
    have small: "j \<le> i" if "(q, j) \<in> blocks z" "block q (2 ^ j) \<inter> block p (2 ^ Suc i) \<noteq> {}" for q j
      using Suc.prems(4) [OF that] that False le_Suc_eq by blast
    have h: "block p (2 ^ i) \<subseteq> block p (2 ^ Suc i)" "block (p + 2 ^ i) (2 ^ i) \<subseteq> block p (2 ^ Suc i)"
      unfolding half_block(1) by simp_all
    have d: "2 ^ i dvd p" using power_le_dvd [OF Suc.prems(2), of i] by simp
    have lo: "(p, i) \<in> blocks z"
    proof (rule Suc.IH)
      show "i < MAX_ORDER" using Suc.prems(1) by simp
      show "2 ^ i dvd p" by (rule d)
      show "block p (2 ^ i) \<subseteq> free_set z" using h(1) Suc.prems(3) by blast
    qed (use small h(1) in blast)
    have hi: "(p + 2 ^ i, i) \<in> blocks z"
    proof (rule Suc.IH)
      show "i < MAX_ORDER" using Suc.prems(1) by simp
      show "2 ^ i dvd p + 2 ^ i" using d by simp
      show "block (p + 2 ^ i) (2 ^ i) \<subseteq> free_set z" using h(2) Suc.prems(3) by blast
    qed (use small h(2) in blast)
    have "\<not> bit p i" using Suc.prems(2) by (auto simp: bit_iff_odd elim!: dvdE)
    then have "buddy_of p i = p + 2 ^ i" by (simp add: buddy_of_eq)
    moreover have "i < MAX_ORDER - 1" using Suc.prems(1) by simp
    ultimately show ?thesis using m lo hi unfolding merged_def by fastforce
  qed
qed

lemma blocks_canon:
  assumes inv: "buddy_inv valid z" and m: "merged z"
  shows "blocks z = canon (free_set z)"
proof (intro set_eqI iffI; clarify)
  fix p i assume b: "(p, i) \<in> blocks z"
  have ok: "block_ok valid z p i" by (rule buddy_invD(2) [OF inv b])
  have d: "2 ^ i dvd p" and M: "i < MAX_ORDER"
    using ok blocks_order [OF buddy_invD(1) [OF inv] b] by (auto simp: block_ok_def)
  have sub: "block p (2 ^ i) \<subseteq> free_set z" using free_setI [OF b] by blast
  have False if i: "i < MAX_ORDER - 1" and P: "block (parent_of p i) (2 ^ Suc i) \<subseteq> free_set z"
  proof -
    have "(buddy_of p i, i) \<in> blocks z"
    proof (rule whole_block_listed [OF inv m M buddy_aligned [OF d]])
      show "block (buddy_of p i) (2 ^ i) \<subseteq> free_set z" using P block_parent [of p i] by blast
      fix q j assume q: "(q, j) \<in> blocks z" "block q (2 ^ j) \<inter> block (buddy_of p i) (2 ^ i) \<noteq> {}"
      show "j \<le> i"
      proof (rule ccontr)
        assume "\<not> j \<le> i"
        moreover have "2 ^ j dvd q" using buddy_invD(2) [OF inv q(1)] by (simp add: block_ok_def)
        ultimately have "block (parent_of p i) (2 ^ Suc i) \<subseteq> block q (2 ^ j)"
          using parent_aligned [OF d] q(2) block_parent [of p i]
          by (intro dyadic_nest) auto
        then have "p \<in> block q (2 ^ j)" using block_parent [of p i] by fastforce
        then show False
          using blocks_apart [OF buddy_invD(4) [OF inv] b q(1), of p] \<open>\<not> j \<le> i\<close> by simp
      qed
    qed
    then show False using m b i unfolding merged_def by fastforce
  qed
  then show "(p, i) \<in> canon (free_set z)" using d M sub unfolding canon_def by auto
next
  fix p i assume c: "(p, i) \<in> canon (free_set z)"
  show "(p, i) \<in> blocks z"
  proof (rule whole_block_listed [OF inv m])
    show d: "2 ^ i dvd p" and "i < MAX_ORDER" "block p (2 ^ i) \<subseteq> free_set z"
      using c by (simp_all add: canon_def)
    fix q j assume q: "(q, j) \<in> blocks z" "block q (2 ^ j) \<inter> block p (2 ^ i) \<noteq> {}"
    show "j \<le> i"
    proof (rule ccontr)
      assume j: "\<not> j \<le> i"
      have "2 ^ j dvd q" using buddy_invD(2) [OF inv q(1)] by (simp add: block_ok_def)
      then have "block (parent_of p i) (2 ^ Suc i) \<subseteq> block q (2 ^ j)"
        using parent_aligned [OF d] q(2) block_parent [of p i] j
        by (intro dyadic_nest) auto
      then have "block (parent_of p i) (2 ^ Suc i) \<subseteq> free_set z" using free_setI [OF q(1)] by blast
      moreover have "i < MAX_ORDER - 1"
        using j blocks_order [OF buddy_invD(1) [OF inv] q(1)] by simp
      ultimately show False using c by (simp add: canon_def)
    qed
  qed
qed



section \<open>The page-block flags as a map\<close>

text \<open>The bit map has a group of bits for every page block of the zone.\<close>

definition flags_ok :: "zstate \<Rightarrow> bool" where
  "flags_ok z \<longleftrightarrow> 0 \<le> zone_start_pfn z \<and> spanned_pages z \<le> 4294967296 \<and>
     3 * ((spanned_pages z + 1023) div 1024) \<le> 32 * int (length (pageblock_flags z))"

definition in_span :: "zstate \<Rightarrow> int \<Rightarrow> bool" where
  "in_span z p \<longleftrightarrow> zone_start_pfn z \<le> p \<and> p < zone_start_pfn z + spanned_pages z"

definition block_no :: "zstate \<Rightarrow> int \<Rightarrow> int" where
  "block_no z p = (p - zone_start_pfn z) div 1024"

lemma bitidx_eq:
  assumes "flags_ok z" "in_span z p"
  shows "pfn_to_bitidx z p = 3 * block_no z p" "0 \<le> block_no z p" "block_no z p \<le> 4194304"
proof -
  have b: "0 \<le> p - zone_start_pfn z" "p - zone_start_pfn z < 4294967296"
    using assms by (auto simp: flags_ok_def in_span_def)
  then show r: "0 \<le> block_no z p" "block_no z p \<le> 4194304" by (auto simp: block_no_def)
  show "pfn_to_bitidx z p = 3 * block_no z p"
    using b r by (simp add: pfn_to_bitidx_def Let_def buddy_consts drop_bit_eq_div block_no_def)
qed

lemma bitidx_dom:
  assumes "flags_ok z" "in_span z p" "0 \<le> k" "k < 3"
  shows "3 * block_no z p + k \<in> bit_dom (pageblock_flags z)"
proof -
  have "block_no z p + 1 = (p - zone_start_pfn z + 1024) div 1024" by (simp add: block_no_def)
  also have "\<dots> \<le> (spanned_pages z + 1023) div 1024"
    using assms(2) by (intro zdiv_mono1) (auto simp: in_span_def)
  finally have "block_no z p < (spanned_pages z + 1023) div 1024" by simp
  then show ?thesis
    using assms bitidx_eq(2) [OF assms(1,2)] by (auto simp: bit_dom_def flags_ok_def)
qed

text \<open>Three bits are written and read back.\<close>

lemma set_flags_three:
  assumes "i \<in> bit_dom b" "i + 1 \<in> bit_dom b" "i + 2 \<in> bit_dom b" "0 \<le> i" "i < 2147483600"
  shows "\<exists>b'. set_flags_loop 3 f i 0 1 b = Some b' \<and> bit_dom b' = bit_dom b \<and>
    bits b' = bits b - {i, i + 1, i + 2} \<union> (if f AND 1 \<noteq> 0 then {i} else {})
      \<union> (if f AND 2 \<noteq> 0 then {i + 1} else {}) \<union> (if f AND 4 \<noteq> 0 then {i + 2} else {})"
proof -
  obtain b1 where b1: "(if f AND 1 \<noteq> 0 then set_bit_c i b else clear_bit_c i b) = Some b1"
    "bits b1 = bits b - {i} \<union> (if f AND 1 \<noteq> 0 then {i} else {})" "bit_dom b1 = bit_dom b"
    using bm.write_bit [OF assms(1), of "f AND 1 \<noteq> 0"] by blast
  obtain b2 where b2: "(if f AND 2 \<noteq> 0 then set_bit_c (i + 1) b1 else clear_bit_c (i + 1) b1) = Some b2"
    "bits b2 = bits b1 - {i + 1} \<union> (if f AND 2 \<noteq> 0 then {i + 1} else {})" "bit_dom b2 = bit_dom b"
    using bm.write_bit [of "i + 1" b1 "f AND 2 \<noteq> 0", unfolded b1(3), OF assms(2)] by blast
  obtain b3 where b3: "(if f AND 4 \<noteq> 0 then set_bit_c (i + 2) b2 else clear_bit_c (i + 2) b2) = Some b3"
    "bits b3 = bits b2 - {i + 2} \<union> (if f AND 4 \<noteq> 0 then {i + 2} else {})" "bit_dom b3 = bit_dom b"
    using bm.write_bit [of "i + 2" b2 "f AND 4 \<noteq> 0", unfolded b2(3), OF assms(3)] by blast
  have v: "u64 (push_bit 1 1) = 2" "u64 (push_bit 1 2) = 4" by (simp_all add: push_bit_eq_mult)
  have s: "s32 (i + 0) = i" "s32 (i + (0 + 1)) = i + 1" "s32 (i + (0 + 1 + 1)) = i + 2"
    using assms(4,5) by simp_all
  have "set_flags_loop 3 f i 0 1 b = Some b3"
    by (simp only: numeral_3_eq_3 set_flags_loop.simps v s b1(1) b2(1) b3(1) Option.bind.bind_lunit)
  moreover have "bits b3 = bits b - {i, i + 1, i + 2} \<union> (if f AND 1 \<noteq> 0 then {i} else {})
      \<union> (if f AND 2 \<noteq> 0 then {i + 1} else {}) \<union> (if f AND 4 \<noteq> 0 then {i + 2} else {})"
    unfolding b3(2) b2(2) b1(2) by auto
  ultimately show ?thesis using b3(3) by blast
qed

lemma get_flags_three:
  assumes "i \<in> bit_dom b" "i + 1 \<in> bit_dom b" "i + 2 \<in> bit_dom b" "0 \<le> i" "i < 2147483600"
  shows "get_flags_loop 3 i 0 1 0 b =
    Some (of_bool (i \<in> bits b) + 2 * of_bool (i + 1 \<in> bits b) + 4 * of_bool (i + 2 \<in> bits b))"
proof -
  have v: "u64 (push_bit 1 1) = 2" "u64 (push_bit 1 2) = 4" by (simp_all add: push_bit_eq_mult)
  have s: "s32 (i + 0) = i" "s32 (i + (0 + 1)) = i + 1" "s32 (i + (0 + 1 + 1)) = i + 2"
    using assms(4,5) by simp_all
  have e: "(if (if c then 1 else (0 :: int)) \<noteq> 0 then x else y) = (if c then x else y)"
    for c and x y :: int by simp
  have "get_flags_loop 3 i 0 1 0 b =
    do { b0 \<leftarrow> test_bit i b; b1 \<leftarrow> test_bit (i + 1) b; b2 \<leftarrow> test_bit (i + 2) b;
         let f0 = if b0 \<noteq> 0 then 0 OR 1 else 0; f1 = if b1 \<noteq> 0 then f0 OR 2 else f0
         in Some (if b2 \<noteq> 0 then f1 OR 4 else f1) }"
    by (simp only: numeral_3_eq_3 get_flags_loop.simps v s Let_def)
  also have "\<dots> = (let f0 = if i \<in> bits b then 0 OR 1 else 0;
      f1 = if i + 1 \<in> bits b then f0 OR 2 else f0 in Some (if i + 2 \<in> bits b then f1 OR 4 else f1))"
    by (simp only: bm.tst [OF assms(1)] bm.tst [OF assms(2)] bm.tst [OF assms(3)]
        Option.bind.bind_lunit e)
  finally show ?thesis
    by (cases "i \<in> bits b"; cases "i + 1 \<in> bits b"; cases "i + 2 \<in> bits b"; simp)
qed

lemma get_type_eq:
  assumes "flags_ok z" "in_span z p"
  defines "i \<equiv> 3 * block_no z p"
  shows "get_pageblock_migratetype p z = Some (of_bool (i \<in> bits (pageblock_flags z))
    + 2 * of_bool (i + 1 \<in> bits (pageblock_flags z)) + 4 * of_bool (i + 2 \<in> bits (pageblock_flags z)))"
proof -
  note dom = bitidx_dom [OF assms(1,2)]
  have "get_flags_loop 3 i 0 1 0 (pageblock_flags z) = Some (of_bool (i \<in> bits (pageblock_flags z))
      + 2 * of_bool (i + 1 \<in> bits (pageblock_flags z)) + 4 * of_bool (i + 2 \<in> bits (pageblock_flags z)))"
    using dom [of 0] dom [of 1] dom [of 2] bitidx_eq [OF assms(1,2)]
    unfolding i_def by (intro get_flags_three) auto
  then show ?thesis
    unfolding get_pageblock_migratetype_def get_pageblock_flags_group_def bitidx_eq(1) [OF assms(1,2)]
    by (simp add: PB_migrate_def PB_migrate_end_def i_def)
qed

lemma set_type_ok:
  assumes "flags_ok z" "in_span z p" "\<not> page_group_by_mobility_disabled z \<or> t = 0"
  defines "i \<equiv> 3 * block_no z p"
  shows "\<exists>b. set_pageblock_migratetype p t z = Some (z\<lparr>pageblock_flags := b\<rparr>) \<and>
    bit_dom b = bit_dom (pageblock_flags z) \<and>
    bits b = bits (pageblock_flags z) - {i, i + 1, i + 2} \<union> (if int t AND 1 \<noteq> 0 then {i} else {})
      \<union> (if int t AND 2 \<noteq> 0 then {i + 1} else {}) \<union> (if int t AND 4 \<noteq> 0 then {i + 2} else {})"
proof -
  note dom = bitidx_dom [OF assms(1,2)]
  have "\<exists>b. set_flags_loop 3 (int t) i 0 1 (pageblock_flags z) = Some b \<and>
      bit_dom b = bit_dom (pageblock_flags z) \<and>
      bits b = bits (pageblock_flags z) - {i, i + 1, i + 2} \<union> (if int t AND 1 \<noteq> 0 then {i} else {})
      \<union> (if int t AND 2 \<noteq> 0 then {i + 1} else {}) \<union> (if int t AND 4 \<noteq> 0 then {i + 2} else {})"
    using dom [of 0] dom [of 1] dom [of 2] bitidx_eq [OF assms(1,2)]
    unfolding i_def by (intro set_flags_three) auto
  then obtain b where b: "set_flags_loop 3 (int t) i 0 1 (pageblock_flags z) = Some b"
    "bit_dom b = bit_dom (pageblock_flags z)"
    "bits b = bits (pageblock_flags z) - {i, i + 1, i + 2} \<union> (if int t AND 1 \<noteq> 0 then {i} else {})
      \<union> (if int t AND 2 \<noteq> 0 then {i + 1} else {}) \<union> (if int t AND 4 \<noteq> 0 then {i + 2} else {})"
    by blast
  have "(if page_group_by_mobility_disabled z then 0 else int t) = int t" using assms(3) by auto
  then have "set_pageblock_migratetype p t z = Some (z\<lparr>pageblock_flags := b\<rparr>)"
    using b(1) by (simp only: set_pageblock_migratetype_eq bitidx_eq(1) [OF assms(1,2)] i_def
        option.map)
  then show ?thesis using b(2,3) by blast
qed

lemma flags_ok_len:
  assumes "flags_ok z" "bit_dom b = bit_dom (pageblock_flags z)"
  shows "flags_ok (z\<lparr>pageblock_flags := b\<rparr>)"
proof -
  have "length b = length (pageblock_flags z)" using assms(2) by (simp add: bit_dom_length)
  then show ?thesis using assms(1) by (simp add: flags_ok_def)
qed


lemma three_bits: "(t :: nat) < 8 \<Longrightarrow> of_bool (int t AND 1 \<noteq> 0) + 2 * of_bool (int t AND 2 \<noteq> 0)
    + 4 * of_bool (int t AND 4 \<noteq> 0) = t"
proof -
  assume "t < 8"
  then have "t \<in> {0, 1, 2, 3, 4, 5, 6, 7}" by auto
  then show ?thesis by (elim insertE) auto
qed

lemma flags_frame:
  assumes "frame z z'" "flags_ok z"
  shows "flags_ok z'"
  using assms by (simp add: flags_ok_def frame_fields)

lemma set_get_type:
  assumes z: "flags_ok z" "\<not> page_group_by_mobility_disabled z" and p: "in_span z p"
    and t: "t < 8" and set: "set_pageblock_migratetype p t z = Some z'" and q: "in_span z q"
  shows "get_pageblock_migratetype q z' =
    (if block_no z q = block_no z p then Some t else get_pageblock_migratetype q z)"
proof -
  obtain b where b: "z' = z\<lparr>pageblock_flags := b\<rparr>" "bit_dom b = bit_dom (pageblock_flags z)"
    and bits: "bits b = bits (pageblock_flags z)
      - {3 * block_no z p, 3 * block_no z p + 1, 3 * block_no z p + 2}
      \<union> (if int t AND 1 \<noteq> 0 then {3 * block_no z p} else {})
      \<union> (if int t AND 2 \<noteq> 0 then {3 * block_no z p + 1} else {})
      \<union> (if int t AND 4 \<noteq> 0 then {3 * block_no z p + 2} else {})"
    using set_type_ok [OF z(1) p, of t] z(2) set by auto
  have ok': "flags_ok z'" unfolding b(1) by (rule flags_ok_len [OF z(1) b(2)])
  have span': "in_span z' q" and no': "block_no z' q = block_no z q"
    using q by (simp_all add: b(1) in_span_def block_no_def)
  show ?thesis
  proof (cases "block_no z q = block_no z p")
    case True
    then show ?thesis
      unfolding get_type_eq [OF ok' span'] no' using three_bits [OF t]
      by (auto simp: b(1) bits of_bool_def split: if_splits)
  next
    case False
    have "3 * block_no z q + k \<in> bits b \<longleftrightarrow> 3 * block_no z q + k \<in> bits (pageblock_flags z)"
      if "k = 0 \<or> k = 1 \<or> k = 2" for k
      using False that unfolding bits by (auto simp: algebra_simps)
    from this [of 0] this [of 1] this [of 2] False show ?thesis
      unfolding get_type_eq [OF ok' span'] get_type_eq [OF z(1) q] no' by (simp add: b(1))
  qed
qed


section \<open>When a request fails\<close>

lemma set_type_total:
  assumes "flags_ok z" "in_span z p"
  shows "\<exists>b. set_pageblock_migratetype p t z = Some (z\<lparr>pageblock_flags := b\<rparr>)
    \<and> length b = length (pageblock_flags z)"
proof -
  have eq: "set_pageblock_migratetype p t z
      = set_pageblock_migratetype p (if page_group_by_mobility_disabled z then 0 else t) z"
    by (simp add: set_pageblock_migratetype_def MIGRATE_UNMOVABLE_def)
  obtain b where b: "set_pageblock_migratetype p t z = Some (z\<lparr>pageblock_flags := b\<rparr>)"
    "bit_dom b = bit_dom (pageblock_flags z)"
    using set_type_ok [OF assms, of "if page_group_by_mobility_disabled z then 0 else t"]
    unfolding eq by auto
  then show ?thesis using bit_dom_length by blast
qed

lemma claim_block_total:
  assumes "buddy_inv valid z" "merged z" "st < MIGRATE_TYPES" "page \<in> zone_pages valid z" "flags_ok z"
  shows "\<exists>t' z'. claim_block valid st cur t page z = Some (t', z') \<and> flags_ok z'"
proof -
  obtain n z1 where m: "move_freepages_block valid page st z = (n, z1)" by fastforce
  have R: "relists valid z z1" using move_freepages_block_ok [OF assms(1-4)] m by simp
  have fr: "frame z z1" using R by (simp add: relists_def)
  have ok: "flags_ok z1" by (rule flags_frame [OF fr assms(5)])
  have "in_span z page" using buddy_invD(8) [OF assms(1)] assms(4) by (simp add: in_span_def)
  then have "in_span z1 page" by (simp add: in_span_def frame_fields [OF fr])
  then obtain b where "set_pageblock_migratetype page st z1 = Some (z1\<lparr>pageblock_flags := b\<rparr>)"
    "length b = length (pageblock_flags z1)" using set_type_total [OF ok] by blast
  then show ?thesis
    using ok flags_frame [OF frame_flags] assms(5) by (auto simp: claim_block_def m)
qed

lemma take_out_flags_ok: "flags_ok (take_out p i z) = flags_ok z" "in_span (take_out p i z) q = in_span z q"
  by (simp_all add: flags_ok_def in_span_def buddy_ops)

lemma steal_block_total:
  assumes inv: "buddy_inv valid z" "merged z" and b: "(page, cur) \<in> blocks z"
    and "st < MIGRATE_TYPES" "t < MIGRATE_TYPES" and fl: "flags_ok z"
  shows "\<exists>x. steal_block valid order st cur t page z = Some x"
proof -
  have pz: "page \<in> zone_pages valid z"
    using free_set_zone [OF inv(1)] head_in_free_set [OF b] by blast
  obtain t' z1 where c: "claim_block valid st cur t page z = Some (t', z1)" and ok: "flags_ok z1"
    using claim_block_total [OF inv assms(4) pz fl] by blast
  have R: "relists valid z z1" using claim_block_relists [OF inv assms(4) pz assms(5) c] by simp
  then have fr: "frame z z1" by (simp add: relists_def)
  have "in_span z page" using buddy_invD(8) [OF inv(1)] pz by (simp add: in_span_def)
  then have "in_span (take_out page cur z1) page"
    by (simp add: take_out_flags_ok in_span_def frame_fields [OF fr])
  then obtain z2 where z2: "set_pageblock_migratetype page st (take_out page cur z1) = Some z2"
    using set_type_total ok take_out_flags_ok(1) by blast
  have "cur < MAX_ORDER" using blocks_order [OF buddy_invD(1) [OF inv(1)] b] .
  then have "pageblock_order \<le> cur \<Longrightarrow> cur = pageblock_order" by (simp add: buddy_consts)
  then have "pageblock_order \<le> cur \<Longrightarrow>
      change_pageblock_range page cur st (take_out page cur z1) = Some z2"
    using z2 by (simp add: change_pageblock_range_def)
  then show ?thesis
    unfolding steal_block_claim c by (cases "pageblock_order \<le> cur") (simp_all add: Let_def)
qed

lemma fallback_types_total:
  assumes "buddy_inv valid z" "merged z" "st < MIGRATE_TYPES" "flags_ok z"
    "\<forall>t \<in> set ts. t < MIGRATE_TYPES"
  shows "\<exists>r. fallback_types valid order st cur ts z = Some r \<and>
    (r = None \<longleftrightarrow> (\<forall>t \<in> set ts - {MIGRATE_RESERVE}. free_list z cur t = []))"
  using assms(5)
proof (induction ts)
  case (Cons t ts)
  show ?case
  proof (cases "t = MIGRATE_RESERVE \<or> free_list z cur t = []")
    case True
    then show ?thesis using Cons by auto
  next
    case False
    then obtain page ps where l: "free_list z cur t = page # ps" by (cases "free_list z cur t") auto
    have "(page, cur) \<in> blocks z" using l by (auto simp: blocks_listed intro: exI [of _ t])
    then obtain x where "steal_block valid order st cur t page z = Some x"
      using steal_block_total [OF assms(1,2) _ assms(3) _ assms(4)] Cons.prems by fastforce
    then show ?thesis using False l by (auto intro!: bexI [of _ t])
  qed
qed simp

lemma fallback_orders_total:
  assumes "buddy_inv valid z" "merged z" "st < MIGRATE_TYPES" "flags_ok z"
  shows "\<exists>r. fallback_orders k valid order st z = Some r \<and>
    (r = None \<longleftrightarrow> (\<forall>i < k. \<forall>t \<in> set (fallbacks st) - {MIGRATE_RESERVE}. free_list z (order + i) t = []))"
proof (induction k)
  case (Suc k)
  obtain r where r: "fallback_types valid order st (order + k) (fallbacks st) z = Some r"
    "r = None \<longleftrightarrow> (\<forall>t \<in> set (fallbacks st) - {MIGRATE_RESERVE}. free_list z (order + k) t = [])"
    using fallback_types_total [OF assms] fallbacks_types by blast
  show ?case
  proof (cases r)
    case None
    then show ?thesis using r Suc.IH by (auto simp: less_Suc_eq)
  next
    case (Some x)
    then show ?thesis using r by auto
  qed
qed simp

text \<open>The lists a request of a migrate type may be served from.\<close>

definition served_from :: "nat \<Rightarrow> nat set" where
  "served_from t = (if t = MIGRATE_RESERVE then {MIGRATE_RESERVE}
                    else {t, MIGRATE_RESERVE} \<union> set (fallbacks t))"

lemma rmqueue_total:
  assumes "buddy_inv valid z" "merged z" "t < MIGRATE_TYPES" "flags_ok z"
  shows "\<exists>r. rmqueue valid order t z = Some r \<and>
    (r = None \<longleftrightarrow> (\<forall>i \<ge> order. \<forall>u \<in> served_from t. free_list z i u = []))"
proof -
  note none = rmqueue_smallest_None [OF assms(1), of order]
  obtain r where r: "rmqueue_fallback valid order t z = Some r"
    "r = None \<longleftrightarrow> (\<forall>i < MAX_ORDER - order. \<forall>u \<in> set (fallbacks t) - {MIGRATE_RESERVE}.
       free_list z (order + i) u = [])"
    using fallback_orders_total [OF assms] unfolding rmqueue_fallback_def by blast
  have out: "free_list z i u = []" if "MAX_ORDER \<le> i" for i u
    using buddy_invD(1) [OF assms(1)] that unfolding lists_ok_def by (metis last_in_set not_le)
  have shift: "(\<forall>i < MAX_ORDER - order. Q (order + i)) \<longleftrightarrow> (\<forall>i \<ge> order. i < MAX_ORDER \<longrightarrow> Q i)" for Q
  proof (intro iffI allI impI)
    fix i assume "\<forall>i < MAX_ORDER - order. Q (order + i)" "order \<le> i" "i < MAX_ORDER"
    then show "Q i" by (auto dest!: spec [of _ "i - order"])
  qed auto
  have r': "r = None \<longleftrightarrow> (\<forall>i \<ge> order. \<forall>u \<in> set (fallbacks t) - {MIGRATE_RESERVE}.
       free_list z i u = [])"
    unfolding r(2) shift [of "\<lambda>i. \<forall>u \<in> set (fallbacks t) - {MIGRATE_RESERVE}. free_list z i u = []"]
    using out linorder_not_less by blast
  show ?thesis
  proof (cases "rmqueue_smallest order t z")
    case (Some x)
    then have "\<not> (\<forall>i \<ge> order. free_list z i t = [])" using none [of t] by simp
    then show ?thesis using Some by (auto simp: rmqueue_def served_from_def)
  next
    case None
    then have tn: "\<forall>i \<ge> order. free_list z i t = []" using none by blast
    show ?thesis
    proof (cases "t = MIGRATE_RESERVE")
      case True
      then show ?thesis using None tn by (simp add: rmqueue_def served_from_def)
    next
      case t: False
      show ?thesis
      proof (cases r)
        case (Some x)
        then show ?thesis using None t r r' by (auto simp: rmqueue_def served_from_def)
      next
        case rn: None
        have "rmqueue valid order t z = Some (rmqueue_smallest order MIGRATE_RESERVE z)"
          using None t r(1) rn by (simp add: rmqueue_def)
        then show ?thesis
          using none [of MIGRATE_RESERVE] t tn r' rn by (auto simp: served_from_def)
      qed
    qed
  qed
qed



section \<open>Requests one after the other\<close>










section \<open>A zone to run the allocator on\<close>

text \<open>Two page blocks of 1024 pages, one movable block of order 10 and an unmovable one of order 3.\<close>

definition ex_page :: page where
  "ex_page = \<lparr>pg_flags = 0, pg_count = 0, pg_mapcount = - 1, pg_private = 0, pg_mapping = 0\<rparr>"

definition ex_empty :: zstate where
  "ex_empty = \<lparr>zone_no = 0, watermark = (\<lambda>_. 0), lowmem_reserve = (\<lambda>_. 0),
     pageset = \<lparr>pcp_count = 0, pcp_high = 6, pcp_batch = 1, pcp_lists = (\<lambda>_. [])\<rparr>,
     all_unreclaimable = 0, free_list = (\<lambda>_ _. []), nr_free = (\<lambda>_. 0), pageblock_flags = [0],
     pages_scanned = 0, vm_stat = (\<lambda>_. 0), zone_start_pfn = 0, spanned_pages = 2048,
     present_pages = 2048, mem_map = (\<lambda>_. ex_page), global_stat = (\<lambda>_. 0),
     page_group_by_mobility_disabled = False\<rparr>"

definition ex_valid :: "int \<Rightarrow> bool" where
  "ex_valid p \<longleftrightarrow> 0 \<le> p \<and> p < 2048"

definition ex_one :: zstate where
  "ex_one = free_one_page ex_valid 0 10 MIGRATE_MOVABLE ex_empty"

definition ex_zone :: zstate where
  "ex_zone = free_one_page ex_valid 1024 3 MIGRATE_UNMOVABLE ex_one"

lemma ex_empty_zone: "zone_pages ex_valid ex_empty = {0..<2048}" "pcp_pages ex_empty = {}"
  "free_set ex_empty = {}" "blocks ex_empty = {}"
  by (auto simp: zone_pages_def ex_empty_def ex_valid_def page_zone_id_def ex_page_def pcp_pages_def
      free_set_def blocks_def listed_def)

lemma ex_empty_inv: "buddy_inv ex_valid ex_empty" "merged ex_empty"
  unfolding buddy_inv_def merged_def ex_empty_zone
  by (auto simp: lists_ok_def apart_def list_count_def ex_empty_def PageBuddy_def ex_page_def
      ex_valid_def)

lemma ex_one_freeing: "freeing ex_valid ex_empty 0 10"
  using ex_empty_inv by (simp add: freeing_def usable_def ex_empty_zone buddy_consts block_def)

lemma ex_one_ok: "buddy_inv ex_valid ex_one" "merged ex_one" "free_set ex_one = {0..<1024}"
  "pcp_pages ex_one = {}" "zone_pages ex_valid ex_one = {0..<2048}"
  using free_one_page_ok [OF ex_one_freeing, of MIGRATE_MOVABLE]
  by (simp_all add: ex_one_def ex_empty_zone pcp_pages_def buddy_consts block_def)
    (simp_all add: ex_empty_def)

lemma ex_zone_freeing: "freeing ex_valid ex_one 1024 3"
  using ex_one_ok by (auto simp: freeing_def usable_def buddy_consts block_def)

lemma ex_zone_ok: "buddy_inv ex_valid ex_zone" "merged ex_zone" "free_set ex_zone = {0..<1032}"
  "pcp_pages ex_zone = {}" "zone_pages ex_valid ex_zone = {0..<2048}"
  using free_one_page_ok [OF ex_zone_freeing, of MIGRATE_UNMOVABLE] ex_one_ok
  by (auto simp: ex_zone_def pcp_pages_def buddy_consts block_def)

lemma ex_zone_flags: "flags_ok ex_zone"
proof -
  have "(zone_start_pfn ex_zone, spanned_pages ex_zone, pageblock_flags ex_zone) = (0, 2048, [0])"
    by code_simp
  then show ?thesis by (simp add: flags_ok_def)
qed

lemma ex_run:
  "map_option (map_option fst) (rmqueue ex_valid 4 MIGRATE_UNMOVABLE ex_zone) = Some (Some 0)"
  "map_option (map_option fst) (rmqueue ex_valid 2 MIGRATE_UNMOVABLE ex_zone) = Some (Some 1024)"
  "map_option fst (rmqueue_smallest 2 MIGRATE_UNMOVABLE ex_zone) = Some 1024"
  by code_simp+



section \<open>Properties\<close>

text \<open>
  C2: freeing a block of \<open>2 ^ order\<close> pages that is aligned, inside the zone and not free adds exactly
  its pages to the free pages, whatever merges it causes: the invariant holds again, no two buddies
  are left side by side, the per-CPU lists are untouched and the free-page counter grows by the size.
\<close>
theorem free_one_page_exact:
  assumes "buddy_inv valid z" "merged z" "t < MIGRATE_TYPES"
    and "order < MAX_ORDER" "2 ^ order dvd page" "block page (2 ^ order) \<subseteq> zone_pages valid z"
    and "block page (2 ^ order) \<inter> (free_set z \<union> pcp_pages z) = {}"
  shows "buddy_inv valid (free_one_page valid page order t z) \<and>
    merged (free_one_page valid page order t z) \<and>
    free_set (free_one_page valid page order t z) = free_set z \<union> block page (2 ^ order) \<and>
    pageset (free_one_page valid page order t z) = pageset z \<and>
    vm_stat (free_one_page valid page order t z) NR_FREE_PAGES
      = s32 (vm_stat z NR_FREE_PAGES + 2 ^ order)"
  using free_one_page_ok [of valid z page order t] assms by (simp add: freeing_def usable_def)

theorem free_one_page_exact_witness:
  "free_set (free_one_page ex_valid 1032 3 MIGRATE_UNMOVABLE ex_zone) = {0..<1040}"
proof -
  have b: "block 1032 (2 ^ 3) = {1032..<1040}" by (simp add: block_def)
  have p: "MIGRATE_UNMOVABLE < MIGRATE_TYPES" "3 < MAX_ORDER" "2 ^ 3 dvd (1032 :: int)"
    by (simp_all add: buddy_consts)
  have q: "block 1032 (2 ^ 3) \<subseteq> zone_pages ex_valid ex_zone"
    "block 1032 (2 ^ 3) \<inter> (free_set ex_zone \<union> pcp_pages ex_zone) = {}"
    unfolding b ex_zone_ok by auto
  have "free_set (free_one_page ex_valid 1032 3 MIGRATE_UNMOVABLE ex_zone) = {0..<1032} \<union> {1032..<1040}"
    using free_one_page_exact [OF ex_zone_ok(1,2) p q] unfolding b ex_zone_ok(3) by blast
  then show ?thesis by auto
qed

text \<open>
  C3: a block that \<^verbatim>\<open>__rmqueue\<close> returns, from whatever list and order it was split or stolen, is
  aligned to its size and was free in all its pages; exactly these pages are no longer free, and the
  invariant holds again.
\<close>
theorem rmqueue_exact:
  assumes "buddy_inv valid z" "merged z" "t < MIGRATE_TYPES"
    and "rmqueue valid order t z = Some (Some (page, z'))"
  shows "2 ^ order dvd page \<and> block page (2 ^ order) \<subseteq> free_set z \<and>
    free_set z' = free_set z - block page (2 ^ order) \<and> buddy_inv valid z' \<and> merged z' \<and>
    pageset z' = pageset z"
  using rmqueue_takes [OF assms] by (simp add: takes_def leaves_def frame_fields)

theorem rmqueue_exact_witness:
  "\<exists>z'. rmqueue ex_valid 4 MIGRATE_UNMOVABLE ex_zone = Some (Some (0, z')) \<and> free_set z' = {16..<1032}"
proof -
  obtain z' where r: "rmqueue ex_valid 4 MIGRATE_UNMOVABLE ex_zone = Some (Some (0, z'))"
    using ex_run(1) by auto
  have "free_set z' = {0..<1032} - block 0 (2 ^ 4)"
    using rmqueue_exact [OF ex_zone_ok(1,2) _ r] ex_zone_ok(3) by (simp add: buddy_consts)
  also have "{0..<1032} - block 0 (2 ^ 4) = {16..<1032 :: int}" by auto
  finally show ?thesis using r by blast
qed

text \<open>
  C22: with the page-block map in place \<^verbatim>\<open>__rmqueue\<close> always returns, and it returns \<open>NULL\<close> exactly
  when every list it may use, those of the migrate type, of its fallbacks and of the reserve, has no
  block of the requested or a higher order. \<^verbatim>\<open>MIGRATE_ISOLATE\<close> lists are never used for another type.
\<close>
theorem rmqueue_fails_iff:
  assumes "buddy_inv valid z" "merged z" "t < MIGRATE_TYPES" "flags_ok z"
  shows "\<exists>r. rmqueue valid order t z = Some r \<and>
    (r = None \<longleftrightarrow> (\<forall>i \<ge> order. \<forall>u \<in> served_from t. free_list z i u = [])) \<and>
    (t \<noteq> MIGRATE_ISOLATE \<longrightarrow> MIGRATE_ISOLATE \<notin> served_from t)"
proof -
  have "MIGRATE_ISOLATE \<notin> served_from t" if "t \<noteq> MIGRATE_ISOLATE"
    using that by (auto simp: served_from_def fallbacks_def buddy_consts split: if_splits)
  then show ?thesis using rmqueue_total [OF assms] by blast
qed

theorem rmqueue_fails_iff_witness:
  "\<exists>r. rmqueue ex_valid 4 MIGRATE_RESERVE ex_zone = Some r \<and> r = None"
proof -
  obtain r where r: "rmqueue ex_valid 4 MIGRATE_RESERVE ex_zone = Some r"
    "r = None \<longleftrightarrow> (\<forall>i \<ge> 4. \<forall>u \<in> served_from MIGRATE_RESERVE. free_list ex_zone i u = [])"
    using rmqueue_fails_iff [OF ex_zone_ok(1,2) _ ex_zone_flags, of MIGRATE_RESERVE 4]
    by (auto simp: buddy_consts)
  moreover have "map_option (map_option fst) (rmqueue ex_valid 4 MIGRATE_RESERVE ex_zone) = Some None"
    by code_simp
  ultimately show ?thesis by auto
qed

text \<open>
  \<^verbatim>\<open>__rmqueue_smallest\<close> is a best fit within its migrate type: the block it splits comes from the
  lowest order at or above the requested one whose list is not empty.
\<close>
theorem rmqueue_smallest_best_fit:
  assumes "buddy_inv valid z" "merged z" "t < MIGRATE_TYPES"
    and "rmqueue_smallest order t z = Some (page, z')"
  shows "\<exists>j. order \<le> j \<and> page \<in> set (free_list z j t) \<and>
    (\<forall>i. order \<le> i \<longrightarrow> i < j \<longrightarrow> free_list z i t = []) \<and>
    free_set z' = free_set z - block page (2 ^ order)"
  using rmqueue_smallest_Some [OF assms] by (auto simp: takes_def leaves_def)

theorem rmqueue_smallest_best_fit_witness:
  "\<exists>z'. rmqueue_smallest 2 MIGRATE_UNMOVABLE ex_zone = Some (1024, z')
     \<and> free_set z' = {0..<1032} - {1024..<1028}"
proof -
  obtain z' where r: "rmqueue_smallest 2 MIGRATE_UNMOVABLE ex_zone = Some (1024, z')"
    using ex_run(3) by auto
  have "free_set z' = {0..<1032} - block 1024 (2 ^ 2)"
    using rmqueue_smallest_best_fit [OF ex_zone_ok(1,2) _ r] ex_zone_ok(3) by (auto simp: buddy_consts)
  with r show ?thesis by (auto simp: block_def)
qed



text \<open>
  C1: the allocator implements a set of free pages: the free blocks are the canonical decomposition
  of that set, the maximal aligned blocks of at most \<open>2 ^ 10\<close> pages inside it, so that freeing and
  taking a block act on the blocks as union and difference act on the set.
\<close>
theorem buddy_refines_page_set:
  assumes "buddy_inv valid z" "merged z" "t < MIGRATE_TYPES"
  shows "blocks z = canon (free_set z) \<and>
    (usable valid z page order \<longrightarrow>
       blocks (free_one_page valid page order t z) = canon (free_set z \<union> block page (2 ^ order))) \<and>
    (\<forall>page z'. rmqueue valid order t z = Some (Some (page, z')) \<longrightarrow>
       blocks z' = canon (free_set z - block page (2 ^ order)))"
proof (intro conjI impI allI)
  show "blocks z = canon (free_set z)" by (rule blocks_canon [OF assms(1,2)])
  show "blocks (free_one_page valid page order t z) = canon (free_set z \<union> block page (2 ^ order))"
    if "usable valid z page order"
  proof -
    have f: "freeing valid z page order" using assms that by (simp add: freeing_def)
    show ?thesis
      using free_one_page_ok [OF f assms(3)] blocks_canon [of valid "free_one_page valid page order t z"]
      by simp
  qed
  show "blocks z' = canon (free_set z - block page (2 ^ order))"
    if "rmqueue valid order t z = Some (Some (page, z'))" for page z'
    using rmqueue_takes [OF assms that] blocks_canon by (auto simp: takes_def leaves_def)
qed

theorem buddy_refines_page_set_witness:
  "blocks ex_zone = canon {0..<1032} \<and>
   blocks (free_one_page ex_valid 1032 3 MIGRATE_UNMOVABLE ex_zone) = canon ({0..<1032} \<union> {1032..<1040})"
  using buddy_refines_page_set [OF ex_zone_ok(1,2), of MIGRATE_UNMOVABLE 1032 3] ex_zone_ok
  by (auto simp: buddy_consts usable_def block_def)

text \<open>
  C23: taking a block and freeing it again, under any migrate type, restores the free blocks exactly:
  the splits of the one are undone by the merges of the other.
\<close>
theorem alloc_free_roundtrip:
  assumes "buddy_inv valid z" "merged z" "t < MIGRATE_TYPES" "u < MIGRATE_TYPES" "order < MAX_ORDER"
    and "rmqueue valid order t z = Some (Some (page, z'))"
  shows "blocks (free_one_page valid page order u z') = blocks z"
proof -
  have T: "takes valid z page order z'" by (rule rmqueue_takes [OF assms(1-3,6)])
  then have L: "buddy_inv valid z'" "merged z'" "free_set z' = free_set z - block page (2 ^ order)"
    and fr: "frame z z'" by (auto simp: takes_def leaves_def)
  have "usable valid z' page order"
    using T L(3) assms(5) free_set_zone [OF assms(1)] buddy_invD(6) [OF assms(1)]
      frame_zone_pages [OF fr, of valid] frame_pcp_pages [OF fr]
    unfolding usable_def takes_def by blast
  then have F: "buddy_inv valid (free_one_page valid page order u z')"
    "merged (free_one_page valid page order u z')"
    "free_set (free_one_page valid page order u z') = free_set z' \<union> block page (2 ^ order)"
    using free_one_page_ok [of valid z' page order u] L assms(4) by (auto simp: freeing_def)
  have "free_set z' \<union> block page (2 ^ order) = free_set z" using T L(3) by (auto simp: takes_def)
  then show ?thesis
    using blocks_canon [OF F(1,2)] blocks_canon [OF assms(1,2)] F(3) by simp
qed

theorem alloc_free_roundtrip_witness:
  "\<exists>z'. rmqueue ex_valid 4 MIGRATE_UNMOVABLE ex_zone = Some (Some (0, z')) \<and>
     blocks (free_one_page ex_valid 0 4 MIGRATE_MOVABLE z') = blocks ex_zone"
proof -
  obtain z' where r: "rmqueue ex_valid 4 MIGRATE_UNMOVABLE ex_zone = Some (Some (0, z'))"
    using ex_run(1) by auto
  then show ?thesis
    using alloc_free_roundtrip [OF ex_zone_ok(1,2) _ _ _ r, of MIGRATE_MOVABLE]
    by (auto simp: buddy_consts)
qed

text \<open>
  The page-block flags are a map from page blocks to migrate types: after
  \<^verbatim>\<open>set_pageblock_migratetype\<close> every page of that block reads back the type, and every page of
  another block what it read before.
\<close>
theorem pageblock_migratetype_map:
  assumes "flags_ok z" "\<not> page_group_by_mobility_disabled z" "t < 8"
    and "in_span z p" "in_span z q"
  shows "\<exists>z'. set_pageblock_migratetype p t z = Some z' \<and>
    get_pageblock_migratetype q z' =
      (if block_no z q = block_no z p then Some t else get_pageblock_migratetype q z)"
  using set_type_total [OF assms(1,4), of t] set_get_type [OF assms(1,2,4,3) _ assms(5)] by blast

theorem pageblock_migratetype_map_witness:
  "\<exists>z'. set_pageblock_migratetype 1030 4 ex_zone = Some z' \<and>
     get_pageblock_migratetype 2000 z' = Some 4"
proof -
  have "(page_group_by_mobility_disabled ex_zone, zone_start_pfn ex_zone, spanned_pages ex_zone)
      = (False, 0, 2048)" by code_simp
  then show ?thesis
    using pageblock_migratetype_map [OF ex_zone_flags, of 4 1030 2000]
    by (auto simp: in_span_def block_no_def)
qed

end
