(* ===== verification/PageAlloc.thy ===== *)
theory PageAlloc
  imports BuddyProps
begin

text \<open>
  The layers of \<^verbatim>\<open>mm/page_alloc.c\<close> above the buddy lists: page checks, the per-CPU lists, freeing
  and allocating pages, the watermarks and the search through the zonelist.

  The locks and the interrupt flag are not modelled: the simulated machine has one processor.
  Debugging hooks that are empty in the source leave no trace. An outer option result is \<open>None\<close> when
  the code does not return or reads outside the page-block map.
\<close>

section \<open>Checks\<close>

definition bad_page :: "page \<Rightarrow> page" where
  "bad_page p = (if TESTPAGEFLAG PG_hwpoison p then ClearPageBuddy p else ClearPageBuddy p)"

definition free_pages_check :: "page \<Rightarrow> int \<times> page" where
  "free_pages_check p =
     (if page_mapcount p \<noteq> 0 \<or> pg_mapping p \<noteq> 0 \<or> pg_count p \<noteq> 0
         \<or> pg_flags p AND PAGE_FLAGS_CHECK_AT_FREE \<noteq> 0
      then (1, bad_page p)
      else if pg_flags p AND PAGE_FLAGS_CHECK_AT_PREP \<noteq> 0
      then (0, p\<lparr>pg_flags := pg_flags p AND NOT PAGE_FLAGS_CHECK_AT_PREP\<rparr>)
      else (0, p))"

fun prepare_loop :: "nat \<Rightarrow> int \<Rightarrow> int \<Rightarrow> zstate \<Rightarrow> int \<times> zstate" where
  "prepare_loop 0 page bad z = (bad, z)"
| "prepare_loop (Suc k) page bad z =
     (let (b, p) = free_pages_check (mem_map z page)
      in prepare_loop k (page + 1) (bad + b) (upd_page page (\<lambda>_. p) z))"

definition free_pages_prepare :: "int \<Rightarrow> nat \<Rightarrow> zstate \<Rightarrow> bool \<times> zstate" where
  "free_pages_prepare page order z =
     (let z = (if PageAnon (mem_map z page) then upd_page page (\<lambda>p. p\<lparr>pg_mapping := 0\<rparr>) z else z);
          (bad, z) = prepare_loop (nat (push_bit order 1)) page 0 z
      in (bad = 0, z))"

definition TestClearPageMlocked :: "int \<Rightarrow> zstate \<Rightarrow> bool \<times> zstate" where
  "TestClearPageMlocked page z =
     (TESTPAGEFLAG PG_mlocked (mem_map z page), upd_page page (CLEARPAGEFLAG PG_mlocked) z)"

definition free_page_mlock :: "zstate \<Rightarrow> zstate" where
  "free_page_mlock z = dec_zone_page_state NR_MLOCK z"

definition check_new_page :: "page \<Rightarrow> bool" where
  "check_new_page p \<longleftrightarrow>
     page_mapcount p \<noteq> 0 \<or> pg_mapping p \<noteq> 0 \<or> pg_count p \<noteq> 0
     \<or> pg_flags p AND PAGE_FLAGS_CHECK_AT_PREP \<noteq> 0"


section \<open>The per-CPU lists\<close>

definition upd_pcp :: "(per_cpu_pages \<Rightarrow> per_cpu_pages) \<Rightarrow> zstate \<Rightarrow> zstate" where
  "upd_pcp f z = z\<lparr>pageset := f (pageset z)\<rparr>"

definition pcp_list :: "nat \<Rightarrow> zstate \<Rightarrow> int list" where
  "pcp_list t z = pcp_lists (pageset z) t"

definition set_pcp_list :: "nat \<Rightarrow> int list \<Rightarrow> zstate \<Rightarrow> zstate" where
  "set_pcp_list t ps z = upd_pcp (\<lambda>c. c\<lparr>pcp_lists := (pcp_lists c)(t := ps)\<rparr>) z"

definition pcp_count_add :: "int \<Rightarrow> zstate \<Rightarrow> zstate" where
  "pcp_count_add d z = upd_pcp (\<lambda>c. c\<lparr>pcp_count := s32 (pcp_count c + d)\<rparr>) z"

text \<open>
  The search for a list with pages, from the list after \<open>migratetype\<close>, \<open>batch_free\<close> counting the lists
  looked at. With all three lists empty the loop of the source never ends: \<open>None\<close> after three steps.
\<close>

fun next_pcp_list :: "nat \<Rightarrow> nat \<Rightarrow> nat \<Rightarrow> zstate \<Rightarrow> (nat \<times> nat) option" where
  "next_pcp_list 0 migratetype batch_free z = None"
| "next_pcp_list (Suc k) migratetype batch_free z =
     (let batch_free = Suc batch_free;
          migratetype = (if Suc migratetype = MIGRATE_PCPTYPES then 0 else Suc migratetype)
      in if pcp_list migratetype z = [] then next_pcp_list k migratetype batch_free z
         else Some (migratetype, batch_free))"

text \<open>
  The inner loop, which frees pages from the tail of one list. The first argument is \<open>to_free - 1\<close>,
  the second \<open>batch_free - 1\<close>; the results are the two counters after the loop.
\<close>

fun drain_list ::
  "(int \<Rightarrow> bool) \<Rightarrow> nat \<Rightarrow> nat \<Rightarrow> nat \<Rightarrow> zstate \<Rightarrow> nat \<times> nat \<times> zstate" where
  "drain_list valid n b t z =
     (let page = last (pcp_list t z);
          z = list_del page z;
          z = do_free_one_page valid page 0 (nat (pg_private (mem_map z page))) z
      in case n of
           0 \<Rightarrow> (0, Suc b, z)
         | Suc m \<Rightarrow>
             (case b of
                0 \<Rightarrow> (n, 0, z)
              | Suc c \<Rightarrow> if pcp_list t z = [] then (n, b, z) else drain_list valid m c t z))"

fun pcppages_loop ::
  "nat \<Rightarrow> (int \<Rightarrow> bool) \<Rightarrow> nat \<Rightarrow> nat \<Rightarrow> nat \<Rightarrow> zstate \<Rightarrow> zstate option" where
  "pcppages_loop k valid to_free migratetype batch_free z =
     (case to_free of
        0 \<Rightarrow> Some z
      | Suc n \<Rightarrow>
          (case k of
             0 \<Rightarrow> None
           | Suc k' \<Rightarrow>
               do { (t, b) \<leftarrow> next_pcp_list 3 migratetype batch_free z;
                    let (n', b', z') = drain_list valid n (b - 1) t z;
                    pcppages_loop k' valid n' t b' z' }))"

declare drain_list.simps [simp del] pcppages_loop.simps [simp del]

definition free_pcppages_bulk :: "(int \<Rightarrow> bool) \<Rightarrow> int \<Rightarrow> zstate \<Rightarrow> zstate option" where
  "free_pcppages_bulk valid count z =
     (if count < 0 then None
      else do {
        let z = z\<lparr>all_unreclaimable := 0, pages_scanned := 0\<rparr>;
        z \<leftarrow> pcppages_loop (nat count) valid (nat count) 0 0 z;
        Some (mod_zone_page_state NR_FREE_PAGES count z) })"

definition free_hot_cold_page :: "(int \<Rightarrow> bool) \<Rightarrow> int \<Rightarrow> bool \<Rightarrow> zstate \<Rightarrow> zstate option" where
  "free_hot_cold_page valid page cold z =
     (let (wasMlocked, z) = TestClearPageMlocked page z;
          (ok, z) = free_pages_prepare page 0 z
      in if \<not> ok then Some z
         else do {
           migratetype \<leftarrow> get_pageblock_migratetype page z;
           let z = upd_page page (set_page_private (int migratetype)) z;
           let z = (if wasMlocked then free_page_mlock z else z);
           if MIGRATE_PCPTYPES \<le> migratetype \<and> migratetype = MIGRATE_ISOLATE
           then Some (free_one_page valid page 0 migratetype z)
           else do {
             let t = (if MIGRATE_PCPTYPES \<le> migratetype then MIGRATE_MOVABLE else migratetype);
             let z = set_pcp_list t (if cold then pcp_list t z @ [page] else page # pcp_list t z) z;
             let z = pcp_count_add 1 z;
             if pcp_high (pageset z) \<le> pcp_count (pageset z)
             then do {
               z \<leftarrow> free_pcppages_bulk valid (pcp_batch (pageset z)) z;
               Some (pcp_count_add (- pcp_batch (pageset z)) z) }
             else Some z } })"

definition free_pages_ok :: "(int \<Rightarrow> bool) \<Rightarrow> int \<Rightarrow> nat \<Rightarrow> zstate \<Rightarrow> zstate option" where
  "free_pages_ok valid page order z =
     (let (wasMlocked, z) = TestClearPageMlocked page z;
          (ok, z) = free_pages_prepare page order z
      in if \<not> ok then Some z
         else do {
           let z = (if wasMlocked then free_page_mlock z else z);
           migratetype \<leftarrow> get_pageblock_migratetype page z;
           Some (free_one_page valid page order migratetype z) })"

definition put_page_testzero :: "int \<Rightarrow> zstate \<Rightarrow> bool \<times> zstate" where
  "put_page_testzero page z =
     (let c = s32 (pg_count (mem_map z page) - 1)
      in (c = 0, upd_page page (set_page_count c) z))"

definition free_pages_c :: "(int \<Rightarrow> bool) \<Rightarrow> int \<Rightarrow> nat \<Rightarrow> zstate \<Rightarrow> zstate option" where
  "free_pages_c valid page order z =
     (let (zero, z) = put_page_testzero page z
      in if zero
         then if order = 0 then free_hot_cold_page valid page False z
              else free_pages_ok valid page order z
         else Some z)"

text \<open>The release of boot memory: with an order the loop covers \<^verbatim>\<open>BITS_PER_LONG\<close> pages.\<close>

fun bootmem_loop :: "nat \<Rightarrow> int \<Rightarrow> zstate \<Rightarrow> zstate" where
  "bootmem_loop 0 p z = z"
| "bootmem_loop (Suc k) p z =
     bootmem_loop k (p + 1) (upd_page p (set_page_count 0 \<circ> CLEARPAGEFLAG PG_reserved) z)"

definition free_pages_bootmem :: "(int \<Rightarrow> bool) \<Rightarrow> int \<Rightarrow> nat \<Rightarrow> zstate \<Rightarrow> zstate option" where
  "free_pages_bootmem valid page order z =
     (if order = 0
      then free_pages_c valid page 0
             (upd_page page (set_page_refcounted \<circ> set_page_count 0 \<circ> CLEARPAGEFLAG PG_reserved) z)
      else free_pages_c valid page order (upd_page page set_page_refcounted (bootmem_loop 32 page z)))"


section \<open>Allocating from a zone\<close>

text \<open>
  \<open>rmqueue_bulk\<close> returns the pages in the order it took them; each is linked behind the last one
  (before it, for cold pages), so that the list ends up as \<open>ps @ xs\<close> or \<open>xs @ rev ps\<close>.
\<close>

fun bulk_loop ::
  "nat \<Rightarrow> (int \<Rightarrow> bool) \<Rightarrow> nat \<Rightarrow> nat \<Rightarrow> zstate \<Rightarrow> (int list \<times> zstate) option" where
  "bulk_loop 0 valid order migratetype z = Some ([], z)"
| "bulk_loop (Suc k) valid order migratetype z =
     do { r \<leftarrow> rmqueue valid order migratetype z;
          case r of
            None \<Rightarrow> Some ([], z)
          | Some (page, z) \<Rightarrow>
              do { let z = upd_page page (set_page_private (int migratetype)) z;
                   (ps, z) \<leftarrow> bulk_loop k valid order migratetype z;
                   Some (page # ps, z) } }"

definition rmqueue_bulk ::
  "(int \<Rightarrow> bool) \<Rightarrow> nat \<Rightarrow> int \<Rightarrow> nat \<Rightarrow> bool \<Rightarrow> zstate \<Rightarrow> (int \<times> zstate) option" where
  "rmqueue_bulk valid order count migratetype cold z =
     do { (ps, z) \<leftarrow> bulk_loop (nat (u64 count)) valid order migratetype z;
          let xs = pcp_list migratetype z;
          let z = set_pcp_list migratetype (if cold then xs @ rev ps else ps @ xs) z;
          let i = int (length ps);
          Some (i, mod_zone_page_state NR_FREE_PAGES (- push_bit order i) z) }"

definition GFP_COLD :: int where "GFP_COLD = 0x100"
definition GFP_NOFAIL :: int where "GFP_NOFAIL = 0x800"
definition GFP_COMP :: int where "GFP_COMP = 0x4000"

fun check_pages :: "nat \<Rightarrow> int \<Rightarrow> zstate \<Rightarrow> bool" where
  "check_pages 0 page z = False"
| "check_pages (Suc k) page z = (check_new_page (mem_map z page) \<or> check_pages k (page + 1) z)"

fun tail_pages :: "nat \<Rightarrow> int \<Rightarrow> int \<Rightarrow> zstate \<Rightarrow> zstate" where
  "tail_pages 0 p page z = z"
| "tail_pages (Suc k) p page z =
     tail_pages k (p + 1) page (upd_page p (\<lambda>q. q\<lparr>pg_private := page\<rparr>) z)"

text \<open>\<^verbatim>\<open>first_page\<close> shares its memory with \<^verbatim>\<open>private\<close>.\<close>

definition prep_compound_page :: "int \<Rightarrow> nat \<Rightarrow> zstate \<Rightarrow> zstate" where
  "prep_compound_page page order z = tail_pages (nat (push_bit order 1 - 1)) (page + 1) page z"

text \<open>The result tells whether a page was bad; clearing the pages for \<^verbatim>\<open>__GFP_ZERO\<close> is not modelled.\<close>

definition prep_new_page :: "int \<Rightarrow> nat \<Rightarrow> int \<Rightarrow> zstate \<Rightarrow> bool \<times> zstate" where
  "prep_new_page page order gfp_flags z =
     (if check_pages (nat (push_bit order 1)) page z then (True, z)
      else let z = upd_page page (set_page_refcounted \<circ> set_page_private 0) z
           in (False, if order \<noteq> 0 \<and> gfp_flags AND GFP_COMP \<noteq> 0
                      then prep_compound_page page order z else z))"

text \<open>One round of \<open>buffered_rmqueue\<close>, up to the test whether the page is good.\<close>

definition buffered_page ::
  "(int \<Rightarrow> bool) \<Rightarrow> nat \<Rightarrow> int \<Rightarrow> nat \<Rightarrow> zstate \<Rightarrow> (int option \<times> zstate) option" where
  "buffered_page valid order gfp_flags migratetype z =
     (let cold = (gfp_flags AND GFP_COLD \<noteq> 0)
      in if order = 0
         then do {
           z \<leftarrow> (if pcp_list migratetype z = []
                 then do { (i, z) \<leftarrow> rmqueue_bulk valid 0 (pcp_batch (pageset z)) migratetype cold z;
                           Some (pcp_count_add i z) }
                 else Some z);
           if pcp_list migratetype z = [] then Some (None, z)
           else do {
             let page = (if cold then last (pcp_list migratetype z) else hd (pcp_list migratetype z));
             Some (Some page, pcp_count_add (- 1) (list_del page z)) } }
         else do {
           r \<leftarrow> rmqueue valid order migratetype z;
           case r of
             None \<Rightarrow> Some (None, z)
           | Some (page, z) \<Rightarrow>
               Some (Some page, mod_zone_page_state NR_FREE_PAGES (- push_bit order 1) z) })"

partial_function (option) buffered_rmqueue ::
  "(int \<Rightarrow> bool) \<Rightarrow> nat \<Rightarrow> int \<Rightarrow> nat \<Rightarrow> zstate \<Rightarrow> (int option \<times> zstate) option" where
  "buffered_rmqueue valid order gfp_flags migratetype z =
     do { (r, z) \<leftarrow> buffered_page valid order gfp_flags migratetype z;
          case r of
            None \<Rightarrow> Some (None, z)
          | Some page \<Rightarrow>
              (let (bad, z) = prep_new_page page order gfp_flags z
               in if bad then buffered_rmqueue valid order gfp_flags migratetype z
                  else Some (Some page, z)) }"

end
