(* ===== verification/PcpProps.thy ===== *)
theory PcpProps
  imports PageAlloc
begin

text \<open>
  The per-CPU lists: what the invariant of the zone becomes with pages parked on them, and that no
  page is lost or doubled on its way between a caller, a per-CPU list and the buddy lists.
\<close>

section \<open>The invariant with per-CPU pages\<close>

definition pcp_total :: "zstate \<Rightarrow> nat" where
  "pcp_total z = (\<Sum>t<MIGRATE_PCPTYPES. length (pcp_list t z))"

definition pcp_ok :: "(int \<Rightarrow> bool) \<Rightarrow> zstate \<Rightarrow> bool" where
  "pcp_ok valid z \<longleftrightarrow>
     buddy_inv valid z \<and> merged z \<and>
     (\<forall>t. distinct (pcp_list t z)) \<and>
     (\<forall>t u p. p \<in> set (pcp_list t z) \<longrightarrow> p \<in> set (pcp_list u z) \<longrightarrow> t = u) \<and>
     (\<forall>t. MIGRATE_PCPTYPES \<le> t \<longrightarrow> pcp_list t z = []) \<and>
     pcp_pages z \<subseteq> zone_pages valid z \<and>
     (\<forall>p \<in> pcp_pages z. nat (pg_private (mem_map z p)) < MIGRATE_TYPES)"

lemma pcp_okD:
  assumes "pcp_ok valid z"
  shows "buddy_inv valid z" "merged z" "distinct (pcp_list t z)"
    "p \<in> set (pcp_list t z) \<Longrightarrow> p \<in> set (pcp_list u z) \<Longrightarrow> t = u"
    "MIGRATE_PCPTYPES \<le> t \<Longrightarrow> pcp_list t z = []" "pcp_pages z \<subseteq> zone_pages valid z"
    "p \<in> pcp_pages z \<Longrightarrow> nat (pg_private (mem_map z p)) < MIGRATE_TYPES"
  using assms unfolding pcp_ok_def by blast+

lemma pcp_pages_list: "pcp_pages z = (\<Union>t. set (pcp_list t z))"
  by (simp add: pcp_pages_def pcp_list_def)

definition pcp_params :: "zstate \<Rightarrow> int \<times> int \<times> int" where
  "pcp_params z = (pcp_count (pageset z), pcp_high (pageset z), pcp_batch (pageset z))"

text \<open>All pages the zone has to give: the free ones and those parked on the per-CPU lists.\<close>

definition stock :: "zstate \<Rightarrow> int set" where
  "stock z = free_set z \<union> pcp_pages z"

lemma pageset_fields [simp]:
  "merged (z\<lparr>pageset := c\<rparr>) = merged z" "free_set (z\<lparr>pageset := c\<rparr>) = free_set z"
  "blocks (z\<lparr>pageset := c\<rparr>) = blocks z" "zone_pages valid (z\<lparr>pageset := c\<rparr>) = zone_pages valid z"
  "flags_ok (z\<lparr>pageset := c\<rparr>) = flags_ok z" "lists_ok (z\<lparr>pageset := c\<rparr>) = lists_ok z"
  "block_ok valid (z\<lparr>pageset := c\<rparr>) = block_ok valid z"
  "list_count (z\<lparr>pageset := c\<rparr>) = list_count z"
  by (simp_all add: fun_eq_iff lists_ok_def block_ok_def list_count_def merged_def blocks_def listed_def free_set_def zone_pages_def flags_ok_def)

lemma buddy_inv_pageset:
  assumes "buddy_inv valid z" "(\<Union>t. set (pcp_lists c t)) \<inter> free_set z = {}"
  shows "buddy_inv valid (z\<lparr>pageset := c\<rparr>)"
  using assms
  unfolding buddy_inv_def by (simp add: pcp_pages_def)

lemma set_pcp_list_fields [simp]:
  "pcp_list u (set_pcp_list t ps z) = (if u = t then ps else pcp_list u z)"
  "mem_map (set_pcp_list t ps z) = mem_map z" "free_set (set_pcp_list t ps z) = free_set z"
  "merged (set_pcp_list t ps z) = merged z"
  "zone_pages valid (set_pcp_list t ps z) = zone_pages valid z"
  "pcp_count (pageset (set_pcp_list t ps z)) = pcp_count (pageset z)"
  "pcp_batch (pageset (set_pcp_list t ps z)) = pcp_batch (pageset z)"
  "pcp_high (pageset (set_pcp_list t ps z)) = pcp_high (pageset z)"
  by (simp_all add: set_pcp_list_def upd_pcp_def pcp_list_def)

lemma pcp_count_fields [simp]:
  "pcp_list u (pcp_count_add d z) = pcp_list u z" "mem_map (pcp_count_add d z) = mem_map z"
  "free_set (pcp_count_add d z) = free_set z" "merged (pcp_count_add d z) = merged z"
  "zone_pages valid (pcp_count_add d z) = zone_pages valid z"
  "pcp_count (pageset (pcp_count_add d z)) = s32 (pcp_count (pageset z) + d)"
  "pcp_batch (pageset (pcp_count_add d z)) = pcp_batch (pageset z)"
  "pcp_high (pageset (pcp_count_add d z)) = pcp_high (pageset z)"
  "pcp_pages (pcp_count_add d z) = pcp_pages z"
  by (simp_all add: pcp_count_add_def upd_pcp_def pcp_list_def pcp_pages_def)

lemma buddy_inv_pcp_count [simp]: "buddy_inv valid (pcp_count_add d z) = buddy_inv valid z"
  by (simp add: pcp_count_add_def upd_pcp_def buddy_inv_def lists_ok_def blocks_def listed_def
      block_ok_def apart_def list_count_def pcp_pages_def free_set_def zone_pages_def)

lemma pcp_ok_count [simp]: "pcp_ok valid (pcp_count_add d z) = pcp_ok valid z"
  by (simp add: pcp_ok_def)

lemma pcp_total_count [simp]: "pcp_total (pcp_count_add d z) = pcp_total z"
  by (simp add: pcp_total_def)

lemma buddy_inv_set_pcp:
  "buddy_inv valid z \<Longrightarrow> set ps \<inter> free_set z = {} \<Longrightarrow> buddy_inv valid (set_pcp_list t ps z)"
  unfolding set_pcp_list_def upd_pcp_def
  using buddy_invD(6) [of valid z] by (intro buddy_inv_pageset) (auto simp: pcp_pages_def disjoint_iff split: if_splits)

lemma pcp_total_set:
  assumes "t < MIGRATE_PCPTYPES"
  shows "int (pcp_total (set_pcp_list t ps z)) = int (pcp_total z) + int (length ps) - int (length (pcp_list t z))"
proof -
  have "int (length (pcp_list u (set_pcp_list t ps z))) = int (length (pcp_list u z))
      + (if u = t then int (length ps) - int (length (pcp_list t z)) else 0)" for u by simp
  then have "int (pcp_total (set_pcp_list t ps z)) = (\<Sum>u<MIGRATE_PCPTYPES.
      int (length (pcp_list u z)) + (if u = t then int (length ps) - int (length (pcp_list t z)) else 0))"
    by (simp only: pcp_total_def of_nat_sum)
  then show ?thesis using assms by (simp add: pcp_total_def sum.distrib)
qed

text \<open>Unlinking a page that is on a per-CPU list.\<close>

lemma list_del_pcp:
  assumes ok: "pcp_ok valid z" and p: "p \<in> set (pcp_list t z)"
  shows "list_del p z = set_pcp_list t (remove1 p (pcp_list t z)) z"
proof -
  have "p \<notin> free_set z"
    using buddy_invD(6) [OF pcp_okD(1) [OF ok]] p by (auto simp: pcp_pages_list)
  then have "p \<notin> set (free_list z i u)" for i u
    using head_in_free_set [of p i z] by (auto simp: blocks_listed)
  then have a: "(\<lambda>i u. remove1 p (free_list z i u)) = free_list z" by (simp add: remove1_idem fun_eq_iff)
  have "p \<notin> set (pcp_list u z)" if "u \<noteq> t" for u using pcp_okD(4) [OF ok p, of u] that by blast
  then have "(\<lambda>u. remove1 p (pcp_lists (pageset z) u))
      = (pcp_lists (pageset z))(t := remove1 p (pcp_lists (pageset z) t))"
    by (auto simp: fun_eq_iff pcp_list_def remove1_idem)
  then show ?thesis unfolding list_del_def a
    by (cases z) (simp add: set_pcp_list_def upd_pcp_def pcp_list_def)
qed

lemma pcp_remove:
  assumes ok: "pcp_ok valid z" and p: "p \<in> set (pcp_list t z)"
  shows "pcp_ok valid (list_del p z)" "pcp_pages (list_del p z) = pcp_pages z - {p}"
    "free_set (list_del p z) = free_set z" "Suc (pcp_total (list_del p z)) = pcp_total z"
    "mem_map (list_del p z) = mem_map z" "zone_pages valid (list_del p z) = zone_pages valid z"
    "pcp_list t (list_del p z) = remove1 p (pcp_list t z)"
proof -
  note eq = list_del_pcp [OF ok p] and D = pcp_okD [OF ok]
  have t: "t < MIGRATE_PCPTYPES" using D(5) [of t] p by fastforce
  have sub: "set (pcp_list u (list_del p z)) \<subseteq> set (pcp_list u z)" for u
    unfolding eq using set_remove1_subset [of p "pcp_list t z"] by auto
  show pp: "pcp_pages (list_del p z) = pcp_pages z - {p}"
    using D(3) [of t] D(4) [OF p] unfolding eq pcp_pages_list by (auto split: if_splits)
  show "free_set (list_del p z) = free_set z" "mem_map (list_del p z) = mem_map z"
    "zone_pages valid (list_del p z) = zone_pages valid z"
    "pcp_list t (list_del p z) = remove1 p (pcp_list t z)" by (simp_all add: eq)
  have "set (remove1 p (pcp_list t z)) \<inter> free_set z = {}"
    using buddy_invD(6) [OF D(1)] set_remove1_subset [of p "pcp_list t z"]
    unfolding pcp_pages_list by blast
  then have "buddy_inv valid (list_del p z)" unfolding eq by (rule buddy_inv_set_pcp [OF D(1)])
  moreover have "distinct (pcp_list u (list_del p z))" for u using D(3) by (simp add: eq)
  moreover have "merged (list_del p z)" using D(2) by (simp add: eq)
  moreover have "MIGRATE_PCPTYPES \<le> u \<Longrightarrow> pcp_list u (list_del p z) = []" for u
    using D(5) t by (simp add: eq)
  moreover have "u = v" if "q \<in> set (pcp_list u (list_del p z))" "q \<in> set (pcp_list v (list_del p z))"
    for q u v using sub D(4) that by blast
  moreover have "mem_map (list_del p z) = mem_map z" "zone_pages valid (list_del p z) = zone_pages valid z"
    by (simp_all add: eq)
  ultimately show "pcp_ok valid (list_del p z)"
    unfolding pcp_ok_def pp using D(6,7) by auto
  have "0 < length (pcp_list t z)" using p by (cases "pcp_list t z") auto
  then show "Suc (pcp_total (list_del p z)) = pcp_total z"
    using pcp_total_set [OF t, of "remove1 p (pcp_list t z)" z] p
    by (simp add: eq length_remove1 of_nat_diff Suc_le_eq)
qed

text \<open>An operation of the buddy lists that leaves the per-CPU pages alone.\<close>

lemma pcp_ok_leaves:
  assumes ok: "pcp_ok valid z" and L: "leaves valid z F z'" and d: "pcp_pages z \<inter> F = {}"
  shows "pcp_ok valid z'" "pcp_pages z' = pcp_pages z" "pcp_total z' = pcp_total z"
proof -
  note LD = leavesD [OF L] and D = pcp_okD [OF ok]
  have pl: "pcp_list t z' = pcp_list t z" for t using LD(4) by (simp add: pcp_list_def frame_fields)
  show pp: "pcp_pages z' = pcp_pages z" by (rule frame_pcp_pages [OF LD(4)])
  show "pcp_total z' = pcp_total z" by (simp add: pcp_total_def pl)
  have "mem_map z' p = mem_map z p" if "p \<in> pcp_pages z" for p
    using LD(5) [of p] buddy_invD(6) [OF D(1)] d that by blast
  then show "pcp_ok valid z'"
    unfolding pcp_ok_def pl pp frame_zone_pages [OF LD(4)] using LD(1,2) D(3-7) by auto
qed

text \<open>One page goes from the tail of a per-CPU list to the buddy lists.\<close>

lemma drain_leaves:
  assumes ok: "pcp_ok valid z" and ne: "pcp_list t z \<noteq> []"
  defines "p \<equiv> last (pcp_list t z)"
  shows "p \<in> set (pcp_list t z)" "p \<in> pcp_pages z" "leaves valid (list_del p z) (free_set z \<union> {p})
    (do_free_one_page valid p 0 (nat (pg_private (mem_map (list_del p z) p))) (list_del p z))"
proof -
  show p: "p \<in> set (pcp_list t z)" using ne by (simp add: p_def)
  note R = pcp_remove [OF ok p] and D = pcp_okD [OF ok]
  show pp: "p \<in> pcp_pages z" using p by (auto simp: pcp_pages_list)
  have nf: "p \<notin> free_set z" using pp buddy_invD(6) [OF D(1)] by blast
  have pz: "p \<in> zone_pages valid z" using pp D(6) by blast
  have b: "block p (2 ^ 0) = {p}" by auto
  have "freeing valid (list_del p z) p 0"
    using R pcp_okD(1,2) [OF R(1)] nf pz
    by (auto simp: freeing_def usable_def b buddy_consts simp del: block_def)
  moreover have "nat (pg_private (mem_map (list_del p z) p)) < MIGRATE_TYPES"
    using D(7) [OF pp] R(5) by simp
  ultimately show "leaves valid (list_del p z) (free_set z \<union> {p})
    (do_free_one_page valid p 0 (nat (pg_private (mem_map (list_del p z) p))) (list_del p z))"
    using do_free_one_page_ok [of valid "list_del p z" p 0] unfolding b R(3) by blast
qed

lemma drain_one:
  assumes ok: "pcp_ok valid z" and ne: "pcp_list t z \<noteq> []"
  defines "p \<equiv> last (pcp_list t z)"
  defines "z' \<equiv> do_free_one_page valid p 0 (nat (pg_private (mem_map (list_del p z) p))) (list_del p z)"
  shows "pcp_ok valid z'" "stock z' = stock z" "Suc (pcp_total z') = pcp_total z"
    "zone_pages valid z' = zone_pages valid z" "pcp_params z' = pcp_params z"
proof -
  note p = drain_leaves(1) [OF ok ne, folded p_def] and pp = drain_leaves(2) [OF ok ne, folded p_def]
  have L: "leaves valid (list_del p z) (free_set z \<union> {p}) z'"
    using drain_leaves(3) [OF ok ne] by (simp only: p_def z'_def)
  note R = pcp_remove [OF ok p] and D = pcp_okD [OF ok]
  have d: "pcp_pages (list_del p z) \<inter> (free_set z \<union> {p}) = {}"
    unfolding R(2) using buddy_invD(6) [OF D(1)] by blast
  note P = pcp_ok_leaves [OF R(1) L d]
  show "pcp_ok valid z'" by (rule P(1))
  show "stock z' = stock z"
    unfolding stock_def P(2) R(2) leavesD(3) [OF L] using pp by blast
  show "Suc (pcp_total z') = pcp_total z" using P(3) R(4) by simp
  show "zone_pages valid z' = zone_pages valid z"
    using frame_zone_pages [OF leavesD(4) [OF L]] R(6) by simp
  show "pcp_params z' = pcp_params z"
    using frame_fields(2) [OF leavesD(4) [OF L]] list_del_pcp [OF ok p]
    by (simp add: pcp_params_def)
qed


section \<open>Emptying the lists in batches\<close>

lemma pcp_total_empty: "pcp_total z = 0 \<longleftrightarrow> (\<forall>t < MIGRATE_PCPTYPES. pcp_list t z = [])"
  by (auto simp: pcp_total_def)

lemma drain_list_ok:
  assumes "pcp_ok valid z" "pcp_list t z \<noteq> []" "drain_list valid n b t z = (n', b', z')"
  shows "pcp_ok valid z' \<and> stock z' = stock z \<and> zone_pages valid z' = zone_pages valid z
    \<and> pcp_params z' = pcp_params z \<and> pcp_total z' + Suc n = pcp_total z + n' \<and> n' \<le> n"
  using assms
proof (induction n arbitrary: b z)
  case 0
  then show ?case using drain_one [OF 0(1,2)] by (auto simp: Let_def drain_list.simps)
next
  case (Suc n)
  let ?p = "last (pcp_list t z)"
  let ?z = "do_free_one_page valid ?p 0 (nat (pg_private (mem_map (list_del ?p z) ?p))) (list_del ?p z)"
  note O = drain_one [OF Suc.prems(1,2)]
  show ?case
  proof (cases "b = 0 \<or> pcp_list t ?z = []")
    case True
    then show ?thesis using Suc.prems(3) O by (auto simp: Let_def drain_list.simps split: nat.splits)
  next
    case False
    then obtain c where c: "b = Suc c" by (cases b) auto
    then have "drain_list valid n c t ?z = (n', b', z')"
      using Suc.prems(3) False by (auto simp: Let_def drain_list.simps [of valid "Suc n"])
    from Suc.IH [OF O(1) _ this] False O show ?thesis by auto
  qed
qed

lemma next_pcp_list_ok:
  assumes "next_pcp_list k mt b z = Some (t, b')"
  shows "pcp_list t z \<noteq> []"
  using assms by (induction k arbitrary: mt b) (auto simp: Let_def split: if_splits)

lemma next_pcp_list_total:
  assumes "0 < pcp_total z" "mt < MIGRATE_PCPTYPES"
  shows "next_pcp_list 3 mt b z \<noteq> None"
proof -
  obtain t where t: "t < MIGRATE_PCPTYPES" "pcp_list t z \<noteq> []"
    using assms(1) pcp_total_empty by (metis less_numeral_extra(3))
  have "mt = 0 \<or> mt = 1 \<or> mt = 2" using assms(2) by (auto simp: MIGRATE_PCPTYPES_def)
  moreover have "t = 0 \<or> t = 1 \<or> t = 2" using t(1) by (auto simp: MIGRATE_PCPTYPES_def)
  ultimately show ?thesis using t(2)
    by (elim disjE) (simp_all add: numeral_3_eq_3 numeral_2_eq_2 MIGRATE_PCPTYPES_def Let_def)
qed

lemma pcppages_loop_ok:
  assumes "pcp_ok valid z" "n \<le> k" "mt < MIGRATE_PCPTYPES"
  shows "if n \<le> pcp_total z
    then \<exists>z'. pcppages_loop k valid n mt b z = Some z' \<and> pcp_ok valid z' \<and> stock z' = stock z \<and>
           zone_pages valid z' = zone_pages valid z \<and> pcp_params z' = pcp_params z \<and>
           pcp_total z' + n = pcp_total z
    else pcppages_loop k valid n mt b z = None"
  using assms
proof (induction k arbitrary: n mt b z)
  case 0
  then show ?case by (auto simp: pcppages_loop.simps)
next
  case (Suc k)
  show ?case
  proof (cases n)
    case 0
    then show ?thesis using Suc.prems(1) by (simp add: pcppages_loop.simps)
  next
    case n: (Suc m)
    show ?thesis
    proof (cases "next_pcp_list 3 mt b z")
      case None
      then have "pcp_total z = 0" using next_pcp_list_total [OF _ Suc.prems(3), of z b] by fastforce
      then show ?thesis using n None by (simp add: pcppages_loop.simps)
    next
      case (Some tb)
      obtain t c where tb: "next_pcp_list 3 mt b z = Some (t, c)" using Some by (cases tb) auto
      have ne: "pcp_list t z \<noteq> []" by (rule next_pcp_list_ok [OF tb])
      then have t: "t < MIGRATE_PCPTYPES" using pcp_okD(5) [OF Suc.prems(1), of t] by fastforce
      obtain n' b' z1 where d: "drain_list valid m (c - 1) t z = (n', b', z1)"
        by (metis prod_cases3)
      note R = drain_list_ok [OF Suc.prems(1) ne d]
      have "n' \<le> k" using R Suc.prems(2) n by simp
      note IH = Suc.IH [OF conjunct1 [OF R] this t, of b']
      have run: "pcppages_loop (Suc k) valid n mt b z = pcppages_loop k valid n' t b' z1"
        using n tb d by (simp add: pcppages_loop.simps [of "Suc k"])
      show ?thesis unfolding run using IH R n by (auto split: if_splits)
    qed
  qed
qed


lemma pcp_ok_marks [simp]:
  "pcp_ok valid (z\<lparr>all_unreclaimable := a, pages_scanned := s\<rparr>) = pcp_ok valid z"
  "pcp_ok valid (z\<lparr>vm_stat := v, global_stat := g\<rparr>) = pcp_ok valid z"
  "pcp_total (z\<lparr>all_unreclaimable := a, pages_scanned := s\<rparr>) = pcp_total z"
  "pcp_total (z\<lparr>vm_stat := v, global_stat := g\<rparr>) = pcp_total z"
  by (simp_all add: pcp_ok_def pcp_list_def pcp_total_def)

lemma free_pcppages_bulk_ok:
  assumes ok: "pcp_ok valid z" and c: "0 \<le> count"
  shows "if count \<le> int (pcp_total z)
    then \<exists>z'. free_pcppages_bulk valid count z = Some z' \<and> pcp_ok valid z' \<and> stock z' = stock z \<and>
           zone_pages valid z' = zone_pages valid z \<and> pcp_params z' = pcp_params z \<and>
           int (pcp_total z') = int (pcp_total z) - count
    else free_pcppages_bulk valid count z = None"
proof -
  let ?z = "z\<lparr>all_unreclaimable := 0, pages_scanned := 0\<rparr>"
  have "pcp_ok valid ?z" using ok by simp
  from pcppages_loop_ok [OF this order_refl, of 0 "nat count" 0]
  have L: "if nat count \<le> pcp_total z
    then \<exists>z'. pcppages_loop (nat count) valid (nat count) 0 0 ?z = Some z' \<and> pcp_ok valid z' \<and>
           stock z' = stock z \<and> zone_pages valid z' = zone_pages valid z \<and>
           pcp_params z' = pcp_params z \<and> pcp_total z' + nat count = pcp_total z
    else pcppages_loop (nat count) valid (nat count) 0 0 ?z = None"
    by (simp add: MIGRATE_PCPTYPES_def stock_def pcp_params_def cong: if_cong)
  have le: "nat count \<le> pcp_total z \<longleftrightarrow> count \<le> int (pcp_total z)" using c by linarith
  show ?thesis
  proof (cases "count \<le> int (pcp_total z)")
    case True
    then obtain z' where "pcppages_loop (nat count) valid (nat count) 0 0 ?z = Some z'" "pcp_ok valid z'"
      "stock z' = stock z" "zone_pages valid z' = zone_pages valid z" "pcp_params z' = pcp_params z"
      "pcp_total z' + nat count = pcp_total z"
      using L le by auto
    then show ?thesis using True c
      by (auto simp: free_pcppages_bulk_def mod_zone_page_state_def zone_page_state_add_def stock_def
          pcp_params_def)
  next
    case False
    then show ?thesis using L le c by (simp add: free_pcppages_bulk_def)
  qed
qed


section \<open>A page goes back\<close>

text \<open>A page that nothing uses any more; only the \<open>mlocked\<close> mark may be left.\<close>

definition clean_page :: "page \<Rightarrow> bool" where
  "clean_page p \<longleftrightarrow> pg_mapcount p = - 1 \<and> pg_mapping p = 0 \<and> pg_count p = 0 \<and>
     pg_flags (CLEARPAGEFLAG PG_mlocked p) AND PAGE_FLAGS_CHECK_AT_FREE = 0"

text \<open>Changing the marks of one page that is neither free nor parked.\<close>

lemma blocks_upd [simp]: "blocks (upd_page p f z) = blocks z"
  by (simp add: blocks_def listed_def upd_page_def)

lemma upd_fields [simp]:
  "free_set (upd_page p f z) = free_set z" "pcp_pages (upd_page p f z) = pcp_pages z"
  "merged (upd_page p f z) = merged z" "lists_ok (upd_page p f z) = lists_ok z"
  "pcp_list t (upd_page p f z) = pcp_list t z" "list_count (upd_page p f z) = list_count z"
  "zone_no (upd_page p f z) = zone_no z" "zone_start_pfn (upd_page p f z) = zone_start_pfn z"
  "spanned_pages (upd_page p f z) = spanned_pages z" "nr_free (upd_page p f z) = nr_free z"
  "pageblock_flags (upd_page p f z) = pageblock_flags z" "pageset (upd_page p f z) = pageset z"
  "page_group_by_mobility_disabled (upd_page p f z) = page_group_by_mobility_disabled z"
  "mem_map (upd_page p f z) = (mem_map z)(p := f (mem_map z p))"
  "stock (upd_page p f z) = stock z" "pcp_total (upd_page p f z) = pcp_total z"
  by (simp_all add: free_set_def merged_def pcp_pages_def pcp_list_def lists_ok_def list_count_def
      fun_eq_iff stock_def pcp_total_def) (simp_all add: upd_page_def)

lemma zone_pages_upd:
  "page_zone_id (f (mem_map z p)) = page_zone_id (mem_map z p) \<Longrightarrow>
   zone_pages valid (upd_page p f z) = zone_pages valid z"
  by (auto simp: zone_pages_def)

lemma buddy_inv_upd:
  assumes inv: "buddy_inv valid z" and p: "p \<notin> free_set z"
    and f: "page_zone_id (f (mem_map z p)) = page_zone_id (mem_map z p)" "\<not> PageBuddy (f (mem_map z p))"
  shows "buddy_inv valid (upd_page p f z)"
proof -
  note D = buddy_invD [OF inv]
  have "q \<noteq> p" if "(q, i) \<in> blocks z" for q i using p head_in_free_set [OF that] by blast
  then have ok: "block_ok valid (upd_page p f z) q i" if "(q, i) \<in> blocks z" for q i
    using D(2) [OF that] that by (simp add: block_ok_def zone_pages_upd [of f, OF f(1)])
  show ?thesis
    unfolding buddy_inv_def zone_pages_upd [of f, OF f(1)] upd_fields blocks_upd
    using D ok f(2) by (auto split: if_splits)
qed

lemma pcp_ok_upd:
  assumes ok: "pcp_ok valid z" and p: "p \<notin> stock z"
    and f: "page_zone_id (f (mem_map z p)) = page_zone_id (mem_map z p)" "\<not> PageBuddy (f (mem_map z p))"
  shows "pcp_ok valid (upd_page p f z)"
proof -
  have "p \<notin> free_set z" "p \<notin> pcp_pages z" using p by (auto simp: stock_def)
  then show ?thesis
    using buddy_inv_upd [of valid z p f, OF pcp_okD(1) [OF ok] _ f] pcp_okD(2-7) [OF ok]
    unfolding pcp_ok_def zone_pages_upd [of f, OF f(1)] upd_fields by (auto split: if_splits)
qed

lemma low_flags_zone:
  assumes "\<And>i. 20 \<le> i \<Longrightarrow> i < 64 \<Longrightarrow> i \<noteq> PG_mlocked \<Longrightarrow> i \<noteq> 21 \<Longrightarrow> bit (pg_flags q) i = bit (pg_flags p) i"
  shows "page_zone_id q = page_zone_id p"
proof -
  have "drop_bit 30 (pg_flags q) = drop_bit 30 (pg_flags p)"
  proof (rule bit_word_eqI)
    fix n assume "n < LENGTH(64)"
    show "bit (drop_bit 30 (pg_flags q)) n = bit (drop_bit 30 (pg_flags p)) n"
      using assms [of "30 + n"] bit_imp_le_length [of "pg_flags q" "30 + n"]
        bit_imp_le_length [of "pg_flags p" "30 + n"]
      by (auto simp: bit_drop_bit_eq PG_mlocked_def)
  qed
  then show ?thesis by (simp add: page_zone_id_def ZONES_PGSHIFT_def)
qed

lemma check_at_prep_mask: "PAGE_FLAGS_CHECK_AT_PREP = mask 22"
  by (simp add: PAGE_FLAGS_CHECK_AT_PREP_def NR_PAGEFLAGS_def mask_eq_exp_minus_1 push_bit_eq_mult)

lemma bit_clear_flag: "i < 64 \<Longrightarrow> bit (w AND NOT (flag k)) i \<longleftrightarrow> bit w i \<and> i \<noteq> k"
  by (auto simp: bit_and_iff bit_not_iff flag_def bit_push_bit_iff bit_1_iff bit_exp_iff)

lemma clear_mlocked_zone: "page_zone_id (CLEARPAGEFLAG PG_mlocked p) = page_zone_id p"
  by (rule low_flags_zone) (simp add: CLEARPAGEFLAG_def bit_clear_flag)

text \<open>What the checks do to a clean page: they clear its low flags.\<close>

definition stripped :: "page \<Rightarrow> page" where
  "stripped p = p\<lparr>pg_flags := pg_flags p AND NOT (mask 22)\<rparr>"

lemma stripped_zone: "page_zone_id (stripped p) = page_zone_id p"
  by (rule low_flags_zone) (simp add: stripped_def bit_and_iff bit_not_iff bit_mask_iff PG_mlocked_def)

lemma free_pages_check_clean:
  assumes "pg_mapcount p = - 1" "pg_mapping p = 0" "pg_count p = 0"
    "pg_flags p AND PAGE_FLAGS_CHECK_AT_FREE = 0"
  shows "free_pages_check p = (0, stripped p)"
proof -
  have "p\<lparr>pg_flags := pg_flags p AND NOT (mask 22)\<rparr> = p" if "pg_flags p AND mask 22 = 0"
  proof -
    have "\<not> (bit (pg_flags p) i \<and> i < 22)" for i
      using arg_cong [OF that, of "\<lambda>w. bit w i"] by (auto simp: bit_and_iff bit_mask_iff)
    then have "pg_flags p AND NOT (mask 22) = pg_flags p"
      by (intro bit_word_eqI) (auto simp: bit_and_iff bit_not_iff bit_mask_iff)
    then show ?thesis by (cases p) simp
  qed
  then show ?thesis
    using assms by (simp add: free_pages_check_def page_mapcount_def stripped_def check_at_prep_mask)
qed

end
