(* ===== verification/BuddyKinds.thy ===== *)
theory BuddyKinds
  imports BuddyProps
begin

text \<open>
  The page-block map holds migrate types that exist. The only step of the allocator that writes the map
  is the fallback, which writes the type of the request.
\<close>

section \<open>Legal types\<close>

definition kinds_ok :: "zstate \<Rightarrow> bool" where
  "kinds_ok z \<longleftrightarrow> (\<forall>b. 3 * b + 2 \<in> bits (pageblock_flags z) \<longrightarrow>
     3 * b \<notin> bits (pageblock_flags z) \<and> 3 * b + 1 \<notin> bits (pageblock_flags z))"

lemma kinds_same: "pageblock_flags z' = pageblock_flags z \<Longrightarrow> kinds_ok z' = kinds_ok z"
  by (simp add: kinds_ok_def)

lemma kinds_type:
  assumes "flags_ok z" "in_span z p" "kinds_ok z"
  shows "\<exists>t. get_pageblock_migratetype p z = Some t \<and> t < MIGRATE_TYPES"
  using assms(3) get_type_eq [OF assms(1,2)] by (auto simp: kinds_ok_def buddy_consts of_bool_def)

lemma set_kinds:
  assumes "flags_ok z" "in_span z p" "t < MIGRATE_TYPES" "kinds_ok z"
    and "set_pageblock_migratetype p t z = Some z'"
  shows "kinds_ok z'"
proof -
  define u where "u = (if page_group_by_mobility_disabled z then 0 else t)"
  have "set_pageblock_migratetype p t z = set_pageblock_migratetype p u z"
    by (simp add: set_pageblock_migratetype_def MIGRATE_UNMOVABLE_def u_def)
  moreover obtain b where b: "set_pageblock_migratetype p u z = Some (z\<lparr>pageblock_flags := b\<rparr>)"
    "bits b = bits (pageblock_flags z) - {3 * block_no z p, 3 * block_no z p + 1, 3 * block_no z p + 2}
       \<union> (if int u AND 1 \<noteq> 0 then {3 * block_no z p} else {})
       \<union> (if int u AND 2 \<noteq> 0 then {3 * block_no z p + 1} else {})
       \<union> (if int u AND 4 \<noteq> 0 then {3 * block_no z p + 2} else {})"
    using set_type_ok [OF assms(1,2), of u] by (auto simp: u_def)
  ultimately have z': "pageblock_flags z' = b" using assms(5) by auto
  have "u \<in> {0, 1, 2, 3, 4}" using assms(3) by (auto simp: u_def buddy_consts)
  then have four: "int u AND 4 \<noteq> 0 \<Longrightarrow> u = 4" by auto
  show ?thesis
    unfolding kinds_ok_def z'
  proof (intro allI impI)
    fix c
    assume c: "3 * c + 2 \<in> bits b"
    show "3 * c \<notin> bits b \<and> 3 * c + 1 \<notin> bits b"
    proof (cases "c = block_no z p")
      case True
      then have "u = 4" using c four unfolding b(2) by (auto split: if_splits)
      then show ?thesis using True unfolding b(2) by auto
    next
      case False
      then have "3 * c + 2 \<in> bits (pageblock_flags z)" using c unfolding b(2) by (auto split: if_splits)
      then have "3 * c \<notin> bits (pageblock_flags z)" "3 * c + 1 \<notin> bits (pageblock_flags z)"
        using assms(4) by (auto simp: kinds_ok_def)
      moreover have "\<And>k. k = 0 \<or> k = 1 \<Longrightarrow> 3 * c + k \<in> bits b \<longleftrightarrow> 3 * c + k \<in> bits (pageblock_flags z)"
        using False unfolding b(2) by (auto simp: algebra_simps split: if_splits)
      ultimately show ?thesis by (metis add.right_neutral)
    qed
  qed
qed


section \<open>The map stays as it is\<close>

lemma list_flags [simp]:
  "pageblock_flags (list_del p z) = pageblock_flags z" "pageblock_flags (list_add p i t z) = pageblock_flags z"
  "pageblock_flags (list_add_tail p i t z) = pageblock_flags z" "pageblock_flags (upd_page p f z) = pageblock_flags z"
  "pageblock_flags (take_out p i z) = pageblock_flags z"
  by (simp_all add: buddy_ops)

lemma move_loop_map: "pageblock_flags (snd (move_loop k valid p e t n z)) = pageblock_flags z"
  by (induction k valid p e t n z rule: move_loop.induct) (simp_all add: Let_def)

lemma move_block_map: "pageblock_flags (snd (move_freepages_block valid p t z)) = pageblock_flags z"
  by (simp add: move_freepages_block_def move_freepages_def Let_def move_loop_map)

lemma expand_map: "pageblock_flags (expand_from p low high t z) = pageblock_flags z"
  by (induction high arbitrary: z) (simp_all add: Let_def)

lemma smallest_map: "smallest_loop k cur order t z = Some (p, z') \<Longrightarrow> pageblock_flags z' = pageblock_flags z"
  by (induction k arbitrary: cur) (auto simp: Let_def expand_def expand_map split: list.splits)

lemma merge_map: "pageblock_flags (fst (merge_loop valid p idx i b bi z)) = pageblock_flags z"
  by (induction valid p idx i b bi z rule: merge_loop.induct) (subst merge_loop.simps, simp add: Let_def)

lemma free_one_map: "pageblock_flags (do_free_one_page valid p i t z) = pageblock_flags z"
proof -
  obtain z1 p1 idx1 i1 b1 bi1 where r: "merge_loop valid p (p AND (push_bit MAX_ORDER 1 - 1)) i p (p AND (push_bit MAX_ORDER 1 - 1)) z
      = (z1, p1, idx1, i1, b1, bi1)" by (metis prod_cases6)
  then have "pageblock_flags z1 = pageblock_flags z" using merge_map by (metis fst_conv)
  then show ?thesis unfolding do_free_one_page_def by (simp only: Let_def r prod.case) (simp add: nr_free_add_def)
qed

lemma free_one_page_map: "pageblock_flags (free_one_page valid p i t z) = pageblock_flags z"
  by (simp add: free_one_page_def Let_def free_one_map mod_zone_page_state_def zone_page_state_add_def)


section \<open>Allocation keeps the types legal\<close>

lemma steal_kinds:
  assumes inv: "buddy_inv valid z" "merged z" and b: "(page, cur) \<in> blocks z"
    and st: "st < MIGRATE_TYPES" and t: "t < MIGRATE_TYPES" and fl: "flags_ok z" and k: "kinds_ok z"
    and r: "steal_block valid order st cur t page z = Some (p, z')"
  shows "kinds_ok z'"
proof -
  have pz: "page \<in> zone_pages valid z" using free_set_zone [OF inv(1)] head_in_free_set [OF b] by blast
  have sp: "in_span z page" using buddy_invD(8) [OF inv(1)] pz by (simp add: in_span_def)
  obtain n z0 where m: "move_freepages_block valid page st z = (n, z0)" by fastforce
  have fr0: "frame z z0" using move_freepages_block_ok [OF inv st pz] m by (simp add: relists_def)
  have k0: "kinds_ok z0" using k move_block_map [of valid page st z] m kinds_same [of z0 z] by simp
  have sp0: "in_span z0 page" using sp by (simp add: in_span_def frame_fields [OF fr0])
  note fl0 = flags_frame [OF fr0 fl]
  obtain t' z1 where c: "claim_block valid st cur t page z = Some (t', z1)" and fl1: "flags_ok z1"
    using claim_block_total [OF inv st pz fl] by blast
  have R: "relists valid z z1" using claim_block_relists [OF inv st pz t c] by simp
  have k1: "kinds_ok z1"
    using c k k0 set_kinds [OF fl0 sp0 st k0] by (auto simp: claim_block_def m split: if_splits)
  have sp1: "in_span (take_out page cur z1) page"
    using sp R frame_fields(3,4) [of z z1] by (simp add: take_out_flags_ok in_span_def relists_def)
  have fl2: "flags_ok (take_out page cur z1)" using fl1 by (simp add: take_out_flags_ok)
  have k2: "kinds_ok (take_out page cur z1)" using k1 kinds_same [of "take_out page cur z1" z1] by simp
  have "cur < MAX_ORDER" using blocks_order [OF buddy_invD(1) [OF inv(1)] b] .
  then have cur: "pageblock_order \<le> cur \<Longrightarrow> cur = pageblock_order" by (simp add: buddy_consts)
  obtain z2 where z2: "(if pageblock_order \<le> cur then change_pageblock_range page cur st (take_out page cur z1)
      else Some (take_out page cur z1)) = Some z2" "z' = expand page order cur t' z2"
    using r unfolding steal_block_claim c by (auto simp: Let_def bind_eq_Some_conv)
  have "kinds_ok z2"
  proof (cases "pageblock_order \<le> cur")
    case True
    then have "set_pageblock_migratetype page st (take_out page cur z1) = Some z2"
      using z2(1) cur by (simp add: change_pageblock_range_def bind_eq_Some_conv)
    then show ?thesis by (rule set_kinds [OF fl2 sp1 st k2])
  next
    case False
    then show ?thesis using z2(1) k2 by simp
  qed
  then show ?thesis using kinds_same [of z' z2] by (simp add: z2(2) expand_def expand_map)
qed

lemma fallback_types_kinds:
  assumes "buddy_inv valid z" "merged z" "st < MIGRATE_TYPES" "flags_ok z" "kinds_ok z"
    "\<forall>t \<in> set ts. t < MIGRATE_TYPES" "fallback_types valid order st cur ts z = Some (Some (p, z'))"
  shows "kinds_ok z'"
  using assms(6,7)
proof (induction ts)
  case (Cons t ts)
  show ?case
  proof (cases "t = MIGRATE_RESERVE \<or> free_list z cur t = []")
    case True
    then show ?thesis using Cons by (auto split: if_splits)
  next
    case False
    then obtain page ps where l: "free_list z cur t = page # ps" by (cases "free_list z cur t") auto
    have "(page, cur) \<in> blocks z" using l by (auto simp: blocks_listed intro: exI [of _ t])
    moreover have "steal_block valid order st cur t page z = Some (p, z')" using Cons.prems False l by simp
    moreover have "t < MIGRATE_TYPES" using Cons.prems(1) by simp
    ultimately show ?thesis using steal_kinds [OF assms(1,2) _ assms(3) _ assms(4,5)] by blast
  qed
qed simp

lemma fallback_orders_kinds:
  assumes "buddy_inv valid z" "merged z" "st < MIGRATE_TYPES" "flags_ok z" "kinds_ok z"
    "fallback_orders k valid order st z = Some (Some (p, z'))"
  shows "kinds_ok z'"
  using assms(6)
proof (induction k)
  case (Suc k)
  show ?case
    using Suc fallback_types_kinds [OF assms(1-5)] fallbacks_types
    by (auto split: bind_splits option.splits) (metis option.exhaust)
qed simp

lemma rmqueue_kinds:
  assumes "buddy_inv valid z" "merged z" "t < MIGRATE_TYPES" "flags_ok z" "kinds_ok z"
    "rmqueue valid order t z = Some (Some (p, z'))"
  shows "kinds_ok z'"
proof -
  have small: "kinds_ok z'" if "rmqueue_smallest order u z = Some (p, z')" for u
    using that assms(5) smallest_map kinds_same by (metis rmqueue_smallest_def)
  show ?thesis
    using assms(6) small fallback_orders_kinds [OF assms(1-5)]
    by (auto simp: rmqueue_def rmqueue_fallback_def split: option.splits bind_splits if_splits)
qed

end
