(* ===== verification/PageProps.thy ===== *)
theory PageProps
  imports PcpProps BuddyKinds
begin

text \<open>
  Freeing and allocating single pages through the per-CPU lists, and the properties of the page
  allocator above the buddy lists.
\<close>

section \<open>Freeing a page\<close>

lemma upd_page_upd [simp]: "upd_page p f (upd_page p g z) = upd_page p (f \<circ> g) z"
  by (cases z) (simp add: upd_page_def)

lemma get_type_fields:
  "pageblock_flags z' = pageblock_flags z \<Longrightarrow> zone_start_pfn z' = zone_start_pfn z \<Longrightarrow>
   get_pageblock_migratetype p z' = get_pageblock_migratetype p z"
  by (simp add: get_pageblock_migratetype_def get_pageblock_flags_group_def pfn_to_bitidx_def)

lemma dec_stat_fields [simp]:
  "pcp_ok valid (dec_zone_page_state i z) = pcp_ok valid z" "stock (dec_zone_page_state i z) = stock z"
  "pcp_total (dec_zone_page_state i z) = pcp_total z" "pcp_list t (dec_zone_page_state i z) = pcp_list t z"
  "pcp_params (dec_zone_page_state i z) = pcp_params z" "mem_map (dec_zone_page_state i z) = mem_map z"
  "zone_pages valid (dec_zone_page_state i z) = zone_pages valid z"
  "pageblock_flags (dec_zone_page_state i z) = pageblock_flags z"
  "zone_start_pfn (dec_zone_page_state i z) = zone_start_pfn z"
  by (simp_all add: dec_zone_page_state_def zone_page_state_add_def stock_def pcp_list_def pcp_params_def)

text \<open>A page is put on a per-CPU list.\<close>

lemma pcp_add:
  assumes ok: "pcp_ok valid z" and p: "p \<in> zone_pages valid z" "p \<notin> stock z"
    and t: "t < MIGRATE_PCPTYPES" and pr: "nat (pg_private (mem_map z p)) < MIGRATE_TYPES"
    and ps: "set ps = insert p (set (pcp_list t z))" "distinct ps"
  shows "pcp_ok valid (set_pcp_list t ps z)" "stock (set_pcp_list t ps z) = insert p (stock z)"
    "pcp_total (set_pcp_list t ps z) = Suc (pcp_total z)"
proof -
  note D = pcp_okD [OF ok]
  have n: "p \<notin> free_set z" "p \<notin> pcp_pages z" using p(2) by (auto simp: stock_def)
  then have nl: "p \<notin> set (pcp_list u z)" for u by (auto simp: pcp_pages_list)
  have pp: "pcp_pages (set_pcp_list t ps z) = insert p (pcp_pages z)"
    using ps(1) unfolding pcp_pages_list by (auto split: if_splits)
  have "set (pcp_list t z) \<subseteq> pcp_pages z" by (auto simp: pcp_pages_list)
  then have "set ps \<inter> free_set z = {}" using n(1) ps(1) buddy_invD(6) [OF D(1)] by auto
  then have "buddy_inv valid (set_pcp_list t ps z)" by (rule buddy_inv_set_pcp [OF D(1)])
  moreover have "distinct (pcp_list u (set_pcp_list t ps z))" for u using D(3) ps(2) by simp
  moreover have mem: "q \<in> set (pcp_list u (set_pcp_list t ps z))
      \<longleftrightarrow> q \<in> set (pcp_list u z) \<or> u = t \<and> q = p" for q u
    using ps(1) by auto
  moreover have "u = v" if "q \<in> set (pcp_list u (set_pcp_list t ps z))"
    "q \<in> set (pcp_list v (set_pcp_list t ps z))" for q u v
    using that D(4) nl unfolding mem by blast
  moreover have "MIGRATE_PCPTYPES \<le> u \<Longrightarrow> pcp_list u (set_pcp_list t ps z) = []" for u
    using D(5) t by simp
  ultimately show "pcp_ok valid (set_pcp_list t ps z)"
    unfolding pcp_ok_def pp using D(2,6,7) p(1) pr
    by (simp only: set_pcp_list_fields) blast
  show "stock (set_pcp_list t ps z) = insert p (stock z)" by (simp add: stock_def pp)
  have "length ps = Suc (length (pcp_list t z))"
    using ps nl [of t] D(3) [of t] distinct_card [of ps] distinct_card [of "pcp_list t z"] by simp
  then show "pcp_total (set_pcp_list t ps z) = Suc (pcp_total z)"
    using pcp_total_set [OF t, of ps z] by simp
qed

lemma pcp_params_set [simp]: "pcp_params (set_pcp_list t ps z) = pcp_params z"
  by (simp add: pcp_params_def)

lemma pcp_params_upd [simp]: "pcp_params (upd_page p f z) = pcp_params z"
  by (simp add: pcp_params_def)

text \<open>What \<open>free_pages_prepare\<close> does to one clean page.\<close>

lemma prepare_clean:
  assumes "clean_page (mem_map z p)"
  shows "free_pages_prepare p 0 (upd_page p (CLEARPAGEFLAG PG_mlocked) z)
    = (True, upd_page p (stripped \<circ> CLEARPAGEFLAG PG_mlocked) z)"
proof -
  have c: "free_pages_check (CLEARPAGEFLAG PG_mlocked (mem_map z p))
      = (0, stripped (CLEARPAGEFLAG PG_mlocked (mem_map z p)))"
    using assms by (intro free_pages_check_clean) (auto simp: clean_page_def CLEARPAGEFLAG_def)
  have "\<not> PageAnon (CLEARPAGEFLAG PG_mlocked (mem_map z p))"
    using assms by (simp add: PageAnon_def clean_page_def CLEARPAGEFLAG_def)
  then show ?thesis
    using c by (simp add: free_pages_prepare_def) (simp add: upd_page_def)
qed

text \<open>The state in which the page is handed on: unmarked, with its migrate type in \<open>private\<close>.\<close>

definition handed :: "int \<Rightarrow> nat \<Rightarrow> zstate \<Rightarrow> zstate" where
  "handed p t z = (let z' = upd_page p (set_page_private (int t) \<circ> (stripped \<circ> CLEARPAGEFLAG PG_mlocked)) z
     in if TESTPAGEFLAG PG_mlocked (mem_map z p) then free_page_mlock z' else z')"

lemma handed_ok:
  assumes ok: "pcp_ok valid z" and p: "p \<notin> stock z" and c: "clean_page (mem_map z p)"
  shows "pcp_ok valid (handed p t z)" "stock (handed p t z) = stock z"
    "pcp_total (handed p t z) = pcp_total z" "pcp_params (handed p t z) = pcp_params z"
    "zone_pages valid (handed p t z) = zone_pages valid z"
    "pg_private (mem_map (handed p t z) p) = int t"
proof -
  let ?f = "set_page_private (int t) \<circ> (stripped \<circ> CLEARPAGEFLAG PG_mlocked)"
  have f: "page_zone_id (?f (mem_map z p)) = page_zone_id (mem_map z p)"
    using stripped_zone clear_mlocked_zone by (simp add: set_page_private_def page_zone_id_def)
  have b: "\<not> PageBuddy (?f (mem_map z p))"
    using c by (simp add: PageBuddy_def set_page_private_def stripped_def CLEARPAGEFLAG_def clean_page_def)
  have "pcp_ok valid (upd_page p ?f z)" by (rule pcp_ok_upd [of valid z p ?f, OF ok p f b])
  then show "pcp_ok valid (handed p t z)" by (simp add: handed_def free_page_mlock_def Let_def)
  show "zone_pages valid (handed p t z) = zone_pages valid z"
    using zone_pages_upd [of ?f, OF f] by (simp add: handed_def free_page_mlock_def Let_def)
  show "stock (handed p t z) = stock z" "pcp_total (handed p t z) = pcp_total z"
    "pcp_params (handed p t z) = pcp_params z" "pg_private (mem_map (handed p t z) p) = int t"
    by (simp_all add: handed_def free_page_mlock_def Let_def set_page_private_def)
qed

lemma free_hot_cold_eq:
  assumes c: "clean_page (mem_map z p)" and t: "get_pageblock_migratetype p z = Some t"
  shows "free_hot_cold_page valid p cold z =
    (if t = MIGRATE_ISOLATE then Some (free_one_page valid p 0 t (handed p t z))
     else let u = (if MIGRATE_PCPTYPES \<le> t then MIGRATE_MOVABLE else t);
              z1 = handed p t z;
              z2 = pcp_count_add 1
                (set_pcp_list u (if cold then pcp_list u z1 @ [p] else p # pcp_list u z1) z1)
          in if pcp_high (pageset z2) \<le> pcp_count (pageset z2)
             then map_option (\<lambda>z. pcp_count_add (- pcp_batch (pageset z)) z)
                    (free_pcppages_bulk valid (pcp_batch (pageset z2)) z2)
             else Some z2)"
proof -
  have "get_pageblock_migratetype p (upd_page p (stripped \<circ> CLEARPAGEFLAG PG_mlocked) z) = Some t"
    using t get_type_fields [of "upd_page p (stripped \<circ> CLEARPAGEFLAG PG_mlocked) z" z p] by simp
  then show ?thesis
    unfolding free_hot_cold_page_def TestClearPageMlocked_def Let_def prod.case prepare_clean [OF c]
    by (simp add: handed_def Let_def buddy_consts map_conv_bind_option o_def del: upd_fields
        cong: if_cong)
qed


text \<open>The parameters of the per-CPU lists: a batch is never more than what is there when it is due.\<close>

definition pcp_sane :: "zstate \<Rightarrow> bool" where
  "pcp_sane z \<longleftrightarrow> pcp_count (pageset z) = int (pcp_total z) \<and> 0 \<le> pcp_batch (pageset z) \<and>
     int (pcp_total z) + pcp_batch (pageset z) < 2147483646 \<and>
     (pcp_batch (pageset z) \<le> 1 \<or> pcp_batch (pageset z) \<le> pcp_high (pageset z))"

lemma free_hot_cold_ok:
  assumes ok: "pcp_ok valid z" and sane: "pcp_sane z"
    and p: "p \<in> zone_pages valid z" "p \<notin> stock z" and c: "clean_page (mem_map z p)"
    and t: "get_pageblock_migratetype p z = Some t" "t < MIGRATE_TYPES"
  shows "\<exists>z'. free_hot_cold_page valid p cold z = Some z' \<and> pcp_ok valid z' \<and>
    stock z' = insert p (stock z) \<and> pcp_count (pageset z') = int (pcp_total z')"
proof -
  let ?z = "handed p t z"
  note H = handed_ok [OF ok p(2) c, of t]
  have pz: "p \<in> zone_pages valid ?z" "p \<notin> stock ?z" using p H(2,5) by auto
  have pr: "nat (pg_private (mem_map ?z p)) < MIGRATE_TYPES" using H(6) t(2) by simp
  show ?thesis
  proof (cases "t = MIGRATE_ISOLATE")
    case True
    let ?f = "free_one_page valid p 0 t ?z"
    have b: "block p (2 ^ 0) = {p}" by auto
    have "freeing valid ?z p 0"
      using pcp_okD(1,2) [OF H(1)] pz by (auto simp: freeing_def usable_def b stock_def buddy_consts)
    note F = free_one_page_ok [OF this t(2), unfolded b]
    have pp: "pcp_pages ?f = pcp_pages ?z" and pl: "pcp_list u ?f = pcp_list u ?z" for u
      using F by (simp_all add: pcp_pages_def pcp_list_def)
    have m: "mem_map ?f q = mem_map ?z q" if "q \<in> pcp_pages ?z" for q
      using F that pz(2) buddy_invD(6) [OF pcp_okD(1) [OF H(1)]] by (auto simp: stock_def)
    have "pcp_ok valid ?f"
      unfolding pcp_ok_def pp pl using F pcp_okD(3-7) [OF H(1)] m by auto
    moreover have "stock ?f = insert p (stock z)"
      unfolding stock_def pp using F H(2) by (auto simp: stock_def)
    moreover have "pcp_count (pageset ?f) = int (pcp_total ?f)"
      using F H(3,4) sane pl by (simp add: pcp_sane_def pcp_params_def pcp_total_def)
    ultimately show ?thesis using free_hot_cold_eq [OF c t(1)] True by simp
  next
    case False
    define u where "u = (if MIGRATE_PCPTYPES \<le> t then MIGRATE_MOVABLE else t)"
    define ps where "ps = (if cold then pcp_list u ?z @ [p] else p # pcp_list u ?z)"
    define z2 where "z2 = pcp_count_add 1 (set_pcp_list u ps ?z)"
    have u: "u < MIGRATE_PCPTYPES" by (simp add: u_def buddy_consts)
    have "p \<notin> set (pcp_list u ?z)" using pz(2) by (auto simp: stock_def pcp_pages_list)
    then have ps: "set ps = insert p (set (pcp_list u ?z))" "distinct ps"
      using pcp_okD(3) [OF H(1), of u] by (auto simp: ps_def)
    note A = pcp_add [OF H(1) pz u pr ps]
    have ok2: "pcp_ok valid z2" and st2: "stock z2 = insert p (stock z)"
      and tot2: "pcp_total z2 = Suc (pcp_total z)"
      using A H(2,3) by (simp_all add: z2_def stock_def)
    have par: "pcp_count (pageset z2) = int (Suc (pcp_total z))" "pcp_high (pageset z2) = pcp_high (pageset z)"
      "pcp_batch (pageset z2) = pcp_batch (pageset z)"
      using H(4) sane by (simp_all add: z2_def pcp_params_def pcp_sane_def)
    have run: "free_hot_cold_page valid p cold z =
        (if pcp_high (pageset z2) \<le> pcp_count (pageset z2)
         then map_option (\<lambda>z. pcp_count_add (- pcp_batch (pageset z)) z)
                (free_pcppages_bulk valid (pcp_batch (pageset z2)) z2)
         else Some z2)"
      using free_hot_cold_eq [OF c t(1)] False by (simp add: Let_def u_def ps_def z2_def)
    show ?thesis
    proof (cases "pcp_high (pageset z2) \<le> pcp_count (pageset z2)")
      case hi: True
      have "pcp_batch (pageset z2) \<le> int (pcp_total z2)" "0 \<le> pcp_batch (pageset z2)"
        using hi par tot2 sane by (auto simp: pcp_sane_def)
      then obtain z3 where z3: "free_pcppages_bulk valid (pcp_batch (pageset z2)) z2 = Some z3"
        "pcp_ok valid z3" "stock z3 = stock z2" "pcp_params z3 = pcp_params z2"
        "int (pcp_total z3) = int (pcp_total z2) - pcp_batch (pageset z2)"
        using free_pcppages_bulk_ok [OF ok2, of "pcp_batch (pageset z2)"] by auto
      have "pcp_count (pageset z3) = int (Suc (pcp_total z))" "pcp_batch (pageset z3) = pcp_batch (pageset z2)"
        using z3(4) par(1) by (simp_all add: pcp_params_def)
      then show ?thesis using run hi z3 st2 tot2 sane par by (auto simp: stock_def pcp_sane_def)
    next
      case False
      then show ?thesis using run ok2 st2 par(1) tot2 by simp
    qed
  qed
qed


section \<open>Taking a page\<close>

text \<open>The fields of a zone that allocating leaves alone.\<close>

definition same_zone :: "zstate \<Rightarrow> zstate \<Rightarrow> bool" where
  "same_zone z z' \<longleftrightarrow> zone_no z' = zone_no z \<and> watermark z' = watermark z \<and>
     lowmem_reserve z' = lowmem_reserve z \<and> zone_start_pfn z' = zone_start_pfn z \<and>
     spanned_pages z' = spanned_pages z \<and> present_pages z' = present_pages z \<and>
     page_group_by_mobility_disabled z' = page_group_by_mobility_disabled z \<and>
     length (pageblock_flags z') = length (pageblock_flags z) \<and>
     pcp_high (pageset z') = pcp_high (pageset z) \<and> pcp_batch (pageset z') = pcp_batch (pageset z)"

lemma same_zone_refl [simp]: "same_zone z z"
  by (simp add: same_zone_def)

lemma same_zone_trans [trans]: "same_zone z z1 \<Longrightarrow> same_zone z1 z2 \<Longrightarrow> same_zone z z2"
  by (simp add: same_zone_def)

lemma same_zone_frame: "frame z z' \<Longrightarrow> same_zone z z'"
  by (cases z, cases z') (simp add: frame_def same_zone_def)

lemma same_zone_simps [simp]:
  "same_zone z (upd_page p f z') = same_zone z z'" "same_zone z (set_pcp_list t ps z') = same_zone z z'"
  "same_zone z (pcp_count_add d z') = same_zone z z'"
  "same_zone z (mod_zone_page_state i x z') = same_zone z z'" "same_zone z (list_del p z') = same_zone z z'"
  "same_zone (upd_page p f z) z' = same_zone z z'"
  by (simp_all add: same_zone_def upd_page_def set_pcp_list_def upd_pcp_def pcp_count_add_def
      mod_zone_page_state_def zone_page_state_add_def list_del_def)

lemma stock_stats: "z' = z\<lparr>vm_stat := v, global_stat := g\<rparr> \<Longrightarrow> stock z' = stock z"
  by (simp add: stock_def pcp_pages_def free_set_def blocks_def listed_def)

lemma flags_same_zone: "same_zone z z' \<Longrightarrow> flags_ok z' = flags_ok z"
  by (simp add: flags_ok_def same_zone_def)

lemma bulk_loop_ok:
  assumes "pcp_ok valid z" "t < MIGRATE_TYPES" "bulk_loop k valid 0 t z = Some (ps, z')"
  shows "pcp_ok valid z' \<and> distinct ps \<and> set ps \<subseteq> free_set z \<and> free_set z' = free_set z - set ps \<and>
    pageset z' = pageset z \<and> zone_pages valid z' = zone_pages valid z \<and> length ps \<le> k \<and>
    same_zone z z' \<and> (ps = [] \<longrightarrow> z' = z) \<and>
    (\<forall>p \<in> set ps. nat (pg_private (mem_map z' p)) = t) \<and>
    (\<forall>q. q \<notin> free_set z \<longrightarrow> mem_map z' q = mem_map z q)"
  using assms
proof (induction k arbitrary: z ps)
  case 0
  then show ?case by simp
next
  case (Suc k)
  obtain r where r: "rmqueue valid 0 t z = Some r" using Suc.prems(3) by (auto split: bind_splits)
  show ?case
  proof (cases r)
    case None
    then show ?thesis using r Suc.prems by simp
  next
    case (Some x)
    obtain p z1 where x: "x = (p, z1)" by fastforce
    have T: "takes valid z p 0 z1"
      using rmqueue_takes [OF pcp_okD(1,2) [OF Suc.prems(1)] Suc.prems(2)] r Some x by simp
    have b: "block p (2 ^ 0) = {p}" by auto
    have L: "leaves valid z (free_set z - {p}) z1" and pf: "p \<in> free_set z"
      using T unfolding takes_def b by auto
    have pp: "pcp_pages z \<inter> (free_set z - {p}) = {}"
      using buddy_invD(6) [OF pcp_okD(1) [OF Suc.prems(1)]] by blast
    note P = pcp_ok_leaves [OF Suc.prems(1) L pp] and LD = leavesD [OF L]
    have nst: "p \<notin> stock z1"
      using LD(3) P(2) pf buddy_invD(6) [OF pcp_okD(1) [OF Suc.prems(1)]] by (auto simp: stock_def)
    have pz: "p \<in> zone_pages valid z1"
      using free_set_zone [OF pcp_okD(1) [OF Suc.prems(1)]] pf frame_zone_pages [OF LD(4)] by blast
    have nb: "\<not> PageBuddy (mem_map z1 p)"
      using buddy_invD(3) [OF LD(1) pz] head_in_free_set LD(3) by blast
    let ?f = "set_page_private (int t)"
    have f: "page_zone_id (?f (mem_map z1 p)) = page_zone_id (mem_map z1 p)"
      "\<not> PageBuddy (?f (mem_map z1 p))"
      using nb by (simp_all add: set_page_private_def page_zone_id_def PageBuddy_def)
    have ok2: "pcp_ok valid (upd_page p ?f z1)" by (rule pcp_ok_upd [of valid z1 p ?f, OF P(1) nst f])
    obtain qs where qs: "bulk_loop k valid 0 t (upd_page p ?f z1) = Some (qs, z')" "ps = p # qs"
      using Suc.prems(3) r Some x by (auto simp: Let_def split: bind_splits)
    note IH = Suc.IH [OF ok2 Suc.prems(2) qs(1)]
    have fs: "free_set (upd_page p ?f z1) = free_set z - {p}" using LD(3) by simp
    have "mem_map z' p = mem_map (upd_page p ?f z1) p" using IH fs by blast
    then have prv: "nat (pg_private (mem_map z' p)) = t" by (simp add: set_page_private_def)
    have "mem_map z' q = mem_map z q" if "q \<notin> free_set z" for q
    proof -
      have "q \<noteq> p" using that pf by blast
      moreover have "mem_map z' q = mem_map (upd_page p ?f z1) q" using IH fs that by blast
      moreover have "mem_map z1 q = mem_map z q" using LD(5) [of q] that by blast
      ultimately show ?thesis by simp
    qed
    moreover have "zone_pages valid z' = zone_pages valid z" "pageset z' = pageset z"
      using IH frame_fields(2) [OF LD(4)] frame_zone_pages [OF LD(4), of valid]
        zone_pages_upd [of ?f, OF f(1), of valid] by simp_all
    moreover have "p \<notin> set qs" "set qs \<subseteq> free_set z" "free_set z' = free_set z - set (p # qs)"
      using IH unfolding fs by auto
    moreover have "nat (pg_private (mem_map z' q)) = t" if "q \<in> set (p # qs)" for q
      using IH prv that by (metis set_ConsD)
    moreover have "pcp_ok valid z'" "distinct qs" "length qs \<le> k" using IH by blast+
    moreover have "same_zone z z'"
      using same_zone_frame [OF LD(4)] IH same_zone_trans [of z z1 z'] by simp
    ultimately show ?thesis unfolding qs(2) using pf by simp
  qed
qed


text \<open>Nothing uses the pages in stock: no check of a new page can fail on them.\<close>

definition fresh :: "page \<Rightarrow> bool" where
  "fresh p \<longleftrightarrow> pg_mapcount p \<in> {- 1, - 2} \<and> pg_mapping p = 0 \<and> pg_count p = 0 \<and>
     pg_flags p AND PAGE_FLAGS_CHECK_AT_PREP = 0"

definition all_fresh :: "zstate \<Rightarrow> bool" where
  "all_fresh z \<longleftrightarrow> (\<forall>p \<in> stock z. fresh (mem_map z p))"

lemma fresh_frame: "frame z z' \<Longrightarrow> fresh (mem_map z p) \<Longrightarrow> fresh (mem_map z' p)"
  using frame_fields(9-12) [of z z' p] by (auto simp: fresh_def)

lemma bulk_loop_total:
  assumes "pcp_ok valid z" "t < MIGRATE_TYPES" "flags_ok z" "all_fresh z"
  shows "\<exists>ps z'. bulk_loop k valid 0 t z = Some (ps, z') \<and> flags_ok z' \<and> all_fresh z' \<and>
    (kinds_ok z \<longrightarrow> kinds_ok z') \<and>
    (\<forall>p \<in> set ps. fresh (mem_map z' p)) \<and>
    (ps = [] \<longrightarrow> k = 0 \<or> (\<forall>i. \<forall>u \<in> served_from t. free_list z i u = []))"
  using assms
proof (induction k arbitrary: z)
  case 0
  then show ?case by simp
next
  case (Suc k)
  note D = pcp_okD [OF Suc.prems(1)]
  obtain r where r: "rmqueue valid 0 t z = Some r"
    "r = None \<longleftrightarrow> (\<forall>i \<ge> 0. \<forall>u \<in> served_from t. free_list z i u = [])"
    using rmqueue_total [OF D(1,2) Suc.prems(2,3)] by blast
  show ?case
  proof (cases r)
    case None
    then show ?thesis using r Suc.prems by simp
  next
    case (Some x)
    obtain p z1 where x: "x = (p, z1)" by fastforce
    have run: "bulk_loop 1 valid 0 t z = Some ([p], upd_page p (set_page_private (int t)) z1)"
      using r(1) Some x by (simp add: Let_def)
    note B = bulk_loop_ok [OF Suc.prems(1,2) run]
    let ?z = "upd_page p (set_page_private (int t)) z1"
    have T: "takes valid z p 0 z1"
      using rmqueue_takes [OF D(1,2) Suc.prems(2)] r(1) Some x by simp
    then have fr: "frame z z1" by (simp add: takes_def leaves_def)
    have fl: "flags_ok ?z" using flags_frame [OF fr Suc.prems(3)] by (simp add: flags_ok_def)
    have sub: "stock ?z \<subseteq> stock z" "p \<in> stock z"
      using B by (auto simp: stock_def pcp_pages_def)
    have fresh1: "fresh (mem_map ?z q)" if "q \<in> stock z" for q
    proof -
      have "fresh (mem_map z1 q)" using fresh_frame [OF fr] Suc.prems(4) that by (simp add: all_fresh_def)
      then show ?thesis by (cases "q = p") (auto simp: fresh_def set_page_private_def)
    qed
    have af: "all_fresh ?z" unfolding all_fresh_def using sub(1) fresh1 by blast
    have k1: "kinds_ok z \<Longrightarrow> kinds_ok ?z"
      using rmqueue_kinds [OF D(1,2) Suc.prems(2,3)] r(1) Some x kinds_same [of ?z z1] by simp
    obtain qs z' where qs: "bulk_loop k valid 0 t ?z = Some (qs, z')" "flags_ok z'" "all_fresh z'"
      "kinds_ok ?z \<longrightarrow> kinds_ok z'" "\<forall>q \<in> set qs. fresh (mem_map z' q)"
      using Suc.IH [OF conjunct1 [OF B] Suc.prems(2) fl af] by blast
    have "p \<notin> free_set ?z" using B by auto
    then have "mem_map z' p = mem_map ?z p"
      using bulk_loop_ok [OF conjunct1 [OF B] Suc.prems(2) qs(1)] by blast
    then have "fresh (mem_map z' p)" using fresh1 [OF sub(2)] by simp
    then show ?thesis using r(1) Some x qs k1 by (auto simp: Let_def)
  qed
qed

text \<open>A list with pages on it before the page is chosen.\<close>

definition refilled :: "(int \<Rightarrow> bool) \<Rightarrow> int \<Rightarrow> nat \<Rightarrow> zstate \<Rightarrow> zstate option" where
  "refilled valid gfp_flags t z =
     (if pcp_list t z = []
      then do { (i, z) \<leftarrow> rmqueue_bulk valid 0 (pcp_batch (pageset z)) t (gfp_flags AND GFP_COLD \<noteq> 0) z;
                Some (pcp_count_add i z) }
      else Some z)"

lemma pcp_append:
  assumes ok: "pcp_ok valid z" and t: "t < MIGRATE_PCPTYPES" and ps: "distinct ps"
    "set ps \<inter> stock z = {}" "set ps \<subseteq> zone_pages valid z"
    "\<forall>p \<in> set ps. nat (pg_private (mem_map z p)) < MIGRATE_TYPES"
    and e: "pcp_list t z = []"
  shows "pcp_ok valid (set_pcp_list t ps z)" "stock (set_pcp_list t ps z) = stock z \<union> set ps"
    "pcp_total (set_pcp_list t ps z) = pcp_total z + length ps"
proof -
  note D = pcp_okD [OF ok]
  have mem: "q \<in> set (pcp_list u (set_pcp_list t ps z))
      \<longleftrightarrow> q \<in> set (pcp_list u z) \<or> u = t \<and> q \<in> set ps" for q u
    using e by auto
  have pp: "pcp_pages (set_pcp_list t ps z) = pcp_pages z \<union> set ps"
    unfolding pcp_pages_list set_eq_iff Un_iff UN_iff mem by blast
  have "set ps \<inter> free_set z = {}" using ps(2) by (auto simp: stock_def)
  then have "buddy_inv valid (set_pcp_list t ps z)" by (rule buddy_inv_set_pcp [OF D(1)])
  moreover have "distinct (pcp_list u (set_pcp_list t ps z))" for u using D(3) ps(1) by simp
  moreover have "q \<notin> set (pcp_list u z)" if "q \<in> set ps" for q u
    using that ps(2) by (auto simp: stock_def pcp_pages_list)
  then have "u = v" if "q \<in> set (pcp_list u (set_pcp_list t ps z))"
    "q \<in> set (pcp_list v (set_pcp_list t ps z))" for q u v
    using that D(4) unfolding mem by blast
  moreover have "MIGRATE_PCPTYPES \<le> u \<Longrightarrow> pcp_list u (set_pcp_list t ps z) = []" for u
    using D(5) t by simp
  ultimately show "pcp_ok valid (set_pcp_list t ps z)"
    unfolding pcp_ok_def pp using D(2,6,7) ps(3,4)
    by (simp only: set_pcp_list_fields) blast
  show "stock (set_pcp_list t ps z) = stock z \<union> set ps" by (auto simp: stock_def pp)
  show "pcp_total (set_pcp_list t ps z) = pcp_total z + length ps"
    using pcp_total_set [OF t, of ps z] e by simp
qed


lemma stat_fields [simp]:
  "pcp_ok valid (mod_zone_page_state i d z) = pcp_ok valid z" "stock (mod_zone_page_state i d z) = stock z"
  "pcp_total (mod_zone_page_state i d z) = pcp_total z" "pcp_list t (mod_zone_page_state i d z) = pcp_list t z"
  "pcp_params (mod_zone_page_state i d z) = pcp_params z" "mem_map (mod_zone_page_state i d z) = mem_map z"
  "zone_pages valid (mod_zone_page_state i d z) = zone_pages valid z"
  "flags_ok (mod_zone_page_state i d z) = flags_ok z" "all_fresh (mod_zone_page_state i d z) = all_fresh z"
  "pageblock_flags (mod_zone_page_state i d z) = pageblock_flags z"
  by (simp_all add: mod_zone_page_state_def zone_page_state_add_def stock_def pcp_list_def pcp_params_def
      flags_ok_def all_fresh_def)

lemma count_flags [simp]:
  "flags_ok (pcp_count_add d z) = flags_ok z" "stock (pcp_count_add d z) = stock z"
  "all_fresh (pcp_count_add d z) = all_fresh z" "flags_ok (set_pcp_list t ps z) = flags_ok z"
  "pageblock_flags (pcp_count_add d z) = pageblock_flags z"
  "pageblock_flags (set_pcp_list t ps z) = pageblock_flags z"
  by (simp_all add: flags_ok_def stock_def all_fresh_def pcp_count_add_def set_pcp_list_def upd_pcp_def)
    (simp_all add: free_set_def blocks_def listed_def pcp_pages_def)

lemma refilled_ok:
  assumes ok: "pcp_ok valid z" and sane: "pcp_sane z" and fl: "flags_ok z" and fr: "all_fresh z"
    and t: "t < MIGRATE_PCPTYPES"
  shows "\<exists>z'. refilled valid gfp_flags t z = Some z' \<and> pcp_ok valid z' \<and> stock z' = stock z \<and>
    all_fresh z' \<and> (kinds_ok z \<longrightarrow> kinds_ok z') \<and> zone_pages valid z' = zone_pages valid z \<and>
    pcp_count (pageset z') = int (pcp_total z') \<and> int (pcp_total z') < 2147483648 \<and>
    same_zone z z' \<and> (\<forall>q. q \<notin> stock z \<longrightarrow> mem_map z' q = mem_map z q) \<and>
    (pcp_list t z' = [] \<longrightarrow> z' = z\<lparr>vm_stat := vm_stat z', global_stat := global_stat z'\<rparr>) \<and>
    (pcp_list t z' = [] \<longrightarrow> pcp_list t z = [] \<and>
       (pcp_batch (pageset z) = 0 \<or> (\<forall>i. \<forall>u \<in> served_from t. free_list z i u = [])))"
proof (cases "pcp_list t z = []")
  case False
  then show ?thesis using assms by (simp add: refilled_def pcp_sane_def)
next
  case e: True
  have t5: "t < MIGRATE_TYPES" using t by (simp add: buddy_consts)
  let ?k = "nat (u64 (pcp_batch (pageset z)))"
  have k: "u64 (pcp_batch (pageset z)) = pcp_batch (pageset z)" "int ?k = pcp_batch (pageset z)"
    using sane by (simp_all add: pcp_sane_def)
  obtain ps z1 where b: "bulk_loop ?k valid 0 t z = Some (ps, z1)" "flags_ok z1" "all_fresh z1" "kinds_ok z \<longrightarrow> kinds_ok z1"
    "\<forall>p \<in> set ps. fresh (mem_map z1 p)"
    "ps = [] \<longrightarrow> ?k = 0 \<or> (\<forall>i. \<forall>u \<in> served_from t. free_list z i u = [])"
    using bulk_loop_total [OF ok t5 fl fr] by blast
  note B = bulk_loop_ok [OF ok t5 b(1)]
  define qs where "qs = (if gfp_flags AND GFP_COLD \<noteq> 0 then rev ps else ps)"
  have qs: "set qs = set ps" "distinct qs" "length qs = length ps" using B by (auto simp: qs_def)
  have pl: "pcp_list u z1 = pcp_list u z" for u using B by (simp add: pcp_list_def)
  have pp: "pcp_pages z1 = pcp_pages z" using B by (simp add: pcp_pages_def)
  have tot: "pcp_total z1 = pcp_total z" by (simp add: pcp_total_def pl)
  let ?z2 = "set_pcp_list t qs z1"
  have sub: "set qs \<subseteq> free_set z" "free_set z1 = free_set z - set qs" using B qs by auto
  have zp: "zone_pages valid z1 = zone_pages valid z" using B by simp
  have d1: "set qs \<inter> stock z1 = {}"
    using sub buddy_invD(6) [OF pcp_okD(1) [OF ok]] by (auto simp: stock_def pp)
  have d2: "set qs \<subseteq> zone_pages valid z1" using sub(1) free_set_zone [OF pcp_okD(1) [OF ok]] zp by blast
  have d3: "\<forall>p \<in> set qs. nat (pg_private (mem_map z1 p)) < MIGRATE_TYPES" using B qs(1) t5 by auto
  note A = pcp_append [OF conjunct1 [OF B] t qs(2) d1 d2 d3 pl [of t, unfolded e]]
  have st: "stock ?z2 = stock z"
    using A(2) sub by (auto simp: stock_def pp)
  have af: "all_fresh ?z2" using b(3,5) A(2) qs(1) by (auto simp: all_fresh_def)
  define z' where "z' = pcp_count_add (int (length ps)) (mod_zone_page_state NR_FREE_PAGES
      (- push_bit 0 (int (length ps))) ?z2)"
  have run: "refilled valid gfp_flags t z = Some z'"
    unfolding refilled_def rmqueue_bulk_def b(1) using e
    by (simp add: Let_def pl qs_def z'_def cong: if_cong)
  have kk: "kinds_ok z \<longrightarrow> kinds_ok z'"
    using b(4) kinds_same [of z' z1] by (simp add: z'_def)
  have "pageset z1 = pageset z" and len: "int (length ps) \<le> pcp_batch (pageset z)"
    using B k(2) by linarith+
  then have cnt: "pcp_count (pageset ?z2) = int (pcp_total z)" using sane by (simp add: pcp_sane_def)
  have "pcp_count (pageset (mod_zone_page_state NR_FREE_PAGES (- push_bit 0 (int (length ps))) ?z2))
      = int (pcp_total z)"
    using cnt by (simp add: mod_zone_page_state_def zone_page_state_add_def)
  then have "pcp_count (pageset z') = int (pcp_total z')"
    using A(3) tot len sane qs(3) by (simp add: z'_def pcp_sane_def)
  moreover have "int (pcp_total z') < 2147483648"
    using A(3) tot len sane qs(3) by (simp add: z'_def pcp_sane_def)
  moreover have "pcp_list t z' = qs" by (simp add: z'_def)
  moreover have "qs = [] \<longleftrightarrow> ps = []" using qs(3) by auto
  moreover have "?k = 0 \<longleftrightarrow> pcp_batch (pageset z) = 0" using k(2) by linarith
  moreover have "same_zone z z'" using B by (simp add: z'_def)
  moreover have "mem_map z' q = mem_map z q" if "q \<notin> stock z" for q
    using B that by (simp add: z'_def stock_def)
  moreover have "z' = z\<lparr>vm_stat := vm_stat z', global_stat := global_stat z'\<rparr>" if "qs = []"
  proof -
    have "ps = []" "z1 = z" using that qs(3) B by auto
    moreover have "pcp_count (pageset z) < 2147483648" using sane by (simp add: pcp_sane_def)
    moreover have "(pcp_lists (pageset z))(t := []) = pcp_lists (pageset z)"
      using e by (simp add: pcp_list_def fun_upd_idem)
    ultimately show ?thesis using that sane unfolding z'_def pcp_sane_def
      by (cases z, cases "pageset z") (simp add: pcp_count_add_def set_pcp_list_def upd_pcp_def
          mod_zone_page_state_def zone_page_state_add_def)
  qed
  ultimately show ?thesis
    using run A(1) st af b(6) e zp kk by (intro exI [of _ z']) (auto simp: z'_def)
qed

lemma prep_fresh:
  assumes f: "fresh (mem_map z p)" and nb: "\<not> PageBuddy (mem_map z p)"
  shows "prep_new_page p 0 gfp_flags z =
    (False, upd_page p (set_page_refcounted \<circ> set_page_private 0) z)"
  using f nb by (simp add: prep_new_page_def check_new_page_def fresh_def PageBuddy_def page_mapcount_def)

text \<open>The allocation of a single page.\<close>

lemma buffered_rmqueue_ok:
  assumes ok: "pcp_ok valid z" and sane: "pcp_sane z" and fl: "flags_ok z" and fr: "all_fresh z"
    and t: "t < MIGRATE_PCPTYPES"
  shows "\<exists>r z'. buffered_rmqueue valid 0 gfp_flags t z = Some (r, z') \<and> pcp_ok valid z' \<and>
    pcp_count (pageset z') = int (pcp_total z') \<and>
    same_zone z z' \<and> all_fresh z' \<and> (kinds_ok z \<longrightarrow> kinds_ok z') \<and> zone_pages valid z' = zone_pages valid z \<and>
    (\<forall>q. q \<notin> stock z \<longrightarrow> mem_map z' q = mem_map z q) \<and>
    (case r of
       None \<Rightarrow> z' = z\<lparr>vm_stat := vm_stat z', global_stat := global_stat z'\<rparr> \<and> pcp_list t z = [] \<and>
         (pcp_batch (pageset z) = 0 \<or> (\<forall>i. \<forall>u \<in> served_from t. free_list z i u = []))
     | Some p \<Rightarrow> p \<in> stock z \<and> stock z' = stock z - {p} \<and> pg_count (mem_map z' p) = 1 \<and>
         pg_private (mem_map z' p) = 0)"
proof -
  obtain z1 where z1: "refilled valid gfp_flags t z = Some z1" "pcp_ok valid z1" "stock z1 = stock z"
    "all_fresh z1" "kinds_ok z \<longrightarrow> kinds_ok z1" "zone_pages valid z1 = zone_pages valid z" "pcp_count (pageset z1) = int (pcp_total z1)"
    "int (pcp_total z1) < 2147483648" "same_zone z z1" "\<forall>q. q \<notin> stock z \<longrightarrow> mem_map z1 q = mem_map z q"
    "pcp_list t z1 = [] \<longrightarrow> z1 = z\<lparr>vm_stat := vm_stat z1, global_stat := global_stat z1\<rparr>"
    "pcp_list t z1 = [] \<longrightarrow> pcp_list t z = [] \<and>
       (pcp_batch (pageset z) = 0 \<or> (\<forall>i. \<forall>u \<in> served_from t. free_list z i u = []))"
    using refilled_ok [OF assms, of gfp_flags] by blast
  let ?p = "if gfp_flags AND GFP_COLD \<noteq> 0 then last (pcp_list t z1) else hd (pcp_list t z1)"
  have run: "buffered_page valid 0 gfp_flags t z = (if pcp_list t z1 = [] then Some (None, z1)
      else Some (Some ?p, pcp_count_add (- 1) (list_del ?p z1)))"
    using z1(1) by (simp add: buffered_page_def refilled_def Let_def cong: if_cong)
  show ?thesis
  proof (cases "pcp_list t z1 = []")
    case True
    then show ?thesis
      using run z1 by (subst buffered_rmqueue.simps) (intro exI [of _ None] exI [of _ z1], simp)
  next
    case False
    then have p: "?p \<in> set (pcp_list t z1)" by auto
    note R = pcp_remove [OF z1(2) p] and D = pcp_okD [OF z1(2)]
    define q where "q = ?p"
    let ?z = "pcp_count_add (- 1) (list_del q z1)"
    have pst: "q \<in> stock z1" using p by (auto simp: stock_def pcp_pages_list q_def)
    have npf: "q \<notin> free_set z1"
      using p buddy_invD(6) [OF D(1)] unfolding q_def [symmetric] pcp_pages_list by blast
    have pz: "q \<in> zone_pages valid z1" using p D(6) unfolding q_def [symmetric] pcp_pages_list by blast
    have nb: "\<not> PageBuddy (mem_map z1 q)"
      using buddy_invD(3) [OF D(1) pz] head_in_free_set npf by blast
    have fq: "fresh (mem_map z1 q)" using z1(4) pst by (simp add: all_fresh_def)
    let ?f = "set_page_refcounted \<circ> set_page_private 0"
    have prep: "prep_new_page q 0 gfp_flags ?z = (False, upd_page q ?f ?z)"
      using fq nb R(5) unfolding q_def [symmetric] by (intro prep_fresh) simp_all
    have st: "stock ?z = stock z - {q}"
      using R(2,3) npf z1(3) unfolding q_def [symmetric] by (auto simp: stock_def)
    have f: "page_zone_id (?f (mem_map ?z q)) = page_zone_id (mem_map ?z q)"
      "\<not> PageBuddy (?f (mem_map ?z q))"
      using nb R(5) unfolding q_def [symmetric]
      by (simp_all add: set_page_refcounted_def set_page_count_def set_page_private_def page_zone_id_def
          PageBuddy_def)
    have "pcp_ok valid (upd_page q ?f ?z)"
      using R(1) st f unfolding q_def [symmetric]
      by (intro pcp_ok_upd [of valid ?z q ?f]) auto
    moreover have "buffered_rmqueue valid 0 gfp_flags t z = Some (Some q, upd_page q ?f ?z)"
      using run False prep unfolding q_def [symmetric]
      by (subst buffered_rmqueue.simps) (simp add: Let_def)
    moreover have "pcp_total ?z = pcp_total z1 - 1" "0 < pcp_total z1"
      using R(4) unfolding q_def [symmetric] by simp_all
    moreover have "pcp_count (pageset (list_del q z1)) = pcp_count (pageset z1)"
      using list_del_pcp [OF z1(2) p] unfolding q_def [symmetric] by simp
    moreover have "all_fresh (upd_page q ?f ?z)" "zone_pages valid (upd_page q ?f ?z) = zone_pages valid z"
      "\<forall>x. x \<notin> stock z \<longrightarrow> mem_map (upd_page q ?f ?z) x = mem_map z x"
      using z1 R(5,6) st pst zone_pages_upd [of ?f, OF f(1), of valid] unfolding q_def [symmetric]
      by (auto simp: all_fresh_def)
    moreover have "kinds_ok z \<longrightarrow> kinds_ok (upd_page q ?f ?z)"
      using z1(5) kinds_same [of "upd_page q ?f ?z" z1] by simp
    ultimately show ?thesis
      using z1(3,7,8,9) st pst
      by (intro exI [of _ "Some q"] exI [of _ "upd_page q ?f ?z"])
        (simp add: set_page_refcounted_def set_page_count_def set_page_private_def)
  qed
qed


section \<open>Taking a block of any order\<close>

lemma tail_pages_ok:
  assumes "pcp_ok valid z" "block p (int k) \<subseteq> zone_pages valid z" "block p (int k) \<inter> stock z = {}"
  shows "pcp_ok valid (tail_pages k p h z) \<and> stock (tail_pages k p h z) = stock z \<and>
    zone_pages valid (tail_pages k p h z) = zone_pages valid z \<and> same_zone z (tail_pages k p h z) \<and>
    pageset (tail_pages k p h z) = pageset z \<and> pageblock_flags (tail_pages k p h z) = pageblock_flags z \<and>
    (\<forall>q. pg_count (mem_map (tail_pages k p h z) q) = pg_count (mem_map z q)) \<and>
    (\<forall>q. q \<notin> block p (int k) \<longrightarrow> mem_map (tail_pages k p h z) q = mem_map z q)"
  using assms
proof (induction k arbitrary: p z)
  case 0
  then show ?case by simp
next
  case (Suc k)
  note D = pcp_okD [OF Suc.prems(1)]
  let ?f = "\<lambda>q. q\<lparr>pg_private := h\<rparr>"
  have b: "block p (int (Suc k)) = insert p (block (p + 1) (int k))" by (auto simp: block_def)
  then have p: "p \<in> zone_pages valid z" "p \<notin> stock z" using Suc.prems by auto
  have "\<not> PageBuddy (mem_map z p)"
    using buddy_invD(3) [OF D(1) p(1)] head_in_free_set p(2) by (auto simp: stock_def)
  then have nb: "\<not> PageBuddy (?f (mem_map z p))" by (simp add: PageBuddy_def)
  have f: "page_zone_id (?f (mem_map z p)) = page_zone_id (mem_map z p)" by (simp add: page_zone_id_def)
  let ?z = "upd_page p ?f z"
  have ok: "pcp_ok valid ?z" by (rule pcp_ok_upd [of valid z p ?f, OF Suc.prems(1) p(2) f nb])
  have zp: "zone_pages valid ?z = zone_pages valid z" by (rule zone_pages_upd [of ?f, OF f])
  have st: "stock ?z = stock z" by (simp add: stock_def)
  have cond: "block (p + 1) (int k) \<subseteq> zone_pages valid ?z" "block (p + 1) (int k) \<inter> stock ?z = {}"
    using Suc.prems(2,3) unfolding b zp st by auto
  note IH = Suc.IH [OF ok cond]
  have ps: "pageset ?z = pageset z" by (simp add: upd_page_def)
  show ?case using IH unfolding zp st b ps by auto
qed

lemma check_pages_fresh:
  assumes "\<forall>q \<in> block p (int k). fresh (mem_map z q) \<and> \<not> PageBuddy (mem_map z q)"
  shows "\<not> check_pages k p z"
  using assms
proof (induction k arbitrary: p)
  case 0
  then show ?case by simp
next
  case (Suc k)
  have b: "block p (int (Suc k)) = insert p (block (p + 1) (int k))" by (auto simp: block_def)
  have "\<not> check_pages k (p + 1) z" using Suc.IH [of "p + 1"] Suc.prems unfolding b by blast
  moreover have "fresh (mem_map z p)" "\<not> PageBuddy (mem_map z p)" using Suc.prems unfolding b by simp_all
  then have "\<not> check_new_page (mem_map z p)"
    by (auto simp: check_new_page_def fresh_def PageBuddy_def page_mapcount_def)
  ultimately show ?case by simp
qed

definition served :: "(int \<Rightarrow> bool) \<Rightarrow> nat \<Rightarrow> zstate \<Rightarrow> int option \<Rightarrow> zstate \<Rightarrow> bool" where
  "served valid order z r z' \<longleftrightarrow>
     pcp_ok valid z' \<and> pcp_count (pageset z') = int (pcp_total z') \<and> same_zone z z' \<and> all_fresh z' \<and>
     (kinds_ok z \<longrightarrow> kinds_ok z') \<and> zone_pages valid z' = zone_pages valid z \<and>
     (\<forall>q. q \<notin> stock z \<longrightarrow> mem_map z' q = mem_map z q) \<and>
     (case r of
        None \<Rightarrow> z' = z\<lparr>vm_stat := vm_stat z', global_stat := global_stat z'\<rparr>
      | Some p \<Rightarrow> block p (2 ^ order) \<subseteq> stock z \<and> stock z' = stock z - block p (2 ^ order) \<and>
          pg_count (mem_map z' p) = 1)"

lemma block_push_bit: "int (nat (push_bit i 1)) = 2 ^ i" "nat (push_bit i 1 - 1) = nat (2 ^ i - 1)"
  by (simp_all add: push_bit_eq_mult)

lemma buffered_served_high:
  assumes ok: "pcp_ok valid z" and sane: "pcp_sane z" and fl: "flags_ok z" and fr: "all_fresh z"
    and t: "t < MIGRATE_TYPES" and i: "order \<noteq> 0"
  shows "\<exists>r z'. buffered_rmqueue valid order g t z = Some (r, z') \<and> served valid order z r z'"
proof -
  note D = pcp_okD [OF ok]
  obtain r where r: "rmqueue valid order t z = Some r"
    using rmqueue_total [OF D(1,2) t fl] by blast
  show ?thesis
  proof (cases r)
    case None
    then show ?thesis using r i ok fr sane
      by (subst buffered_rmqueue.simps)
        (simp add: buffered_page_def Let_def served_def pcp_sane_def)
  next
    case (Some x)
    obtain p z1 where x: "x = (p, z1)" by fastforce
    let ?B = "block p (2 ^ order)"
    have T: "takes valid z p order z1" using rmqueue_takes [OF D(1,2) t] r Some x by simp
    have L: "leaves valid z (free_set z - ?B) z1" and bf: "?B \<subseteq> free_set z"
      using T unfolding takes_def by auto
    have pp: "pcp_pages z \<inter> (free_set z - ?B) = {}" using buddy_invD(6) [OF D(1)] by blast
    note P = pcp_ok_leaves [OF ok L pp] and LD = leavesD [OF L]
    have fr1: "frame z z1" by (rule LD(4))
    let ?z = "mod_zone_page_state NR_FREE_PAGES (- push_bit order 1) z1"
    have ok1: "pcp_ok valid ?z" using P(1) by simp
    have st1: "stock z1 = stock z - ?B" and bs: "?B \<subseteq> stock z"
      using P(2) LD(3) bf buddy_invD(6) [OF D(1)] frame_pcp_pages [OF fr1] by (auto simp: stock_def)
    have zp1: "zone_pages valid z1 = zone_pages valid z" by (rule frame_zone_pages [OF fr1])
    have bz: "?B \<subseteq> zone_pages valid z1" using bf free_set_zone [OF D(1)] zp1 by blast
    have nb: "\<not> PageBuddy (mem_map z1 q)" if "q \<in> ?B" for q
      using buddy_invD(3) [OF LD(1)] that bz head_in_free_set LD(3) by blast
    have frq: "fresh (mem_map z1 q)" if "q \<in> stock z" for q
      using fresh_frame [OF fr1] fr that by (simp add: all_fresh_def)
    have "\<not> check_pages (nat (push_bit order 1)) p ?z"
      using nb frq bs by (intro check_pages_fresh) (auto simp: block_push_bit)
    moreover have pB: "p \<in> ?B" by (simp add: block_def)
    define f where "f = set_page_refcounted \<circ> set_page_private 0"
    define z2 where "z2 = upd_page p f ?z"
    define z' where "z' = (if g AND GFP_COMP \<noteq> 0 then prep_compound_page p order z2 else z2)"
    ultimately have run: "buffered_rmqueue valid order g t z = Some (Some p, z')"
      using r Some x i
      by (subst buffered_rmqueue.simps)
        (simp add: buffered_page_def Let_def prep_new_page_def z'_def z2_def f_def cong: if_cong)
    have f: "page_zone_id (f (mem_map ?z p)) = page_zone_id (mem_map ?z p)"
      "\<not> PageBuddy (f (mem_map ?z p))"
      using nb [OF pB] by (simp_all add: f_def set_page_refcounted_def set_page_count_def
          set_page_private_def page_zone_id_def PageBuddy_def)
    have "p \<notin> stock ?z" using st1 pB by simp
    from pcp_ok_upd [of valid ?z p f, OF ok1 this f]
    have ok2: "pcp_ok valid z2" by (simp add: z2_def)
    have st2: "stock z2 = stock z - ?B" using st1 by (simp add: z2_def)
    have zp2: "zone_pages valid z2 = zone_pages valid z"
      using zone_pages_upd [of f, OF f(1), of valid] zp1 by (simp add: z2_def)
    have sz2: "same_zone z z2" using same_zone_frame [OF fr1] by (simp add: z2_def)
    have cnt: "pg_count (mem_map z2 p) = 1"
      by (simp add: z2_def f_def set_page_refcounted_def set_page_count_def)
    have mm2: "mem_map z2 q = mem_map z1 q" if "q \<noteq> p" for q using that by (simp add: z2_def)
    have ps2: "pageset z2 = pageset z"
      using frame_fields(2) [OF fr1]
      by (simp add: z2_def upd_page_def mod_zone_page_state_def zone_page_state_add_def)
    let ?k = "nat (push_bit order 1 - 1)"
    have k: "block (p + 1) (int ?k) \<subseteq> ?B"
      unfolding block_push_bit by (auto simp: block_def)
    have "block (p + 1) (int ?k) \<subseteq> zone_pages valid z2" "block (p + 1) (int ?k) \<inter> stock z2 = {}"
      using k bz zp1 zp2 st2 by auto
    note TP = tail_pages_ok [OF ok2 this, of p]
    have res: "pcp_ok valid z'" "stock z' = stock z2" "zone_pages valid z' = zone_pages valid z2"
      "pageset z' = pageset z2" "pg_count (mem_map z' p) = 1"
      using TP ok2 cnt unfolding z'_def prep_compound_page_def by auto
    have sz: "same_zone z z'"
      using TP sz2 same_zone_trans [OF sz2] unfolding z'_def prep_compound_page_def by auto
    have mm: "mem_map z' q = mem_map z1 q" if "q \<notin> ?B" for q
    proof -
      have "q \<noteq> p" "q \<notin> block (p + 1) (int ?k)" using that pB k by blast+
      then show ?thesis using TP mm2 unfolding z'_def prep_compound_page_def by auto
    qed
    have "pageblock_flags z' = pageblock_flags z1"
      using TP unfolding z'_def prep_compound_page_def by (auto simp: z2_def)
    then have kk: "kinds_ok z \<longrightarrow> kinds_ok z'"
      using rmqueue_kinds [OF D(1,2) t fl] r Some x kinds_same [of z' z1] by simp
    have "all_fresh z'"
      unfolding all_fresh_def res(2) st2 using frq mm by (metis DiffE)
    moreover have "mem_map z' q = mem_map z q" if "q \<notin> stock z" for q
    proof -
      have "q \<notin> free_set z" using that by (simp add: stock_def)
      have "q \<notin> ?B" using that bs by blast
      moreover have "q \<notin> free_set z \<union> (free_set z - ?B)" using \<open>q \<notin> free_set z\<close> by blast
      ultimately show ?thesis using mm [of q] LD(5) [of q] by metis
    qed
    moreover have "pcp_count (pageset z') = int (pcp_total z')"
      using res(4) ps2 sane by (simp add: pcp_sane_def pcp_total_def pcp_list_def)
    ultimately show ?thesis
      using run res sz st2 zp2 bs kk by (intro exI [of _ "Some p"] exI [of _ z']) (simp add: served_def)
  qed
qed

lemma buffered_served:
  assumes "pcp_ok valid z" "pcp_sane z" "flags_ok z" "all_fresh z" "t < MIGRATE_PCPTYPES"
  shows "\<exists>r z'. buffered_rmqueue valid order g t z = Some (r, z') \<and> served valid order z r z'"
proof (cases "order = 0")
  case True
  have b: "block p (2 ^ 0) = {p}" for p by auto
  obtain r z' where "buffered_rmqueue valid 0 g t z = Some (r, z')" "pcp_ok valid z'"
    "pcp_count (pageset z') = int (pcp_total z')" "same_zone z z'" "all_fresh z'" "kinds_ok z \<longrightarrow> kinds_ok z'"
    "zone_pages valid z' = zone_pages valid z" "\<forall>q. q \<notin> stock z \<longrightarrow> mem_map z' q = mem_map z q"
    "case r of
       None \<Rightarrow> z' = z\<lparr>vm_stat := vm_stat z', global_stat := global_stat z'\<rparr> \<and> pcp_list t z = [] \<and>
         (pcp_batch (pageset z) = 0 \<or> (\<forall>i. \<forall>u \<in> served_from t. free_list z i u = []))
     | Some p \<Rightarrow> p \<in> stock z \<and> stock z' = stock z - {p} \<and> pg_count (mem_map z' p) = 1 \<and>
         pg_private (mem_map z' p) = 0"
    using buffered_rmqueue_ok [OF assms, of g] by blast
  then show ?thesis using True by (cases r) (auto simp: served_def b)
next
  case False
  have "t < MIGRATE_TYPES" using assms(5) by (simp add: buddy_consts)
  from buffered_served_high [OF assms(1-4) this False] show ?thesis .
qed

section \<open>A state to run on\<close>

lemma free_one_page_fresh:
  assumes f: "freeing valid z p i" and t: "t < MIGRATE_TYPES" and fr: "\<forall>q. fresh (mem_map z q)"
  shows "fresh (mem_map (free_one_page valid p i t z) q)"
proof -
  let ?z = "z\<lparr>all_unreclaimable := 0, pages_scanned := 0\<rparr>"
  have "freeing valid ?z p i" using f by (simp add: freeing_def usable_def)
  from leavesD(4) [OF do_free_one_page_ok [OF this t]]
  have "frame ?z (do_free_one_page valid p i t ?z)" .
  from fresh_frame [OF this, of q] show ?thesis
    using fr by (simp add: free_one_page_def mod_zone_page_state_def zone_page_state_add_def Let_def)
qed

lemma ex_zone_fresh: "fresh (mem_map ex_zone q)"
proof -
  have "fresh (mem_map ex_empty q)" for q
    by (simp add: fresh_def ex_empty_def ex_page_def)
  then have "fresh (mem_map ex_one q)" for q
    using free_one_page_fresh [OF ex_one_freeing, of MIGRATE_MOVABLE] by (simp add: ex_one_def buddy_consts)
  then show ?thesis
    using free_one_page_fresh [OF ex_zone_freeing, of MIGRATE_UNMOVABLE]
    by (simp add: ex_zone_def buddy_consts)
qed

lemma ex_zone_pcp: "pcp_list t ex_zone = []" "pcp_total ex_zone = 0" "stock ex_zone = {0..<1032}"
  using ex_zone_ok(3,4) by (auto simp: pcp_pages_list pcp_total_def stock_def)

lemma ex_zone_pcp_ok: "pcp_ok ex_valid ex_zone"
  using ex_zone_ok by (simp add: pcp_ok_def ex_zone_pcp)

lemma ex_zone_params: "pcp_params ex_zone = (0, 6, 1)"
  by code_simp

lemma ex_zone_sane: "pcp_sane ex_zone"
  using ex_zone_params by (simp add: pcp_sane_def ex_zone_pcp pcp_params_def)

lemma ex_zone_all_fresh: "all_fresh ex_zone"
  using ex_zone_fresh by (simp add: all_fresh_def)


section \<open>Properties\<close>

text \<open>
  C20: \<^verbatim>\<open>free_pcppages_bulk\<close>, whose search for a list with pages has no exit of its own, comes to an
  end exactly when it is asked for no more pages than the per-CPU lists hold.
\<close>
theorem bulk_free_ends_iff_enough:
  assumes "pcp_ok valid z" "0 \<le> count"
  shows "(\<exists>z'. free_pcppages_bulk valid count z = Some z') \<longleftrightarrow> count \<le> int (pcp_total z)"
  using free_pcppages_bulk_ok [OF assms] by (auto split: if_splits)

theorem bulk_free_ends_iff_enough_witness:
  "\<not> (\<exists>z'. free_pcppages_bulk ex_valid 1 ex_zone = Some z')"
  using bulk_free_ends_iff_enough [OF ex_zone_pcp_ok, of 1] ex_zone_pcp(2) by simp

text \<open>
  C18: freeing a single page adds exactly this page to the pages the zone has to give, free or parked,
  whether it goes to a per-CPU list, straight to the buddy lists, or sets off a bulk release; the
  structure of all lists is kept and the count of parked pages stays right.
\<close>
theorem free_page_keeps_stock:
  assumes "pcp_ok valid z" "pcp_sane z" "page \<in> zone_pages valid z" "page \<notin> stock z"
    and "clean_page (mem_map z page)"
    and "get_pageblock_migratetype page z = Some t" "t < MIGRATE_TYPES"
  shows "\<exists>z'. free_hot_cold_page valid page cold z = Some z' \<and> pcp_ok valid z' \<and>
    stock z' = insert page (stock z) \<and> pcp_count (pageset z') = int (pcp_total z')"
  by (rule free_hot_cold_ok [OF assms])

theorem free_page_keeps_stock_witness:
  "\<exists>z'. free_hot_cold_page ex_valid 1040 False ex_zone = Some z' \<and>
     stock z' = insert 1040 {0..<1032} \<and> pcp_count (pageset z') = int (pcp_total z')"
proof -
  have c: "clean_page (mem_map ex_zone 1040)"
    by code_simp
  have t: "get_pageblock_migratetype 1040 ex_zone = Some MIGRATE_UNMOVABLE" by code_simp
  show ?thesis
    using free_page_keeps_stock [OF ex_zone_pcp_ok ex_zone_sane _ _ c t, of False] ex_zone_ok(5)
    by (auto simp: ex_zone_pcp buddy_consts)
qed

text \<open>
  C19: the allocation of a single page returns. A page it returns was free or parked, is so no longer,
  and carries one reference; it returns NULL only when the list of the type is empty and no free list
  that may serve the type has a page (or lists are refilled by batches of zero). Nothing else leaves.
\<close>
theorem take_page_from_stock:
  assumes "pcp_ok valid z" "pcp_sane z" "flags_ok z" "all_fresh z" "t < MIGRATE_PCPTYPES"
  shows "\<exists>r z'. buffered_rmqueue valid 0 gfp_flags t z = Some (r, z') \<and> pcp_ok valid z' \<and>
    pcp_count (pageset z') = int (pcp_total z') \<and>
    (case r of
       None \<Rightarrow> stock z' = stock z \<and> pcp_list t z = [] \<and>
         (pcp_batch (pageset z) = 0 \<or> (\<forall>i. \<forall>u \<in> served_from t. free_list z i u = []))
     | Some p \<Rightarrow> p \<in> stock z \<and> stock z' = stock z - {p} \<and> pg_count (mem_map z' p) = 1 \<and>
         pg_private (mem_map z' p) = 0)"
proof -
  obtain r z' where "buffered_rmqueue valid 0 gfp_flags t z = Some (r, z')" "pcp_ok valid z'"
    "pcp_count (pageset z') = int (pcp_total z')"
    "case r of
       None \<Rightarrow> z' = z\<lparr>vm_stat := vm_stat z', global_stat := global_stat z'\<rparr> \<and> pcp_list t z = [] \<and>
         (pcp_batch (pageset z) = 0 \<or> (\<forall>i. \<forall>u \<in> served_from t. free_list z i u = []))
     | Some p \<Rightarrow> p \<in> stock z \<and> stock z' = stock z - {p} \<and> pg_count (mem_map z' p) = 1 \<and>
         pg_private (mem_map z' p) = 0"
    using buffered_rmqueue_ok [OF assms, of gfp_flags] by blast
  moreover from this(4) have "r = None \<Longrightarrow> stock z' = stock z" by (auto dest: stock_stats)
  ultimately show ?thesis by (intro exI [of _ r] exI [of _ z']) (auto split: option.splits)
qed

theorem take_page_from_stock_witness:
  "\<exists>p z'. buffered_rmqueue ex_valid 0 GFP_COLD MIGRATE_MOVABLE ex_zone = Some (Some p, z') \<and>
     p \<in> {0..<1032} \<and> stock z' = {0..<1032} - {p}"
proof -
  have t: "MIGRATE_MOVABLE < MIGRATE_PCPTYPES" by (simp add: buddy_consts)
  obtain r z' where r: "buffered_rmqueue ex_valid 0 GFP_COLD MIGRATE_MOVABLE ex_zone = Some (r, z')"
    "case r of
       None \<Rightarrow> stock z' = stock ex_zone \<and> pcp_list MIGRATE_MOVABLE ex_zone = [] \<and>
         (pcp_batch (pageset ex_zone) = 0 \<or>
          (\<forall>i. \<forall>u \<in> served_from MIGRATE_MOVABLE. free_list ex_zone i u = []))
     | Some p \<Rightarrow> p \<in> stock ex_zone \<and> stock z' = stock ex_zone - {p} \<and>
         pg_count (mem_map z' p) = 1 \<and> pg_private (mem_map z' p) = 0"
    using take_page_from_stock [OF ex_zone_pcp_ok ex_zone_sane ex_zone_flags ex_zone_all_fresh t] by blast
  have "free_list ex_zone 10 MIGRATE_MOVABLE = [0]" by code_simp
  then have "\<not> (\<forall>i. \<forall>u \<in> served_from MIGRATE_MOVABLE. free_list ex_zone i u = [])"
    by (intro notI) (drule spec [of _ 10], simp add: served_from_def split: if_splits)
  moreover have "pcp_batch (pageset ex_zone) \<noteq> 0" using ex_zone_params by (simp add: pcp_params_def)
  ultimately have "r \<noteq> None" using r(2) by (cases r) auto
  then show ?thesis using r by (auto simp: ex_zone_pcp)
qed

end
