(* ===== verification/Freelist.thy ===== *)
theory Freelist
  imports PageProps "HOL-Library.Signed_Division"
begin

text \<open>
  The zones of the node and the search for a zone that can serve a request: the watermark test, the
  walk along the zonelist, the flags of a request and the slow path of \<^verbatim>\<open>mm/page_alloc.c\<close>.

  A zonelist is the list of its \<^verbatim>\<open>zoneref\<close> entries; the entry that ends it has no zone. The machine is
  built without \<^verbatim>\<open>CONFIG_NUMA\<close>, without \<^verbatim>\<open>CONFIG_DMA\<close> and with \<^verbatim>\<open>CONFIG_HIGHMEM\<close>. The result of
  \<^verbatim>\<open>zone_page_state\<close> is the parameter \<open>state\<close>: the function has no return statement. The slow path adds
  a variable that nothing sets, the parameter \<open>progress\<close>.
\<close>

section \<open>Zones\<close>

definition ZONE_NORMAL :: nat where "ZONE_NORMAL = 0"
definition ZONE_HIGHMEM :: nat where "ZONE_HIGHMEM = 1"
definition ZONE_MOVABLE :: nat where "ZONE_MOVABLE = 2"
definition MAX_NR_ZONES :: nat where "MAX_NR_ZONES = 3"
definition ZONES_SHIFT :: nat where "ZONES_SHIFT = 2"

record node =
  node_zones :: "nat \<Rightarrow> zone"
  node_mem_map :: "int \<Rightarrow> page"
  node_stat :: "nat \<Rightarrow> int"
  node_mobility_disabled :: bool

text \<open>A zone seen with the structures all zones share, and the node with a zone put back.\<close>

definition zone_view :: "nat \<Rightarrow> node \<Rightarrow> zstate" where
  "zone_view i n = zone.extend (node_zones n i)
     (zstate.fields (node_mem_map n) (node_stat n) (node_mobility_disabled n))"

definition zone_put :: "nat \<Rightarrow> zstate \<Rightarrow> node \<Rightarrow> node" where
  "zone_put i z n = \<lparr>node_zones = (node_zones n)(i := zone.truncate z), node_mem_map = mem_map z,
     node_stat = global_stat z, node_mobility_disabled = page_group_by_mobility_disabled z\<rparr>"

record zoneref =
  zr_zone :: "nat option"
  zr_idx :: nat

fun next_zones_zonelist :: "zoneref list \<Rightarrow> nat \<Rightarrow> zoneref list" where
  "next_zones_zonelist [] highest_zoneidx = []"
| "next_zones_zonelist (z # zs) highest_zoneidx =
     (if highest_zoneidx < zr_idx z then next_zones_zonelist zs highest_zoneidx else z # zs)"

definition first_zones_zonelist :: "zoneref list \<Rightarrow> nat \<Rightarrow> zoneref list" where
  "first_zones_zonelist zl highest_zoneidx = next_zones_zonelist zl highest_zoneidx"

lemma next_zones_length: "length (next_zones_zonelist zl h) \<le> length zl"
  by (induction zl) auto


section \<open>Flags\<close>

definition GFP_DMA :: int where "GFP_DMA = 0x01"
definition GFP_HIGHMEM :: int where "GFP_HIGHMEM = 0x02"
definition GFP_DMA32 :: int where "GFP_DMA32 = 0x04"
definition GFP_MOVABLE :: int where "GFP_MOVABLE = 0x08"
definition GFP_WAIT :: int where "GFP_WAIT = 0x10"
definition GFP_HIGH :: int where "GFP_HIGH = 0x20"
definition GFP_NOWARN :: int where "GFP_NOWARN = 0x200"
definition GFP_REPEAT :: int where "GFP_REPEAT = 0x400"
definition GFP_NORETRY :: int where "GFP_NORETRY = 0x1000"
definition GFP_NOMEMALLOC :: int where "GFP_NOMEMALLOC = 0x10000"
definition GFP_HARDWALL :: int where "GFP_HARDWALL = 0x20000"
definition GFP_RECLAIMABLE :: int where "GFP_RECLAIMABLE = 0x80000"

definition GFP_ZONEMASK :: int where
  "GFP_ZONEMASK = GFP_DMA OR GFP_HIGHMEM OR GFP_DMA32 OR GFP_MOVABLE"

definition OPT_ZONE_DMA :: nat where "OPT_ZONE_DMA = ZONE_NORMAL"
definition OPT_ZONE_HIGHMEM :: nat where "OPT_ZONE_HIGHMEM = ZONE_HIGHMEM"
definition OPT_ZONE_DMA32 :: nat where "OPT_ZONE_DMA32 = ZONE_NORMAL"

definition table_entry :: "nat \<Rightarrow> int \<Rightarrow> int" where
  "table_entry z sel = push_bit (nat sel * ZONES_SHIFT) (int z)"

definition GFP_ZONE_TABLE :: int where
  "GFP_ZONE_TABLE =
     table_entry ZONE_NORMAL 0
     OR table_entry OPT_ZONE_DMA GFP_DMA
     OR table_entry OPT_ZONE_HIGHMEM GFP_HIGHMEM
     OR table_entry OPT_ZONE_DMA32 GFP_DMA32
     OR table_entry ZONE_NORMAL GFP_MOVABLE
     OR table_entry OPT_ZONE_DMA (GFP_MOVABLE OR GFP_DMA)
     OR table_entry ZONE_MOVABLE (GFP_MOVABLE OR GFP_HIGHMEM)
     OR table_entry OPT_ZONE_DMA32 (GFP_MOVABLE OR GFP_DMA32)"

definition GFP_ZONE_BAD :: int where
  "GFP_ZONE_BAD =
     push_bit (nat (GFP_DMA OR GFP_HIGHMEM)) 1
     OR push_bit (nat (GFP_DMA OR GFP_DMA32)) 1
     OR push_bit (nat (GFP_DMA32 OR GFP_HIGHMEM)) 1
     OR push_bit (nat (GFP_DMA OR GFP_DMA32 OR GFP_HIGHMEM)) 1
     OR push_bit (nat (GFP_MOVABLE OR GFP_HIGHMEM OR GFP_DMA)) 1
     OR push_bit (nat (GFP_MOVABLE OR GFP_DMA32 OR GFP_DMA)) 1
     OR push_bit (nat (GFP_MOVABLE OR GFP_DMA32 OR GFP_HIGHMEM)) 1
     OR push_bit (nat (GFP_MOVABLE OR GFP_DMA32 OR GFP_DMA OR GFP_HIGHMEM)) 1"

text \<open>A combination marked in \<open>GFP_ZONE_BAD\<close> is reported with \<^verbatim>\<open>BUG_ON\<close>, which prints a message only.\<close>

definition gfp_zone_bad :: "int \<Rightarrow> bool" where
  "gfp_zone_bad flags \<longleftrightarrow> drop_bit (nat (flags AND GFP_ZONEMASK)) GFP_ZONE_BAD AND 1 \<noteq> 0"

definition gfp_zone :: "int \<Rightarrow> nat" where
  "gfp_zone flags =
     nat (drop_bit (nat (flags AND GFP_ZONEMASK) * ZONES_SHIFT) GFP_ZONE_TABLE
          AND (push_bit ZONES_SHIFT 1 - 1))"

definition allocflags_to_migratetype :: "int \<Rightarrow> bool \<Rightarrow> nat" where
  "allocflags_to_migratetype gfp_flags mobility_disabled =
     (if mobility_disabled then MIGRATE_UNMOVABLE
      else (if gfp_flags AND GFP_MOVABLE \<noteq> 0 then 2 else 0)
         + (if gfp_flags AND GFP_RECLAIMABLE \<noteq> 0 then 1 else 0))"

definition ALLOC_WMARK_MIN :: int where "ALLOC_WMARK_MIN = 0"
definition ALLOC_WMARK_LOW :: int where "ALLOC_WMARK_LOW = 1"
definition ALLOC_NO_WATERMARKS :: int where "ALLOC_NO_WATERMARKS = 0x04"
definition ALLOC_WMARK_MASK :: int where "ALLOC_WMARK_MASK = ALLOC_NO_WATERMARKS - 1"
definition ALLOC_HARDER :: int where "ALLOC_HARDER = 0x10"
definition ALLOC_HIGH :: int where "ALLOC_HIGH = 0x20"
definition ALLOC_CPUSET :: int where "ALLOC_CPUSET = 0x40"

record task =
  tsk_flags :: int
  tsk_prio :: int
  ti_flags :: int

definition MAX_RT_PRIO :: int where "MAX_RT_PRIO = 100"
definition PF_MEMALLOC :: int where "PF_MEMALLOC = 0x800"
definition TIF_MEMDIE :: nat where "TIF_MEMDIE = 18"

definition rt_task :: "task \<Rightarrow> bool" where
  "rt_task tk \<longleftrightarrow> tsk_prio tk < MAX_RT_PRIO"

definition test_thread_flags :: "nat \<Rightarrow> task \<Rightarrow> bool" where
  "test_thread_flags f tk \<longleftrightarrow> bit (ti_flags tk) f"

definition gfp_to_alloc_flags :: "task \<Rightarrow> int \<Rightarrow> int" where
  "gfp_to_alloc_flags tk gfp_mask =
     (let wait = gfp_mask AND GFP_WAIT;
          a = (ALLOC_WMARK_MIN OR ALLOC_CPUSET) OR (gfp_mask AND GFP_HIGH);
          a = (if wait = 0
               then (if gfp_mask AND GFP_NOMEMALLOC = 0 then a OR ALLOC_HARDER else a) AND NOT ALLOC_CPUSET
               else if rt_task tk then a OR ALLOC_HARDER else a)
      in if gfp_mask AND GFP_NOMEMALLOC = 0
            \<and> (tsk_flags tk AND PF_MEMALLOC \<noteq> 0 \<or> test_thread_flags TIF_MEMDIE tk)
         then a OR ALLOC_NO_WATERMARKS else a)"


section \<open>Watermarks\<close>

text \<open>
  The first comparison is one of unsigned numbers, as \<^verbatim>\<open>lowmem_reserve\<close> is unsigned; the one in the
  loop is signed. The first argument of the loop is \<open>order - o\<close>.
\<close>

definition s64 :: "int \<Rightarrow> int" where
  "s64 x = (x + 9223372036854775808) mod 18446744073709551616 - 9223372036854775808"

fun watermark_loop :: "nat \<Rightarrow> nat \<Rightarrow> int \<Rightarrow> int \<Rightarrow> zstate \<Rightarrow> bool" where
  "watermark_loop 0 i free_pages m z = True"
| "watermark_loop (Suc k) i free_pages m z =
     (let free_pages = s64 (free_pages - u64 (push_bit i (nr_free z i)));
          m = drop_bit 1 m
      in if free_pages \<le> m then False else watermark_loop k (i + 1) free_pages m z)"

definition do_zone_watermark_ok ::
  "zstate \<Rightarrow> nat \<Rightarrow> int \<Rightarrow> nat \<Rightarrow> int \<Rightarrow> int \<Rightarrow> bool" where
  "do_zone_watermark_ok z order mark classzone_idx alloc_flags free_pages =
     (let m = s64 mark;
          free_pages = s64 (free_pages - (push_bit order 1 + 1));
          m = (if alloc_flags AND ALLOC_HIGH \<noteq> 0 then m - m sdiv 2 else m);
          m = (if alloc_flags AND ALLOC_HARDER \<noteq> 0 then m - m sdiv 4 else m)
      in if u64 free_pages \<le> u64 (m + lowmem_reserve z classzone_idx) then False
         else watermark_loop order 0 free_pages m z)"

definition zone_watermark_ok ::
  "(zstate \<Rightarrow> int) \<Rightarrow> zstate \<Rightarrow> nat \<Rightarrow> int \<Rightarrow> nat \<Rightarrow> int \<Rightarrow> bool" where
  "zone_watermark_ok state z order mark classzone_idx alloc_flags =
     do_zone_watermark_ok z order mark classzone_idx alloc_flags (s64 (state z))"


section \<open>The search along the zonelist\<close>

text \<open>
  \<^verbatim>\<open>cpuset_zone_allowed_softwall\<close> is constantly true and \<^verbatim>\<open>zone_reclaim_mode\<close> is constantly zero.
  An outer \<open>None\<close> is a walk past the end of the list, or an allocation that does not return.
\<close>

function get_page_from_freelist ::
  "(int \<Rightarrow> bool) \<Rightarrow> (zstate \<Rightarrow> int) \<Rightarrow> int \<Rightarrow> nat \<Rightarrow> zoneref list \<Rightarrow> nat \<Rightarrow> int \<Rightarrow> nat \<Rightarrow> nat
   \<Rightarrow> node \<Rightarrow> (int option \<times> node) option" where
  "get_page_from_freelist valid state gfp_mask order zl high_zoneidx alloc_flags classzone_idx t n =
     (case next_zones_zonelist zl high_zoneidx of
        [] \<Rightarrow> None
      | r # rest \<Rightarrow>
          (case zr_zone r of
             None \<Rightarrow> Some (None, n)
           | Some i \<Rightarrow>
               (let z = zone_view i n;
                    mark = watermark z (nat (alloc_flags AND ALLOC_WMARK_MASK))
                in if alloc_flags AND ALLOC_NO_WATERMARKS = 0
                      \<and> \<not> zone_watermark_ok state z order mark classzone_idx alloc_flags
                   then get_page_from_freelist valid state gfp_mask order rest high_zoneidx alloc_flags
                          classzone_idx t n
                   else (case buffered_rmqueue valid order gfp_mask t z of
                           None \<Rightarrow> None
                         | Some (Some page, z) \<Rightarrow> Some (Some page, zone_put i z n)
                         | Some (None, z) \<Rightarrow>
                             get_page_from_freelist valid state gfp_mask order rest high_zoneidx
                               alloc_flags classzone_idx t (zone_put i z n)))))"
  by pat_completeness auto
termination
proof (relation "measure (\<lambda>(v, s, g, ord, zl, rest). length zl)", goal_cases)
  case 1
  then show ?case by simp
next
  case (2 v s g ord zl h a c t n r rest i)
  then show ?case using next_zones_length [of zl h] by simp
next
  case (3 v s g ord zl h a c t n r rest i)
  then show ?case using next_zones_length [of zl h] by simp
qed

declare get_page_from_freelist.simps [simp del]


section \<open>The slow path\<close>

definition should_alloc_retry :: "int \<Rightarrow> nat \<Rightarrow> int \<Rightarrow> bool" where
  "should_alloc_retry gfp_mask order pages_reclaimed =
     (if gfp_mask AND GFP_NORETRY \<noteq> 0 then False
      else if order \<le> 3 then True
      else if gfp_mask AND GFP_REPEAT \<noteq> 0 \<and> pages_reclaimed < push_bit order 1 then True
      else gfp_mask AND GFP_NOFAIL \<noteq> 0)"

partial_function (option) alloc_pages_high_priority ::
  "(int \<Rightarrow> bool) \<Rightarrow> (zstate \<Rightarrow> int) \<Rightarrow> int \<Rightarrow> nat \<Rightarrow> zoneref list \<Rightarrow> nat \<Rightarrow> nat \<Rightarrow> nat
   \<Rightarrow> node \<Rightarrow> (int option \<times> node) option" where
  "alloc_pages_high_priority valid state gfp_mask order zl high_zoneidx classzone_idx t n =
     do { (page, n) \<leftarrow> get_page_from_freelist valid state gfp_mask order zl high_zoneidx
                        ALLOC_NO_WATERMARKS classzone_idx t n;
          if page = None \<and> gfp_mask AND GFP_NOFAIL \<noteq> 0
          then alloc_pages_high_priority valid state gfp_mask order zl high_zoneidx classzone_idx t n
          else Some (page, n) }"

text \<open>From the label \<open>rebalance\<close>. Compaction is a stub that finds nothing.\<close>

partial_function (option) rebalance ::
  "(int \<Rightarrow> bool) \<Rightarrow> (zstate \<Rightarrow> int) \<Rightarrow> task \<Rightarrow> int \<Rightarrow> int \<Rightarrow> nat \<Rightarrow> zoneref list \<Rightarrow> nat \<Rightarrow> int \<Rightarrow> nat \<Rightarrow> nat
   \<Rightarrow> int \<Rightarrow> node \<Rightarrow> (int option \<times> node) option" where
  "rebalance valid state tk progress gfp_mask order zl high_zoneidx alloc_flags classzone_idx t
     pages_reclaimed n =
     do { (page, n) \<leftarrow> (if alloc_flags AND ALLOC_NO_WATERMARKS \<noteq> 0
                       then alloc_pages_high_priority valid state gfp_mask order zl high_zoneidx
                              classzone_idx t n
                       else Some (None, n));
          if page \<noteq> None then Some (page, n)
          else if gfp_mask AND GFP_WAIT = 0 then Some (None, n)
          else if tsk_flags tk AND PF_MEMALLOC \<noteq> 0 then Some (None, n)
          else if test_thread_flags TIF_MEMDIE tk \<and> gfp_mask AND GFP_NOFAIL = 0 then Some (None, n)
          else if should_alloc_retry gfp_mask order (u64 (pages_reclaimed + progress))
          then rebalance valid state tk progress gfp_mask order zl high_zoneidx alloc_flags
                 classzone_idx t (u64 (pages_reclaimed + progress)) n
          else Some (None, n) }"

definition alloc_pages_slowpath ::
  "(int \<Rightarrow> bool) \<Rightarrow> (zstate \<Rightarrow> int) \<Rightarrow> task \<Rightarrow> int \<Rightarrow> int \<Rightarrow> nat \<Rightarrow> zoneref list \<Rightarrow> nat \<Rightarrow> nat \<Rightarrow> nat
   \<Rightarrow> node \<Rightarrow> (int option \<times> node) option" where
  "alloc_pages_slowpath valid state tk progress gfp_mask order zl high_zoneidx classzone_idx t n =
     (if MAX_ORDER \<le> order then Some (None, n)
      else let alloc_flags = gfp_to_alloc_flags tk gfp_mask
           in do { (page, n) \<leftarrow> get_page_from_freelist valid state gfp_mask order zl high_zoneidx
                                 (alloc_flags AND NOT ALLOC_NO_WATERMARKS) classzone_idx t n;
                   if page \<noteq> None then Some (page, n)
                   else rebalance valid state tk progress gfp_mask order zl high_zoneidx alloc_flags
                          classzone_idx t 0 n })"

text \<open>\<open>allowed\<close> is \<^verbatim>\<open>gfp_allowed_mask\<close>.\<close>

definition alloc_pages_nodemask ::
  "(int \<Rightarrow> bool) \<Rightarrow> (zstate \<Rightarrow> int) \<Rightarrow> task \<Rightarrow> int \<Rightarrow> int \<Rightarrow> int \<Rightarrow> nat \<Rightarrow> zoneref list
   \<Rightarrow> node \<Rightarrow> (int option \<times> node) option" where
  "alloc_pages_nodemask valid state tk progress allowed gfp_mask order zl n =
     (let high_zoneidx = gfp_zone gfp_mask;
          t = allocflags_to_migratetype gfp_mask (node_mobility_disabled n);
          gfp_mask = gfp_mask AND allowed
      in case zl of
           [] \<Rightarrow> None
         | r # _ \<Rightarrow>
             if zr_zone r = None then Some (None, n)
             else (case first_zones_zonelist zl high_zoneidx of
                     [] \<Rightarrow> None
                   | p # _ \<Rightarrow>
                       (case zr_zone p of
                          None \<Rightarrow> Some (None, n)
                        | Some preferred \<Rightarrow>
                            do { (page, n) \<leftarrow>
                                   get_page_from_freelist valid state (gfp_mask OR GFP_HARDWALL) order
                                     zl high_zoneidx (ALLOC_WMARK_LOW OR ALLOC_CPUSET) preferred t n;
                                 if page = None
                                 then alloc_pages_slowpath valid state tk progress gfp_mask order zl
                                        high_zoneidx preferred t n
                                 else Some (page, n) })))"

end
