(* ===== verification/ZoneInit.thy ===== *)
theory ZoneInit
  imports Freelist
begin

text \<open>
  Setting up the zones of the node (\<^verbatim>\<open>mm/page_alloc.c\<close>): the page structures, the page-block bits, the
  free lists, the sizes, the per-CPU lists and the zonelist.

  The memory for the page-block bits and the wait table comes zeroed from the boot allocator; here it
  is a list of zero words of the length that is asked for, and for the wait table only its size is kept.
\<close>

section \<open>Sizes\<close>

text \<open>\<^verbatim>\<open>fls\<close> is built on the compiler's count of leading zeros: the number of bits of a positive number.\<close>

fun bit_length :: "nat \<Rightarrow> nat" where
  "bit_length n = (if n = 0 then 0 else Suc (bit_length (n div 2)))"

declare bit_length.simps [simp del]

definition fls :: "int \<Rightarrow> int" where
  "fls x = (if x = 0 then 0 else int (bit_length (nat (u32 x))))"

definition fls_long :: "int \<Rightarrow> int" where
  "fls_long w = int (bit_length (nat w))"

definition ffs :: "int \<Rightarrow> int" where
  "ffs x = fls (s32 (x AND u64 (- x)))"

definition ffz :: "int \<Rightarrow> int" where
  "ffz x = ffs (u64 (NOT x)) - 1"

definition rounddown_pow_of_two :: "int \<Rightarrow> int" where
  "rounddown_pow_of_two n = u64 (push_bit (nat (fls_long n - 1)) 1)"

definition PAGES_PER_WAITQUEUE :: int where "PAGES_PER_WAITQUEUE = 256"

partial_function (option) wait_size_loop :: "int \<Rightarrow> int \<Rightarrow> int option" where
  "wait_size_loop sz pages =
     (if sz < pages then wait_size_loop (u64 (push_bit 1 sz)) pages else Some sz)"

definition wait_table_hash_nr_entries :: "int \<Rightarrow> int option" where
  "wait_table_hash_nr_entries pages =
     do { sz \<leftarrow> wait_size_loop 1 (pages div PAGES_PER_WAITQUEUE);
          let sz = min sz 4096;
          Some (max sz 4) }"

definition wait_table_bits :: "int \<Rightarrow> int" where
  "wait_table_bits sz = ffz (u64 (NOT sz))"

definition zone_batchsize :: "zstate \<Rightarrow> int" where
  "zone_batchsize z =
     (let batch = s32 (present_pages z div 1024);
          batch = (if u64 (batch * PAGE_SIZE) > 512 * 1024 then (512 * 1024) div PAGE_SIZE else batch);
          batch = batch sdiv 4;
          batch = (if batch < 1 then 1 else batch)
      in s32 (rounddown_pow_of_two (u64 (batch + batch sdiv 2)) - 1))"

definition roundup :: "int \<Rightarrow> int \<Rightarrow> int" where
  "roundup x y = u64 (u64 (x + (y - 1)) div y * y)"

definition usemap_size :: "int \<Rightarrow> int" where
  "usemap_size zonesize =
     (let n = roundup zonesize pageblock_nr_pages;
          n = drop_bit pageblock_order n;
          n = u64 (n * NR_PAGEBLOCK_BITS);
          n = roundup n (8 * 4)
      in n div 8)"


section \<open>Page structures and free lists\<close>

definition setup_usemap :: "int \<Rightarrow> zstate \<Rightarrow> zstate" where
  "setup_usemap zonesize z =
     (let usemapsize = usemap_size zonesize
      in z\<lparr>pageblock_flags := (if usemapsize \<noteq> 0 then replicate (nat (usemapsize div 4)) 0 else [])\<rparr>)"

definition zone_init_free_lists :: "zstate \<Rightarrow> zstate" where
  "zone_init_free_lists z =
     z\<lparr>free_list := (\<lambda>order t. if order < MAX_ORDER \<and> t < MIGRATE_TYPES then [] else free_list z order t),
       nr_free := (\<lambda>order. if order < MAX_ORDER then 0 else nr_free z order)\<rparr>"

definition SetPageReserved :: "page \<Rightarrow> page" where
  "SetPageReserved p = SETPAGEFLAG PG_reserved p"

definition memmap_init_page :: "nat \<Rightarrow> nat \<Rightarrow> int \<Rightarrow> zstate \<Rightarrow> zstate option" where
  "memmap_init_page nid zone pfn z =
     (let z = upd_page pfn (SetPageReserved \<circ> reset_page_mapcount \<circ> init_page_count
                \<circ> set_page_links zone nid pfn) z
      in if zone_start_pfn z \<le> pfn \<and> pfn < zone_start_pfn z + spanned_pages z
            \<and> pfn AND (pageblock_nr_pages - 1) = 0
         then set_pageblock_migratetype pfn MIGRATE_MOVABLE z
         else Some z)"

fun memmap_loop :: "nat \<Rightarrow> nat \<Rightarrow> nat \<Rightarrow> int \<Rightarrow> zstate \<Rightarrow> zstate option" where
  "memmap_loop 0 nid zone pfn z = Some z"
| "memmap_loop (Suc k) nid zone pfn z =
     do { z \<leftarrow> memmap_init_page nid zone pfn z;
          memmap_loop k nid zone (pfn + 1) z }"

definition memmap_init_zone :: "int \<Rightarrow> nat \<Rightarrow> nat \<Rightarrow> int \<Rightarrow> zstate \<Rightarrow> zstate option" where
  "memmap_init_zone sz nid zone start_pfn z = memmap_loop (nat sz) nid zone start_pfn z"

definition zap_zone_vm_stats :: "zstate \<Rightarrow> zstate" where
  "zap_zone_vm_stats z = z\<lparr>vm_stat := (\<lambda>_. 0)\<rparr>"


section \<open>The node\<close>

record pgdat =
  pg_node :: node
  nr_zones :: nat
  node_id :: nat
  node_start_pfn :: int
  node_spanned_pages :: int
  node_present_pages :: int
  wait_tables :: "nat \<Rightarrow> int \<times> int"
  nr_kernel_pages :: int
  nr_all_pages :: int
  highest_memmap_pfn :: int

definition calculate_node_totalpages :: "(nat \<Rightarrow> int) \<Rightarrow> (nat \<Rightarrow> int) \<Rightarrow> pgdat \<Rightarrow> pgdat" where
  "calculate_node_totalpages zones_size zhole_size g =
     (let totalpages = fold (\<lambda>i n. u64 (n + zones_size i)) [0..<MAX_NR_ZONES] 0;
          realpages = fold (\<lambda>i n. u64 (n - zhole_size i)) [0..<MAX_NR_ZONES] totalpages
      in g\<lparr>node_spanned_pages := totalpages, node_present_pages := realpages\<rparr>)"

definition is_highmem_idx :: "nat \<Rightarrow> bool" where
  "is_highmem_idx idx \<longleftrightarrow> idx = ZONE_HIGHMEM"

definition zone_wait_table_init :: "nat \<Rightarrow> int \<Rightarrow> pgdat \<Rightarrow> pgdat option" where
  "zone_wait_table_init j sz g =
     do { entries \<leftarrow> wait_table_hash_nr_entries sz;
          Some (g\<lparr>wait_tables := (wait_tables g)(j := (entries, wait_table_bits entries))\<rparr>) }"

definition on_zone :: "nat \<Rightarrow> (zstate \<Rightarrow> zstate) \<Rightarrow> pgdat \<Rightarrow> pgdat" where
  "on_zone j f g = g\<lparr>pg_node := zone_put j (f (zone_view j (pg_node g))) (pg_node g)\<rparr>"

definition init_currently_empty_zone :: "nat \<Rightarrow> int \<Rightarrow> int \<Rightarrow> pgdat \<Rightarrow> pgdat option" where
  "init_currently_empty_zone j start sz g =
     do { g \<leftarrow> zone_wait_table_init j sz g;
          Some (on_zone j (\<lambda>z. zone_init_free_lists (z\<lparr>zone_start_pfn := start\<rparr>)) (g\<lparr>nr_zones := j + 1\<rparr>)) }"

text \<open>The size of a page structure and the pages reserved for DMA are parameters.\<close>

definition zone_realsize :: "int \<Rightarrow> int \<Rightarrow> nat \<Rightarrow> (nat \<Rightarrow> int) \<Rightarrow> (nat \<Rightarrow> int) \<Rightarrow> int" where
  "zone_realsize page_bytes dma_reserve j zones_size zhole_size =
     (let sz = zones_size j;
          realsize = u64 (sz - zhole_size j);
          memmap_pages = drop_bit PAGE_SHIFT (PAGE_ALIGN (u64 (sz * page_bytes)));
          realsize = (if memmap_pages \<le> realsize then realsize - memmap_pages else realsize)
      in if j = 0 \<and> dma_reserve < realsize then realsize - dma_reserve else realsize)"

definition init_zone ::
  "int \<Rightarrow> int \<Rightarrow> (nat \<Rightarrow> int) \<Rightarrow> (nat \<Rightarrow> int) \<Rightarrow> per_cpu_pages \<Rightarrow> nat \<Rightarrow> int \<times> pgdat \<Rightarrow> (int \<times> pgdat) option"
  where
  "init_zone page_bytes dma_reserve zones_size zhole_size boot_pageset j = (\<lambda>(start, g).
     (let sz = zones_size j;
          realsize = zone_realsize page_bytes dma_reserve j zones_size zhole_size;
          g = (if is_highmem_idx j then g
               else g\<lparr>nr_kernel_pages := u64 (nr_kernel_pages g + realsize)\<rparr>);
          g = g\<lparr>nr_all_pages := u64 (nr_all_pages g + realsize)\<rparr>;
          g = on_zone j (\<lambda>z. zap_zone_vm_stats (z\<lparr>spanned_pages := sz, present_pages := realsize,
                pageset := boot_pageset\<rparr>)) g
      in if sz = 0 then Some (start, g)
         else do {
           let g = on_zone j (setup_usemap sz) g;
           g \<leftarrow> init_currently_empty_zone j start sz g;
           z \<leftarrow> memmap_init_zone sz (node_id g) j start (zone_view j (pg_node g));
           let last = u64 (start + sz - 1);
           Some (u64 (start + sz),
             g\<lparr>pg_node := zone_put j z (pg_node g),
               highest_memmap_pfn := max (highest_memmap_pfn g) last\<rparr>) }))"

fun init_zones ::
  "int \<Rightarrow> int \<Rightarrow> (nat \<Rightarrow> int) \<Rightarrow> (nat \<Rightarrow> int) \<Rightarrow> per_cpu_pages \<Rightarrow> nat list \<Rightarrow> int \<times> pgdat \<Rightarrow> (int \<times> pgdat) option"
  where
  "init_zones page_bytes dma_reserve zones_size zhole_size boot_pageset [] s = Some s"
| "init_zones page_bytes dma_reserve zones_size zhole_size boot_pageset (j # js) s =
     do { s \<leftarrow> init_zone page_bytes dma_reserve zones_size zhole_size boot_pageset j s;
          init_zones page_bytes dma_reserve zones_size zhole_size boot_pageset js s }"

definition free_area_init_core ::
  "int \<Rightarrow> int \<Rightarrow> (nat \<Rightarrow> int) \<Rightarrow> (nat \<Rightarrow> int) \<Rightarrow> per_cpu_pages \<Rightarrow> pgdat \<Rightarrow> pgdat option" where
  "free_area_init_core page_bytes dma_reserve zones_size zhole_size boot_pageset g =
     map_option snd (init_zones page_bytes dma_reserve zones_size zhole_size boot_pageset
       [0..<MAX_NR_ZONES] (node_start_pfn g, g\<lparr>nr_zones := 0\<rparr>))"

definition free_area_init_node ::
  "int \<Rightarrow> int \<Rightarrow> per_cpu_pages \<Rightarrow> nat \<Rightarrow> (nat \<Rightarrow> int) \<Rightarrow> int \<Rightarrow> (nat \<Rightarrow> int) \<Rightarrow> pgdat \<Rightarrow> pgdat option" where
  "free_area_init_node page_bytes dma_reserve boot_pageset nid zones_size start_pfn zhole_size g =
     free_area_init_core page_bytes dma_reserve zones_size zhole_size boot_pageset
       (calculate_node_totalpages zones_size zhole_size (g\<lparr>node_id := nid, node_start_pfn := start_pfn\<rparr>))"

text \<open>The pages the memory map of the node has to cover, and their number.\<close>

definition node_map_range :: "pgdat \<Rightarrow> int \<times> int" where
  "node_map_range g =
     (let start = node_start_pfn g AND NOT (push_bit (MAX_ORDER - 1) 1 - 1);
          end = ALIGN (u64 (node_start_pfn g + node_spanned_pages g)) (push_bit (MAX_ORDER - 1) 1)
      in (start, u64 (end - start)))"


section \<open>Zonelists and page sets\<close>

definition populated_zone :: "zone \<Rightarrow> bool" where
  "populated_zone z \<longleftrightarrow> present_pages z \<noteq> 0"

definition zoneref_set_zone :: "nat \<Rightarrow> zoneref" where
  "zoneref_set_zone i = \<lparr>zr_zone = Some i, zr_idx = i\<rparr>"

text \<open>The entries that are written, from the highest zone down.\<close>

fun build_zonelists_node :: "node \<Rightarrow> nat \<Rightarrow> zoneref list" where
  "build_zonelists_node n 0 = []"
| "build_zonelists_node n (Suc i) =
     (if populated_zone (node_zones n i) then [zoneref_set_zone i] else []) @ build_zonelists_node n i"

text \<open>There is one node, so that the loops over the other nodes add nothing.\<close>

definition build_zonelists :: "node \<Rightarrow> zoneref list" where
  "build_zonelists n = build_zonelists_node n MAX_NR_ZONES @ [\<lparr>zr_zone = None, zr_idx = 0\<rparr>]"

definition high_wmark_pages :: "zone \<Rightarrow> int" where
  "high_wmark_pages z = watermark z 2"

fun free_zone_pages_loop :: "node \<Rightarrow> nat \<Rightarrow> zoneref list \<Rightarrow> int \<Rightarrow> int" where
  "free_zone_pages_loop n h [] acc = acc"
| "free_zone_pages_loop n h (r # rs) acc =
     (case zr_zone r of
        None \<Rightarrow> if h < zr_idx r then free_zone_pages_loop n h rs acc else acc
      | Some i \<Rightarrow>
          if h < zr_idx r then free_zone_pages_loop n h rs acc
          else let sz = present_pages (node_zones n i); high = high_wmark_pages (node_zones n i)
               in free_zone_pages_loop n h rs (if high < sz then u32 (acc + (sz - high)) else acc))"

definition nr_free_zone_pages :: "node \<Rightarrow> zoneref list \<Rightarrow> nat \<Rightarrow> int" where
  "nr_free_zone_pages n zl offset = free_zone_pages_loop n offset zl 0"

definition setup_pageset :: "int \<Rightarrow> per_cpu_pages" where
  "setup_pageset batch = \<lparr>pcp_count = 0, pcp_high = s32 (6 * batch), pcp_batch = s32 (max 1 (1 * batch)),
     pcp_lists = (\<lambda>_. [])\<rparr>"

definition setup_pagelist_highmark :: "int \<Rightarrow> per_cpu_pages \<Rightarrow> per_cpu_pages" where
  "setup_pagelist_highmark high p =
     (let p = p\<lparr>pcp_high := s32 high, pcp_batch := s32 (max 1 (high div 4))\<rparr>
      in if int PAGE_SHIFT * 8 < high div 4 then p\<lparr>pcp_batch := int PAGE_SHIFT * 8\<rparr> else p)"

definition setup_zone_pageset :: "int \<Rightarrow> zstate \<Rightarrow> zstate" where
  "setup_zone_pageset percpu_pagelist_fraction z =
     (let p = setup_pageset (u64 (zone_batchsize z));
          p = (if percpu_pagelist_fraction \<noteq> 0
               then setup_pagelist_highmark (present_pages z div percpu_pagelist_fraction) p else p)
      in z\<lparr>pageset := p\<rparr>)"

text \<open>\<^verbatim>\<open>build_all_zonelists\<close> at boot: the zonelist, the boot page set and the switch for mobility grouping.\<close>

definition GFP_IO :: int where "GFP_IO = 0x40"
definition GFP_FS :: int where "GFP_FS = 0x80"

definition GFP_HIGHUSER_MOVABLE :: int where
  "GFP_HIGHUSER_MOVABLE =
     GFP_WAIT OR GFP_IO OR GFP_FS OR GFP_HARDWALL OR GFP_HIGHMEM OR GFP_MOVABLE"

definition build_all_zonelists :: "node \<Rightarrow> zoneref list \<times> per_cpu_pages \<times> node" where
  "build_all_zonelists n =
     (let zl = build_zonelists n;
          total = nr_free_zone_pages n zl (gfp_zone GFP_HIGHUSER_MOVABLE)
      in (zl, setup_pageset 0,
          n\<lparr>node_mobility_disabled := (total < pageblock_nr_pages * int MIGRATE_TYPES)\<rparr>))"

end
