(* ===== verification/FreelistProps.thy ===== *)
theory FreelistProps
  imports Freelist
begin

text \<open>
  Correctness of the search for a zone: what a request takes, from which zone, when it returns, and
  what the watermark test and the zone table compute.
\<close>

section \<open>Zones of a node\<close>

text \<open>
  What holds of zone number \<open>i\<close> between operations. The bound on the size of the zone keeps the counters
  of the per-CPU lists from overflowing.
\<close>

definition zone_ok :: "(int \<Rightarrow> bool) \<Rightarrow> nat \<Rightarrow> zstate \<Rightarrow> bool" where
  "zone_ok valid i z \<longleftrightarrow> zone_no z = i \<and> pcp_ok valid z \<and> flags_ok z \<and> kinds_ok z \<and> all_fresh z \<and>
     pcp_count (pageset z) = int (pcp_total z) \<and> 0 \<le> pcp_batch (pageset z) \<and>
     (pcp_batch (pageset z) \<le> 1 \<or> pcp_batch (pageset z) \<le> pcp_high (pageset z)) \<and>
     finite (zone_pages valid z) \<and> int (card (zone_pages valid z)) + pcp_batch (pageset z) < 2147483646"

definition node_ok :: "(int \<Rightarrow> bool) \<Rightarrow> node \<Rightarrow> bool" where
  "node_ok valid n \<longleftrightarrow> (\<forall>i < MAX_NR_ZONES. zone_ok valid i (zone_view i n))"

lemma pcp_total_card:
  assumes ok: "pcp_ok valid z"
  shows "pcp_total z = card (pcp_pages z)"
proof -
  note D = pcp_okD [OF ok]
  have "pcp_pages z = (\<Union>t<MIGRATE_PCPTYPES. set (pcp_list t z))"
    using D(5) unfolding pcp_pages_list by auto (metis empty_iff empty_set lessThan_iff not_le)
  moreover have "card (\<Union>t<MIGRATE_PCPTYPES. set (pcp_list t z))
      = (\<Sum>t<MIGRATE_PCPTYPES. card (set (pcp_list t z)))"
    by (intro card_UN_disjoint) (simp_all, use D(4) in blast)
  moreover have "card (set (pcp_list t z)) = length (pcp_list t z)" for t
    by (rule distinct_card [OF D(3)])
  ultimately show ?thesis by (simp add: pcp_total_def)
qed

lemma zone_okD:
  assumes "zone_ok valid i z"
  shows "zone_no z = i" "pcp_ok valid z" "pcp_sane z" "flags_ok z" "all_fresh z" "kinds_ok z"
proof -
  have "pcp_ok valid z" "finite (zone_pages valid z)"
    "int (card (zone_pages valid z)) + pcp_batch (pageset z) < 2147483646"
    using assms by (simp_all add: zone_ok_def)
  then have "int (pcp_total z) + pcp_batch (pageset z) < 2147483646"
    using card_mono [OF _ pcp_okD(6) [of valid z]] by (simp add: pcp_total_card)
  then show "pcp_sane z" using assms by (simp add: pcp_sane_def zone_ok_def)
qed (use assms in \<open>simp_all add: zone_ok_def\<close>)

lemma zone_ok_served:
  assumes "zone_ok valid i z" "served valid order z r z'"
  shows "zone_ok valid i z'"
proof -
  have "same_zone z z'" using assms(2) by (simp add: served_def)
  then show ?thesis using assms flags_same_zone [of z z']
    by (simp add: zone_ok_def served_def same_zone_def)
qed

lemma served_stock:
  assumes "served valid order z r z'"
  shows "stock z' = stock z - (case r of None \<Rightarrow> {} | Some p \<Rightarrow> block p (2 ^ order))"
  using assms by (auto simp: served_def split: option.splits dest: stock_stats)

lemma stock_sub_zone: "pcp_ok valid z \<Longrightarrow> stock z \<subseteq> zone_pages valid z"
  using free_set_zone pcp_okD(1,6) by (fastforce simp: stock_def)

lemma zone_view_put [simp]: "zone_view i (zone_put i z n) = z"
  by (simp add: zone_view_def zone_put_def)
    (cases z, simp add: zone.defs zstate.defs)

lemma zone_view_put_other:
  "j \<noteq> i \<Longrightarrow> zone_view j (zone_put i z n) =
     (zone_view j n)\<lparr>mem_map := mem_map z, global_stat := global_stat z,
        page_group_by_mobility_disabled := page_group_by_mobility_disabled z\<rparr>"
  by (simp add: zone_view_def zone_put_def zone.defs zstate.defs)

lemma zone_view_shared:
  "mem_map (zone_view i n) = node_mem_map n" "global_stat (zone_view i n) = node_stat n"
  "page_group_by_mobility_disabled (zone_view i n) = node_mobility_disabled n"
  by (simp_all add: zone_view_def zone.defs zstate.defs)

text \<open>The state of a zone depends on the page structures of its own pages only.\<close>

definition agree :: "(int \<Rightarrow> bool) \<Rightarrow> zstate \<Rightarrow> (int \<Rightarrow> page) \<Rightarrow> bool" where
  "agree valid z m \<longleftrightarrow> (\<forall>p. valid p \<longrightarrow> (page_zone_id (m p) = zone_no z \<longleftrightarrow> p \<in> zone_pages valid z)) \<and>
     (\<forall>p \<in> zone_pages valid z. m p = mem_map z p)"

lemma moved_fields [simp]:
  "blocks (z\<lparr>mem_map := m, global_stat := g, page_group_by_mobility_disabled := d\<rparr>) = blocks z"
  "free_set (z\<lparr>mem_map := m, global_stat := g, page_group_by_mobility_disabled := d\<rparr>) = free_set z"
  "pcp_pages (z\<lparr>mem_map := m, global_stat := g, page_group_by_mobility_disabled := d\<rparr>) = pcp_pages z"
  "stock (z\<lparr>mem_map := m, global_stat := g, page_group_by_mobility_disabled := d\<rparr>) = stock z"
  "pcp_total (z\<lparr>mem_map := m, global_stat := g, page_group_by_mobility_disabled := d\<rparr>) = pcp_total z"
  "merged (z\<lparr>mem_map := m, global_stat := g, page_group_by_mobility_disabled := d\<rparr>) = merged z"
  "lists_ok (z\<lparr>mem_map := m, global_stat := g, page_group_by_mobility_disabled := d\<rparr>) = lists_ok z"
  "list_count (z\<lparr>mem_map := m, global_stat := g, page_group_by_mobility_disabled := d\<rparr>) = list_count z"
  "flags_ok (z\<lparr>mem_map := m, global_stat := g, page_group_by_mobility_disabled := d\<rparr>) = flags_ok z"
  "pcp_list t (z\<lparr>mem_map := m, global_stat := g, page_group_by_mobility_disabled := d\<rparr>) = pcp_list t z"
  "kinds_ok (z\<lparr>mem_map := m, global_stat := g, page_group_by_mobility_disabled := d\<rparr>) = kinds_ok z"
  by (simp_all add: kinds_ok_def blocks_def listed_def free_set_def pcp_pages_def stock_def pcp_total_def pcp_list_def
      merged_def lists_ok_def list_count_def fun_eq_iff flags_ok_def)

lemma zone_ok_agree:
  assumes ok: "zone_ok valid i z" and ag: "agree valid z m"
  shows "zone_ok valid i (z\<lparr>mem_map := m, global_stat := g, page_group_by_mobility_disabled := d\<rparr>)"
    (is "zone_ok valid i ?z")
proof -
  note Z = zone_okD [OF ok]
  note D = pcp_okD [OF Z(2)]
  have zp: "zone_pages valid ?z = zone_pages valid z"
    using ag by (auto simp: zone_pages_def agree_def)
  have mm: "m p = mem_map z p" if "p \<in> zone_pages valid z" for p using ag that by (simp add: agree_def)
  have "block_ok valid ?z p j" if "(p, j) \<in> blocks z" for p j
  proof -
    have b: "block_ok valid z p j" by (rule buddy_invD(2) [OF D(1) that])
    then have "p \<in> zone_pages valid z" by (auto simp: block_ok_def block_def subset_iff)
    then show ?thesis using b mm by (simp add: block_ok_def zp)
  qed
  then have "buddy_inv valid ?z"
    unfolding buddy_inv_def using buddy_invD [OF D(1)] mm
    by (simp add: zp) (auto simp: buddy_inv_def)
  then have "pcp_ok valid ?z"
    unfolding pcp_ok_def using D(2-5) D(6,7) mm subsetD [OF D(6)] by (simp add: zp)
  moreover have "all_fresh ?z"
    using Z(5) stock_sub_zone [OF Z(2)] mm by (auto simp: all_fresh_def)
  ultimately show ?thesis using ok by (simp add: zone_ok_def zp)
qed

text \<open>A change within one zone leaves the other zones as they are.\<close>

lemma node_put:
  assumes ok: "node_ok valid n" and i: "i < MAX_NR_ZONES" and z': "zone_ok valid i z'"
    and zp: "zone_pages valid z' = zone_pages valid (zone_view i n)"
    and out: "\<And>q. q \<notin> zone_pages valid (zone_view i n) \<Longrightarrow> mem_map z' q = node_mem_map n q"
  shows "node_ok valid (zone_put i z' n)"
    "j < MAX_NR_ZONES \<Longrightarrow> stock (zone_view j (zone_put i z' n)) = (if j = i then stock z' else stock (zone_view j n))"
    "valid q \<Longrightarrow> page_zone_id (node_mem_map (zone_put i z' n) q) = page_zone_id (node_mem_map n q)"
proof -
  have Zi: "zone_no (zone_view i n) = i" "zone_no z' = i" using ok i z' by (simp_all add: node_ok_def zone_ok_def)
  have other: "agree valid (zone_view j n) (mem_map z')" if j: "j \<noteq> i" "j < MAX_NR_ZONES" for j
  proof -
    have nj: "zone_no (zone_view j n) = j" using ok j by (simp add: node_ok_def zone_ok_def)
    have dis: "p \<notin> zone_pages valid (zone_view i n)" if "p \<in> zone_pages valid (zone_view j n)" for p
      using that j nj Zi by (simp add: zone_pages_def zone_view_shared)
    have "page_zone_id (mem_map z' p) = j \<longleftrightarrow> p \<in> zone_pages valid (zone_view j n)" if "valid p" for p
    proof (cases "p \<in> zone_pages valid (zone_view i n)")
      case True
      then have "page_zone_id (mem_map z' p) = i" using zp Zi by (auto simp: zone_pages_def)
      then show ?thesis using dis True j by auto
    next
      case False
      then show ?thesis using out that nj by (simp add: zone_pages_def zone_view_shared)
    qed
    then show ?thesis using out dis nj unfolding agree_def by (simp add: zone_view_shared)
  qed
  show "node_ok valid (zone_put i z' n)"
    unfolding node_ok_def
  proof (intro allI impI)
    fix j
    assume j: "j < MAX_NR_ZONES"
    show "zone_ok valid j (zone_view j (zone_put i z' n))"
    proof (cases "j = i")
      case True
      then show ?thesis using z' by simp
    next
      case False
      then show ?thesis
        using zone_ok_agree [OF _ other [OF False j]] ok j by (simp add: zone_view_put_other node_ok_def)
    qed
  qed
  show "stock (zone_view j (zone_put i z' n)) = (if j = i then stock z' else stock (zone_view j n))"
    if "j < MAX_NR_ZONES"
    by (simp add: zone_view_put_other)
  show "page_zone_id (node_mem_map (zone_put i z' n) q) = page_zone_id (node_mem_map n q)" if v: "valid q"
  proof (cases "q \<in> zone_pages valid (zone_view i n)")
    case True
    then have "q \<in> zone_pages valid z'" using zp by simp
    then show ?thesis using True Zi by (simp add: zone_pages_def zone_put_def zone_view_shared)
  next
    case False
    then show ?thesis using out by (simp add: zone_put_def)
  qed
qed

text \<open>Taking pages from a zone.\<close>

lemma node_ok_put:
  assumes ok: "node_ok valid n" and i: "i < MAX_NR_ZONES"
    and sv: "served valid order (zone_view i n) r z'"
  shows "node_ok valid (zone_put i z' n)"
    "j < MAX_NR_ZONES \<Longrightarrow> stock (zone_view j (zone_put i z' n)) =
       stock (zone_view j n) - (if j = i then case r of None \<Rightarrow> {} | Some p \<Rightarrow> block p (2 ^ order) else {})"
    "valid q \<Longrightarrow> page_zone_id (node_mem_map (zone_put i z' n) q) = page_zone_id (node_mem_map n q)"
proof -
  have Zi: "zone_ok valid i (zone_view i n)" using ok i by (simp add: node_ok_def)
  note D = zone_okD [OF Zi]
  have out: "mem_map z' q = node_mem_map n q" if "q \<notin> zone_pages valid (zone_view i n)" for q
  proof -
    have "q \<notin> stock (zone_view i n)" using that stock_sub_zone [OF D(2)] by blast
    then show ?thesis using sv by (simp add: served_def zone_view_shared)
  qed
  have zp: "zone_pages valid z' = zone_pages valid (zone_view i n)" using sv by (simp add: served_def)
  note P = node_put [OF ok i zone_ok_served [OF Zi sv] zp out]
  show "node_ok valid (zone_put i z' n)" by (rule P(1))
  show "valid q \<Longrightarrow> page_zone_id (node_mem_map (zone_put i z' n) q) = page_zone_id (node_mem_map n q)"
    by (rule P(3))
  show "j < MAX_NR_ZONES \<Longrightarrow> stock (zone_view j (zone_put i z' n)) =
       stock (zone_view j n) - (if j = i then case r of None \<Rightarrow> {} | Some p \<Rightarrow> block p (2 ^ order) else {})"
    using P(2) served_stock [OF sv] by simp
qed


section \<open>The search\<close>

text \<open>A zonelist of this node: entries for its zones, with their index, and the entry that ends it.\<close>

definition zonelist_ok :: "zoneref list \<Rightarrow> bool" where
  "zonelist_ok zl \<longleftrightarrow> zl \<noteq> [] \<and> last zl = \<lparr>zr_zone = None, zr_idx = 0\<rparr> \<and>
     (\<forall>r \<in> set zl. \<forall>i. zr_zone r = Some i \<longrightarrow> zr_idx r = i \<and> i < MAX_NR_ZONES)"

lemma next_zones_suffix: "\<exists>us. zl = us @ next_zones_zonelist zl h \<and> (\<forall>u \<in> set us. h < zr_idx u)"
proof (induction zl)
  case (Cons z zs)
  then obtain us where "zs = us @ next_zones_zonelist zs h" "\<forall>u \<in> set us. h < zr_idx u" by blast
  then show ?case by (cases "h < zr_idx z") (auto intro!: exI [of _ "z # us"])
qed simp

lemma next_zones_head: "next_zones_zonelist zl h = r # rest \<Longrightarrow> zr_idx r \<le> h"
  by (induction zl) (auto split: if_splits)

lemma next_zones_ok:
  assumes "zonelist_ok zl"
  obtains r rest where "next_zones_zonelist zl h = r # rest" "r \<in> set zl" "zr_idx r \<le> h"
    "zr_zone r \<noteq> None \<Longrightarrow> zonelist_ok rest" "set rest \<subseteq> set zl"
proof -
  obtain us where us: "zl = us @ next_zones_zonelist zl h" "\<forall>u \<in> set us. h < zr_idx u"
    using next_zones_suffix by blast
  have "next_zones_zonelist zl h \<noteq> []"
  proof
    assume "next_zones_zonelist zl h = []"
    then have "us = zl" using us(1) by simp
    moreover have "last zl \<in> set zl" using assms by (intro last_in_set) (simp add: zonelist_ok_def)
    ultimately have "h < zr_idx (last zl)" using us(2) by blast
    then show False using assms by (simp add: zonelist_ok_def)
  qed
  then obtain r rest where r: "next_zones_zonelist zl h = r # rest" by (cases "next_zones_zonelist zl h") auto
  have zl: "zl = us @ r # rest" using us(1) r by simp
  have "zonelist_ok rest" if "zr_zone r \<noteq> None"
  proof -
    have "rest \<noteq> []" using that assms zl by (auto simp: zonelist_ok_def)
    then show ?thesis using assms unfolding zl by (auto simp: zonelist_ok_def)
  qed
  moreover have "r \<in> set zl" "set rest \<subseteq> set zl" using zl by auto
  ultimately show ?thesis using that r next_zones_head [OF r] by blast
qed

text \<open>The effect of a request on the node.\<close>

definition taken_from :: "nat \<Rightarrow> int \<Rightarrow> nat \<Rightarrow> node \<Rightarrow> node \<Rightarrow> bool" where
  "taken_from order p i n n' \<longleftrightarrow> block p (2 ^ order) \<subseteq> stock (zone_view i n) \<and>
     (\<forall>j < MAX_NR_ZONES. stock (zone_view j n') =
        stock (zone_view j n) - (if j = i then block p (2 ^ order) else {}))"

text \<open>A page that has been handed out, as \<^verbatim>\<open>prep_new_page\<close> leaves it.\<close>

definition out_page :: "page \<Rightarrow> bool" where
  "out_page q \<longleftrightarrow> pg_count q = 1 \<and> pg_mapping q = 0 \<and> pg_flags q AND PAGE_FLAGS_CHECK_AT_PREP = 0"

lemma tail_pages_below:
  "q < p \<Longrightarrow> mem_map (tail_pages k p h z) q = mem_map z q"
  by (induction k arbitrary: p z) auto

lemma prep_out:
  assumes "prep_new_page p order g z = (False, z')"
  shows "out_page (mem_map z' p)"
proof -
  have c: "\<not> check_pages (nat (push_bit order 1)) p z" using assms by (auto simp: prep_new_page_def split: if_splits)
  obtain k where k: "nat (push_bit order 1) = Suc k"
    by (cases "nat (push_bit order (1 :: int))") (simp_all add: push_bit_eq_mult)
  define z1 where "z1 = upd_page p (set_page_refcounted \<circ> set_page_private 0) z"
  have z': "z' = (if order \<noteq> 0 \<and> g AND GFP_COMP \<noteq> 0 then prep_compound_page p order z1 else z1)"
    using assms c by (auto simp: prep_new_page_def z1_def)
  have "mem_map z' p = mem_map z1 p" unfolding z' by (simp add: prep_compound_page_def tail_pages_below)
  moreover have "\<not> check_new_page (mem_map z p)" using c unfolding k by simp
  ultimately show ?thesis
    by (auto simp: z1_def out_page_def check_new_page_def set_page_refcounted_def set_page_count_def set_page_private_def)
qed

lemma buffered_out:
  assumes "buffered_rmqueue valid order g t z = Some (Some p, z')"
  shows "out_page (mem_map z' p)"
proof -
  have "buffered_rmqueue valid order g t z = Some y \<Longrightarrow> (case fst y of None \<Rightarrow> True | Some p \<Rightarrow> out_page (mem_map (snd y) p))" for y
  proof (induct rule: buffered_rmqueue.raw_induct [rotated, consumes 1, case_names step])
    case (step br valid order g t z y)
    obtain r z1 where r: "buffered_page valid order g t z = Some (r, z1)" using step(2) by (auto simp: bind_eq_Some_conv)
    show ?case
    proof (cases r)
      case None
      then show ?thesis using step(2) r by auto
    next
      case (Some p)
      obtain bad z2 where b: "prep_new_page p order g z1 = (bad, z2)" by fastforce
      show ?thesis using step(2) r Some b prep_out [of p order g z1 z2] step(1) [of valid order g t z2 y]
        by (cases bad) auto
    qed
  qed
  from this [OF assms] show ?thesis by simp
qed

definition granted :: "(int \<Rightarrow> bool) \<Rightarrow> nat \<Rightarrow> zoneref list \<Rightarrow> nat \<Rightarrow> node \<Rightarrow> int option \<Rightarrow> node \<Rightarrow> bool" where
  "granted valid order zl h n r n' \<longleftrightarrow> node_ok valid n' \<and>
     (\<forall>q. (\<forall>j < MAX_NR_ZONES. q \<notin> stock (zone_view j n)) \<longrightarrow> node_mem_map n' q = node_mem_map n q) \<and>
     (\<forall>q. valid q \<longrightarrow> page_zone_id (node_mem_map n' q) = page_zone_id (node_mem_map n q)) \<and>
     (case r of
        None \<Rightarrow> \<forall>j < MAX_NR_ZONES. stock (zone_view j n') = stock (zone_view j n)
      | Some p \<Rightarrow> out_page (node_mem_map n' p) \<and>
          (\<exists>i \<in> zr_idx ` set zl. i \<le> h \<and> i < MAX_NR_ZONES \<and> taken_from order p i n n'))"

lemma granted_None: "node_ok valid n \<Longrightarrow> granted valid order zl h n None n"
  by (simp add: granted_def)

lemma granted_trans:
  "granted valid order zl h n None n1 \<Longrightarrow> granted valid order zl h n1 r n2 \<Longrightarrow>
   granted valid order zl h n r n2"
  by (cases r) (auto simp: granted_def taken_from_def)

lemma granted_mono:
  "granted valid order zl h n r n' \<Longrightarrow> set zl \<subseteq> set zl' \<Longrightarrow> granted valid order zl' h n r n'"
  by (cases r) (simp_all add: granted_def, blast)

lemma get_page_ok:
  assumes "node_ok valid n" "zonelist_ok zl" "t < MIGRATE_PCPTYPES"
  shows "\<exists>r n'. get_page_from_freelist valid state g order zl h a c t n = Some (r, n') \<and>
    granted valid order zl h n r n'"
  using assms
proof (induction "length zl" arbitrary: zl n rule: less_induct)
  case less
  obtain r rest where nz: "next_zones_zonelist zl h = r # rest" "r \<in> set zl" "zr_idx r \<le> h"
    "zr_zone r \<noteq> None \<Longrightarrow> zonelist_ok rest" "set rest \<subseteq> set zl"
    using next_zones_ok [OF less.prems(2), of h] by blast
  show ?case
  proof (cases "zr_zone r")
    case None
    then show ?thesis using nz less.prems(1) granted_None
      by (subst get_page_from_freelist.simps) simp
  next
    case (Some i)
    then have i: "zr_idx r = i" "i < MAX_NR_ZONES" using less.prems(2) nz(2) by (auto simp: zonelist_ok_def)
    have len: "length rest < length zl" using nz(1) next_zones_length [of zl h] by simp
    have rok: "zonelist_ok rest" using nz(4) Some by simp
    let ?z = "zone_view i n"
    let ?next = "get_page_from_freelist valid state g order rest h a c t"
    have Zi: "zone_ok valid i ?z" using less.prems(1) i(2) by (simp add: node_ok_def)
    obtain x z' where b: "buffered_rmqueue valid order g t ?z = Some (x, z')"
      and sv: "served valid order ?z x z'"
      using buffered_served [OF zone_okD(2-5) [OF Zi] less.prems(3)] by blast
    note P = node_ok_put [OF less.prems(1) i(2) sv]
    have fr: "node_mem_map (zone_put i z' n) q = node_mem_map n q" if "\<forall>j < MAX_NR_ZONES. q \<notin> stock (zone_view j n)" for q
      using that sv i(2) by (simp add: served_def zone_put_def zone_view_shared)
    have gN: "granted valid order zl h n None (zone_put i z' n)" if "x = None"
      using P that fr by (simp add: granted_def)
    define skip where "skip \<longleftrightarrow> a AND ALLOC_NO_WATERMARKS = 0 \<and>
      \<not> zone_watermark_ok state ?z order (watermark ?z (nat (a AND ALLOC_WMARK_MASK))) c a"
    have run: "get_page_from_freelist valid state g order zl h a c t n =
      (if skip then ?next n
       else case x of Some p \<Rightarrow> Some (Some p, zone_put i z' n) | None \<Rightarrow> ?next (zone_put i z' n))"
      using nz(1) Some b unfolding skip_def
      by (subst get_page_from_freelist.simps) (simp add: Let_def split: option.split)
    show ?thesis
    proof (cases skip)
      case True
      obtain y n' where "?next n = Some (y, n')" "granted valid order rest h n y n'"
        using less.hyps [OF len less.prems(1) rok less.prems(3)] by blast
      then show ?thesis using run True granted_mono [OF _ nz(5)] by auto
    next
      case False
      show ?thesis
      proof (cases x)
        case None
        obtain y n' where "?next (zone_put i z' n) = Some (y, n')"
          "granted valid order rest h (zone_put i z' n) y n'"
          using less.hyps [OF len P(1) rok less.prems(3)] by blast
        then show ?thesis
          using run False None granted_trans [OF gN granted_mono [OF _ nz(5)]] by auto
      next
        case (Some p)
        have "out_page (node_mem_map (zone_put i z' n) p)" "block p (2 ^ order) \<subseteq> stock ?z"
          using sv Some b buffered_out [of valid order g t ?z p z'] by (simp_all add: served_def zone_put_def)
        moreover have "i \<in> zr_idx ` set zl" "i \<le> h" using i(1) nz(2,3) by auto
        ultimately have "granted valid order zl h n (Some p) (zone_put i z' n)"
          using P i(2) Some fr by (auto simp: granted_def taken_from_def)
        then show ?thesis using run False Some by simp
      qed
    qed
  qed
qed


section \<open>The slow path\<close>

lemma high_priority_ok:
  assumes "alloc_pages_high_priority valid state g order zl h c t n = Some y"
    "node_ok valid n" "zonelist_ok zl" "t < MIGRATE_PCPTYPES"
  shows "granted valid order zl h n (fst y) (snd y)"
  using assms
proof (induct rule: alloc_pages_high_priority.raw_induct [rotated, consumes 1, case_names step])
  case (step hp valid state g order zl h c t n y)
  obtain r n' where r: "get_page_from_freelist valid state g order zl h ALLOC_NO_WATERMARKS c t n = Some (r, n')"
    "granted valid order zl h n r n'"
    using get_page_ok [OF step(3-5)] by blast
  show ?case
  proof (cases "r = None \<and> g AND GFP_NOFAIL \<noteq> 0")
    case True
    then have "hp valid state g order zl h c t n' = Some y" "granted valid order zl h n None n'"
      using step(2) r by simp_all
    moreover have "node_ok valid n'" using r(2) by (simp add: granted_def)
    ultimately show ?thesis using step(1,4,5) granted_trans by blast
  next
    case False
    then show ?thesis using step(2) r by (auto split: if_splits)
  qed
qed

lemma rebalance_ok:
  assumes "rebalance valid state tk pr g order zl h a c t k n = Some y"
    "node_ok valid n" "zonelist_ok zl" "t < MIGRATE_PCPTYPES"
  shows "granted valid order zl h n (fst y) (snd y)"
  using assms
proof (induct rule: rebalance.raw_induct [rotated, consumes 1, case_names step])
  case (step rb valid state tk pr g order zl h a c t k n y)
  obtain r n' where r: "(if a AND ALLOC_NO_WATERMARKS \<noteq> 0
      then alloc_pages_high_priority valid state g order zl h c t n else Some (None, n)) = Some (r, n')"
    using step(2) by (auto simp: bind_eq_Some_conv)
  have G: "granted valid order zl h n r n'"
    using r high_priority_ok [OF _ step(3-5)] granted_None [OF step(3)]
    by (fastforce split: if_splits)
  show ?case
  proof (cases r)
    case (Some p)
    then show ?thesis using step(2) r G by auto
  next
    case None
    have no: "node_ok valid n'" using G by (simp add: granted_def)
    have "y = (None, n') \<or> rb valid state tk pr g order zl h a c t (u64 (k + pr)) n' = Some y"
      using step(2) r None by (auto split: if_splits)
    then show ?thesis
      using G None no granted_trans step(1) [OF _ no step(4,5)] by auto
  qed
qed


lemma no_watermarks_off: "(x AND NOT ALLOC_NO_WATERMARKS) AND ALLOC_NO_WATERMARKS = (0 :: int)"
  by (rule bit_eqI) (auto simp: bit_and_iff bit_not_iff)


lemma slowpath_ok:
  assumes "alloc_pages_slowpath valid state tk pr g order zl h c t n = Some y"
    and ok: "node_ok valid n" "zonelist_ok zl" "t < MIGRATE_PCPTYPES"
  shows "granted valid order zl h n (fst y) (snd y)"
proof (cases "MAX_ORDER \<le> order")
  case True
  then show ?thesis using assms granted_None by (auto simp: alloc_pages_slowpath_def)
next
  case False
  let ?a = "gfp_to_alloc_flags tk g AND NOT ALLOC_NO_WATERMARKS"
  obtain r n' where r: "get_page_from_freelist valid state g order zl h ?a c t n = Some (r, n')"
    "granted valid order zl h n r n'"
    using get_page_ok [OF ok] by blast
  have no: "node_ok valid n'" using r(2) by (simp add: granted_def)
  show ?thesis
  proof (cases r)
    case None
    then have "rebalance valid state tk pr g order zl h (gfp_to_alloc_flags tk g) c t 0 n' = Some y"
      using assms(1) r False by (simp add: alloc_pages_slowpath_def Let_def)
    from rebalance_ok [OF this no ok(2,3)] show ?thesis
      using r(2) None granted_trans by blast
  next
    case (Some p)
    then show ?thesis using assms(1) r False by (auto simp: alloc_pages_slowpath_def Let_def)
  qed
qed

lemma nodemask_ok:
  assumes "alloc_pages_nodemask valid state tk pr allowed g order zl n = Some y"
    and ok: "node_ok valid n" "zonelist_ok zl"
    and t: "allocflags_to_migratetype g (node_mobility_disabled n) < MIGRATE_PCPTYPES"
  shows "granted valid order zl (gfp_zone g) n (fst y) (snd y)"
proof -
  let ?h = "gfp_zone g" and ?t = "allocflags_to_migratetype g (node_mobility_disabled n)"
  obtain r0 zs where zl: "zl = r0 # zs" using ok(2) by (cases zl) (auto simp: zonelist_ok_def)
  obtain p rest where p: "next_zones_zonelist zl ?h = p # rest"
    by (rule next_zones_ok [OF ok(2), of ?h]) (rule that)
  then have fz: "first_zones_zonelist (r0 # zs) ?h = p # rest" unfolding zl first_zones_zonelist_def .
  show ?thesis
  proof (cases "zr_zone r0 = None \<or> zr_zone p = None")
    case True
    then have "y = (None, n)"
      using assms(1) zl fz by (auto simp: alloc_pages_nodemask_def Let_def split: if_splits)
    then show ?thesis using granted_None [OF ok(1)] by simp
  next
    case False
    then obtain c where c: "zr_zone p = Some c" by auto
    let ?get = "get_page_from_freelist valid state ((g AND allowed) OR GFP_HARDWALL) order zl ?h
      (ALLOC_WMARK_LOW OR ALLOC_CPUSET) c ?t n"
    obtain r n' where r: "?get = Some (r, n')" "granted valid order zl ?h n r n'"
      using get_page_ok [OF ok t] by blast
    have "(if r = None then alloc_pages_slowpath valid state tk pr (g AND allowed) order zl ?h c ?t n'
        else Some (r, n')) = Some y"
      using assms(1) False fz c r(1) zl by (auto simp: alloc_pages_nodemask_def Let_def)
    moreover have no: "node_ok valid n'" using r(2) by (simp add: granted_def)
    ultimately show ?thesis
      using r(2) slowpath_ok [OF _ no ok(2) t] granted_trans by (auto split: if_splits)
  qed
qed


section \<open>Requests that must not wait\<close>

lemma high_priority_returns:
  assumes ok: "node_ok valid n" "zonelist_ok zl" "t < MIGRATE_PCPTYPES" and g: "g AND GFP_NOFAIL = 0"
  shows "\<exists>y. alloc_pages_high_priority valid state g order zl h c t n = Some y"
proof -
  obtain r n' where "get_page_from_freelist valid state g order zl h ALLOC_NO_WATERMARKS c t n = Some (r, n')"
    using get_page_ok [OF ok] by blast
  then show ?thesis using g by (subst alloc_pages_high_priority.simps) simp
qed

lemma slowpath_returns:
  assumes ok: "node_ok valid n" "zonelist_ok zl" "t < MIGRATE_PCPTYPES"
    and g: "g AND GFP_NOFAIL = 0" "g AND GFP_WAIT = 0"
  shows "\<exists>y. alloc_pages_slowpath valid state tk pr g order zl h c t n = Some y"
proof -
  let ?a = "gfp_to_alloc_flags tk g AND NOT ALLOC_NO_WATERMARKS"
  obtain r n' where r: "get_page_from_freelist valid state g order zl h ?a c t n = Some (r, n')"
    "granted valid order zl h n r n'"
    using get_page_ok [OF ok] by blast
  then have no: "node_ok valid n'" by (simp add: granted_def)
  obtain y where "alloc_pages_high_priority valid state g order zl h c t n' = Some y"
    using high_priority_returns [OF no ok(2,3) g(1)] by blast
  then have "\<exists>y. rebalance valid state tk pr g order zl h a c t k n' = Some y" for a k
    using g by (subst rebalance.simps) (cases y, auto)
  then show ?thesis using r by (simp add: alloc_pages_slowpath_def Let_def)
qed

lemma and_zero: "(x :: int) AND b = 0 \<Longrightarrow> (x AND a) AND b = 0"
  by (metis and.assoc and.commute and_zero_eq)

lemma nodemask_returns:
  assumes ok: "node_ok valid n" "zonelist_ok zl"
    and t: "allocflags_to_migratetype g (node_mobility_disabled n) < MIGRATE_PCPTYPES"
    and g: "g AND GFP_NOFAIL = 0" "g AND GFP_WAIT = 0"
  shows "\<exists>y. alloc_pages_nodemask valid state tk pr allowed g order zl n = Some y"
proof -
  let ?h = "gfp_zone g" and ?t = "allocflags_to_migratetype g (node_mobility_disabled n)"
  obtain r0 zs where zl: "zl = r0 # zs" using ok(2) by (cases zl) (auto simp: zonelist_ok_def)
  obtain p rest where p: "next_zones_zonelist zl ?h = p # rest"
    by (rule next_zones_ok [OF ok(2), of ?h]) (rule that)
  then have fz: "first_zones_zonelist (r0 # zs) ?h = p # rest" unfolding zl first_zones_zonelist_def .
  show ?thesis
  proof (cases "zr_zone r0 = None \<or> zr_zone p = None")
    case True
    then show ?thesis using zl fz by (auto simp: alloc_pages_nodemask_def Let_def)
  next
    case False
    then obtain c where c: "zr_zone p = Some c" by auto
    let ?get = "get_page_from_freelist valid state ((g AND allowed) OR GFP_HARDWALL) order zl ?h
      (ALLOC_WMARK_LOW OR ALLOC_CPUSET) c ?t n"
    obtain r n' where r: "?get = Some (r, n')" "granted valid order zl ?h n r n'"
      using get_page_ok [OF ok t] by blast
    then have no: "node_ok valid n'" by (simp add: granted_def)
    have "alloc_pages_nodemask valid state tk pr allowed g order zl n =
        (if r = None then alloc_pages_slowpath valid state tk pr (g AND allowed) order zl ?h c ?t n'
         else Some (r, n'))"
      using False fz c r(1) zl by (auto simp: alloc_pages_nodemask_def Let_def)
    moreover obtain y where "alloc_pages_slowpath valid state tk pr (g AND allowed) order zl ?h c ?t n' = Some y"
      using slowpath_returns [OF no ok(2) t and_zero [OF g(1)] and_zero [OF g(2)]] by blast
    ultimately show ?thesis by auto
  qed
qed


section \<open>The watermark test\<close>

lemma s64_id [simp]: "- 9223372036854775808 \<le> x \<Longrightarrow> x < 9223372036854775808 \<Longrightarrow> s64 x = x"
  by (simp add: s64_def)

text \<open>The mark after the reductions for urgent requests.\<close>

definition min_mark :: "int \<Rightarrow> int \<Rightarrow> int" where
  "min_mark a mark =
     (let m = (if a AND ALLOC_HIGH \<noteq> 0 then mark - mark div 2 else mark)
      in if a AND ALLOC_HARDER \<noteq> 0 then m - m div 4 else m)"

lemma sdiv_pos: "0 \<le> (x :: int) \<Longrightarrow> 0 < n \<Longrightarrow> x sdiv n = x div n"
  by (simp add: signed_divide_int_def sgn_if abs_if)

lemma min_mark_bounds: "0 \<le> mark \<Longrightarrow> 0 \<le> min_mark a mark \<and> min_mark a mark \<le> mark"
proof -
  have d: "0 \<le> m - m div 2 \<and> m - m div 2 \<le> m" "0 \<le> m - m div 4 \<and> m - m div 4 \<le> m"
    if "0 \<le> m" for m :: int using that by linarith+
  assume a: "0 \<le> mark"
  note f = d(1) [OF a] d(2) [OF a] d(2) [OF conjunct1 [OF d(1) [OF a]]]
  show ?thesis
    using f a by (auto simp only: min_mark_def Let_def split: if_splits intro: order_trans)
qed

lemma watermark_unfold:
  assumes "0 \<le> mark" "mark < 2 ^ 62"
  shows "do_zone_watermark_ok z order mark c a fp \<longleftrightarrow>
    \<not> u64 (s64 (fp - (2 ^ order + 1))) \<le> u64 (min_mark a mark + lowmem_reserve z c) \<and>
    watermark_loop order 0 (s64 (fp - (2 ^ order + 1))) (min_mark a mark) z"
proof -
  have m: "s64 mark = mark" using assms by simp
  have d: "mark sdiv 2 = mark div 2" "mark sdiv 4 = mark div 4" using assms by (simp_all add: sdiv_pos)
  have "0 \<le> mark - mark div 2" using assms(1) by simp
  then have d2: "(mark - mark div 2) sdiv 4 = (mark - mark div 2) div 4" by (rule sdiv_pos) simp
  show ?thesis
    unfolding do_zone_watermark_ok_def m Let_def min_mark_def d d2 push_bit_eq_mult
    by (simp add: d d2 cong: if_cong)
qed

lemma watermark_loop_sound:
  assumes "watermark_loop k i fp m z" "0 < k" "0 \<le> m" "- (2 ^ 62) \<le> fp" "fp < 2 ^ 62"
    and "\<And>j. j < i + k \<Longrightarrow> 0 \<le> nr_free z j \<and> nr_free z j * 2 ^ j < 2 ^ 62"
  shows "0 < fp - (\<Sum>j = i..<i + k. nr_free z j * 2 ^ j)"
  using assms
proof (induction k arbitrary: i fp m)
  case 0
  then show ?case by simp
next
  case (Suc k)
  have b: "0 \<le> nr_free z i * 2 ^ i" "nr_free z i * 2 ^ i < 2 ^ 62" using Suc.prems(6) [of i] by auto
  let ?fp = "fp - nr_free z i * 2 ^ i"
  have "s64 (fp - u64 (push_bit i (nr_free z i))) = ?fp"
    using b Suc.prems(4,5) by (simp add: push_bit_eq_mult)
  then have st: "m div 2 < ?fp" "watermark_loop k (i + 1) ?fp (m div 2) z"
    using Suc.prems(1) by (simp_all add: Let_def drop_bit_Suc split: if_splits)
  then have pos: "0 < ?fp" using Suc.prems(3) by linarith
  have sum: "(\<Sum>j = i..<i + Suc k. nr_free z j * 2 ^ j)
      = nr_free z i * 2 ^ i + (\<Sum>j = i + 1..<i + 1 + k. nr_free z j * 2 ^ j)"
    by (simp add: sum.atLeast_Suc_lessThan)
  show ?case
  proof (cases "k = 0")
    case True
    then show ?thesis using pos by simp
  next
    case False
    have "- (2 ^ 62) \<le> ?fp" "?fp < 2 ^ 62" "0 \<le> m div 2" using pos b Suc.prems(3,5) by auto
    then have "0 < ?fp - (\<Sum>j = i + 1..<i + 1 + k. nr_free z j * 2 ^ j)"
      using False Suc.prems(6) st(2) by (intro Suc.IH [of "i + 1" ?fp "m div 2"]) auto
    then show ?thesis unfolding sum by simp
  qed
qed

lemma nr_free_listed:
  assumes "buddy_inv valid z" "nr_free z i \<noteq> 0"
  shows "\<exists>t. free_list z i t \<noteq> []"
proof (rule ccontr)
  assume "\<nexists>t. free_list z i t \<noteq> []"
  then have "list_count z i = 0" by (simp add: list_count_def)
  then show False using buddy_invD(5) [OF assms(1), of i] assms(2) by simp
qed

lemma watermark_sound:
  assumes inv: "buddy_inv valid z" and i: "order < MAX_ORDER"
    and fp: "fp = (\<Sum>j<MAX_ORDER. nr_free z j * 2 ^ j)" "fp < 2 ^ 62" "order = 0 \<Longrightarrow> 0 < fp"
    and mark: "0 \<le> mark" "mark < 2 ^ 62"
    and ok: "do_zone_watermark_ok z order mark c a fp"
  shows "\<exists>j \<ge> order. \<exists>t. free_list z j t \<noteq> []"
proof -
  have nn: "0 \<le> nr_free z j" for j using buddy_invD(5) [OF inv, of j] by simp
  then have nn': "0 \<le> nr_free z j * 2 ^ j" for j by simp
  have le: "nr_free z j * 2 ^ j \<le> fp" if "j < MAX_ORDER" for j
    unfolding fp(1) using nn' that by (intro member_le_sum) auto
  have "\<exists>j \<in> {order..<MAX_ORDER}. nr_free z j \<noteq> 0"
  proof (rule ccontr)
    assume "\<not> (\<exists>j \<in> {order..<MAX_ORDER}. nr_free z j \<noteq> 0)"
    then have hi: "(\<Sum>j = order..<MAX_ORDER. nr_free z j * 2 ^ j) = 0" by simp
    have "fp = (\<Sum>j = 0..<order. nr_free z j * 2 ^ j) + (\<Sum>j = order..<MAX_ORDER. nr_free z j * 2 ^ j)"
      unfolding fp(1) using sum.atLeastLessThan_concat [of 0 order MAX_ORDER "\<lambda>j. nr_free z j * 2 ^ j"] i
      by (simp add: lessThan_atLeast0)
    then have lo: "fp = (\<Sum>j = 0..<order. nr_free z j * 2 ^ j)" using hi by simp
    have o0: "order \<noteq> 0" using lo fp(3) by (cases "order = 0") auto
    have p: "0 \<le> fp" unfolding fp(1) by (intro sum_nonneg) (simp add: nn')
    have "(2 :: int) ^ order \<le> 2 ^ 10" using i by (intro power_increasing) (auto simp: MAX_ORDER_def)
    moreover have "(0 :: int) < 2 ^ order" by simp
    moreover have "(2 :: int) ^ 10 = 1024" "(2 :: int) ^ 62 = 4611686018427387904" by simp_all
    ultimately have "- 4611686018427387904 \<le> fp - (2 ^ order + 1)"
      "fp - (2 ^ order + 1) < 4611686018427387904"
      using p fp(2) by linarith+
    moreover from this have "s64 (fp - (2 ^ order + 1)) = fp - (2 ^ order + 1)"
      by (intro s64_id) simp_all
    ultimately have s: "s64 (fp - (2 ^ order + 1)) = fp - (2 ^ order + 1)" "- (2 ^ 62) \<le> fp - (2 ^ order + 1)"
      "fp - (2 ^ order + 1) < 2 ^ 62"
      by simp_all
    have "watermark_loop order 0 (fp - (2 ^ order + 1)) (min_mark a mark) z"
      using ok s(1) by (simp add: watermark_unfold [OF mark])
    moreover have "0 \<le> nr_free z j \<and> nr_free z j * 2 ^ j < 2 ^ 62" if "j < 0 + order" for j
    proof -
      have "j < MAX_ORDER" using that i by simp
      then show ?thesis using nn [of j] le [of j] fp(2) by (auto intro: le_less_trans)
    qed
    ultimately have "0 < fp - (2 ^ order + 1) - (\<Sum>j = 0..<0 + order. nr_free z j * 2 ^ j)"
      using o0 conjunct1 [OF min_mark_bounds [OF mark(1)]] by (intro watermark_loop_sound [OF _ _ _ s(2,3)]) auto
    moreover have "(0 :: int) < 2 ^ order" by simp
    ultimately show False using lo unfolding add_0 by linarith
  qed
  then show ?thesis using nr_free_listed [OF inv] by fastforce
qed


section \<open>A node to run on\<close>

text \<open>Zone 0 is the zone of the page allocator's example; the other two zones are empty.\<close>

definition ex_empty_zone :: "nat \<Rightarrow> zone" where
  "ex_empty_zone i = zone.truncate (ex_empty\<lparr>zone_no := i, pageblock_flags := [], spanned_pages := 0,
     present_pages := 0\<rparr>)"

definition ex_pgdat :: node where
  "ex_pgdat = zone_put 0 ex_zone \<lparr>node_zones = ex_empty_zone, node_mem_map = (\<lambda>_. ex_page),
     node_stat = (\<lambda>_. 0), node_mobility_disabled = False\<rparr>"

definition ex_zonelist :: "zoneref list" where
  "ex_zonelist = [\<lparr>zr_zone = Some 1, zr_idx = 1\<rparr>, \<lparr>zr_zone = Some 0, zr_idx = 0\<rparr>,
     \<lparr>zr_zone = None, zr_idx = 0\<rparr>]"

definition ex_task :: task where
  "ex_task = \<lparr>tsk_flags = 0, tsk_prio = 120, ti_flags = 0\<rparr>"

definition ex_state :: "zstate \<Rightarrow> int" where
  "ex_state z = vm_stat z NR_FREE_PAGES"

lemma ex_pgdat_view0: "zone_view 0 ex_pgdat = ex_zone"
  by (simp add: ex_pgdat_def)

lemma ex_pgdat_zone_id: "ex_valid p \<Longrightarrow> page_zone_id (mem_map ex_zone p) = 0"
proof -
  assume "ex_valid p"
  then have "p \<in> zone_pages ex_valid ex_zone" unfolding ex_zone_ok(5) by (simp add: ex_valid_def)
  moreover have "zone_no ex_zone = 0" by code_simp
  ultimately show ?thesis by (simp add: zone_pages_def)
qed

lemma ex_pgdat_other:
  assumes "j \<noteq> 0"
  shows "zone_ok ex_valid j (zone_view j ex_pgdat)"
proof -
  let ?z = "zone_view j ex_pgdat"
  have f: "zone_no ?z = j" "free_list ?z = (\<lambda>_ _. [])" "nr_free ?z = (\<lambda>_. 0)" "pageblock_flags ?z = []"
    "zone_start_pfn ?z = 0" "spanned_pages ?z = 0" "mem_map ?z = mem_map ex_zone"
    "pageset ?z = \<lparr>pcp_count = 0, pcp_high = 6, pcp_batch = 1, pcp_lists = (\<lambda>_. [])\<rparr>"
    using assms by (simp_all add: ex_pgdat_def zone_view_def zone_put_def ex_empty_zone_def ex_empty_def
        zone.defs zstate.defs)
  have p: "zone_pages ex_valid ?z = {}" using assms ex_pgdat_zone_id by (auto simp: zone_pages_def f)
  have e: "blocks ?z = {}" "free_set ?z = {}" "pcp_pages ?z = {}" "stock ?z = {}" "pcp_total ?z = 0"
    "pcp_list t ?z = []" for t
    by (auto simp: blocks_def free_set_def pcp_pages_def stock_def listed_def f pcp_total_def pcp_list_def)
  have "buddy_inv ex_valid ?z"
    unfolding buddy_inv_def p e by (auto simp: lists_ok_def f apart_def list_count_def)
  then have "pcp_ok ex_valid ?z" by (simp add: pcp_ok_def e p merged_def)
  then show ?thesis
    by (simp add: zone_ok_def f e p flags_ok_def all_fresh_def kinds_ok_def bits_def in_map_def)
qed

lemma ex_pgdat_ok: "node_ok ex_valid ex_pgdat"
proof -
  have "zone_no ex_zone = 0" "pageblock_flags ex_zone = [0]" by code_simp+
  moreover from this have "kinds_ok ex_zone" by (auto simp: kinds_ok_def bits_def in_map_def)
  ultimately have "zone_ok ex_valid 0 ex_zone"
    using ex_zone_pcp_ok ex_zone_flags ex_zone_all_fresh ex_zone_sane ex_zone_params ex_zone_ok(5)
    by (simp add: zone_ok_def pcp_sane_def pcp_params_def)
  then show ?thesis
    unfolding node_ok_def using ex_pgdat_other ex_pgdat_view0 by (metis not_gr_zero)
qed

lemma ex_zonelist_ok: "zonelist_ok ex_zonelist"
  by (simp add: zonelist_ok_def ex_zonelist_def MAX_NR_ZONES_def)

lemma ex_mobility: "node_mobility_disabled ex_pgdat = False"
  by code_simp


section \<open>Properties\<close>

text \<open>
  The table \<^verbatim>\<open>GFP_ZONE_TABLE\<close>, read by shifting, gives the zone that the flags ask for: high memory,
  high memory that can be moved, and the normal zone for every other combination, also for those the
  table forbids.
\<close>
theorem gfp_zone_meaning:
  "gfp_zone flags =
     (if flags AND GFP_ZONEMASK = GFP_HIGHMEM then ZONE_HIGHMEM
      else if flags AND GFP_ZONEMASK = GFP_HIGHMEM OR GFP_MOVABLE then ZONE_MOVABLE
      else ZONE_NORMAL)"
proof -
  have m: "GFP_ZONEMASK = 15" by code_simp
  have "flags AND GFP_ZONEMASK \<in> {0..<16}"
    unfolding m using take_bit_eq_mask [of 4 flags] take_bit_int_less_exp [of 4 flags]
    by (simp add: mask_numeral)
  moreover have "{0..<16 :: int} = set (map int [0..<16])"
    by (simp only: set_map set_upt image_int_atLeastLessThan) simp
  moreover have "\<forall>k \<in> set (map int [0..<16]).
      nat (drop_bit (nat k * ZONES_SHIFT) GFP_ZONE_TABLE AND (push_bit ZONES_SHIFT 1 - 1)) =
      (if k = GFP_HIGHMEM then ZONE_HIGHMEM
       else if k = GFP_HIGHMEM OR GFP_MOVABLE then ZONE_MOVABLE else ZONE_NORMAL)"
    by code_simp
  ultimately show ?thesis unfolding gfp_zone_def by (metis (no_types, lifting))
qed

text \<open>
  C15: a request takes its block from the pages in stock of exactly one zone, which is on the zonelist
  and not above the zone the flags ask for; the pages of the block leave the stock and nothing else
  changes hands, and the first page has one reference. A request that gets nothing leaves all stocks
  as they are. In both cases every zone is in order afterwards.
\<close>
theorem alloc_pages_safe:
  assumes "alloc_pages_nodemask valid state tk progress allowed g order zl n = Some (r, n')"
    and "node_ok valid n" "zonelist_ok zl"
    and "allocflags_to_migratetype g (node_mobility_disabled n) < MIGRATE_PCPTYPES"
  shows "node_ok valid n' \<and>
    (case r of
       None \<Rightarrow> \<forall>j < MAX_NR_ZONES. stock (zone_view j n') = stock (zone_view j n)
     | Some p \<Rightarrow> pg_count (node_mem_map n' p) = 1 \<and>
         (\<exists>i \<in> zr_idx ` set zl. i \<le> gfp_zone g \<and> i < MAX_NR_ZONES \<and> taken_from order p i n n'))"
  using nodemask_ok [OF assms] by (auto simp: granted_def out_page_def split: option.splits)

text \<open>
  C16: a request that may not wait always returns, with a block or with nothing, whatever the state of
  the zones, unless it insists on an answer with \<^verbatim>\<open>__GFP_NOFAIL\<close>.
\<close>
theorem atomic_alloc_returns:
  assumes "node_ok valid n" "zonelist_ok zl"
    and "allocflags_to_migratetype g (node_mobility_disabled n) < MIGRATE_PCPTYPES"
    and "g AND GFP_NOFAIL = 0" "g AND GFP_WAIT = 0"
  shows "\<exists>r n'. alloc_pages_nodemask valid state tk progress allowed g order zl n = Some (r, n')"
  using nodemask_returns [OF assms] by auto

theorem atomic_alloc_returns_witness:
  "\<exists>r n'. alloc_pages_nodemask ex_valid ex_state ex_task 0 0x7fffff GFP_HIGH 3 ex_zonelist ex_pgdat
     = Some (r, n')"
proof -
  have g: "GFP_HIGH AND GFP_NOFAIL = 0" "GFP_HIGH AND GFP_WAIT = 0"
    "allocflags_to_migratetype GFP_HIGH (node_mobility_disabled ex_pgdat) < MIGRATE_PCPTYPES"
    unfolding ex_mobility by code_simp+
  show ?thesis by (rule atomic_alloc_returns [OF ex_pgdat_ok ex_zonelist_ok g(3,1,2)])
qed

theorem alloc_pages_safe_witness:
  "\<exists>r n'. alloc_pages_nodemask ex_valid ex_state ex_task 0 0x7fffff GFP_HIGH 3 ex_zonelist ex_pgdat
     = Some (r, n') \<and> node_ok ex_valid n'"
proof -
  have g: "GFP_HIGH AND GFP_NOFAIL = 0" "GFP_HIGH AND GFP_WAIT = 0"
    and t: "allocflags_to_migratetype GFP_HIGH (node_mobility_disabled ex_pgdat) < MIGRATE_PCPTYPES"
    unfolding ex_mobility by code_simp+
  obtain r n' where r: "alloc_pages_nodemask ex_valid ex_state ex_task 0 0x7fffff GFP_HIGH 3 ex_zonelist ex_pgdat
      = Some (r, n')"
    using nodemask_returns [OF ex_pgdat_ok ex_zonelist_ok t g] by fastforce
  from alloc_pages_safe [OF this ex_pgdat_ok ex_zonelist_ok t] r show ?thesis by blast
qed



text \<open>
  C21: the watermark test never passes a zone from which the request could not be served: when the count
  it is given is the number of pages on the free lists (and not zero), some list holds a block of the
  order asked for or a larger one.
\<close>
theorem watermark_ok_sound:
  assumes "buddy_inv valid z" "order < MAX_ORDER"
    and "free_pages = (\<Sum>j<MAX_ORDER. nr_free z j * 2 ^ j)" "free_pages < 2 ^ 62" "0 < free_pages"
    and "0 \<le> mark" "mark < 2 ^ 62"
    and "do_zone_watermark_ok z order mark classzone_idx alloc_flags free_pages"
  shows "\<exists>j \<ge> order. \<exists>t. free_list z j t \<noteq> []"
  using watermark_sound [OF assms(1-4) _ assms(6-8)] assms(5) by blast

theorem watermark_ok_sound_witness:
  "\<exists>j \<ge> 4. \<exists>t. free_list ex_zone j t \<noteq> []"
proof -
  have m: "4 < MAX_ORDER" by (simp add: MAX_ORDER_def)
  have s: "(\<Sum>j<MAX_ORDER. nr_free ex_zone j * 2 ^ j) = 1032" by code_simp
  have ok: "do_zone_watermark_ok ex_zone 4 100 0 0 1032" by code_simp
  show ?thesis
    using watermark_ok_sound [OF ex_zone_ok(1) m s [symmetric] _ _ _ _ ok] by simp
qed

text \<open>
  For a single page the test compares the pages left with the mark and the reserve, except when
  fewer than two pages are free: then the difference is negative, the comparison with the unsigned
  reserve reads it as a huge number, and the zone passes whatever its marks are.
\<close>
theorem watermark_single_page:
  assumes "0 \<le> mark" "mark < 2 ^ 62" "0 \<le> lowmem_reserve z c" "lowmem_reserve z c < 2 ^ 62"
    and "0 \<le> free_pages" "free_pages < 2 ^ 62"
  shows "do_zone_watermark_ok z 0 mark c alloc_flags free_pages \<longleftrightarrow>
    free_pages < 2 \<or> min_mark alloc_flags mark + lowmem_reserve z c < free_pages - 2"
proof -
  have s: "s64 (free_pages - 2) = free_pages - 2" using assms(5,6) by simp
  have m: "0 \<le> min_mark alloc_flags mark" "min_mark alloc_flags mark < 2 ^ 62"
    using min_mark_bounds [OF assms(1), of alloc_flags] assms(2) by auto
  have r: "u64 (min_mark alloc_flags mark + lowmem_reserve z c) = min_mark alloc_flags mark + lowmem_reserve z c"
    using m assms(3,4) by simp
  have u: "u64 (free_pages - 2) = (if free_pages < 2 then free_pages - 2 + 2 ^ 64 else free_pages - 2)"
    using assms(5,6) by (simp add: u64_neg)
  show ?thesis using m assms(3-6) unfolding watermark_unfold [OF assms(1,2)] by (auto simp: s r u)
qed

theorem watermark_single_page_witness:
  "do_zone_watermark_ok ex_empty 0 1000 0 0 0"
  using watermark_single_page [of 1000 ex_empty 0 0 0] by (simp add: ex_empty_def)

end
