(* ===== verification/ZoneInitProps.thy ===== *)
theory ZoneInitProps
  imports ZoneInit FreelistProps
begin

text \<open>
  Correctness of the zone set-up: the sizes it computes, the state it leaves for the page allocator and
  the release of boot memory into that state.
\<close>

section \<open>Sizes\<close>

lemma bit_length_bounds: "0 < n \<Longrightarrow> 2 ^ (bit_length n - 1) \<le> n \<and> n < 2 ^ bit_length n \<and> 0 < bit_length n"
proof (induction n rule: bit_length.induct)
  case (1 n)
  have eq: "bit_length n = Suc (bit_length (n div 2))" using 1(2) by (subst bit_length.simps) simp
  show ?case
  proof (cases "n div 2 = 0")
    case True
    then have "n = 1" using 1(2) by (cases "n < 2") auto
    then show ?thesis unfolding eq by (simp add: bit_length.simps [of 0])
  next
    case False
    then have IH: "2 ^ (bit_length (n div 2) - 1) \<le> n div 2" "n div 2 < 2 ^ bit_length (n div 2)"
      "0 < bit_length (n div 2)"
      using 1 by auto
    then have "2 ^ (bit_length (n div 2) - 1) * 2 \<le> n" "n < 2 ^ bit_length (n div 2) * 2" by auto
    moreover have "2 ^ (bit_length (n div 2) - 1) * 2 = (2 :: nat) ^ bit_length (n div 2)"
      using IH(3) by (cases "bit_length (n div 2)") auto
    ultimately show ?thesis unfolding eq by simp
  qed
qed

lemma rounddown_pow:
  assumes "0 < n" "n < 2 ^ 64"
  shows "\<exists>k < 64. rounddown_pow_of_two n = 2 ^ k \<and> 2 ^ k \<le> n \<and> n < 2 * 2 ^ k"
proof -
  define L where "L = bit_length (nat n)"
  have b: "2 ^ (L - 1) \<le> nat n" "nat n < 2 ^ L" "0 < L"
    using bit_length_bounds [of "nat n"] assms(1) by (auto simp: L_def)
  have "nat n < 2 ^ 64" using assms by (simp add: nat_less_iff)
  from le_less_trans [OF b(1) this] have "(2 :: nat) ^ (L - 1) < 2 ^ 64" .
  then have k: "L - 1 < 64" by (rule power_less_imp_less_exp [rotated]) simp
  have c: "(2 :: int) ^ (L - 1) \<le> n" "n < 2 ^ L"
    using b(1,2) assms(1) by (simp_all add: nat_le_iff nat_less_iff le_nat_iff)
  have e: "(2 :: int) ^ L = 2 * 2 ^ (L - 1)" using b(3) by (cases L) auto
  have i: "nat (int L - 1) = L - 1" by simp
  have "(2 :: int) ^ (L - 1) < 2 ^ 64" using c(1) assms(2) by (rule le_less_trans)
  then have "u64 (2 ^ (L - 1)) = 2 ^ (L - 1)" by simp
  then have "rounddown_pow_of_two n = 2 ^ (L - 1)"
    unfolding rounddown_pow_of_two_def fls_long_def L_def [symmetric] i by (simp add: push_bit_eq_mult)
  then show ?thesis using k c e by auto
qed

lemma wait_size_loop_ok:
  assumes "k \<le> 56" "pages \<le> 2 ^ 56"
  shows "\<exists>m. wait_size_loop (2 ^ k) pages = Some (2 ^ m) \<and> k \<le> m \<and> pages \<le> 2 ^ m \<and>
    (m = k \<or> 2 ^ (m - 1) < pages)"
  using assms
proof (induction "56 - k" arbitrary: k)
  case 0
  then have "k = 56" by simp
  then show ?case using 0 by (subst wait_size_loop.simps) (auto intro: exI [of _ 56])
next
  case (Suc d)
  show ?case
  proof (cases "2 ^ k < pages")
    case False
    then show ?thesis by (subst wait_size_loop.simps) auto
  next
    case True
    have "(2 :: int) ^ Suc k \<le> 2 ^ 56" using Suc(2) by (intro power_increasing) auto
    then have "u64 (push_bit 1 (2 ^ k)) = 2 ^ Suc k" by (simp add: push_bit_eq_mult mult.commute)
    then have run: "wait_size_loop (2 ^ k) pages = wait_size_loop (2 ^ Suc k) pages"
      using True by (subst wait_size_loop.simps) simp
    obtain m where m: "wait_size_loop (2 ^ Suc k) pages = Some (2 ^ m)" "Suc k \<le> m" "pages \<le> 2 ^ m"
      "m = Suc k \<or> 2 ^ (m - 1) < pages"
      using Suc(1) [of "Suc k"] Suc(2-4) by fastforce
    have "2 ^ (m - 1) < pages" using m(4) True by auto
    then show ?thesis using m run by auto
  qed
qed

lemma bit_length_pow: "bit_length (2 ^ k) = Suc k"
proof (induction k)
  case 0
  then show ?case by (subst bit_length.simps) (simp add: bit_length.simps [of 0])
next
  case (Suc k)
  then show ?case by (subst bit_length.simps) simp
qed

lemma wait_table_bits_pow:
  assumes "k \<in> {2..12}"
  shows "wait_table_bits (2 ^ k) = int k"
proof -
  let ?x = "u64 (NOT (u64 (NOT (2 ^ k))))"
  have "k = 2 \<or> k = 3 \<or> k = 4 \<or> k = 5 \<or> k = 6 \<or> k = 7 \<or> k = 8 \<or> k = 9 \<or> k = 10 \<or> k = 11 \<or> k = 12"
    using assms unfolding atLeastAtMost_iff by presburger
  then have "s32 (?x AND u64 (- ?x)) = 2 ^ k" "u32 (2 ^ k) = 2 ^ k"
    by (elim disjE; simp add: u64_def s32_def)+
  moreover have n: "nat ((2 :: int) ^ k) = 2 ^ k" by simp
  have "bit_length (nat (2 ^ k)) = Suc k" unfolding n by (rule bit_length_pow)
  ultimately show ?thesis
    by (simp add: wait_table_bits_def ffz_def ffs_def fls_def)
qed

lemma wait_table_ok:
  assumes "0 \<le> pages" "pages < 2 ^ 64"
  shows "\<exists>k \<in> {2..12}. wait_table_hash_nr_entries pages = Some (2 ^ k) \<and> wait_table_bits (2 ^ k) = int k \<and>
    (pages \<le> 256 * 2 ^ k + 255 \<or> k = 12) \<and> (k = 2 \<or> 256 * 2 ^ (k - 1) < pages)"
proof -
  have p: "pages div 256 \<le> 2 ^ 56" using assms by simp
  obtain m where m: "wait_size_loop (2 ^ 0) (pages div 256) = Some (2 ^ m)" "pages div 256 \<le> 2 ^ m"
    "m = 0 \<or> 2 ^ (m - 1) < pages div 256"
    using wait_size_loop_ok [OF _ p, of 0] by auto
  define k where "k = max (min m 12) 2"
  have mn: "min ((2 :: int) ^ m) 4096 = 2 ^ min m 12"
  proof (cases "m \<le> 12")
    case True
    then have "(2 :: int) ^ m \<le> 2 ^ 12" by (intro power_increasing) auto
    then show ?thesis using True by (simp add: min_def)
  next
    case False
    then have "(2 :: int) ^ 12 \<le> 2 ^ m" by (intro power_increasing) auto
    then show ?thesis using False by (simp add: min_def)
  qed
  have mx: "max ((2 :: int) ^ min m 12) 4 = 2 ^ k"
  proof (cases "2 \<le> min m 12")
    case True
    then have "(2 :: int) ^ 2 \<le> 2 ^ min m 12" by (intro power_increasing) auto
    moreover have "k = min m 12" using True by (simp add: k_def)
    ultimately show ?thesis by (simp add: max_def)
  next
    case False
    then have "(2 :: int) ^ min m 12 \<le> 2 ^ 2" by (intro power_increasing) auto
    then show ?thesis using False unfolding k_def by (simp add: max_def)
  qed
  have "wait_table_hash_nr_entries pages = Some (2 ^ k)"
    using m(1) by (simp add: wait_table_hash_nr_entries_def PAGES_PER_WAITQUEUE_def Let_def mn mx)
  moreover have k: "k \<in> {2..12}" by (auto simp: k_def)
  moreover have "pages \<le> 256 * 2 ^ k + 255 \<or> k = 12"
  proof (cases "m \<le> 12")
    case True
    then have "(2 :: int) ^ m \<le> 2 ^ k" by (intro power_increasing) (auto simp: k_def)
    then have "pages div 256 \<le> 2 ^ k" using m(2) by linarith
    then show ?thesis by linarith
  next
    case False
    then show ?thesis by (simp add: k_def)
  qed
  moreover have "k = 2 \<or> 256 * 2 ^ (k - 1) < pages"
  proof (cases "2 < m")
    case True
    then have "(2 :: int) ^ (k - 1) \<le> 2 ^ (m - 1)" by (intro power_increasing) (auto simp: k_def)
    moreover have "2 ^ (m - 1) < pages div 256" using m(3) True by auto
    ultimately have "2 ^ (k - 1) < pages div 256" by (rule le_less_trans)
    then show ?thesis by linarith
  next
    case False
    then show ?thesis by (simp add: k_def)
  qed
  ultimately show ?thesis using wait_table_bits_pow [OF k] by blast
qed

text \<open>The batch of a zone is one less than a power of two, and the page sets of a zone are usable.\<close>

lemma zone_batchsize_ok:
  assumes "0 \<le> present_pages z" "present_pages z < 2 ^ 31"
  shows "\<exists>k \<le> 5. zone_batchsize z = 2 ^ k - 1"
proof -
  define b0 where "b0 = present_pages z div 1024"
  have b0: "0 \<le> b0" "b0 < 2 ^ 21" using assms by (auto simp: b0_def)
  define b1 where "b1 = (if b0 * 4096 > 524288 then 128 else b0)"
  have b1: "0 \<le> b1" "b1 \<le> 128" using b0 by (auto simp: b1_def)
  define b2 where "b2 = (if b1 div 4 < 1 then 1 else b1 div 4)"
  have b2: "1 \<le> b2" "b2 \<le> 32" using b1 by (auto simp: b2_def)
  define n where "n = b2 + b2 div 2"
  have n: "0 < n" "n \<le> 48" using b2 by (auto simp: n_def)
  then obtain k where k: "rounddown_pow_of_two n = 2 ^ k" "2 ^ k \<le> n"
    using rounddown_pow [of n] by auto
  have "(2 :: int) ^ k < 2 ^ 6" using k(2) n(2) by simp
  then have k5: "k \<le> 5" using power_less_imp_less_exp [of "2 :: int" k 6] by simp
  have "(2 :: int) ^ k \<le> 2 ^ 5" using k5 by (intro power_increasing) auto
  then have "(2 :: int) ^ k \<le> 32" by simp
  moreover have "(0 :: int) < 2 ^ k" by simp
  ultimately have s: "s32 (2 ^ k - 1) = 2 ^ k - 1" by (intro s32_id) linarith+
  have e1: "s32 (present_pages z div 1024) = b0" using b0 unfolding b0_def by (intro s32_id) auto
  have e2: "u64 (b0 * PAGE_SIZE) = b0 * 4096" using b0 by (simp add: PAGE_SIZE_eq)
  have e3: "(if u64 (b0 * PAGE_SIZE) > 512 * 1024 then (512 * 1024) div PAGE_SIZE else b0) = b1"
    unfolding e2 b1_def by (simp add: PAGE_SIZE_eq)
  have e4: "(if b1 sdiv 4 < 1 then 1 else b1 sdiv 4) = b2" using b1 by (simp add: b2_def sdiv_pos)
  have e5: "u64 (b2 + b2 sdiv 2) = n" using b2 by (simp add: sdiv_pos n_def)
  have "zone_batchsize z = 2 ^ k - 1"
    unfolding zone_batchsize_def Let_def e1 e3 e4 e5 k(1) s ..
  then show ?thesis using k5 by blast
qed


text \<open>The page-block bits fit the zone.\<close>

lemma usemap_size_ok:
  assumes "0 \<le> n" "n \<le> 2 ^ 32"
  shows "32 * (usemap_size n div 4) \<ge> 3 * ((n + 1023) div 1024)" "4 dvd usemap_size n" "0 \<le> usemap_size n"
    "usemap_size n = 0 \<longleftrightarrow> n = 0"
proof -
  let ?b = "(n + 1023) div 1024"
  have b: "0 \<le> ?b" "?b \<le> 4194304" using assms by auto
  have r1: "roundup n pageblock_nr_pages = ?b * 1024"
    using assms b by (simp add: roundup_def pageblock_nr_pages_def pageblock_order_def MAX_ORDER_def)
  have d: "drop_bit pageblock_order (?b * 1024) = ?b"
    by (simp add: pageblock_order_def MAX_ORDER_def drop_bit_eq_div)
  have m: "u64 (?b * NR_PAGEBLOCK_BITS) = 3 * ?b" using b by (simp add: NR_PAGEBLOCK_BITS_def)
  let ?w = "(3 * ?b + 31) div 32"
  have w: "0 \<le> ?w" "?w \<le> 393217" using b by auto
  have r2: "roundup (3 * ?b) (8 * 4) = ?w * 32" using b w by (simp add: roundup_def)
  have eq: "usemap_size n = 4 * ?w"
    unfolding usemap_size_def Let_def r1 d m r2 by simp
  show "32 * (usemap_size n div 4) \<ge> 3 * ?b" unfolding eq by simp
  show "4 dvd usemap_size n" "0 \<le> usemap_size n" unfolding eq using w by simp_all
  show "usemap_size n = 0 \<longleftrightarrow> n = 0" unfolding eq using assms b by auto
qed


section \<open>Page structures\<close>

definition init_page :: "nat \<Rightarrow> int \<Rightarrow> nat \<Rightarrow> page \<Rightarrow> page" where
  "init_page nid pfn zone p =
     SetPageReserved (reset_page_mapcount (init_page_count (set_page_links zone nid pfn p)))"

lemma field_of_or:
  assumes "\<And>i. bit M i \<Longrightarrow> i < 2"
  shows "drop_bit 30 ((w AND NOT (push_bit 30 M)) OR push_bit 30 (x AND M)) AND M = x AND (M :: 64 word)"
proof (intro bit_word_eqI)
  fix n
  assume "n < LENGTH(64)"
  have "bit M n \<Longrightarrow> 30 + n < 64" using assms [of n] by simp
  then show "bit (drop_bit 30 ((w AND NOT (push_bit 30 M)) OR push_bit 30 (x AND M)) AND M) n = bit (x AND M) n"
    by (auto simp: bit_drop_bit_eq bit_and_iff bit_or_iff bit_not_iff bit_push_bit_iff possible_bit_word)
qed

lemma zone_field:
  assumes "zone < 4"
  shows "unat (drop_bit 30 ((w AND NOT (push_bit 30 3)) OR push_bit 30 (of_nat zone AND 3) :: 64 word) AND 3) = zone"
proof -
  have "3 = (mask 2 :: 64 word)" by (simp add: mask_eq_exp_minus_1)
  then have "bit (3 :: 64 word) i \<Longrightarrow> i < 2" for i by (simp add: bit_mask_iff)
  from field_of_or [OF this] have "drop_bit 30 ((w AND NOT (push_bit 30 3)) OR push_bit 30 (of_nat zone AND 3) :: 64 word) AND 3
      = of_nat zone AND 3" .
  moreover have "zone \<in> {0, 1, 2, 3}" using assms by auto
  then have "unat (of_nat zone AND 3 :: 64 word) = zone" by auto
  ultimately show ?thesis by simp
qed

lemma init_page_fields:
  assumes "zone < 4"
  shows "page_zone_id (init_page nid pfn zone p) = zone" "pg_mapcount (init_page nid pfn zone p) = - 1"
    "pg_count (init_page nid pfn zone p) = 1" "pg_mapping (init_page nid pfn zone p) = pg_mapping p"
    "pg_private (init_page nid pfn zone p) = pg_private p"
proof -
  have fl: "pg_flags (init_page nid pfn zone p) =
      ((pg_flags p AND NOT (push_bit 30 3)) OR push_bit 30 (of_nat zone AND 3)) OR flag 10"
    by (simp add: init_page_def SetPageReserved_def SETPAGEFLAG_def reset_page_mapcount_def
        init_page_count_def set_page_links_def set_page_zone_def set_page_node_def set_page_section_def
        ZONES_PGSHIFT_def ZONES_MASK_def PG_reserved_def Let_def push_bit_eq_mult)
  have "drop_bit 30 (flag 10) = 0" by (simp add: flag_def)
  then have "drop_bit 30 (x OR flag 10) = drop_bit 30 x" for x by (simp add: drop_bit_or)
  moreover have "ZONES_MASK = 3" by (simp add: ZONES_MASK_def push_bit_eq_mult)
  ultimately show "page_zone_id (init_page nid pfn zone p) = zone"
    using zone_field [OF assms, of "pg_flags p"] unfolding page_zone_id_def fl ZONES_PGSHIFT_def by metis
qed (simp_all add: init_page_def SetPageReserved_def SETPAGEFLAG_def reset_page_mapcount_def
    init_page_count_def set_page_links_def set_page_zone_def set_page_node_def set_page_section_def Let_def)

text \<open>What setting up the page structures of a range does to the zone.\<close>

lemma memmap_init_page_eq:
  "memmap_init_page nid zone pfn z =
     (let z = upd_page pfn (init_page nid pfn zone) z
      in if in_span z pfn \<and> 1024 dvd pfn then set_pageblock_migratetype pfn MIGRATE_MOVABLE z else Some z)"
proof -
  have "pfn AND (pageblock_nr_pages - 1) = pfn mod 1024"
    using take_bit_eq_mask [of 10 pfn]
    by (simp add: pageblock_nr_pages_def pageblock_order_def MAX_ORDER_def push_bit_eq_mult
        take_bit_eq_mod mask_eq_exp_minus_1)
  moreover have "SetPageReserved \<circ> reset_page_mapcount \<circ> init_page_count \<circ> set_page_links zone nid pfn
      = init_page nid pfn zone"
    by (simp add: init_page_def fun_eq_iff)
  ultimately show ?thesis
    unfolding memmap_init_page_def in_span_def by (simp add: Let_def dvd_eq_mod_eq_0 conj_assoc)
qed

definition mapped :: "nat \<Rightarrow> nat \<Rightarrow> int set \<Rightarrow> (int \<Rightarrow> page) \<Rightarrow> int \<Rightarrow> page" where
  "mapped nid zone R m = (\<lambda>p. if p \<in> R then init_page nid p zone (m p) else m p)"

lemma memmap_loop_ok:
  assumes "flags_ok z"
  shows "\<exists>b. memmap_loop k nid zone pfn z
      = Some (z\<lparr>pageblock_flags := b, mem_map := mapped nid zone (block pfn (int k)) (mem_map z)\<rparr>) \<and>
    length b = length (pageblock_flags z)"
  using assms
proof (induction k arbitrary: pfn z)
  case 0
  then show ?case by (intro exI [of _ "pageblock_flags z"]) (cases z, simp add: mapped_def)
next
  case (Suc k)
  let ?z = "upd_page pfn (init_page nid pfn zone) z"
  have fl: "flags_ok ?z" using Suc.prems by (simp add: flags_ok_def)
  have "\<exists>b. memmap_init_page nid zone pfn z = Some (?z\<lparr>pageblock_flags := b\<rparr>) \<and>
      length b = length (pageblock_flags z)"
  proof (cases "in_span ?z pfn \<and> 1024 dvd pfn")
    case True
    then show ?thesis
      using set_type_total [OF fl, of pfn MIGRATE_MOVABLE] by (simp add: memmap_init_page_eq Let_def)
  next
    case False
    then show ?thesis
      by (intro exI [of _ "pageblock_flags z"]) (cases z, auto simp: memmap_init_page_eq Let_def upd_page_def)
  qed
  then obtain b where b: "memmap_init_page nid zone pfn z = Some (?z\<lparr>pageblock_flags := b\<rparr>)"
    "length b = length (pageblock_flags z)" by blast
  let ?z1 = "?z\<lparr>pageblock_flags := b\<rparr>"
  have "flags_ok ?z1" using Suc.prems b(2) by (simp add: flags_ok_def)
  from Suc.IH [OF this, of "pfn + 1"] obtain b' where
    b': "memmap_loop k nid zone (pfn + 1) ?z1 = Some (?z1\<lparr>pageblock_flags := b',
        mem_map := mapped nid zone (block (pfn + 1) (int k)) (mem_map ?z1)\<rparr>)"
    "length b' = length (pageblock_flags ?z1)" by blast
  have "mapped nid zone (block (pfn + 1) (int k)) (mem_map ?z1)
      = mapped nid zone (block pfn (int (Suc k))) (mem_map z)"
    by (auto simp: mapped_def fun_eq_iff)
  then show ?case using b b' by (cases z) (simp add: upd_page_def)
qed


text \<open>
  In a zone that starts at a page block, setting up the page structures makes every block movable.
\<close>

lemma type_of_block:
  "flags_ok z \<Longrightarrow> in_span z p \<Longrightarrow> in_span z q \<Longrightarrow> block_no z p = block_no z q \<Longrightarrow>
   get_pageblock_migratetype p z = get_pageblock_migratetype q z"
  by (simp add: get_type_eq)

lemma get_type_mem_map [simp]:
  "get_pageblock_migratetype p (z\<lparr>mem_map := m\<rparr>) = get_pageblock_migratetype p z"
  by (simp add: get_pageblock_migratetype_def get_pageblock_flags_group_def pfn_to_bitidx_def)

lemma memmap_loop_types:
  assumes "flags_ok z" "\<not> page_group_by_mobility_disabled z" "memmap_loop k nid zone pfn z = Some z'"
    and "in_span z q"
    and "get_pageblock_migratetype q z = Some MIGRATE_MOVABLE \<or>
      (\<exists>p \<in> block pfn (int k). in_span z p \<and> 1024 dvd p \<and> block_no z p = block_no z q)"
  shows "get_pageblock_migratetype q z' = Some MIGRATE_MOVABLE"
  using assms
proof (induction k arbitrary: pfn z)
  case 0
  then show ?case by simp
next
  case (Suc k)
  let ?z = "upd_page pfn (init_page nid pfn zone) z"
  have fl: "flags_ok ?z" using Suc.prems(1) by (simp add: flags_ok_def)
  have q: "in_span ?z q" using Suc.prems(4) by (simp add: in_span_def)
  have same: "get_pageblock_migratetype p ?z = get_pageblock_migratetype p z" for p
    by (simp add: upd_page_def)
  have nd: "\<not> page_group_by_mobility_disabled ?z" using Suc.prems(2) by (simp add: upd_page_def)
  obtain z1 where z1: "memmap_init_page nid zone pfn z = Some z1" "memmap_loop k nid zone (pfn + 1) z1 = Some z'"
    using Suc.prems(3) by (auto simp: bind_eq_Some_conv)
  have keep: "flags_ok z1 \<and> zone_start_pfn z1 = zone_start_pfn z \<and> spanned_pages z1 = spanned_pages z \<and>
      \<not> page_group_by_mobility_disabled z1"
  proof (cases "in_span ?z pfn \<and> 1024 dvd pfn")
    case True
    then show ?thesis
      using z1(1) set_type_total [OF fl, of pfn MIGRATE_MOVABLE] fl Suc.prems(2)
      by (auto simp: memmap_init_page_eq Let_def flags_ok_def upd_page_def)
  next
    case False
    then show ?thesis using z1(1) fl Suc.prems(2) by (auto simp: memmap_init_page_eq Let_def upd_page_def)
  qed
  have sp: "in_span z1 p = in_span z p" "block_no z1 p = block_no z p" for p
    using keep by (simp_all add: in_span_def block_no_def)
  have "get_pageblock_migratetype q z1 = Some MIGRATE_MOVABLE \<or>
      (\<exists>p \<in> block (pfn + 1) (int k). in_span z1 p \<and> 1024 dvd p \<and> block_no z1 p = block_no z1 q)"
  proof (cases "in_span ?z pfn \<and> 1024 dvd pfn")
    case True
    then have set: "set_pageblock_migratetype pfn MIGRATE_MOVABLE ?z = Some z1"
      using z1(1) by (simp add: memmap_init_page_eq Let_def)
    have t: "get_pageblock_migratetype q z1 =
        (if block_no ?z q = block_no ?z pfn then Some MIGRATE_MOVABLE else get_pageblock_migratetype q z)"
      using set_get_type [OF fl nd conjunct1 [OF True] _ set q] by (simp add: same MIGRATE_MOVABLE_def)
    have bn: "block_no ?z p = block_no z p" for p by (simp add: block_no_def)
    have b: "block pfn (int (Suc k)) = insert pfn (block (pfn + 1) (int k))" by (auto simp: block_def)
    show ?thesis using Suc.prems(5) t unfolding bn sp b by (auto split: if_splits)
  next
    case False
    then have z1e: "z1 = ?z" using z1(1) by (auto simp: memmap_init_page_eq Let_def)
    have b: "block pfn (int (Suc k)) = insert pfn (block (pfn + 1) (int k))" by (auto simp: block_def)
    have "\<not> (in_span z pfn \<and> 1024 dvd pfn)" using False by (simp add: in_span_def)
    then show ?thesis using Suc.prems(5) unfolding sp b by (auto simp: z1e same)
  qed
  then show ?case using Suc.IH [of z1 "pfn + 1"] keep z1(2) Suc.prems(4) sp by blast
qed

lemma memmap_all_movable:
  assumes "flags_ok z" "\<not> page_group_by_mobility_disabled z" "1024 dvd zone_start_pfn z"
    and "memmap_loop (nat (spanned_pages z)) nid zone (zone_start_pfn z) z = Some z'" "in_span z q"
  shows "get_pageblock_migratetype q z' = Some MIGRATE_MOVABLE"
proof -
  let ?p = "zone_start_pfn z + 1024 * block_no z q"
  have le: "0 \<le> block_no z q" "?p \<le> q" using assms(5) by (auto simp: in_span_def block_no_def)
  then have sp: "in_span z ?p" using assms(5) by (simp add: in_span_def)
  moreover have "?p \<in> block (zone_start_pfn z) (int (nat (spanned_pages z)))"
    using sp by (simp add: in_span_def)
  moreover have "1024 dvd ?p" using assms(3) by simp
  moreover have "block_no z ?p = block_no z q" by (simp add: block_no_def)
  ultimately show ?thesis using memmap_loop_types [OF assms(1,2,4,5)] by blast
qed



lemma memmap_loop_kinds:
  assumes "flags_ok z" "kinds_ok z" "memmap_loop k nid zone pfn z = Some z'"
  shows "kinds_ok z'"
  using assms
proof (induction k arbitrary: pfn z)
  case 0
  then show ?case by simp
next
  case (Suc k)
  let ?z = "upd_page pfn (init_page nid pfn zone) z"
  have fl: "flags_ok ?z" "kinds_ok ?z"
    using Suc.prems(1,2) kinds_same [of ?z z] by (simp_all add: flags_ok_def)
  obtain z1 where z1: "memmap_init_page nid zone pfn z = Some z1" "memmap_loop k nid zone (pfn + 1) z1 = Some z'"
    using Suc.prems(3) by (auto simp: bind_eq_Some_conv)
  show ?case
  proof (cases "in_span ?z pfn \<and> 1024 dvd pfn")
    case True
    then have set: "set_pageblock_migratetype pfn MIGRATE_MOVABLE ?z = Some z1"
      using z1(1) by (simp add: memmap_init_page_eq Let_def)
    have "flags_ok z1" using set set_type_total [OF fl(1), of pfn MIGRATE_MOVABLE] True fl(1) by (auto simp: flags_ok_def)
    moreover have "kinds_ok z1" using set_kinds [OF fl(1) _ _ fl(2) set] True by (simp add: buddy_consts)
    ultimately show ?thesis using Suc.IH z1(2) by blast
  next
    case False
    then have "z1 = ?z" using z1(1) by (auto simp: memmap_init_page_eq Let_def)
    then show ?thesis using Suc.IH fl z1(2) by blast
  qed
qed


section \<open>The zones of the node\<close>

lemma zone_put_put [simp]: "zone_put j z (zone_put j z' n) = zone_put j z n"
  by (simp add: zone_put_def)

lemma zone_put_node:
  "node_mem_map (zone_put j z n) = mem_map z" "node_stat (zone_put j z n) = global_stat z"
  "node_mobility_disabled (zone_put j z n) = page_group_by_mobility_disabled z"
  by (simp_all add: zone_put_def)

text \<open>The zone before its page structures are set up.\<close>

definition prepared :: "per_cpu_pages \<Rightarrow> int \<Rightarrow> int \<Rightarrow> int \<Rightarrow> zstate \<Rightarrow> zstate" where
  "prepared ps real sz start z =
     zone_init_free_lists ((setup_usemap sz (zap_zone_vm_stats (z\<lparr>spanned_pages := sz,
       present_pages := real, pageset := ps\<rparr>)))\<lparr>zone_start_pfn := start\<rparr>)"

lemma prepared_fields:
  "zone_no (prepared ps real sz start z) = zone_no z" "mem_map (prepared ps real sz start z) = mem_map z"
  "zone_start_pfn (prepared ps real sz start z) = start" "spanned_pages (prepared ps real sz start z) = sz"
  "pageset (prepared ps real sz start z) = ps"
  "page_group_by_mobility_disabled (prepared ps real sz start z) = page_group_by_mobility_disabled z"
  "free_list (prepared ps real sz start z) =
     (\<lambda>order t. if order < MAX_ORDER \<and> t < MIGRATE_TYPES then [] else free_list z order t)"
  "nr_free (prepared ps real sz start z) = (\<lambda>order. if order < MAX_ORDER then 0 else nr_free z order)"
  by (simp_all add: prepared_def zone_init_free_lists_def setup_usemap_def zap_zone_vm_stats_def
      Let_def cong: if_cong)

lemma prepared_flags:
  assumes "0 < sz" "sz \<le> 2 ^ 32" "0 \<le> start"
  shows "flags_ok (prepared ps real sz start z)" "kinds_ok (prepared ps real sz start z)"
proof -
  have u: "usemap_size sz \<noteq> 0" "0 \<le> usemap_size sz" "3 * ((sz + 1023) div 1024) \<le> 32 * (usemap_size sz div 4)"
    using usemap_size_ok [of sz] assms by auto
  have "pageblock_flags (prepared ps real sz start z) = replicate (nat (usemap_size sz div 4)) 0"
    using u(1) by (simp add: prepared_def zone_init_free_lists_def setup_usemap_def zap_zone_vm_stats_def Let_def)
  moreover have "bits (replicate n 0) = {}" for n by (auto simp: bits_def in_map_def)
  ultimately show "flags_ok (prepared ps real sz start z)" "kinds_ok (prepared ps real sz start z)"
    using u assms by (simp_all add: flags_ok_def prepared_fields kinds_ok_def)
qed

lemma init_zone_ok:
  fixes g :: pgdat and ps :: per_cpu_pages and zs hs :: "nat \<Rightarrow> int" and pb dr start :: int
  assumes "0 < zs j" "zs j \<le> 2 ^ 31" "0 \<le> start" "start \<le> 2 ^ 31"
  defines "z0 \<equiv> prepared ps (zone_realsize pb dr j zs hs) (zs j) start (zone_view j (pg_node g))"
  shows "\<exists>b g'. init_zone pb dr zs hs ps j (start, g) = Some (start + zs j, g') \<and> node_id g' = node_id g \<and>
    length b = length (pageblock_flags z0) \<and>
    kinds_ok (z0\<lparr>pageblock_flags := b, mem_map := mapped (node_id g) j (block start (zs j)) (mem_map z0)\<rparr>) \<and>
    pg_node g' = zone_put j (z0\<lparr>pageblock_flags := b,
      mem_map := mapped (node_id g) j (block start (zs j)) (mem_map z0)\<rparr>) (pg_node g) \<and>
    (\<not> node_mobility_disabled (pg_node g) \<and> 1024 dvd start \<longrightarrow>
      (\<forall>q \<in> block start (zs j). get_pageblock_migratetype q (zone_view j (pg_node g')) = Some MIGRATE_MOVABLE))"
proof -
  have fl: "flags_ok z0" "kinds_ok z0" unfolding z0_def using assms by (intro prepared_flags; simp)+
  obtain k where k: "wait_table_hash_nr_entries (zs j) = Some (2 ^ k)"
    using wait_table_ok [of "zs j"] assms by auto
  have n: "int (nat (zs j)) = zs j" using assms by simp
  obtain b where b: "memmap_loop (nat (zs j)) (node_id g) j start z0 = Some (z0\<lparr>pageblock_flags := b,
      mem_map := mapped (node_id g) j (block start (zs j)) (mem_map z0)\<rparr>)"
    "length b = length (pageblock_flags z0)"
    using memmap_loop_ok [OF fl(1), of "nat (zs j)" "node_id g" j start] unfolding n by blast
  let ?z = "z0\<lparr>pageblock_flags := b, mem_map := mapped (node_id g) j (block start (zs j)) (mem_map z0)\<rparr>"
  have u: "u64 (start + zs j) = start + zs j" using assms by simp
  obtain g' where g': "init_zone pb dr zs hs ps j (start, g) = Some (start + zs j, g')"
    "node_id g' = node_id g" "pg_node g' = zone_put j ?z (pg_node g)"
    using b(1) k assms(1) u
    by (cases "is_highmem_idx j") (auto simp: init_zone_def on_zone_def init_currently_empty_zone_def zone_wait_table_init_def
        memmap_init_zone_def z0_def prepared_def Let_def)
  have "get_pageblock_migratetype q (zone_view j (pg_node g')) = Some MIGRATE_MOVABLE"
    if "\<not> node_mobility_disabled (pg_node g)" "1024 dvd start" "q \<in> block start (zs j)" for q
  proof -
    have "in_span z0 q" "\<not> page_group_by_mobility_disabled z0" "zone_start_pfn z0 = start"
      "spanned_pages z0 = zs j"
      using that by (simp_all add: in_span_def z0_def prepared_fields zone_view_shared)
    then show ?thesis
      using memmap_all_movable [OF fl(1), of "node_id g" j ?z q] b(1) that(2) g'(3) by simp
  qed
  then show ?thesis using g' b(2) memmap_loop_kinds [OF fl b(1)] by blast
qed

lemma init_zone_empty:
  assumes "zs j = 0"
  shows "\<exists>g' st ps real. init_zone pb dr zs hs ps0 j (start, g) = Some (start, g') \<and> node_id g' = node_id g \<and>
    pg_node g' = zone_put j ((zone_view j (pg_node g))\<lparr>spanned_pages := 0, present_pages := real,
      pageset := ps0, vm_stat := \<lambda>_. 0\<rparr>) (pg_node g)"
  using assms by (auto simp: init_zone_def on_zone_def zap_zone_vm_stats_def Let_def)

text \<open>A zone that is set up and empty.\<close>

definition set_up :: "(nat \<Rightarrow> int) \<Rightarrow> nat \<Rightarrow> int \<Rightarrow> node \<Rightarrow> bool" where
  "set_up zs i start n \<longleftrightarrow> (let z = zone_view i n in
     zone_no z = i \<and> free_list z = (\<lambda>_ _. []) \<and> nr_free z = (\<lambda>_. 0) \<and> pageset z = setup_pageset 0 \<and>
     spanned_pages z = zs i \<and> flags_ok z \<and> kinds_ok z \<and> (zs i \<noteq> 0 \<longrightarrow> zone_start_pfn z = start))"

text \<open>A zone as the loader leaves it: all zero, with empty lists.\<close>

definition blank :: "nat \<Rightarrow> node \<Rightarrow> bool" where
  "blank i n \<longleftrightarrow> (let z = zone_view i n in
     zone_no z = i \<and> free_list z = (\<lambda>_ _. []) \<and> nr_free z = (\<lambda>_. 0) \<and> zone_start_pfn z = 0 \<and>
     pageblock_flags z = [])"

lemma zone_view_other:
  "j \<noteq> i \<Longrightarrow> set_up zs j start (zone_put i z n) = set_up zs j start n"
  "j \<noteq> i \<Longrightarrow> blank j (zone_put i z n) = blank j n"
  by (simp_all add: set_up_def blank_def zone_view_put_other Let_def)

lemma init_zone_step:
  assumes zs: "0 \<le> zs j" "zs j \<le> 2 ^ 31" "0 \<le> start" "start \<le> 2 ^ 31" and bl: "blank j (pg_node g)"
  shows "\<exists>z g'. init_zone pb dr zs hs (setup_pageset 0) j (start, g) = Some (start + zs j, g') \<and>
    node_id g' = node_id g \<and> pg_node g' = zone_put j z (pg_node g) \<and> set_up zs j start (pg_node g') \<and>
    node_mem_map (pg_node g') = mapped (node_id g) j (block start (zs j)) (node_mem_map (pg_node g)) \<and>
    node_mobility_disabled (pg_node g') = node_mobility_disabled (pg_node g)"
proof (cases "zs j = 0")
  case True
  have "mapped (node_id g) j (block start (zs j)) m = m" for m by (simp add: mapped_def True)
  then show ?thesis
    using init_zone_empty [of zs j pb dr hs "setup_pageset 0" start g, OF True] bl True
    by (fastforce simp: set_up_def blank_def flags_ok_def kinds_ok_def bits_def in_map_def zone_put_node zone_view_shared Let_def)
next
  case False
  then have pos: "0 < zs j" using zs by simp
  let ?z0 = "prepared (setup_pageset 0) (zone_realsize pb dr j zs hs) (zs j) start (zone_view j (pg_node g))"
  obtain b g' where g': "init_zone pb dr zs hs (setup_pageset 0) j (start, g) = Some (start + zs j, g')"
    "node_id g' = node_id g" "length b = length (pageblock_flags ?z0)"
    "kinds_ok (?z0\<lparr>pageblock_flags := b, mem_map := mapped (node_id g) j (block start (zs j)) (mem_map ?z0)\<rparr>)"
    "pg_node g' = zone_put j (?z0\<lparr>pageblock_flags := b,
      mem_map := mapped (node_id g) j (block start (zs j)) (mem_map ?z0)\<rparr>) (pg_node g)"
    using init_zone_ok [of zs j start, OF pos zs(2-4)] by blast
  have "flags_ok ?z0" using pos zs by (intro prepared_flags(1)) auto
  then show ?thesis
    using g' bl
    by (auto simp: set_up_def blank_def flags_ok_def zone_put_node prepared_fields zone_view_shared
        Let_def fun_eq_iff)
qed

lemma init_core_set_up:
  assumes zs: "\<forall>i < 3. 0 \<le> zs i \<and> zs i \<le> 2 ^ 29" and st: "0 \<le> start" "start \<le> 2 ^ 29"
    and bl: "\<forall>i < 3. blank i (pg_node g)" and s: "node_start_pfn g = start"
  defines "R \<equiv> \<lambda>i :: nat. block (start + (\<Sum>k<i. zs k)) (zs i)"
  shows "\<exists>g'. free_area_init_core pb dr zs hs (setup_pageset 0) g = Some g' \<and>
    (\<forall>i < 3. set_up zs i (start + (\<Sum>k<i. zs k)) (pg_node g')) \<and>
    node_mem_map (pg_node g') = mapped (node_id g) 2 (R 2) (mapped (node_id g) 1 (R 1)
      (mapped (node_id g) 0 (R 0) (node_mem_map (pg_node g)))) \<and>
    node_mobility_disabled (pg_node g') = node_mobility_disabled (pg_node g)"
proof -
  let ?init = "init_zone pb dr zs hs (setup_pageset 0)"
  let ?g0 = "g\<lparr>nr_zones := 0\<rparr>"
  have z: "0 \<le> zs 0" "zs 0 \<le> 2 ^ 29" "0 \<le> zs 1" "zs 1 \<le> 2 ^ 29" "0 \<le> zs 2" "zs 2 \<le> 2 ^ 29"
    using zs by auto
  have b: "blank 0 (pg_node ?g0)" "blank 1 (pg_node ?g0)" "blank 2 (pg_node ?g0)" using bl by auto
  obtain z0 g0 where g0: "?init 0 (start, ?g0) = Some (start + zs 0, g0)" "node_id g0 = node_id ?g0"
    "pg_node g0 = zone_put 0 z0 (pg_node ?g0)" "set_up zs 0 start (pg_node g0)"
    "node_mem_map (pg_node g0) = mapped (node_id ?g0) 0 (block start (zs 0)) (node_mem_map (pg_node ?g0))"
    "node_mobility_disabled (pg_node g0) = node_mobility_disabled (pg_node ?g0)"
    using init_zone_step [of zs 0 start ?g0 pb dr hs] z st b(1) by auto
  have b0: "blank 1 (pg_node g0)" "blank 2 (pg_node g0)" unfolding g0(3) using b by (simp_all add: zone_view_other)
  obtain z1 g1 where g1: "?init 1 (start + zs 0, g0) = Some (start + zs 0 + zs 1, g1)" "node_id g1 = node_id g0"
    "pg_node g1 = zone_put 1 z1 (pg_node g0)" "set_up zs 1 (start + zs 0) (pg_node g1)"
    "node_mem_map (pg_node g1) = mapped (node_id g0) 1 (block (start + zs 0) (zs 1)) (node_mem_map (pg_node g0))"
    "node_mobility_disabled (pg_node g1) = node_mobility_disabled (pg_node g0)"
    using init_zone_step [of zs 1 "start + zs 0" g0 pb dr hs] z st b0(1) by auto
  have b1: "blank 2 (pg_node g1)" unfolding g1(3) using b0 by (simp add: zone_view_other)
  obtain z2 g2 where g2: "?init 2 (start + zs 0 + zs 1, g1) = Some (start + zs 0 + zs 1 + zs 2, g2)"
    "pg_node g2 = zone_put 2 z2 (pg_node g1)" "set_up zs 2 (start + zs 0 + zs 1) (pg_node g2)"
    "node_mem_map (pg_node g2) = mapped (node_id g1) 2 (block (start + zs 0 + zs 1) (zs 2)) (node_mem_map (pg_node g1))"
    "node_mobility_disabled (pg_node g2) = node_mobility_disabled (pg_node g1)"
    using init_zone_step [of zs 2 "start + zs 0 + zs 1" g1 pb dr hs] z st b1 by auto
  have u: "[0..<MAX_NR_ZONES] = [0, 1, 2]" by (simp add: MAX_NR_ZONES_def upt_rec)
  have run: "free_area_init_core pb dr zs hs (setup_pageset 0) g = Some g2"
    using g0(1) g1(1) g2(1) s by (simp add: free_area_init_core_def u)
  have s2: "{..<2 :: nat} = {0, 1}" "{..<1 :: nat} = {0}" by auto
  have su: "set_up zs 0 start (pg_node g2)" "set_up zs 1 (start + zs 0) (pg_node g2)"
    unfolding g2(2) g1(3) using g0(4) g1(4) unfolding g1(3) by (simp_all add: zone_view_other)
  have "set_up zs i (start + (\<Sum>k<i. zs k)) (pg_node g2)" if "i < 3" for i
  proof -
    have "i = 0 \<or> i = 1 \<or> i = 2" using that by auto
    then show ?thesis using su g2(3) by (auto simp: s2 algebra_simps)
  qed
  then show ?thesis
    using run g0(2,5,6) g1(2,5,6) g2(4,5) by (simp add: R_def s2 algebra_simps)
qed


lemma node_ok_set_up:
  assumes zs: "\<forall>i < 3. 0 \<le> zs i \<and> zs i \<le> 2 ^ 29"
    and su: "\<forall>i < 3. set_up zs i (S i) n"
    and cover: "\<forall>p. valid p \<longrightarrow> (\<exists>i < 3. p \<in> block (S i) (zs i))"
    and pages: "\<forall>i < 3. \<forall>p \<in> block (S i) (zs i). page_zone_id (node_mem_map n p) = i \<and>
      pg_mapcount (node_mem_map n p) = - 1"
  shows "node_ok valid n \<and> (\<forall>i < 3. stock (zone_view i n) = {})"
proof -
  have "zone_ok valid i (zone_view i n) \<and> stock (zone_view i n) = {}" if i: "i < 3" for i
  proof -
    let ?z = "zone_view i n"
    have f: "zone_no ?z = i" "free_list ?z = (\<lambda>_ _. [])" "nr_free ?z = (\<lambda>_. 0)"
      "pageset ?z = setup_pageset 0" "spanned_pages ?z = zs i" "flags_ok ?z" "kinds_ok ?z"
      "zs i \<noteq> 0 \<Longrightarrow> zone_start_pfn ?z = S i"
      using su i by (auto simp: set_up_def Let_def)
    have zi: "0 \<le> zs i" "zs i \<le> 2 ^ 29" using zs i by auto
    have mine: "page_zone_id (node_mem_map n p) = i \<longleftrightarrow> p \<in> block (S i) (zs i)" if "valid p" for p
    proof
      obtain j where j: "j < 3" "p \<in> block (S j) (zs j)" using cover \<open>valid p\<close> by metis
      then have "page_zone_id (node_mem_map n p) = j" using pages by metis
      then show "page_zone_id (node_mem_map n p) = i \<Longrightarrow> p \<in> block (S i) (zs i)" using j(2) by metis
      show "p \<in> block (S i) (zs i) \<Longrightarrow> page_zone_id (node_mem_map n p) = i" using pages i by metis
    qed
    have zp: "zone_pages valid ?z = {p. valid p \<and> p \<in> block (S i) (zs i)}"
      unfolding zone_pages_def zone_view_shared f(1) using mine by (intro Collect_cong) blast
    have fb: "finite (block (S i) (zs i))" by (simp add: block_def)
    have sub: "zone_pages valid ?z \<subseteq> block (S i) (zs i)" unfolding zp by blast
    have fin: "finite (zone_pages valid ?z)" by (rule finite_subset [OF sub fb])
    have "card (zone_pages valid ?z) \<le> card (block (S i) (zs i))" by (rule card_mono [OF fb sub])
    also have "\<dots> = nat (zs i)" by (simp add: block_def)
    finally have card: "int (card (zone_pages valid ?z)) \<le> 2 ^ 29" using zi by linarith
    have nb: "\<not> PageBuddy (mem_map ?z p)" if "p \<in> zone_pages valid ?z" for p
      using that pages i unfolding zp zone_view_shared by (auto simp: PageBuddy_def)
    have p0: "pcp_lists (pageset ?z) = (\<lambda>_. [])" "pcp_count (pageset ?z) = 0" "pcp_batch (pageset ?z) = 1"
      by (simp_all add: f(4) setup_pageset_def)
    have e: "blocks ?z = {}" "free_set ?z = {}" "pcp_pages ?z = {}" "stock ?z = {}" "pcp_total ?z = 0"
      "pcp_list t ?z = []" for t
      by (auto simp: blocks_def free_set_def pcp_pages_def stock_def listed_def f(2) pcp_total_def
          pcp_list_def p0)
    have span: "zone_pages valid ?z = {p. valid p \<and> zone_start_pfn ?z \<le> p \<and> p < zone_start_pfn ?z + spanned_pages ?z}"
      unfolding zp using f(5,8) by (cases "zs i = 0") auto
    have "0 \<le> zone_start_pfn ?z" using f(6) by (simp add: flags_ok_def)
    then have "buddy_inv valid ?z"
      unfolding buddy_inv_def e using nb span
      by (auto simp: lists_ok_def f(2,3) apart_def list_count_def)
    then have "pcp_ok valid ?z" by (simp add: pcp_ok_def e merged_def)
    then show ?thesis using fin card by (simp add: zone_ok_def f e setup_pageset_def all_fresh_def)
  qed
  then show ?thesis by (simp add: node_ok_def MAX_NR_ZONES_def)
qed

lemma blocks_cover:
  fixes zs :: "nat \<Rightarrow> int"
  assumes zs: "\<forall>i < 3. 0 \<le> zs i" and p: "start \<le> p" "p < start + (\<Sum>k<3. zs k :: int)"
  shows "\<exists>i < 3. p \<in> block (start + (\<Sum>k<i. zs k)) (zs i)"
proof -
  have s: "{..<3 :: nat} = {0, 1, 2}" "{..<2 :: nat} = {0, 1}" "{..<1 :: nat} = {0}" by auto
  consider "p < start + zs 0" | "start + zs 0 \<le> p" "p < start + zs 0 + zs 1" | "start + zs 0 + zs 1 \<le> p"
    by linarith
  then show ?thesis
  proof cases
    case 1
    then show ?thesis using p by (intro exI [of _ 0]) simp
  next
    case 2
    then show ?thesis by (intro exI [of _ 1]) (simp add: s algebra_simps)
  next
    case 3
    then show ?thesis using p by (intro exI [of _ 2]) (simp add: s algebra_simps)
  qed
qed

lemma init_core_ready:
  assumes zs: "\<forall>i < 3. 0 \<le> zs i \<and> zs i \<le> 2 ^ 29" and st: "0 \<le> node_start_pfn g" "node_start_pfn g \<le> 2 ^ 29"
    and bl: "\<forall>i < 3. blank i (pg_node g)"
    and v: "\<forall>p. valid p \<longrightarrow> node_start_pfn g \<le> p \<and> p < node_start_pfn g + (\<Sum>k<3. zs k)"
  shows "\<exists>g'. free_area_init_core pb dr zs hs (setup_pageset 0) g = Some g' \<and> node_ok valid (pg_node g') \<and>
    (\<forall>i < 3. stock (zone_view i (pg_node g')) = {})"
proof -
  let ?S = "\<lambda>i. node_start_pfn g + (\<Sum>k<i. zs k)"
  obtain g' where g': "free_area_init_core pb dr zs hs (setup_pageset 0) g = Some g'"
    "\<forall>i < 3. set_up zs i (?S i) (pg_node g')"
    "node_mem_map (pg_node g') = mapped (node_id g) 2 (block (?S 2) (zs 2)) (mapped (node_id g) 1
      (block (?S 1) (zs 1)) (mapped (node_id g) 0 (block (?S 0) (zs 0)) (node_mem_map (pg_node g))))"
    using init_core_set_up [OF zs st bl refl, of pb dr hs] by blast
  have z: "0 \<le> zs 0" "0 \<le> zs 1" "0 \<le> zs 2" using zs by auto
  have s: "{..<2 :: nat} = {0, 1}" "{..<1 :: nat} = {0}" by auto
  have S: "?S 0 = node_start_pfn g" "?S 1 = node_start_pfn g + zs 0" "?S 2 = node_start_pfn g + zs 0 + zs 1"
    by (simp_all add: s)
  have page: "page_zone_id (node_mem_map (pg_node g') p) = i \<and> pg_mapcount (node_mem_map (pg_node g') p) = - 1"
    if i: "i < 3" and p: "p \<in> block (?S i) (zs i)" for i p
  proof -
    have "i = 0 \<or> i = 1 \<or> i = 2" using i by auto
    then have "\<exists>q. node_mem_map (pg_node g') p = init_page (node_id g) p i q"
      using p z unfolding g'(3) S(1-3) by (auto simp: mapped_def S)
    then obtain q where "node_mem_map (pg_node g') p = init_page (node_id g) p i q" by blast
    then show ?thesis using init_page_fields [of i] i by simp
  qed
  have "\<forall>p. valid p \<longrightarrow> (\<exists>i < 3. p \<in> block (?S i) (zs i))"
    using v blocks_cover [of zs "node_start_pfn g"] zs by blast
  from node_ok_set_up [OF zs g'(2) this] page show ?thesis using g'(1) by blast
qed

lemma build_zonelists_ok: "zonelist_ok (build_zonelists n)"
proof -
  have "\<forall>r \<in> set (build_zonelists_node n k). \<exists>i < k. r = zoneref_set_zone i" for k
    by (induction k) (auto intro: less_SucI)
  then show ?thesis
    unfolding zonelist_ok_def build_zonelists_def by (fastforce simp: zoneref_set_zone_def)
qed

lemma build_zonelists_zones:
  "set (build_zonelists n) = insert \<lparr>zr_zone = None, zr_idx = 0\<rparr>
     {zoneref_set_zone i | i. i < MAX_NR_ZONES \<and> populated_zone (node_zones n i)}"
proof -
  have "set (build_zonelists_node n k) = {zoneref_set_zone i | i. i < k \<and> populated_zone (node_zones n i)}" for k
    by (induction k) (auto simp: less_Suc_eq)
  then show ?thesis by (simp add: build_zonelists_def)
qed


section \<open>Releasing boot memory\<close>

lemma clear_reserved_zone: "page_zone_id (CLEARPAGEFLAG PG_reserved p) = page_zone_id p"
  by (rule low_flags_zone) (simp add: CLEARPAGEFLAG_def bit_clear_flag PG_reserved_def)

lemma release_boot_page:
  assumes ok: "pcp_ok valid z" and sane: "pcp_sane z" and p: "page \<in> zone_pages valid z" "page \<notin> stock z"
    and c: "clean_page (set_page_count 0 (CLEARPAGEFLAG PG_reserved (mem_map z page)))"
    and t: "get_pageblock_migratetype page z = Some t" "t < MIGRATE_TYPES"
  shows "\<exists>z'. free_pages_bootmem valid page 0 z = Some z' \<and> pcp_ok valid z' \<and>
    stock z' = insert page (stock z) \<and> pcp_count (pageset z') = int (pcp_total z')"
proof -
  let ?f = "set_page_count 0 \<circ> (set_page_refcounted \<circ> set_page_count 0 \<circ> CLEARPAGEFLAG PG_reserved)"
  let ?z = "upd_page page ?f z"
  have run: "free_pages_bootmem valid page 0 z = free_hot_cold_page valid page False ?z"
    by (simp add: free_pages_bootmem_def free_pages_c_def put_page_testzero_def set_page_refcounted_def
        set_page_count_def Let_def)
  have f: "page_zone_id (?f (mem_map z page)) = page_zone_id (mem_map z page)"
    using clear_reserved_zone [of "mem_map z page"]
    by (simp add: set_page_count_def set_page_refcounted_def page_zone_id_def)
  have e: "?f (mem_map z page) = set_page_count 0 (CLEARPAGEFLAG PG_reserved (mem_map z page))"
    by (simp add: set_page_count_def set_page_refcounted_def)
  then have nb: "\<not> PageBuddy (?f (mem_map z page))" using c by (simp add: clean_page_def PageBuddy_def)
  have ok': "pcp_ok valid ?z" by (rule pcp_ok_upd [of valid z page ?f, OF ok p(2) f nb])
  have "clean_page (mem_map ?z page)" using c e by simp
  moreover have "page \<in> zone_pages valid ?z" using p(1) zone_pages_upd [of ?f, OF f, of valid] by simp
  moreover have "get_pageblock_migratetype page ?z = Some t"
    using t(1) by (simp add: upd_page_def)
  moreover have "pcp_sane ?z" using sane by (simp add: pcp_sane_def)
  moreover have st: "stock ?z = stock z" by (simp add: stock_def)
  ultimately show ?thesis using free_hot_cold_ok [OF ok', of page t False] p(2) t(2) unfolding run by auto
qed



section \<open>Properties\<close>

definition ex_boot :: pgdat where
  "ex_boot = \<lparr>pg_node = \<lparr>node_zones = ex_empty_zone, node_mem_map = (\<lambda>_. ex_page), node_stat = (\<lambda>_. 0),
       node_mobility_disabled = False\<rparr>,
     nr_zones = 0, node_id = 0, node_start_pfn = 0, node_spanned_pages = 0, node_present_pages = 0,
     wait_tables = (\<lambda>_. (0, 0)), nr_kernel_pages = 0, nr_all_pages = 0, highest_memmap_pfn = 0\<rparr>"

definition ex_sizes :: "nat \<Rightarrow> int" where
  "ex_sizes i = (if i = 0 then 2048 else 0)"

lemma ex_boot_blank: "blank i (pg_node ex_boot)"
  by (simp add: blank_def ex_boot_def zone_view_def ex_empty_zone_def ex_empty_def zone.defs zstate.defs)

text \<open>
  C8: \<^verbatim>\<open>free_area_init_core\<close>, started on zones that are all zero, returns and leaves a node on which the
  page allocator can run: every zone satisfies the invariant the allocator needs, with no page to give
  yet, and the zonelist built for the node is well formed.
\<close>
theorem free_area_init_ready:
  assumes "\<forall>i < 3. 0 \<le> zones_size i \<and> zones_size i \<le> 2 ^ 29"
    and "0 \<le> node_start_pfn g" "node_start_pfn g \<le> 2 ^ 29" "\<forall>i < 3. blank i (pg_node g)"
    and "\<forall>p. valid p \<longrightarrow> node_start_pfn g \<le> p \<and> p < node_start_pfn g + (\<Sum>k<3. zones_size k)"
  shows "\<exists>g'. free_area_init_core page_bytes dma_reserve zones_size zhole_size (setup_pageset 0) g = Some g' \<and>
    node_ok valid (pg_node g') \<and> (\<forall>i < 3. stock (zone_view i (pg_node g')) = {}) \<and>
    zonelist_ok (build_zonelists (pg_node g'))"
  using init_core_ready [OF assms] build_zonelists_ok by blast

theorem free_area_init_ready_witness:
  "\<exists>g'. free_area_init_core 64 0 ex_sizes (\<lambda>_. 0) (setup_pageset 0) ex_boot = Some g' \<and>
     node_ok ex_valid (pg_node g') \<and> zonelist_ok (build_zonelists (pg_node g'))"
proof -
  have s: "{..<3 :: nat} = {0, 1, 2}" by auto
  have "\<forall>i < 3. 0 \<le> ex_sizes i \<and> ex_sizes i \<le> 2 ^ 29" by (simp add: ex_sizes_def)
  moreover have "0 \<le> node_start_pfn ex_boot" "node_start_pfn ex_boot \<le> 2 ^ 29" by (simp_all add: ex_boot_def)
  moreover have "\<forall>i < 3. blank i (pg_node ex_boot)" using ex_boot_blank by blast
  moreover have "\<forall>p. ex_valid p \<longrightarrow> node_start_pfn ex_boot \<le> p \<and>
      p < node_start_pfn ex_boot + (\<Sum>k<3. ex_sizes k)"
    by (simp add: ex_valid_def ex_boot_def s ex_sizes_def)
  ultimately show ?thesis
    using free_area_init_ready [of ex_sizes ex_boot ex_valid 64 0 "\<lambda>_. 0"] by blast
qed

text \<open>
  C14: a page of boot memory that is handed over, reserved and in use until then, is afterwards in the
  stock of its zone, free or on a per-CPU list, and no other page is.
\<close>
theorem boot_page_joins_stock:
  assumes "pcp_ok valid z" "pcp_sane z" "page \<in> zone_pages valid z" "page \<notin> stock z"
    and "clean_page (set_page_count 0 (CLEARPAGEFLAG PG_reserved (mem_map z page)))"
    and "get_pageblock_migratetype page z = Some t" "t < MIGRATE_TYPES"
  shows "\<exists>z'. free_pages_bootmem valid page 0 z = Some z' \<and> pcp_ok valid z' \<and>
    stock z' = insert page (stock z) \<and> pcp_count (pageset z') = int (pcp_total z')"
  by (rule release_boot_page [OF assms])

theorem boot_page_joins_stock_witness:
  "\<exists>z'. free_pages_bootmem ex_valid 1500 0 ex_zone = Some z' \<and> stock z' = insert 1500 {0..<1032}"
proof -
  have c: "clean_page (set_page_count 0 (CLEARPAGEFLAG PG_reserved (mem_map ex_zone 1500)))" by code_simp
  have t: "get_pageblock_migratetype 1500 ex_zone = Some MIGRATE_UNMOVABLE" by code_simp
  show ?thesis
    using boot_page_joins_stock [OF ex_zone_pcp_ok ex_zone_sane _ _ c t] ex_zone_ok(5)
    by (auto simp: ex_zone_pcp buddy_consts)
qed

text \<open>
  The hash table of a zone's wait queues has a power of two of entries between 4 and 4096, the
  smallest that leaves at most 256 pages to a queue unless a bound is met, and the number of bits is its
  logarithm.
\<close>
theorem wait_table_sizes:
  assumes "0 \<le> pages" "pages < 2 ^ 64"
  shows "\<exists>k \<in> {2..12}. wait_table_hash_nr_entries pages = Some (2 ^ k) \<and> wait_table_bits (2 ^ k) = int k \<and>
    (pages \<le> 256 * 2 ^ k + 255 \<or> k = 12) \<and> (k = 2 \<or> 256 * 2 ^ (k - 1) < pages)"
  by (rule wait_table_ok [OF assms])

theorem wait_table_sizes_witness:
  "\<exists>k \<in> {2..12}. wait_table_hash_nr_entries 65536 = Some (2 ^ k) \<and> wait_table_bits (2 ^ k) = int k"
  using wait_table_sizes [of 65536] by auto

end
