(* ===== verification/Percpu.thy ===== *)
theory Percpu
  imports ZoneInit
begin

text \<open>
  The per-CPU allocator of \<^verbatim>\<open>mm/percpu.c\<close>. A chunk keeps the state of its area in an array of C ints,
  \<open>amap\<close>: a positive entry is a free block of that many bytes, a negative one an allocated block, and the
  blocks lie next to each other from offset 0. Only the first \<open>map_used\<close> of the \<open>map_alloc\<close> entries of
  the array count. Chunks hang in the lists \<open>pcpu_slot\<close>, sorted by their free bytes; a chunk is named by
  its index in \<open>pchunks\<close>.

  An access outside the array, or a list walk that follows a chunk out of its list, is the result
  \<open>None\<close>. Locks and messages are left out, and so are the contents of the memory that is handed out.
\<close>

section \<open>Chunks and their area maps\<close>

record pcpu_chunk =
  free_size :: int
  contig_hint :: int
  base_addr :: int
  map_used :: nat
  map_alloc :: nat
  amap :: "int list"
  immutable :: bool

definition PCPU_SLOT_BASE_SHIFT :: int where "PCPU_SLOT_BASE_SHIFT = 5"

definition PCPU_DFL_MAP_ALLOC :: nat where "PCPU_DFL_MAP_ALLOC = 16"

function double_until :: "nat \<Rightarrow> nat \<Rightarrow> nat" where
  "double_until n k = (if 0 < n \<and> n < k then double_until (n * 2) k else n)"
  by pat_completeness auto
termination by (relation "measure (\<lambda>(n, k). k - n)") auto

declare double_until.simps [simp del]

definition pcpu_need_to_extend :: "pcpu_chunk \<Rightarrow> nat" where
  "pcpu_need_to_extend chunk =
     (if map_used chunk + 2 \<le> map_alloc chunk then 0
      else double_until PCPU_DFL_MAP_ALLOC (map_used chunk + 2))"

text \<open>\<^verbatim>\<open>memmove\<close> of \<open>n\<close> entries inside one array, from index \<open>s\<close> to index \<open>d\<close>.\<close>

definition memmove :: "int list \<Rightarrow> nat \<Rightarrow> nat \<Rightarrow> nat \<Rightarrow> int list option" where
  "memmove m d s n =
     (if n = 0 \<or> d + n \<le> length m \<and> s + n \<le> length m
      then Some (take d m @ take n (drop s m) @ drop (d + n) m) else None)"

definition pcpu_split_block :: "pcpu_chunk \<Rightarrow> nat \<Rightarrow> int \<Rightarrow> int \<Rightarrow> pcpu_chunk option" where
  "pcpu_split_block chunk i head tail =
     (let nr_extra = of_bool (head \<noteq> 0) + of_bool (tail \<noteq> 0) in
      do { m \<leftarrow> memmove (amap chunk) (i + nr_extra) i (map_used chunk - i);
           let (m, j) = (if head \<noteq> 0 then (m[i + 1 := m ! i - head, i := head], i + 1) else (m, i));
           let m = (if tail \<noteq> 0 then m[j := m ! j - tail, j + 1 := tail] else m);
           Some (chunk\<lparr>amap := m, map_used := map_used chunk + nr_extra\<rparr>) })"

text \<open>
  The loop of \<^verbatim>\<open>pcpu_alloc_area\<close> that looks for a free block: \<open>Inl\<close> its index, offset and alignment gap
  and the largest block passed on the way, or \<open>Inr\<close> the largest block when none fits.
\<close>

fun scan_area :: "int \<Rightarrow> int \<Rightarrow> int list \<Rightarrow> nat \<Rightarrow> int \<Rightarrow> int \<Rightarrow> (nat \<times> int \<times> int \<times> int) + int" where
  "scan_area sz align [] i off max_contig = Inr max_contig"
| "scan_area sz align (x # xs) i off max_contig =
     (let head = mask_down (off + align - 1) align - off in
      if x < 0 then scan_area sz align xs (i + 1) (off + \<bar>x\<bar>) max_contig
      else if x < head + sz then scan_area sz align xs (i + 1) (off + \<bar>x\<bar>) (max x max_contig)
      else Inl (i, off, head, max_contig))"

text \<open>The rest of the loop body, once a block is found: a gap that is small or follows a free block goes
  to the block before.\<close>

definition merge_head :: "pcpu_chunk \<Rightarrow> nat \<Rightarrow> int \<Rightarrow> int \<Rightarrow> (pcpu_chunk \<times> int \<times> int) option" where
  "merge_head chunk i off head =
     (if head \<noteq> 0 \<and> i = 0 then None
      else if head \<noteq> 0 \<and> (u64 head < 4 \<or> 0 < amap chunk ! (i - 1))
      then let m = amap chunk;
               chunk = (if 0 < m ! (i - 1) then chunk\<lparr>amap := m[i - 1 := m ! (i - 1) + head]\<rparr>
                        else chunk\<lparr>amap := m[i - 1 := m ! (i - 1) - head],
                                   free_size := free_size chunk - head\<rparr>);
               m = amap chunk
           in Some (chunk\<lparr>amap := m[i := m ! i - head]\<rparr>, off + head, 0)
      else Some (chunk, off, head))"

definition take_area :: "pcpu_chunk \<Rightarrow> int \<Rightarrow> nat \<Rightarrow> int \<Rightarrow> int \<Rightarrow> int \<Rightarrow> (pcpu_chunk \<times> int) option" where
  "take_area chunk sz i off head max_contig =
     (let is_last = (i + 1 = map_used chunk) in
      do { (chunk, off, head) \<leftarrow> merge_head chunk i off head;
           let tail = amap chunk ! i - head - sz;
           let tail = (if u64 tail < 4 then 0 else tail);
           chunk \<leftarrow> (if head \<noteq> 0 \<or> tail \<noteq> 0 then pcpu_split_block chunk i head tail else Some chunk);
           let (i, off, max_contig) = (if head \<noteq> 0 then (i + 1, off + head, max (amap chunk ! i) max_contig)
                                       else (i, off, max_contig));
           let max_contig = (if tail \<noteq> 0 then max (amap chunk ! (i + 1)) max_contig else max_contig);
           let hint = (if is_last then max_contig else max (contig_hint chunk) max_contig);
           let x = amap chunk ! i;
           Some (chunk\<lparr>contig_hint := hint, free_size := free_size chunk - x,
                       amap := (amap chunk)[i := - x]\<rparr>, off) })"

definition chunk_alloc_area :: "pcpu_chunk \<Rightarrow> int \<Rightarrow> int \<Rightarrow> (pcpu_chunk \<times> int) option" where
  "chunk_alloc_area chunk sz align =
     (if length (amap chunk) < map_used chunk then None
      else case scan_area sz align (take (map_used chunk) (amap chunk)) 0 0 0 of
        Inl (i, off, head, max_contig) \<Rightarrow> take_area chunk sz i off head max_contig
      | Inr max_contig \<Rightarrow> Some (chunk\<lparr>contig_hint := max_contig\<rparr>, - 1))"

text \<open>
  \<^verbatim>\<open>pcpu_free_area\<close> looks for the block at offset \<open>freeme\<close>; when there is none its checks only print a
  message and it goes on with the entry behind the last one. The array move of the merge with the next
  block starts at entry \<open>1 + 2\<close>, whatever \<open>i\<close> is.
\<close>

fun find_area :: "int \<Rightarrow> int list \<Rightarrow> nat \<Rightarrow> int \<Rightarrow> nat" where
  "find_area freeme [] i off = i"
| "find_area freeme (x # xs) i off =
     (if off = freeme then i else find_area freeme xs (i + 1) (off + \<bar>x\<bar>))"

definition merge_prev :: "pcpu_chunk \<Rightarrow> nat \<Rightarrow> (pcpu_chunk \<times> nat) option" where
  "merge_prev chunk i =
     (let m = amap chunk in
      if 0 < i \<and> 0 \<le> m ! (i - 1)
      then do { let m = m[i - 1 := m ! (i - 1) + m ! i];
                let used = map_used chunk - 1;
                m \<leftarrow> (if used < i then None else memmove m i (i + 1) (used - i));
                Some (chunk\<lparr>amap := m, map_used := used\<rparr>, i - 1) }
      else Some (chunk, i))"

definition merge_next :: "pcpu_chunk \<Rightarrow> nat \<Rightarrow> pcpu_chunk option" where
  "merge_next chunk i =
     (let m = amap chunk in
      if i + 1 < map_used chunk \<and> 0 \<le> m ! (i + 1)
      then do { let m = m[i := m ! i + m ! (i + 1)];
                let used = map_used chunk - 1;
                m \<leftarrow> memmove m (i + 1) (1 + 2) (used - (i + 1));
                Some (chunk\<lparr>amap := m, map_used := used\<rparr>) }
      else Some chunk)"

definition chunk_free_area :: "pcpu_chunk \<Rightarrow> int \<Rightarrow> pcpu_chunk option" where
  "chunk_free_area chunk freeme =
     (if length (amap chunk) < map_used chunk then None
      else let i = find_area freeme (take (map_used chunk) (amap chunk)) 0 0 in
      if length (amap chunk) \<le> i then None
      else let x = - (amap chunk ! i);
               chunk = chunk\<lparr>amap := (amap chunk)[i := x], free_size := free_size chunk + x\<rparr>
      in do { (chunk, i) \<leftarrow> merge_prev chunk i;
              chunk \<leftarrow> merge_next chunk i;
              Some (chunk\<lparr>contig_hint := max (amap chunk ! i) (contig_hint chunk)\<rparr>) })"


section \<open>The allocator\<close>

record pcpu =
  pchunks :: "pcpu_chunk list"
  pcpu_slot :: "nat list list"
  pcpu_reserved_chunk :: "nat option"
  pcpu_reserved_chunk_limit :: int
  pcpu_first_chunk :: nat
  pcpu_unit_pages :: int
  pcpu_unit_size :: int
  pcpu_atom_size :: int
  pcpu_nr_slots :: int
  pcpu_nr_units :: int
  pcpu_base_addr :: int
  pcpu_unit_map :: "int list"
  pcpu_unit_offsets :: "int list"
  pcpu_first_unit_cpu :: int
  pcpu_last_unit_cpu :: int
  pcpu_nr_groups :: int
  pcpu_group_offsets :: "int list"
  pcpu_group_sizes :: "int list"
  mem_calls :: nat

text \<open>
  What the allocator asks of the rest of the kernel: whether the \<open>n\<close>-th request for memory succeeds, the
  base address of a new chunk (\<^verbatim>\<open>pcpu_get_vm_areas\<close>) if there is room for one, and the value that the
  caller of \<^verbatim>\<open>pcpu_extend_area_map\<close> sees when that function ends without a \<^verbatim>\<open>return\<close>.
\<close>

record pcpu_env =
  mem_ok :: "nat \<Rightarrow> bool"
  vm_base :: "nat \<Rightarrow> int option"
  no_return :: int

definition ENOMEM :: int where "ENOMEM = 12"

definition pcpu_mem_alloc :: "pcpu_env \<Rightarrow> pcpu \<Rightarrow> bool \<times> pcpu" where
  "pcpu_mem_alloc env st = (mem_ok env (mem_calls st), st\<lparr>mem_calls := mem_calls st + 1\<rparr>)"

definition pcpu_size_slot :: "int \<Rightarrow> int" where
  "pcpu_size_slot sz = max (fls sz - PCPU_SLOT_BASE_SHIFT + 2) 1"

definition pcpu_size_to_slot :: "pcpu \<Rightarrow> int \<Rightarrow> int" where
  "pcpu_size_to_slot st sz =
     (if sz = pcpu_unit_size st then pcpu_nr_slots st - 1 else pcpu_size_slot sz)"

definition pcpu_chunk_slot :: "pcpu \<Rightarrow> pcpu_chunk \<Rightarrow> int" where
  "pcpu_chunk_slot st chunk =
     (if u64 (free_size chunk) < 4 \<or> u64 (contig_hint chunk) < 4 then 0
      else pcpu_size_to_slot st (free_size chunk))"

text \<open>\<^verbatim>\<open>list_move\<close> and \<^verbatim>\<open>list_move_tail\<close> to slot \<open>s\<close>.\<close>

definition slot_move :: "pcpu \<Rightarrow> nat \<Rightarrow> int \<Rightarrow> bool \<Rightarrow> pcpu option" where
  "slot_move st cid s front =
     (if s < 0 \<or> length (pcpu_slot st) \<le> nat s then None
      else let sl = map (filter (\<lambda>c. c \<noteq> cid)) (pcpu_slot st);
               l = sl ! nat s
           in Some (st\<lparr>pcpu_slot := sl[nat s := (if front then cid # l else l @ [cid])]\<rparr>))"

definition pcpu_chunk_relocate :: "pcpu \<Rightarrow> nat \<Rightarrow> int \<Rightarrow> pcpu option" where
  "pcpu_chunk_relocate st cid oslot =
     (let nslot = pcpu_chunk_slot st (pchunks st ! cid) in
      if Some cid \<noteq> pcpu_reserved_chunk st \<and> oslot \<noteq> nslot then slot_move st cid nslot (oslot < nslot)
      else Some st)"

definition pcpu_alloc_area :: "pcpu \<Rightarrow> nat \<Rightarrow> int \<Rightarrow> int \<Rightarrow> (pcpu \<times> int) option" where
  "pcpu_alloc_area st cid sz align =
     (let oslot = pcpu_chunk_slot st (pchunks st ! cid) in
      do { (chunk, off) \<leftarrow> chunk_alloc_area (pchunks st ! cid) sz align;
           st \<leftarrow> pcpu_chunk_relocate (st\<lparr>pchunks := (pchunks st)[cid := chunk]\<rparr>) cid oslot;
           Some (st, off) })"

definition pcpu_free_area :: "pcpu \<Rightarrow> nat \<Rightarrow> int \<Rightarrow> pcpu option" where
  "pcpu_free_area st cid freeme =
     (let oslot = pcpu_chunk_slot st (pchunks st ! cid) in
      do { chunk \<leftarrow> chunk_free_area (pchunks st ! cid) freeme;
           pcpu_chunk_relocate (st\<lparr>pchunks := (pchunks st)[cid := chunk]\<rparr>) cid oslot })"

definition pcpu_extend_area_map :: "pcpu_env \<Rightarrow> pcpu \<Rightarrow> nat \<Rightarrow> nat \<Rightarrow> pcpu \<times> int" where
  "pcpu_extend_area_map env st cid new_alloc =
     (let (ok, st) = pcpu_mem_alloc env st; chunk = pchunks st ! cid in
      if \<not> ok then (st, - ENOMEM)
      else if new_alloc \<le> map_alloc chunk then (st, no_return env)
      else (st\<lparr>pchunks := (pchunks st)[cid := chunk\<lparr>map_alloc := new_alloc,
              amap := amap chunk @ replicate (new_alloc - map_alloc chunk) 0\<rparr>]\<rparr>, no_return env))"

definition pcpu_alloc_chunk :: "pcpu_env \<Rightarrow> pcpu \<Rightarrow> pcpu \<times> pcpu_chunk option" where
  "pcpu_alloc_chunk env st =
     (let (ok, st) = pcpu_mem_alloc env st in
      if \<not> ok then (st, None)
      else let (ok, st) = pcpu_mem_alloc env st in
      if \<not> ok then (st, None)
      else (st, Some \<lparr>free_size = pcpu_unit_size st, contig_hint = pcpu_unit_size st, base_addr = 0,
                      map_used = 1, map_alloc = PCPU_DFL_MAP_ALLOC,
                      amap = (replicate PCPU_DFL_MAP_ALLOC 0)[0 := pcpu_unit_size st], immutable = False\<rparr>))"

definition pcpu_create_chunk :: "pcpu_env \<Rightarrow> pcpu \<Rightarrow> pcpu \<times> nat option" where
  "pcpu_create_chunk env st =
     (case pcpu_alloc_chunk env st of
        (st, None) \<Rightarrow> (st, None)
      | (st, Some chunk) \<Rightarrow>
          (case vm_base env (mem_calls st) of
             None \<Rightarrow> (st, None)
           | Some base \<Rightarrow> (st\<lparr>pchunks := pchunks st @ [chunk\<lparr>base_addr := base\<rparr>]\<rparr>, Some (length (pchunks st)))))"

datatype walk =
  Walk_on pcpu
| Walk_found pcpu nat int
| Walk_failed pcpu
| Walk_restart pcpu

text \<open>
  The walk over the chunks of one slot. \<^verbatim>\<open>list_for_each_entry\<close> follows the list pointers of the chunk it
  has just looked at, so the walk is lost when the chunk has been moved to another slot.
\<close>

fun walk_slot :: "pcpu_env \<Rightarrow> int \<Rightarrow> int \<Rightarrow> nat list \<Rightarrow> pcpu \<Rightarrow> walk option" where
  "walk_slot env sz align [] st = Some (Walk_on st)"
| "walk_slot env sz align (cid # ids) st =
     (let chunk = pchunks st ! cid; new_alloc = pcpu_need_to_extend chunk in
      if u64 (contig_hint chunk) < sz then walk_slot env sz align ids st
      else if new_alloc \<noteq> 0 then
        (let (st, r) = pcpu_extend_area_map env st cid new_alloc
         in Some (if r < 0 then Walk_failed st else Walk_restart st))
      else do { (st', off) \<leftarrow> pcpu_alloc_area st cid (s32 sz) (s32 align);
                if 0 \<le> off then Some (Walk_found st' cid off)
                else if pcpu_slot st' \<noteq> pcpu_slot st then None
                else walk_slot env sz align ids st' })"

fun walk_slots :: "pcpu_env \<Rightarrow> int \<Rightarrow> int \<Rightarrow> nat list \<Rightarrow> pcpu \<Rightarrow> walk option" where
  "walk_slots env sz align [] st = Some (Walk_on st)"
| "walk_slots env sz align (s # ss) st =
     do { if length (pcpu_slot st) \<le> s then None
          else do { w \<leftarrow> walk_slot env sz align (pcpu_slot st ! s) st;
                    case w of Walk_on st \<Rightarrow> walk_slots env sz align ss st | _ \<Rightarrow> Some w } }"

text \<open>
  The loop from \<^verbatim>\<open>restart\<close>: it may run forever only if new chunks were created without end. The result is
  the chunk and the offset of the area, or \<open>None\<close> for a failed allocation.
\<close>

partial_function (option) alloc_restart ::
    "pcpu_env \<Rightarrow> int \<Rightarrow> int \<Rightarrow> pcpu \<Rightarrow> (pcpu \<times> (nat \<times> int) option) option" where
  "alloc_restart env sz align st =
     do { w \<leftarrow> walk_slots env sz align [nat (pcpu_size_to_slot st (s32 sz))..<nat (pcpu_nr_slots st)] st;
          case w of
            Walk_found st cid off \<Rightarrow> Some (st, Some (cid, off))
          | Walk_failed st \<Rightarrow> Some (st, None)
          | Walk_restart st \<Rightarrow> alloc_restart env sz align st
          | Walk_on st \<Rightarrow>
              (case pcpu_create_chunk env st of
                 (st, None) \<Rightarrow> Some (st, None)
               | (st, Some cid) \<Rightarrow> do { st \<leftarrow> pcpu_chunk_relocate st cid (- 1);
                                        alloc_restart env sz align st }) }"

text \<open>The allocation from the reserved chunk.\<close>

partial_function (option) extend_reserved ::
    "pcpu_env \<Rightarrow> nat \<Rightarrow> pcpu \<Rightarrow> (pcpu \<times> bool) option" where
  "extend_reserved env cid st =
     (let new_alloc = pcpu_need_to_extend (pchunks st ! cid) in
      if new_alloc = 0 then Some (st, True)
      else let (st, r) = pcpu_extend_area_map env st cid new_alloc in
      if r < 0 then Some (st, False) else extend_reserved env cid st)"

definition alloc_reserved ::
    "pcpu_env \<Rightarrow> int \<Rightarrow> int \<Rightarrow> nat \<Rightarrow> pcpu \<Rightarrow> (pcpu \<times> (nat \<times> int) option) option" where
  "alloc_reserved env sz align cid st =
     (if u64 (contig_hint (pchunks st ! cid)) < sz then Some (st, None)
      else do { (st, ok) \<leftarrow> extend_reserved env cid st;
                if \<not> ok then Some (st, None)
                else do { (st, off) \<leftarrow> pcpu_alloc_area st cid (s32 sz) (s32 align);
                          Some (st, if 0 \<le> off then Some (cid, off) else None) } })"

definition PCPU_MIN_UNIT_SIZE :: int where
  "PCPU_MIN_UNIT_SIZE = mask_down (push_bit 10 32 + (PAGE_SIZE - 1)) PAGE_SIZE"

text \<open>\<^verbatim>\<open>pcpu_populate_chunk\<close> without \<^verbatim>\<open>CONFIG_VM\<close>: it clears the area and never fails.\<close>

definition pcpu_populate_chunk :: "pcpu \<Rightarrow> nat \<Rightarrow> int \<Rightarrow> int \<Rightarrow> int" where
  "pcpu_populate_chunk st cid off sz = 0"

text \<open>The result is the address of the area, or 0 for \<^verbatim>\<open>NULL\<close>.\<close>

definition pcpu_alloc :: "pcpu_env \<Rightarrow> int \<Rightarrow> int \<Rightarrow> bool \<Rightarrow> pcpu \<Rightarrow> (pcpu \<times> int) option" where
  "pcpu_alloc env sz align reserved st =
     (if sz = 0 \<or> PCPU_MIN_UNIT_SIZE < sz \<or> PAGE_SIZE < align then Some (st, 0)
      else do { (st, r) \<leftarrow> (case pcpu_reserved_chunk st of
                    Some cid \<Rightarrow> (if reserved then alloc_reserved env sz align cid st
                                else alloc_restart env sz align st)
                  | None \<Rightarrow> alloc_restart env sz align st);
                case r of
                  None \<Rightarrow> Some (st, 0)
                | Some (cid, off) \<Rightarrow>
                    (if pcpu_populate_chunk st cid off (s32 sz) \<noteq> 0
                     then do { st \<leftarrow> pcpu_free_area st cid off; Some (st, 0) }
                     else Some (st, u64 (base_addr (pchunks st ! cid) + off))) })"

definition alloc_percpu :: "pcpu_env \<Rightarrow> int \<Rightarrow> int \<Rightarrow> pcpu \<Rightarrow> (pcpu \<times> int) option" where
  "alloc_percpu env sz align st = pcpu_alloc env sz align False st"


section \<open>Freeing\<close>

definition pcpu_addr_in_first_chunk :: "pcpu \<Rightarrow> int \<Rightarrow> bool" where
  "pcpu_addr_in_first_chunk st addr =
     (let first_start = base_addr (pchunks st ! pcpu_first_chunk st)
      in first_start \<le> addr \<and> addr < first_start + pcpu_unit_size st)"

definition pcpu_addr_in_reserved_chunk :: "pcpu \<Rightarrow> int \<Rightarrow> bool" where
  "pcpu_addr_in_reserved_chunk st addr =
     (let first_start = base_addr (pchunks st ! pcpu_first_chunk st)
      in first_start \<le> addr \<and> addr < first_start + pcpu_reserved_chunk_limit st)"

text \<open>Outside the first chunk the chunk is read from the \<^verbatim>\<open>index\<close> of the page structure: \<open>page_chunk\<close>.\<close>

definition pcpu_chunk_addr_search :: "(int \<Rightarrow> nat option) \<Rightarrow> pcpu \<Rightarrow> int \<Rightarrow> nat option" where
  "pcpu_chunk_addr_search page_chunk st addr =
     (if pcpu_addr_in_first_chunk st addr
      then if pcpu_addr_in_reserved_chunk st addr then pcpu_reserved_chunk st
           else Some (pcpu_first_chunk st)
      else page_chunk (u64 (addr + pcpu_unit_offsets st ! 0)))"

definition free_percpu :: "(int \<Rightarrow> nat option) \<Rightarrow> pcpu \<Rightarrow> int \<Rightarrow> pcpu option" where
  "free_percpu page_chunk st p =
     (if p = 0 then Some st
      else do { cid \<leftarrow> pcpu_chunk_addr_search page_chunk st p;
                pcpu_free_area st cid (s32 (p - base_addr (pchunks st ! cid))) })"


section \<open>Set-up\<close>

record pcpu_group_info =
  nr_units :: nat
  base_offset :: int
  cpu_map :: "int list"

record pcpu_alloc_info =
  static_size :: int
  reserved_size :: int
  dyn_size :: int
  unit_size :: int
  atom_size :: int
  alloc_size :: int
  groups :: "pcpu_group_info list"

definition PERCPU_DYNAMIC_EARLY_SLOTS :: nat where "PERCPU_DYNAMIC_EARLY_SLOTS = 128"

definition PERCPU_DYNAMIC_RESERVE :: int where "PERCPU_DYNAMIC_RESERVE = push_bit 10 12"

definition NR_CPUS :: nat where "NR_CPUS = 1"

definition pcpu_alloc_alloc_info :: "nat \<Rightarrow> nat \<Rightarrow> pcpu_alloc_info" where
  "pcpu_alloc_alloc_info nr_groups units =
     \<lparr>static_size = 0, reserved_size = 0, dyn_size = 0, unit_size = 0, atom_size = 0, alloc_size = 0,
      groups = (replicate nr_groups \<lparr>nr_units = 0, base_offset = 0, cpu_map = []\<rparr>)
               [0 := \<lparr>nr_units = 0, base_offset = 0, cpu_map = replicate units (int NR_CPUS)\<rparr>]\<rparr>"

text \<open>The loop over the units of one group, and the loop over the groups.\<close>

fun map_units :: "pcpu_group_info \<Rightarrow> int \<Rightarrow> int \<Rightarrow> nat list \<Rightarrow> pcpu \<Rightarrow> pcpu option" where
  "map_units gi usz unit [] st = Some st"
| "map_units gi usz unit (i # is) st =
     (if length (cpu_map gi) \<le> i then None
      else let cpu = cpu_map gi ! i in
      if cpu = int NR_CPUS then map_units gi usz unit is st
      else if int NR_CPUS \<le> cpu then None
      else map_units gi usz unit is
             (st\<lparr>pcpu_unit_map := (pcpu_unit_map st)[nat cpu := unit + int i],
                 pcpu_unit_offsets := (pcpu_unit_offsets st)[nat cpu := u64 (base_offset gi + int i * usz)],
                 pcpu_first_unit_cpu := (if pcpu_first_unit_cpu st = int NR_CPUS then cpu
                                         else pcpu_first_unit_cpu st),
                 pcpu_last_unit_cpu := cpu\<rparr>))"

fun map_groups :: "int \<Rightarrow> pcpu_group_info list \<Rightarrow> int \<Rightarrow> pcpu \<Rightarrow> pcpu option" where
  "map_groups usz [] unit st = Some (st\<lparr>pcpu_nr_units := unit\<rparr>)"
| "map_groups usz (gi # gis) unit st =
     do { st \<leftarrow> map_units gi usz unit [0..<nr_units gi]
             (st\<lparr>pcpu_group_offsets := pcpu_group_offsets st @ [base_offset gi],
                 pcpu_group_sizes := pcpu_group_sizes st @ [u64 (int (nr_units gi) * usz)]\<rparr>);
          map_groups usz gis (unit + int (nr_units gi)) st }"

definition push_map :: "pcpu_chunk \<Rightarrow> int \<Rightarrow> pcpu_chunk" where
  "push_map chunk x =
     chunk\<lparr>amap := (amap chunk)[map_used chunk := x], map_used := map_used chunk + 1\<rparr>"

definition early_chunk :: "int \<Rightarrow> int \<Rightarrow> pcpu_chunk" where
  "early_chunk base fsz =
     \<lparr>free_size = s32 fsz, contig_hint = s32 fsz, base_addr = base, map_used = 0,
      map_alloc = PERCPU_DYNAMIC_EARLY_SLOTS, amap = replicate PERCPU_DYNAMIC_EARLY_SLOTS 0, immutable = True\<rparr>"

definition pcpu_setup_first_chunk :: "pcpu_alloc_info \<Rightarrow> int \<Rightarrow> pcpu \<Rightarrow> pcpu option" where
  "pcpu_setup_first_chunk ai base st =
     do { st \<leftarrow> map_groups (unit_size ai) (groups ai) 0
             (st\<lparr>pcpu_unit_map := replicate NR_CPUS (- 1), pcpu_unit_offsets := replicate NR_CPUS 0,
                 pcpu_group_offsets := [], pcpu_group_sizes := [], pcpu_first_unit_cpu := int NR_CPUS\<rparr>);
          let pages = s32 (drop_bit PAGE_SHIFT (unit_size ai));
          let usz = s32 (push_bit PAGE_SHIFT pages);
          let nslots = pcpu_size_slot usz + 2;
          let st = st\<lparr>pcpu_nr_groups := int (length (groups ai)), pcpu_unit_pages := pages,
                      pcpu_unit_size := usz, pcpu_atom_size := s32 (atom_size ai),
                      pcpu_nr_slots := nslots, pcpu_slot := replicate (nat nslots) []\<rparr>;
          let schunk = early_chunk base (if reserved_size ai \<noteq> 0 then reserved_size ai else dyn_size ai);
          let dyn = (if reserved_size ai \<noteq> 0 then dyn_size ai else 0);
          let st = (if reserved_size ai \<noteq> 0
                    then st\<lparr>pcpu_reserved_chunk := Some 0,
                            pcpu_reserved_chunk_limit := s32 (static_size ai + reserved_size ai)\<rparr> else st);
          let schunk = push_map schunk (s32 (- static_size ai));
          let schunk = (if free_size schunk \<noteq> 0 then push_map schunk (free_size schunk) else schunk);
          let dchunk = early_chunk base dyn;
          let dchunk = push_map dchunk (- pcpu_reserved_chunk_limit st);
          let dchunk = push_map dchunk (free_size dchunk);
          let st = (if dyn \<noteq> 0 then st\<lparr>pchunks := [schunk, dchunk], pcpu_first_chunk := 1\<rparr>
                    else st\<lparr>pchunks := [schunk], pcpu_first_chunk := 0\<rparr>);
          st \<leftarrow> pcpu_chunk_relocate st (pcpu_first_chunk st) (- 1);
          Some (st\<lparr>pcpu_base_addr := base\<rparr>) }"

definition roundup_pow_of_two :: "int \<Rightarrow> int" where
  "roundup_pow_of_two n = u64 (push_bit (nat (fls_long (u64 (n - 1)))) 1)"

text \<open>The allocator as the loader leaves it, all zero.\<close>

definition pcpu_zero :: pcpu where
  "pcpu_zero = \<lparr>pchunks = [], pcpu_slot = [], pcpu_reserved_chunk = None, pcpu_reserved_chunk_limit = 0,
     pcpu_first_chunk = 0, pcpu_unit_pages = 0, pcpu_unit_size = 0, pcpu_atom_size = 0, pcpu_nr_slots = 0,
     pcpu_nr_units = 0, pcpu_base_addr = 0, pcpu_unit_map = [], pcpu_unit_offsets = [],
     pcpu_first_unit_cpu = 0, pcpu_last_unit_cpu = 0, pcpu_nr_groups = 0, pcpu_group_offsets = [],
     pcpu_group_sizes = [], mem_calls = 0\<rparr>"

text \<open>\<open>fc\<close> is the address that the boot allocator returns for the unit.\<close>

definition setup_per_cpu_areas :: "int \<Rightarrow> pcpu \<Rightarrow> pcpu option" where
  "setup_per_cpu_areas fc st =
     (let usz = roundup_pow_of_two (max PCPU_MIN_UNIT_SIZE PERCPU_DYNAMIC_RESERVE);
          ai = pcpu_alloc_alloc_info 1 1;
          g = (groups ai ! 0)\<lparr>nr_units := 1, cpu_map := (cpu_map (groups ai ! 0))[0 := 0]\<rparr>;
          ai = ai\<lparr>dyn_size := usz, unit_size := usz, atom_size := usz, alloc_size := usz,
                  groups := (groups ai)[0 := g]\<rparr>
      in pcpu_setup_first_chunk ai fc st)"

definition copy_early_map :: "pcpu_env \<Rightarrow> pcpu \<Rightarrow> nat \<Rightarrow> pcpu option" where
  "copy_early_map env st cid =
     (let (ok, st) = pcpu_mem_alloc env st; chunk = pchunks st ! cid in
      if \<not> ok \<or> length (amap chunk) < PERCPU_DYNAMIC_EARLY_SLOTS then None
      else Some (st\<lparr>pchunks := (pchunks st)
             [cid := chunk\<lparr>amap := take PERCPU_DYNAMIC_EARLY_SLOTS (amap chunk)\<rparr>]\<rparr>))"

definition percpu_init_late :: "pcpu_env \<Rightarrow> pcpu \<Rightarrow> pcpu option" where
  "percpu_init_late env st =
     do { st \<leftarrow> copy_early_map env st (pcpu_first_chunk st);
          case pcpu_reserved_chunk st of None \<Rightarrow> Some st | Some cid \<Rightarrow> copy_early_map env st cid }"

end
