(* ===== verification/PercpuProps.thy ===== *)
theory PercpuProps
  imports Percpu ZoneInitProps
begin

text \<open>
  The area maps of the per-CPU allocator. A map is read as the set of the bytes in its allocated blocks;
  the invariant \<open>chunk_ok\<close> says that the blocks fill the chunk, that the counters agree with them and that
  free neighbours are merged.
\<close>

section \<open>Reading an area map\<close>

definition span :: "int list \<Rightarrow> int" where
  "span xs = sum_list (map abs xs)"

fun used_bytes :: "int \<Rightarrow> int list \<Rightarrow> int set" where
  "used_bytes off [] = {}"
| "used_bytes off (x # xs) = (if x < 0 then block off (- x) else {}) \<union> used_bytes (off + \<bar>x\<bar>) xs"

definition free_sum :: "int list \<Rightarrow> int" where
  "free_sum xs = sum_list (map (max 0) xs)"

fun no_free_pair :: "int list \<Rightarrow> bool" where
  "no_free_pair (x # y # xs) \<longleftrightarrow> \<not> (0 < x \<and> 0 < y) \<and> no_free_pair (y # xs)"
| "no_free_pair xs \<longleftrightarrow> True"

lemma span_simps [simp]: "span [] = 0" "span (x # xs) = \<bar>x\<bar> + span xs" "span (xs @ ys) = span xs + span ys"
  by (simp_all add: span_def)

lemma span_nonneg [simp]: "0 \<le> span xs"
  by (induction xs) auto

lemma free_sum_simps [simp]:
  "free_sum [] = 0" "free_sum (x # xs) = max 0 x + free_sum xs" "free_sum (xs @ ys) = free_sum xs + free_sum ys"
  by (simp_all add: free_sum_def)

lemma free_sum_nonneg [simp]: "0 \<le> free_sum xs"
  by (induction xs) auto

lemma free_sum_le_span: "free_sum xs \<le> span xs"
  by (induction xs) auto

lemma free_sum_ge: "x \<in> set xs \<Longrightarrow> x \<le> free_sum xs"
proof (induction xs)
  case (Cons a xs)
  have "a \<le> max 0 a + free_sum xs" using max.cobounded2 [of a 0] free_sum_nonneg [of xs] by linarith
  with Cons show ?case by (auto intro: order_trans)
qed simp

lemma used_bytes_append [simp]:
  "used_bytes off (xs @ ys) = used_bytes off xs \<union> used_bytes (off + span xs) ys"
  by (induction xs arbitrary: off) (auto simp: algebra_simps)

lemma used_bytes_range: "used_bytes off xs \<subseteq> block off (span xs)"
proof (induction xs arbitrary: off)
  case (Cons x xs)
  have "used_bytes (off + \<bar>x\<bar>) xs \<subseteq> block off (\<bar>x\<bar> + span xs)"
    using Cons.IH [of "off + \<bar>x\<bar>"] by (auto dest!: subsetD simp: algebra_simps)
  moreover have "(if x < 0 then block off (- x) else {}) \<subseteq> block off (\<bar>x\<bar> + span xs)"
    using span_nonneg [of xs] by (auto simp del: span_nonneg)
  ultimately show ?case by simp
qed simp

lemma no_free_pair_append:
  "no_free_pair (xs @ ys) \<longleftrightarrow>
     no_free_pair xs \<and> no_free_pair ys \<and> (xs \<noteq> [] \<and> ys \<noteq> [] \<longrightarrow> \<not> (0 < last xs \<and> 0 < hd ys))"
proof (induction xs rule: no_free_pair.induct)
  case (1 x y xs)
  then show ?case by auto
qed (cases ys; auto)+

lemma no_free_pair_Cons: "no_free_pair (x # xs) \<longleftrightarrow> (xs \<noteq> [] \<longrightarrow> \<not> (0 < x \<and> 0 < hd xs)) \<and> no_free_pair xs"
  by (cases xs) auto

text \<open>The entries that count, and the invariant of a chunk of \<open>u\<close> bytes.\<close>

definition live :: "pcpu_chunk \<Rightarrow> int list" where
  "live c = take (map_used c) (amap c)"

abbreviation used :: "pcpu_chunk \<Rightarrow> int set" where
  "used c \<equiv> used_bytes 0 (live c)"

definition map_ok :: "int list \<Rightarrow> int \<Rightarrow> int \<Rightarrow> int \<Rightarrow> bool" where
  "map_ok xs u fsz hint \<longleftrightarrow>
     xs \<noteq> [] \<and> span xs = u \<and> fsz = free_sum xs \<and> (\<forall>x\<in>set xs. x \<le> hint) \<and> 0 \<le> hint \<and> hint \<le> u \<and>
     no_free_pair xs \<and> 0 \<notin> set (tl xs)"

definition chunk_ok :: "pcpu_chunk \<Rightarrow> int \<Rightarrow> bool" where
  "chunk_ok c u \<longleftrightarrow>
     map_used c \<le> map_alloc c \<and> length (amap c) = map_alloc c \<and> u \<le> 1073741824 \<and>
     map_ok (live c) u (free_size c) (contig_hint c)"

lemma live_split:
  assumes "chunk_ok c u"
  shows "amap c = live c @ drop (map_used c) (amap c)" "length (live c) = map_used c"
    "length (drop (map_used c) (amap c)) = map_alloc c - map_used c"
  using assms by (auto simp: live_def chunk_ok_def)


section \<open>The search for a block\<close>

lemma head_gap:
  fixes off :: int
  assumes "align = 2 ^ k"
  defines "h \<equiv> mask_down (off + align - 1) align - off"
  shows "0 \<le> h" "h < align" "align dvd off + h"
  using mask_down_gt [of "off + 2 ^ k - 1" k] mask_down_le [of "off + 2 ^ k - 1" k]
    mask_down_dvd [of k "off + 2 ^ k - 1"]
  by (simp_all add: h_def assms(1))

lemma scan_area_found:
  assumes "scan_area sz align ys i off mc = Inl (j, o', h, mc')"
  shows "\<exists>xs x zs. ys = xs @ x # zs \<and> j = i + length xs \<and> o' = off + span xs \<and>
           h = mask_down (o' + align - 1) align - o' \<and> 0 \<le> x \<and> h + sz \<le> x \<and>
           mc \<le> mc' \<and> (\<forall>y\<in>set xs. y \<le> mc' \<or> y < 0) \<and> (\<forall>b. mc \<le> b \<and> (\<forall>y\<in>set xs. y \<le> b) \<longrightarrow> mc' \<le> b)"
  using assms
proof (induction ys arbitrary: i off mc)
  case (Cons y ys)
  define h0 where "h0 = mask_down (off + align - 1) align - off"
  show ?case
  proof (cases "y < 0 \<or> y < h0 + sz")
    case False
    with Cons.prems have "(j, o', h, mc') = (i, off, h0, mc)"
      by (auto simp: h0_def Let_def)
    with False show ?thesis
      by (intro exI [of _ "[]"] exI [of _ y] exI [of _ ys]) (auto simp: h0_def)
  next
    case True
    define m1 where "m1 = (if y < 0 then mc else max y mc)"
    have "scan_area sz align ys (i + 1) (off + \<bar>y\<bar>) m1 = Inl (j, o', h, mc')"
      using Cons.prems True by (auto simp: h0_def m1_def Let_def split: if_splits)
    from Cons.IH [OF this] obtain xs x zs where *: "ys = xs @ x # zs" "j = i + 1 + length xs"
      "o' = off + \<bar>y\<bar> + span xs" "h = mask_down (o' + align - 1) align - o'" "0 \<le> x" "h + sz \<le> x"
      "m1 \<le> mc'" "\<forall>y\<in>set xs. y \<le> mc' \<or> y < 0"
      "\<forall>b. m1 \<le> b \<and> (\<forall>y\<in>set xs. y \<le> b) \<longrightarrow> mc' \<le> b"
      by blast
    have "y \<le> mc' \<or> y < 0" "mc \<le> mc'" using *(7) by (auto simp: m1_def split: if_splits)
    with * show ?thesis
      by (intro exI [of _ "y # xs"] exI [of _ x] exI [of _ zs]) (auto simp: m1_def split: if_splits)
  qed
qed simp

lemma scan_area_none:
  assumes "scan_area sz align ys i off mc = Inr mc'"
  shows "mc \<le> mc' \<and> (\<forall>y\<in>set ys. y \<le> mc' \<or> y < 0) \<and>
    (\<forall>b. mc \<le> b \<and> (\<forall>y\<in>set ys. y \<le> b) \<longrightarrow> mc' \<le> b) \<and>
    (\<forall>xs x zs. ys = xs @ x # zs \<and> 0 \<le> x \<longrightarrow>
       x < mask_down (off + span xs + align - 1) align - (off + span xs) + sz)"
  using assms
proof (induction ys arbitrary: i off mc)
  case (Cons y ys)
  define h0 where "h0 = mask_down (off + align - 1) align - off"
  define m1 where "m1 = (if y < 0 then mc else max y mc)"
  from Cons.prems have 1: "y < 0 \<or> y < h0 + sz" by (auto simp: h0_def Let_def split: if_splits)
  have "scan_area sz align ys (i + 1) (off + \<bar>y\<bar>) m1 = Inr mc'"
    using Cons.prems 1 by (auto simp: h0_def m1_def Let_def split: if_splits)
  note IH = Cons.IH [OF this]
  have "x < mask_down (off + span xs + align - 1) align - (off + span xs) + sz"
    if "y # ys = xs @ x # zs" "0 \<le> x" for xs x zs
  proof (cases xs)
    case Nil
    with that 1 show ?thesis by (auto simp: h0_def)
  next
    case (Cons a as)
    with that have "ys = as @ x # zs" "a = y" by auto
    with IH that(2) show ?thesis by (simp add: Cons add.assoc)
  qed
  moreover have "mc \<le> mc'" "y \<le> mc' \<or> y < 0" using IH by (auto simp: m1_def split: if_splits)
  ultimately show ?case using IH by (auto simp: m1_def split: if_splits)
qed simp


section \<open>Splitting a block\<close>

lemma memmove_right:
  assumes "n \<le> length zs"
  shows "memmove (xs @ ys @ zs) (length xs + n) (length xs) (length ys) =
    Some (take (length xs + n) (xs @ ys @ zs) @ ys @ drop n zs)"
  using assms by (simp add: memmove_def)

lemma split_block_eq:
  assumes "amap c = xs @ x # ys @ zs" "map_used c = length xs + 1 + length ys"
    and "n = of_bool (head \<noteq> 0) + of_bool (tail \<noteq> 0)" "n \<le> length zs"
  shows "pcpu_split_block c (length xs) head tail =
    Some (c\<lparr>amap := xs @ (if head \<noteq> 0 then [head] else []) @ [x - head - tail] @
              (if tail \<noteq> 0 then [tail] else []) @ ys @ drop n zs,
            map_used := map_used c + n\<rparr>)"
proof -
  define F where "F = take n (x # ys @ zs)"
  have "memmove (amap c) (length xs + n) (length xs) (map_used c - length xs) =
    Some (xs @ F @ (x # ys) @ drop n zs)"
    using memmove_right [OF assms(4), of xs "x # ys"] by (simp add: assms(1,2) F_def)
  moreover have "F = [] \<and> n = 0 \<or> F = [x] \<and> n = 1 \<or> (\<exists>f. F = [x, f] \<and> n = 2)"
  proof -
    have "n \<le> 2" using assms(3) by simp
    then consider "n = 0" | "n = 1" | "n = 2" by linarith
    then show ?thesis
    proof cases
      case 3
      with assms(4) obtain a zs' where "ys @ zs = a # zs'" by (cases "ys @ zs") auto
      with 3 show ?thesis by (simp add: F_def numeral_2_eq_2)
    qed (simp_all add: F_def)
  qed
  ultimately obtain F' where F': "memmove (amap c) (length xs + n) (length xs) (map_used c - length xs) =
      Some (xs @ F' @ (x # ys) @ drop n zs)"
    and cases: "F' = [] \<and> n = 0 \<or> F' = [x] \<and> n = 1 \<or> (\<exists>f. F' = [x, f] \<and> n = 2)" by blast
  note def = pcpu_split_block_def [of c "length xs" head tail, folded assms(3), unfolded Let_def F']
  from cases assms(3) consider
    (none) "head = 0" "tail = 0" "F' = []" "n = 0" | (head) "head \<noteq> 0" "tail = 0" "F' = [x]" "n = 1"
    | (tail) "head = 0" "tail \<noteq> 0" "F' = [x]" "n = 1"
    | (both) f where "head \<noteq> 0" "tail \<noteq> 0" "F' = [x, f]" "n = 2"
    by (cases "head = 0"; cases "tail = 0") auto
  then show ?thesis
  proof cases
    case none
    then show ?thesis unfolding def by simp
  next
    case head
    then show ?thesis unfolding def by (simp add: list_update_append nth_append)
  next
    case tail
    then show ?thesis unfolding def by (simp add: list_update_append nth_append)
  next
    case both
    then show ?thesis unfolding def by (simp add: list_update_append nth_append)
  qed
qed


section \<open>Taking a block\<close>

text \<open>
  The map after an allocation: a gap below four bytes goes to the allocated block before, a larger gap and
  a rest of at least four bytes become free blocks.
\<close>

definition taken_map :: "int list \<Rightarrow> int \<Rightarrow> int list \<Rightarrow> int \<Rightarrow> int \<Rightarrow> int list" where
  "taken_map xs x ys h t =
     (if h \<noteq> 0 \<and> h < 4 then butlast xs @ [last xs - h] else xs) @ (if 4 \<le> h then [h] else []) @
     [- (x - h - t)] @ (if t \<noteq> 0 then [t] else []) @ ys"

definition taken_hint :: "int \<Rightarrow> int \<Rightarrow> int \<Rightarrow> int" where
  "taken_hint h t mc = (let m = (if 4 \<le> h then max h mc else mc) in if t \<noteq> 0 then max t m else m)"

lemma merge_head_small:
  assumes "amap c = xs @ x # r" "xs \<noteq> []" "last xs \<le> 0" "0 < h" "h < 4"
  shows "merge_head c (length xs) off h =
    Some (c\<lparr>amap := butlast xs @ [last xs - h] @ [x - h] @ r, free_size := free_size c - h\<rparr>, off + h, 0)"
proof -
  have m: "amap c = butlast xs @ [last xs] @ x # r" and l: "length xs - 1 = length (butlast xs)"
    "length xs = Suc (length (butlast xs))"
    using assms(1,2) by (simp_all del: length_butlast, simp_all)
  show ?thesis
    using assms(3-5) by (simp add: merge_head_def m l nth_append list_update_append del: length_butlast)
qed

lemma merge_head_none:
  assumes "amap c = xs @ x # r" "xs \<noteq> [] \<Longrightarrow> last xs \<le> 0" "h = 0 \<or> xs \<noteq> [] \<and> 4 \<le> h" "h < 4294967296"
  shows "merge_head c (length xs) off h = Some (c, off, h)"
proof (cases "h = 0")
  case False
  with assms(3) have "xs \<noteq> []" "4 \<le> h" by auto
  then obtain as p where xs: "xs = as @ [p]" by (metis append_butlast_last_id)
  then show ?thesis
    using assms(2,4) False \<open>4 \<le> h\<close> by (simp add: merge_head_def assms(1) nth_append)
qed (simp add: merge_head_def)

text \<open>The part of \<open>take_area\<close> behind the merge.\<close>

definition cut_area :: "pcpu_chunk \<Rightarrow> int \<Rightarrow> bool \<Rightarrow> nat \<Rightarrow> int \<Rightarrow> int \<Rightarrow> int \<Rightarrow> (pcpu_chunk \<times> int) option" where
  "cut_area chunk sz is_last i off head max_contig =
     (let tail = amap chunk ! i - head - sz;
          tail = (if u64 tail < 4 then 0 else tail)
      in do { chunk \<leftarrow> (if head \<noteq> 0 \<or> tail \<noteq> 0 then pcpu_split_block chunk i head tail else Some chunk);
           let (i, off, max_contig) = (if head \<noteq> 0 then (i + 1, off + head, max (amap chunk ! i) max_contig)
                                       else (i, off, max_contig));
           let max_contig = (if tail \<noteq> 0 then max (amap chunk ! (i + 1)) max_contig else max_contig);
           let hint = (if is_last then max_contig else max (contig_hint chunk) max_contig);
           let x = amap chunk ! i;
           Some (chunk\<lparr>contig_hint := hint, free_size := free_size chunk - x,
                       amap := (amap chunk)[i := - x]\<rparr>, off) })"

lemma take_area_cut:
  "take_area c sz i off h mc =
     do { (c', off, h) \<leftarrow> merge_head c i off h; cut_area c' sz (i + 1 = map_used c) i off h mc }"
  by (simp add: take_area_def cut_area_def Let_def)

lemma cut_area_eq:
  assumes m: "amap c = xs @ x # ys @ zs" and u: "map_used c = length xs + 1 + length ys"
    and z: "2 \<le> length zs" and h: "h = 0 \<or> 4 \<le> h" and sz: "0 < sz" "h + sz \<le> x" "x < 4294967296"
  defines "t \<equiv> if x - h - sz < 4 then 0 else x - h - sz"
  defines "n \<equiv> of_bool (h \<noteq> 0) + of_bool (t \<noteq> 0)"
  shows "cut_area c sz l (length xs) off h mc =
    Some (c\<lparr>amap := taken_map xs x ys h t @ drop n zs, map_used := map_used c + n,
            free_size := free_size c - (x - h - t),
            contig_hint := (if l then taken_hint h t mc else max (contig_hint c) (taken_hint h t mc))\<rparr>, off + h)"
proof -
  have t: "(if u64 (amap c ! length xs - h - sz) < 4 then 0 else amap c ! length xs - h - sz) = t"
  proof -
    have "u64 (x - h - sz) = x - h - sz" using sz h by (intro u64_id) auto
    then show ?thesis by (simp add: m nth_append t_def)
  qed
  have n: "n \<le> length zs" using z by (simp add: n_def)
  note sp = split_block_eq [OF m u n_def [unfolded atomize_eq] n]
  note d = cut_area_def [of c sz l "length xs" off h mc, unfolded Let_def t sp]
  consider "h = 0" "t = 0" | "h \<noteq> 0" "t = 0" | "h = 0" "t \<noteq> 0" | "h \<noteq> 0" "t \<noteq> 0" by blast
  then show ?thesis
  proof cases
    case 1
    then show ?thesis unfolding d
      by (simp add: m n_def taken_map_def taken_hint_def nth_append list_update_append)
  next
    case 2
    then show ?thesis unfolding d using h
      by (simp add: n_def taken_map_def taken_hint_def nth_append list_update_append)
  next
    case 3
    then show ?thesis unfolding d
      by (simp add: n_def taken_map_def taken_hint_def nth_append list_update_append)
  next
    case 4
    then show ?thesis unfolding d using h
      by (simp add: n_def taken_map_def taken_hint_def nth_append list_update_append)
  qed
qed

lemma take_area_eq:
  assumes m: "amap c = xs @ x # ys @ zs" and u: "map_used c = length xs + 1 + length ys"
    and z: "2 \<le> length zs" and xs: "xs \<noteq> [] \<Longrightarrow> last xs \<le> 0" "h \<noteq> 0 \<Longrightarrow> xs \<noteq> []" and h: "0 \<le> h"
    and sz: "0 < sz" "h + sz \<le> x" "x < 4294967296"
  defines "t \<equiv> if x - h - sz < 4 then 0 else x - h - sz"
  defines "n \<equiv> of_bool (4 \<le> h) + of_bool (t \<noteq> 0)"
  shows "take_area c sz (length xs) off h mc =
    Some (c\<lparr>amap := taken_map xs x ys h t @ drop n zs, map_used := map_used c + n,
            free_size := free_size c - (if h < 4 then x - t else x - h - t),
            contig_hint := (if ys = [] then taken_hint h t mc else max (contig_hint c) (taken_hint h t mc))\<rparr>, off + h)"
proof -
  have l: "length xs + 1 = map_used c \<longleftrightarrow> ys = []" "Suc (length xs) = map_used c \<longleftrightarrow> ys = []"
    by (auto simp: u)
  consider "h = 0" | "0 < h" "h < 4" | "4 \<le> h" using h by linarith
  then show ?thesis
  proof cases
    case 1
    then have "merge_head c (length xs) off h = Some (c, off, h)"
      by (intro merge_head_none [OF m]) (use xs in auto)
    with 1 show ?thesis
      using cut_area_eq [OF m u z, of 0 sz] sz by (simp add: take_area_cut l t_def n_def)
  next
    case 2
    define xs' where "xs' = butlast xs @ [last xs - h]"
    define c' where "c' = c\<lparr>amap := xs' @ (x - h) # ys @ zs, free_size := free_size c - h\<rparr>"
    have len: "length xs = length xs'" using 2 xs(2) by (simp add: xs'_def)
    have mh: "merge_head c (length xs) off h = Some (c', off + h, 0)"
      using merge_head_small [OF m, of h off] xs 2 by (simp add: c'_def xs'_def)
    have "cut_area c' sz (ys = []) (length xs') (off + h) 0 mc =
      Some (c'\<lparr>amap := taken_map xs' (x - h) ys 0 t @ drop n zs, map_used := map_used c + n,
            free_size := free_size c' - (x - h - t),
            contig_hint := (if ys = [] then taken_hint 0 t mc else max (contig_hint c) (taken_hint 0 t mc))\<rparr>, off + h)"
      using cut_area_eq [of c' xs' "x - h" ys zs 0 sz "ys = []" "off + h" mc] 2 z sz
      by (simp add: c'_def u len t_def n_def)
    moreover have "take_area c sz (length xs) off h mc = cut_area c' sz (ys = []) (length xs') (off + h) 0 mc"
      unfolding take_area_cut mh l by (simp add: len)
    moreover have "taken_map xs' (x - h) ys 0 t = taken_map xs x ys h t" "taken_hint 0 t mc = taken_hint h t mc"
      using 2 by (simp_all add: taken_map_def taken_hint_def xs'_def)
    ultimately show ?thesis using 2 by (simp add: c'_def algebra_simps)
  next
    case 3
    then have "merge_head c (length xs) off h = Some (c, off, h)"
      by (intro merge_head_none [OF m]) (use xs sz in auto)
    with 3 show ?thesis
      using cut_area_eq [OF m u z, of h sz] sz by (simp add: take_area_cut l t_def n_def)
  qed
qed


lemma taken_map_ok:
  assumes ok: "map_ok (xs @ x # ys) u fsz hint" and h: "0 \<le> h" "h \<noteq> 0 \<Longrightarrow> xs \<noteq> []"
    and t: "t = 0 \<or> 4 \<le> t" and x: "0 < x - h - t" and mc: "\<forall>y\<in>set xs. y \<le> mc \<or> y < 0" "0 \<le> mc" "mc \<le> hint"
    and hint': "hint' = (if ys = [] then taken_hint h t mc else max hint (taken_hint h t mc))"
  shows "map_ok (taken_map xs x ys h t) u (fsz - (if h < 4 then x - t else x - h - t)) hint'"
proof -
  have last: "last xs \<le> 0" if "xs \<noteq> []"
    using ok x h(1) t that by (auto simp: map_ok_def no_free_pair_append)
  have hd: "hd ys \<le> 0" if "ys \<noteq> []"
    using ok x h(1) t that by (cases ys) (auto simp: map_ok_def no_free_pair_append)
  define xs' where "xs' = (if h \<noteq> 0 \<and> h < 4 then butlast xs @ [last xs - h] else xs)"
  have xs': "span xs' = span xs + (if h < 4 then h else 0)" "free_sum xs' = free_sum xs"
    "no_free_pair xs'" "xs' \<noteq> [] \<Longrightarrow> last xs' \<le> 0" "0 \<notin> set (tl xs')" "\<forall>y\<in>set xs'. y \<le> mc \<or> y < 0" "xs' = [] \<longleftrightarrow> xs = []"
  proof -
    show "xs' = [] \<longleftrightarrow> xs = []" using h by (auto simp: xs'_def)
    consider "xs' = xs" "h = 0 \<or> 4 \<le> h" | as p where "xs = as @ [p]" "xs' = as @ [p - h]" "0 < h" "h < 4" "p \<le> 0"
      using h last by (cases "h = 0 \<or> 4 \<le> h"; cases xs rule: rev_cases) (auto simp: xs'_def)
    note cs = this
    have base: "no_free_pair xs" "0 \<notin> set (tl xs)"
      using ok by (simp_all add: map_ok_def no_free_pair_append, cases xs, simp_all)
    from cs show "span xs' = span xs + (if h < 4 then h else 0)" by cases auto
    from cs show "free_sum xs' = free_sum xs" by cases auto
    from cs base show "no_free_pair xs'" by cases (auto simp: no_free_pair_append)
    from cs last show "xs' \<noteq> [] \<Longrightarrow> last xs' \<le> 0" by cases auto
    from cs base show "0 \<notin> set (tl xs')" by cases (auto simp: tl_append split: list.splits)
    from cs mc(1) show "\<forall>y\<in>set xs'. y \<le> mc \<or> y < 0" by cases auto
  qed
  have tm: "taken_map xs x ys h t = xs' @ (if 4 \<le> h then [h] else []) @ [- (x - h - t)] @ (if t \<noteq> 0 then [t] else []) @ ys"
    by (simp add: taken_map_def xs'_def)
  have u: "span xs + x + span ys = u" "fsz = free_sum xs + x + free_sum ys" "no_free_pair ys" "0 \<notin> set ys"
    "\<forall>y\<in>set ys. y \<le> hint" "hint \<le> u" "x \<le> hint" "0 \<le> hint"
  proof -
    have 0: "0 \<notin> set (tl (xs @ x # ys))" "no_free_pair (x # ys)" using ok by (auto simp: map_ok_def no_free_pair_append)
    from 0(1) show "0 \<notin> set ys" by (cases xs) auto
    from 0(2) show "no_free_pair ys" by (cases ys) auto
  qed (use ok x h(1) t in \<open>auto simp: map_ok_def\<close>)
  have th: "mc \<le> taken_hint h t mc" "t \<le> taken_hint h t mc" "4 \<le> h \<Longrightarrow> h \<le> taken_hint h t mc" "taken_hint h t mc \<le> max (max h t) mc"
    using mc(2) by (auto simp: taken_hint_def Let_def)
  have hu: "taken_hint h t mc \<le> u" using th(4) x h(1) t mc u span_nonneg [of xs] span_nonneg [of ys] by linarith
  have "span (taken_map xs x ys h t) = u"
    using u(1) xs'(1) x h(1) t by (auto simp: tm)
  moreover have "fsz - (if h < 4 then x - t else x - h - t) = free_sum (taken_map xs x ys h t)"
    using u(2) xs'(2) x h(1) t by (auto simp: tm)
  moreover have "\<forall>y\<in>set (taken_map xs x ys h t). y \<le> hint'"
  proof -
    have "y \<le> taken_hint h t mc" if "y \<in> set xs'" for y using xs'(6) th(1) mc(2) that by fastforce
    moreover have "y \<le> hint'" if "y \<in> set ys" for y using u(5) that by (auto simp: hint')
    ultimately show ?thesis using th x mc(2) by (auto simp: tm hint' split: if_splits) fastforce+
  qed
  moreover have "0 \<le> hint'" "hint' \<le> u" using hu th(1) mc(2) u(6,8) by (auto simp: hint')
  moreover have "no_free_pair (taken_map xs x ys h t)"
    using xs'(3,4) u(3) hd x h t by (auto simp: tm no_free_pair_append no_free_pair_Cons)
  moreover have "0 \<notin> set (tl (taken_map xs x ys h t))"
    unfolding tm using xs'(5,7) u(4) x h t by (cases xs') auto
  ultimately show ?thesis by (simp add: map_ok_def tm)
qed

lemma taken_map_used:
  assumes "h \<noteq> 0 \<Longrightarrow> xs \<noteq> []" "xs \<noteq> [] \<Longrightarrow> last xs \<le> 0" "0 \<le> h" "0 \<le> t" "0 < x - h - t"
  defines "o1 \<equiv> span xs + (if h < 4 then 0 else h)"
  shows "used_bytes 0 (taken_map xs x ys h t) = used_bytes 0 (xs @ x # ys) \<union> block o1 (span xs + x - t - o1)"
proof -
  consider "h = 0" | as p where "xs = as @ [p]" "0 < h" "h < 4" "p \<le> 0" | "4 \<le> h"
    using assms(1-3) by (cases "h = 0"; cases "4 \<le> h"; cases xs rule: rev_cases) auto
  then show ?thesis
  proof cases
    case 1
    then show ?thesis using assms(3-5) by (auto simp: taken_map_def o1_def algebra_simps)
  next
    case 2
    then show ?thesis using assms(3-5)
      by (auto simp: taken_map_def o1_def algebra_simps simp del: in_block) (auto simp: algebra_simps)
  next
    case 3
    then show ?thesis using assms(3-5) by (auto simp: taken_map_def o1_def algebra_simps)
  qed
qed



section \<open>Allocation from a chunk\<close>

text \<open>The area of \<open>sz\<close> bytes at offset \<open>off\<close> lies in one free block of the map.\<close>

definition fits_at :: "int list \<Rightarrow> int \<Rightarrow> int \<Rightarrow> bool" where
  "fits_at ms off sz \<longleftrightarrow> (\<exists>xs x ys. ms = xs @ x # ys \<and> 0 \<le> x \<and> span xs \<le> off \<and> off + sz \<le> span xs + x)"

lemma fits_free: "fits_at ms off sz \<Longrightarrow> 0 < sz \<Longrightarrow> block off sz \<inter> used_bytes 0 ms = {}"
proof -
  assume "fits_at ms off sz" "0 < sz"
  then obtain xs x ys where *: "ms = xs @ x # ys" "0 \<le> x" "span xs \<le> off" "off + sz \<le> span xs + x"
    by (auto simp: fits_at_def)
  have "used_bytes 0 ms \<subseteq> block 0 (span xs) \<union> block (span xs + x) (span ys)"
    using used_bytes_range [of 0 xs] used_bytes_range [of "span xs + x" ys] *(2) by (auto simp: *(1))
  with *(3,4) show ?thesis by fastforce
qed

lemma alloc_area_none:
  assumes "scan_area sz (2 ^ k) ms 0 0 0 = Inr mc" "2 ^ k dvd off" "0 \<le> off" "0 < sz"
  shows "\<not> fits_at ms off sz"
proof
  assume "fits_at ms off sz"
  then obtain xs x ys where *: "ms = xs @ x # ys" "0 \<le> x" "span xs \<le> off" "off + sz \<le> span xs + x"
    by (auto simp: fits_at_def)
  have "x < mask_down (span xs + 2 ^ k - 1) (2 ^ k) - span xs + sz"
    using scan_area_none [OF assms(1)] *(1,2) by auto
  with *(4) have "off < mask_down (span xs + 2 ^ k - 1) (2 ^ k)" by linarith
  moreover have "mask_down (span xs + 2 ^ k - 1) (2 ^ k) \<le> off"
  proof (rule ccontr)
    let ?m = "mask_down (span xs + 2 ^ k - 1) (2 ^ k)"
    assume "\<not> ?m \<le> off"
    then have "2 ^ k \<le> ?m - off"
      using mask_down_dvd [of k "span xs + 2 ^ k - 1"] assms(2) by (intro zdvd_imp_le) auto
    with mask_down_le [of "span xs + 2 ^ k - 1" k] *(3) show False by linarith
  qed
  ultimately show False by simp
qed

text \<open>The area with the at most three bytes that stay with it at each end.\<close>

definition area_at :: "int set \<Rightarrow> int \<Rightarrow> int \<Rightarrow> bool" where
  "area_at A off sz \<longleftrightarrow> (\<exists>a b. A = {a..<b} \<and> off - 3 \<le> a \<and> a \<le> off \<and> off + sz \<le> b \<and> b \<le> off + sz + 3)"

text \<open>How the map of \<open>c'\<close> comes out of the map of \<open>c\<close>.\<close>

definition cut_out :: "pcpu_chunk \<Rightarrow> pcpu_chunk \<Rightarrow> int \<Rightarrow> int \<Rightarrow> int \<Rightarrow> bool" where
  "cut_out c c' off sz align \<longleftrightarrow>
     (\<exists>xs x ys h. live c = xs @ x # ys \<and> off = span xs + h \<and> h = mask_down (span xs + align - 1) align - span xs \<and>
        live c' = taken_map xs x ys h (if x - h - sz < 4 then 0 else x - h - sz) \<and>
        (h \<noteq> 0 \<longrightarrow> xs \<noteq> []) \<and> (xs \<noteq> [] \<longrightarrow> last xs \<le> 0) \<and> 0 \<le> h \<and> h + sz \<le> x)"

lemma chunk_alloc_area_correct:
  assumes ok: "chunk_ok c u" and room: "map_used c + 2 \<le> map_alloc c" and sz: "0 < sz" and al: "align = 2 ^ k"
  shows "\<exists>c' off. chunk_alloc_area c sz align = Some (c', off) \<and> chunk_ok c' u \<and> base_addr c' = base_addr c \<and>
     map_alloc c' = map_alloc c \<and>
     (if off = - 1 then live c' = live c \<and> (\<forall>p\<ge>0. align dvd p \<longrightarrow> \<not> fits_at (live c) p sz)
      else align dvd off \<and> fits_at (live c) off sz \<and>
        (\<exists>A. area_at A off sz \<and> A \<inter> used c = {} \<and> used c' = used c \<union> A) \<and>
        cut_out c c' off sz align)"
proof (cases "scan_area sz align (live c) 0 0 0")
  case (Inr mc)
  note n = scan_area_none [OF Inr]
  have m: "map_ok (live c) u (free_size c) (contig_hint c)" using ok by (simp add: chunk_ok_def)
  have "map_ok (live c) u (free_size c) mc"
    using m n unfolding map_ok_def by (metis order.trans order_less_imp_le)
  then have "chunk_ok (c\<lparr>contig_hint := mc\<rparr>) u" "live (c\<lparr>contig_hint := mc\<rparr>) = live c"
    using ok by (auto simp: chunk_ok_def live_def)
  moreover have "chunk_alloc_area c sz align = Some (c\<lparr>contig_hint := mc\<rparr>, - 1)"
    using Inr ok by (simp add: chunk_alloc_area_def live_def chunk_ok_def)
  moreover have "\<forall>p\<ge>0. align dvd p \<longrightarrow> \<not> fits_at (live c) p sz"
    using alloc_area_none [of sz k "live c" mc] Inr sz by (auto simp: al)
  ultimately show ?thesis by auto
next
  case (Inl r)
  obtain i o' h mc where r: "r = (i, o', h, mc)" by (cases r) auto
  note f = scan_area_found [OF Inl [unfolded r]]
  then obtain xs x ys where *: "live c = xs @ x # ys" "i = length xs" "o' = span xs"
      "h = mask_down (o' + align - 1) align - o'" "h + sz \<le> x" "0 \<le> mc" "\<forall>y\<in>set xs. y \<le> mc \<or> y < 0"
      "\<forall>b. 0 \<le> b \<and> (\<forall>y\<in>set xs. y \<le> b) \<longrightarrow> mc \<le> b"
    by auto
  have m: "map_ok (xs @ x # ys) u (free_size c) (contig_hint c)" and u: "u \<le> 1073741824"
    using ok by (simp_all add: chunk_ok_def *(1))
  have h: "0 \<le> h" "h < align" "align dvd o' + h" using head_gap [OF al, of o'] *(4) by auto
  have h0: "xs \<noteq> []" if "h \<noteq> 0"
  proof
    assume "xs = []"
    then have "o' = 0" by (simp add: *(3))
    with h that show False using zdvd_imp_le [of align h] by simp
  qed
  have last: "last xs \<le> 0" if "xs \<noteq> []"
    using m that h(1) sz *(5) by (auto simp: map_ok_def no_free_pair_append)
  have x: "x \<le> u" "0 < x" using m h(1) sz *(5) span_nonneg [of xs] span_nonneg [of ys] by (auto simp: map_ok_def)
  define t where "t = (if x - h - sz < 4 then 0 else x - h - sz)"
  define n where "n = (of_bool (4 \<le> h) + of_bool (t \<noteq> 0) :: nat)"
  define zs where "zs = drop (map_used c) (amap c)"
  define hint' where "hint' = (if ys = [] then taken_hint h t mc else max (contig_hint c) (taken_hint h t mc))"
  define c' where "c' = c\<lparr>amap := taken_map xs x ys h t @ drop n zs, map_used := map_used c + n,
            free_size := free_size c - (if h < 4 then x - t else x - h - t), contig_hint := hint'\<rparr>"
  have am: "amap c = xs @ x # ys @ zs" and mu: "map_used c = length xs + 1 + length ys"
    and zl: "length zs = map_alloc c - map_used c"
    using live_split [OF ok] by (simp_all add: zs_def *(1))
  have tk: "take_area c sz (length xs) o' h mc = Some (c', o' + h)"
    using take_area_eq [OF am mu _ last h0 h(1) sz *(5), of o' mc] zl room x u
    by (simp add: c'_def t_def n_def hint'_def)
  have t: "t = 0 \<or> 4 \<le> t" "0 \<le> t" "0 < x - h - t" "sz \<le> x - h - t" "x - h - t \<le> sz + 3"
    using *(5) sz by (auto simp: t_def)
  have len: "length (taken_map xs x ys h t) = map_used c + n"
    using h0 h(1) by (auto simp: taken_map_def n_def mu)
  have lv: "live c' = taken_map xs x ys h t" by (simp add: live_def c'_def len)
  have mc: "mc \<le> contig_hint c" using *(8) m by (auto simp: map_ok_def)
  have "map_ok (live c') u (free_size c') (contig_hint c')"
    using taken_map_ok [OF m h(1) h0 t(1,3) *(7,6) mc hint'_def] by (simp add: lv, simp add: c'_def)
  then have ok': "chunk_ok c' u"
    using ok zl room len n_def by (simp add: chunk_ok_def c'_def)
  define A where "A = {span xs + (if h < 4 then 0 else h)..<span xs + x - t}"
  have ub: "used c' = used c \<union> A"
    using taken_map_used [OF h0 last h(1) t(2,3)] by (simp add: lv *(1) A_def block_def diff_add_eq [symmetric] add_diff_eq)
  have ar: "area_at A (o' + h) sz"
    unfolding area_at_def A_def using h(1) t *(3)
    by (intro exI [of _ "span xs + (if h < 4 then 0 else h)"] exI [of _ "span xs + x - t"]) auto
  have fit: "fits_at (live c) (o' + h) sz"
    unfolding fits_at_def using *(1,3,5) h(1) x by (intro exI [of _ xs] exI [of _ x] exI [of _ ys]) auto
  have "fits_at (live c) (span xs) x" unfolding fits_at_def using *(1) x
    by (intro exI [of _ xs] exI [of _ x] exI [of _ ys]) auto
  then have "block (span xs) x \<inter> used c = {}" using fits_free x by blast
  moreover have "A \<subseteq> block (span xs) x" using h(1) t by (auto simp: A_def)
  ultimately have "A \<inter> used c = {}" by blast
  moreover have "chunk_alloc_area c sz align = Some (c', o' + h)"
    using Inl ok tk by (simp add: chunk_alloc_area_def live_def chunk_ok_def r *(2))
  moreover have "o' + h \<noteq> - 1" "base_addr c' = base_addr c" "map_alloc c' = map_alloc c"
    using h(1) *(3) span_nonneg [of xs] by (linarith, simp_all add: c'_def)
  moreover have "cut_out c c' (o' + h) sz align"
    unfolding cut_out_def using *(1,3,4,5) lv h0 last h(1)
    by (intro exI [of _ xs] exI [of _ x] exI [of _ ys] exI [of _ h]) (auto simp: t_def)
  ultimately show ?thesis using ok' h(3) fit ar ub by auto
qed

section \<open>Freeing an area\<close>

lemma find_area_at:
  assumes "\<And>j. j < length xs \<Longrightarrow> span (drop j xs) \<noteq> 0" "freeme = off + span xs"
  shows "find_area freeme (xs @ y # ys) i off = i + length xs"
  using assms
proof (induction xs arbitrary: i off)
  case (Cons x xs)
  have "span (drop j xs) \<noteq> 0" if "j < length xs" for j
    using Cons.prems(1) [of "Suc j"] that by simp
  moreover have "off \<noteq> freeme" using Cons.prems(1) [of 0] Cons.prems(2) by simp
  ultimately show ?case using Cons.IH [of "off + \<bar>x\<bar>" "i + 1"] Cons.prems(2) by simp
qed simp

text \<open>The merge with the next block keeps the map when it happens at entry 1 or when the next block is
  the last one; the source moves the entries from the wrong place otherwise.\<close>

definition freed_map :: "int list \<Rightarrow> int \<Rightarrow> int list \<Rightarrow> int list" where
  "freed_map xs n ys =
     (let (xs, n) = (if xs \<noteq> [] \<and> 0 \<le> last xs then (butlast xs, last xs + n) else (xs, n))
      in if ys \<noteq> [] \<and> 0 \<le> hd ys then xs @ (n + hd ys) # tl ys else xs @ n # ys)"

definition freed_index :: "int list \<Rightarrow> nat" where
  "freed_index xs = (if xs \<noteq> [] \<and> 0 \<le> last xs then length xs - 1 else length xs)"

lemma merge_prev_eq:
  assumes "amap c = xs @ n # ys @ zs" "map_used c = length xs + 1 + length ys"
  shows "\<exists>c' z. merge_prev c (length xs) = Some (c', freed_index xs) \<and>
    (if xs \<noteq> [] \<and> 0 \<le> last xs
     then c' = c\<lparr>amap := butlast xs @ (last xs + n) # ys @ z # zs, map_used := length xs + length ys\<rparr>
     else c' = c)"
proof (cases "xs \<noteq> [] \<and> 0 \<le> last xs")
  case True
  then obtain as p where xs: "xs = as @ [p]" "0 \<le> p" by (metis append_butlast_last_id)
  have "memmove (as @ (p + n) # n # ys @ zs) (Suc (length as)) (Suc (Suc (length as))) (length ys) =
    Some (as @ (p + n) # ys @ (last (n # ys)) # zs)"
  proof -
    have "drop (length ys) (n # ys @ zs) = last (n # ys) # zs" for n :: int
      by (induction ys arbitrary: n) auto
    then show ?thesis by (simp add: memmove_def)
  qed
  then show ?thesis using True assms
    by (intro exI) (auto simp: merge_prev_def freed_index_def xs nth_append list_update_append)
next
  case False
  then have "merge_prev c (length xs) = Some (c, freed_index xs)"
    using assms by (cases xs rule: rev_cases) (auto simp: merge_prev_def freed_index_def nth_append)
  with False show ?thesis by auto
qed

lemma merge_next_eq:
  assumes "amap c = xs @ n # ys @ zs" "map_used c = length xs + 1 + length ys"
    and "ys \<noteq> [] \<Longrightarrow> 0 \<le> hd ys \<Longrightarrow> length xs = 1 \<or> length ys = 1"
  shows "\<exists>c' z. merge_next c (length xs) = Some c' \<and>
    (if ys \<noteq> [] \<and> 0 \<le> hd ys
     then c' = c\<lparr>amap := xs @ (n + hd ys) # tl ys @ z # zs, map_used := length xs + length ys\<rparr>
     else c' = c)"
proof (cases "ys \<noteq> [] \<and> 0 \<le> hd ys")
  case True
  then obtain y ys' where ys: "ys = y # ys'" "0 \<le> y" by (cases ys) auto
  show ?thesis
  proof (cases "ys' = []")
    case False
    then obtain x0 where xs: "xs = [x0]" using True assms(3) by (auto simp: length_Suc_conv ys)
    have "memmove (x0 # (n + y) # y # ys' @ zs) 2 3 (length ys') =
      Some (x0 # (n + y) # ys' @ last (y # ys') # zs)"
    proof -
      have "drop (length ys') (y # ys' @ zs) = last (y # ys') # zs" for y :: int
        by (induction ys' arbitrary: y) auto
      then show ?thesis by (simp add: memmove_def numeral_3_eq_3 numeral_2_eq_2)
    qed
    then show ?thesis using True assms(1,2)
      by (intro exI) (auto simp: merge_next_def xs ys numeral_2_eq_2 numeral_3_eq_3)
  next
    case True
    have "take (Suc (Suc (length xs))) xs = xs" by simp
    then show ?thesis using ys assms(1,2)
      by (intro exI [of _ "c\<lparr>amap := xs @ (n + y) # y # zs, map_used := Suc (length xs)\<rparr>"] exI [of _ y])
        (simp add: merge_next_def True nth_append list_update_append memmove_def Let_def take_Cons')
  qed
next
  case False
  then show ?thesis using assms(1,2) by (cases ys) (auto simp: merge_next_def nth_append)
qed

lemma chunk_free_area_eq:
  assumes ok: "chunk_ok c u" and lv: "live c = xs @ (- n) # ys" and n: "0 < n"
    and nz: "xs \<noteq> [] \<Longrightarrow> last xs \<noteq> 0" and nx: "ys \<noteq> [] \<Longrightarrow> 0 \<le> hd ys \<Longrightarrow> freed_index xs = 1 \<or> length ys = 1"
  shows "\<exists>c'. chunk_free_area c (span xs) = Some c' \<and> live c' = freed_map xs n ys \<and>
    map_alloc c' = map_alloc c \<and> map_used c' \<le> map_used c \<and> length (amap c') = length (amap c) \<and>
    free_size c' = free_size c + n \<and> base_addr c' = base_addr c \<and>
    contig_hint c' = max (freed_map xs n ys ! freed_index xs) (contig_hint c)"
proof -
  define zs where "zs = drop (map_used c) (amap c)"
  have am: "amap c = xs @ - n # ys @ zs" and mu: "map_used c = length xs + 1 + length ys"
    using live_split [OF ok] by (simp_all add: zs_def lv)
  have nz': "0 \<notin> set (tl xs)"
    using ok lv by (cases xs) (auto simp: chunk_ok_def map_ok_def)
  have pos: "span (drop j xs) \<noteq> 0" if "j < length xs" for j
  proof -
    have "drop j xs \<noteq> []" using that by simp
    then have "last xs \<in> set (drop j xs)" using last_in_set [of "drop j xs"] that by (simp add: last_drop)
    then obtain as bs where "drop j xs = as @ last xs # bs" by (metis split_list)
    then show ?thesis using nz that span_nonneg [of as] span_nonneg [of bs] by (cases xs) (auto simp del: span_nonneg)
  qed
  have fi: "find_area (span xs) (take (map_used c) (amap c)) 0 0 = length xs"
    using find_area_at [of xs "span xs" 0 "- n" ys 0, OF pos] lv by (simp add: live_def)
  define c1 where "c1 = c\<lparr>amap := xs @ n # ys @ zs, free_size := free_size c + n\<rparr>"
  have st: "chunk_free_area c (span xs) =
    do { (c, i) \<leftarrow> merge_prev c1 (length xs); c \<leftarrow> merge_next c i;
         Some (c\<lparr>contig_hint := max (amap c ! i) (contig_hint c)\<rparr>) }"
    unfolding chunk_free_area_def fi Let_def
    by (simp add: am mu c1_def nth_append list_update_append)
  define xs1 n1 where "xs1 = (if xs \<noteq> [] \<and> 0 \<le> last xs then butlast xs else xs)"
    and "n1 = (if xs \<noteq> [] \<and> 0 \<le> last xs then last xs + n else n)"
  have fx: "freed_index xs = length xs1" by (simp add: freed_index_def xs1_def)
  obtain c2 zs2 where c2: "merge_prev c1 (length xs) = Some (c2, length xs1)"
    "c2 = c1\<lparr>amap := xs1 @ n1 # ys @ zs2, map_used := length xs1 + 1 + length ys\<rparr>" "length xs1 + length zs2 = length xs + length zs"
  proof -
    obtain c2 z where c2: "merge_prev c1 (length xs) = Some (c2, length xs1)"
      "if xs \<noteq> [] \<and> 0 \<le> last xs
       then c2 = c1\<lparr>amap := butlast xs @ (last xs + n) # ys @ z # zs, map_used := length xs + length ys\<rparr>
       else c2 = c1"
      using merge_prev_eq [of c1 xs n ys zs] mu by (auto simp: c1_def fx)
    show ?thesis
    proof (rule that [OF c2(1), of "if xs \<noteq> [] \<and> 0 \<le> last xs then z # zs else zs"])
      show "c2 = c1\<lparr>amap := xs1 @ n1 # ys @ (if xs \<noteq> [] \<and> 0 \<le> last xs then z # zs else zs),
                   map_used := length xs1 + 1 + length ys\<rparr>"
        using c2(2) mu by (auto simp: xs1_def n1_def c1_def split: if_splits)
    qed (cases xs rule: rev_cases; simp add: xs1_def)
  qed
  obtain c3 z where c3: "merge_next c2 (length xs1) = Some c3"
    "if ys \<noteq> [] \<and> 0 \<le> hd ys
     then c3 = c2\<lparr>amap := xs1 @ (n1 + hd ys) # tl ys @ z # zs2, map_used := length xs1 + length ys\<rparr> else c3 = c2"
    using merge_next_eq [of c2 xs1 n1 ys zs2] nx by (auto simp: c2(2) fx)
  define c' where "c' = c3\<lparr>contig_hint := max (amap c3 ! length xs1) (contig_hint c3)\<rparr>"
  have fm: "freed_map xs n ys = (if ys \<noteq> [] \<and> 0 \<le> hd ys then xs1 @ (n1 + hd ys) # tl ys else xs1 @ n1 # ys)"
    by (simp add: freed_map_def xs1_def n1_def)
  have le: "length xs1 \<le> length xs" by (simp add: xs1_def)
  have a3: "live c3 = freed_map xs n ys \<and> length (amap c3) = length (amap c) \<and> map_used c3 \<le> map_used c \<and>
    amap c3 ! length xs1 = freed_map xs n ys ! length xs1"
  proof (cases "ys \<noteq> [] \<and> 0 \<le> hd ys")
    case True
    then obtain y ys' where ys: "ys = y # ys'" by (cases ys) auto
    have "amap c3 = xs1 @ (n1 + hd ys) # tl ys @ z # zs2" "map_used c3 = length xs1 + length ys"
      using True c3(2) by (simp_all add: c2(2))
    then show ?thesis using c2(3) le by (simp add: live_def fm True am mu nth_append, simp add: ys)
  next
    case False
    then have "amap c3 = xs1 @ n1 # ys @ zs2" "map_used c3 = length xs1 + 1 + length ys"
      using c3(2) by (auto simp: c2(2))
    moreover have "freed_map xs n ys = xs1 @ n1 # ys" unfolding fm by (rule if_not_P [OF False])
    ultimately show ?thesis using c2(3) le by (simp add: live_def am mu nth_append)
  qed
  have b3: "map_alloc c3 = map_alloc c" "free_size c3 = free_size c + n" "base_addr c3 = base_addr c"
    "contig_hint c3 = contig_hint c"
    using c3(2) by (simp_all add: c2(2) c1_def split: if_splits)
  have "chunk_free_area c (span xs) = Some c'" by (simp add: st c2(1) c3(1) c'_def)
  then show ?thesis using a3 b3 fx by (simp add: c'_def live_def)
qed


lemma freed_map_ok:
  assumes ok: "map_ok (xs @ (- n) # ys) u fsz hint" and n: "0 < n" and nz: "xs \<noteq> [] \<Longrightarrow> last xs \<noteq> 0"
  shows "map_ok (freed_map xs n ys) u (fsz + n) (max (freed_map xs n ys ! freed_index xs) hint)"
    "used_bytes 0 (freed_map xs n ys) = used_bytes 0 (xs @ (- n) # ys) - block (span xs) n"
proof -
  define xs1 n1 where "xs1 = (if xs \<noteq> [] \<and> 0 \<le> last xs then butlast xs else xs)"
    and "n1 = (if xs \<noteq> [] \<and> 0 \<le> last xs then last xs + n else n)"
  have b: "no_free_pair xs" "no_free_pair ys" "0 \<notin> set (tl xs)" "0 \<notin> set ys" "\<forall>y\<in>set xs \<union> set ys. y \<le> hint"
    "span xs + n + span ys = u" "fsz = free_sum xs + free_sum ys" "0 \<le> hint" "hint \<le> u"
  proof -
    have 0: "0 \<notin> set (tl (xs @ (- n) # ys))" "no_free_pair ((- n) # ys)"
      using ok by (auto simp: map_ok_def no_free_pair_append)
    from 0(1) show "0 \<notin> set ys" "0 \<notin> set (tl xs)" by (cases xs; auto)+
    from 0(2) show "no_free_pair ys" by (simp add: no_free_pair_Cons)
  qed (use ok n in \<open>auto simp: map_ok_def no_free_pair_append\<close>)
  have 1: "no_free_pair xs1" "xs1 \<noteq> [] \<Longrightarrow> last xs1 \<le> 0" "0 \<notin> set (tl xs1)" "\<forall>y\<in>set xs1. y \<le> hint"
    "span xs1 + n1 = span xs + n" "free_sum xs1 + n1 = free_sum xs + n" "n \<le> n1" "span xs1 \<le> span xs"
    "used_bytes 0 xs1 = used_bytes 0 xs" "0 \<le> span xs1"
  proof -
    consider "xs1 = xs" "n1 = n" "xs \<noteq> [] \<Longrightarrow> last xs < 0" | as p where "xs = as @ [p]" "xs1 = as" "n1 = p + n" "0 < p"
    proof (cases "xs \<noteq> [] \<and> 0 \<le> last xs")
      case True
      moreover from True obtain as p where "xs = as @ [p]" by (metis append_butlast_last_id)
      ultimately show ?thesis using nz by (intro that(2) [of as p]) (simp_all add: xs1_def n1_def)
    next
      case False
      have "xs1 = xs" "n1 = n" unfolding xs1_def n1_def by (rule if_not_P [OF False])+
      moreover have "xs \<noteq> [] \<Longrightarrow> last xs < 0" using False by simp
      ultimately show ?thesis by (rule that(1))
    qed
    note cs = this
    from cs b(1) show "no_free_pair xs1" by cases (auto simp: no_free_pair_append)
    from cs b(1) show "xs1 \<noteq> [] \<Longrightarrow> last xs1 \<le> 0" by cases (auto simp: no_free_pair_append)
    from cs b(3) show "0 \<notin> set (tl xs1)" by cases (auto simp: tl_append split: list.splits)
    from cs b(5) show "\<forall>y\<in>set xs1. y \<le> hint" by cases auto
    from cs show "span xs1 + n1 = span xs + n" "free_sum xs1 + n1 = free_sum xs + n" "n \<le> n1" "span xs1 \<le> span xs"
      "used_bytes 0 xs1 = used_bytes 0 xs" by (cases; simp)+
  qed simp
  have fx: "freed_index xs = length xs1" by (simp add: freed_index_def xs1_def)
  obtain y ys1 where y: "freed_map xs n ys = xs1 @ (n1 + y) # ys1" "0 \<le> y" "y + span ys1 = span ys"
    "y + free_sum ys1 = free_sum ys" "no_free_pair ys1" "0 \<notin> set ys1" "ys1 \<noteq> [] \<Longrightarrow> hd ys1 \<le> 0"
    "set ys1 \<subseteq> set ys" "used_bytes (span xs1 + n1 + y) ys1 = used_bytes (span xs1 + n1) ys"
  proof (cases "ys \<noteq> [] \<and> 0 \<le> hd ys")
    case True
    then obtain y ys' where ys: "ys = y # ys'" "0 < y" using b(4) by (cases ys) fastforce+
    have "ys' \<noteq> [] \<Longrightarrow> hd ys' \<le> 0" using b(2) ys by (simp add: no_free_pair_Cons)
    then show ?thesis using True b(2,4) ys
      by (intro that [of y ys']) (auto simp: freed_map_def xs1_def n1_def no_free_pair_Cons)
  next
    case False
    then show ?thesis using b(2,4)
      by (intro that [of 0 ys]) (auto simp: freed_map_def xs1_def n1_def)
  qed
  have nth: "freed_map xs n ys ! freed_index xs = n1 + y" by (simp add: fx y(1) nth_append)
  have le: "n1 + y \<le> u" using b(6) 1(5,10) y(3) span_nonneg [of ys1] by linarith
  have "span (freed_map xs n ys) = u" using y 1 b(6) n by (simp add: y(1))
  moreover have "fsz + n = free_sum (freed_map xs n ys)" using y 1 b(7) n by (simp add: y(1))
  moreover have "\<forall>z\<in>set (freed_map xs n ys). z \<le> max (n1 + y) hint" 
  proof
    fix z assume "z \<in> set (freed_map xs n ys)"
    then have "z \<in> set xs1 \<or> z = n1 + y \<or> z \<in> set ys" using y(8) by (auto simp: y(1))
    then show "z \<le> max (n1 + y) hint" using 1(4) b(5) by (meson UnI2 max.coboundedI1 max.coboundedI2 order_refl)
  qed
  moreover have "no_free_pair (freed_map xs n ys)"
    using y(5,7) 1(1,2) by (auto simp: y(1) no_free_pair_append no_free_pair_Cons)
  moreover have "0 \<notin> set (tl (freed_map xs n ys))"
    using y(2,6) 1(3,7) n by (cases xs1) (auto simp: y(1))
  ultimately show "map_ok (freed_map xs n ys) u (fsz + n) (max (freed_map xs n ys ! freed_index xs) hint)"
    unfolding nth map_ok_def using le b(8,9) y(1) by (intro conjI) auto
  have "used_bytes 0 (freed_map xs n ys) = used_bytes 0 xs \<union> used_bytes (span xs + n) ys"
  proof -
    have "used_bytes (span xs1 + (n1 + y)) ys1 = used_bytes (span xs + n) ys"
      using y(9) 1(5) by (simp only: add.assoc [symmetric])
    then show ?thesis using y(2) 1(7,9) n by (simp add: y(1))
  qed
  moreover have "used_bytes 0 xs \<inter> block (span xs) n = {}" "used_bytes (span xs + n) ys \<inter> block (span xs) n = {}"
    using used_bytes_range [of 0 xs] used_bytes_range [of "span xs + n" ys] by fastforce+
  ultimately show "used_bytes 0 (freed_map xs n ys) = used_bytes 0 (xs @ (- n) # ys) - block (span xs) n"
    using n by auto
qed

lemma chunk_free_area_correct:
  assumes ok: "chunk_ok c u" and lv: "live c = xs @ (- n) # ys" and n: "0 < n"
    and nz: "xs \<noteq> [] \<Longrightarrow> last xs \<noteq> 0" and nx: "ys \<noteq> [] \<Longrightarrow> 0 \<le> hd ys \<Longrightarrow> freed_index xs = 1 \<or> length ys = 1"
  shows "\<exists>c'. chunk_free_area c (span xs) = Some c' \<and> chunk_ok c' u \<and> base_addr c' = base_addr c \<and>
    used c' = used c - block (span xs) n \<and> free_size c' = free_size c + n"
proof -
  have m: "map_ok (xs @ (- n) # ys) u (free_size c) (contig_hint c)" using ok by (simp add: chunk_ok_def lv)
  show ?thesis
    using chunk_free_area_eq [OF assms] freed_map_ok [OF m n nz] ok lv by (auto simp: chunk_ok_def)
qed

end
