(* ===== verification/PercpuAlloc.thy ===== *)
theory PercpuAlloc
  imports PercpuProps
begin

text \<open>
  The whole per-CPU allocator: the invariant of its state, what an allocation gives, that the search
  always ends, and what the set-up and the release do.
\<close>

section \<open>Areas of whole words\<close>

text \<open>
  Areas and alignments that are multiples of four bytes leave no padding. Every use of the allocator in
  the source is of this kind.
\<close>

definition words :: "pcpu_chunk \<Rightarrow> bool" where
  "words c \<longleftrightarrow> (\<forall>x\<in>set (live c). 4 dvd x)"

lemma words_span: "\<forall>x\<in>set xs. 4 dvd x \<Longrightarrow> (4::int) dvd span xs"
  by (induction xs) auto

lemma pow2_4: "2 \<le> k \<Longrightarrow> (4::int) dvd 2 ^ k"
  using le_imp_power_dvd [of 2 k "2 :: int"] by simp

lemma chunk_alloc_words:
  assumes ok: "chunk_ok c u" "words c" and room: "map_used c + 2 \<le> map_alloc c"
    and sz: "0 < sz" "4 dvd sz" and al: "align = 2 ^ k" "2 \<le> k"
  shows "\<exists>c' off. chunk_alloc_area c sz align = Some (c', off) \<and> chunk_ok c' u \<and> words c' \<and> base_addr c' = base_addr c \<and>
     map_alloc c' = map_alloc c \<and>
     (if off = - 1 then live c' = live c \<and> (\<forall>p\<ge>0. align dvd p \<longrightarrow> \<not> fits_at (live c) p sz)
      else align dvd off \<and> fits_at (live c) off sz \<and> used c' = used c \<union> block off sz)"
proof -
  obtain c' off where *: "chunk_alloc_area c sz align = Some (c', off)" "chunk_ok c' u" "base_addr c' = base_addr c"
    "map_alloc c' = map_alloc c" "if off = - 1 then live c' = live c \<and> (\<forall>p\<ge>0. align dvd p \<longrightarrow> \<not> fits_at (live c) p sz)
      else align dvd off \<and> fits_at (live c) off sz \<and>
        (\<exists>A. area_at A off sz \<and> A \<inter> used c = {} \<and> used c' = used c \<union> A) \<and> cut_out c c' off sz align"
    using chunk_alloc_area_correct [OF ok(1) room sz(1) al(1)] by blast
  show ?thesis
  proof (cases "off = - 1")
    case True
    with * ok(2) show ?thesis by (auto simp: words_def)
  next
    case False
    with *(5) have "align dvd off" "fits_at (live c) off sz" "cut_out c c' off sz align" by simp_all
    note 1 = this
    from 1(3) obtain xs x ys h where q: "live c = xs @ x # ys" "off = span xs + h"
      "live c' = taken_map xs x ys h (if x - h - sz < 4 then 0 else x - h - sz)"
      "h \<noteq> 0 \<Longrightarrow> xs \<noteq> []" "xs \<noteq> [] \<Longrightarrow> last xs \<le> 0" "0 \<le> h" "h + sz \<le> x"
      unfolding cut_out_def by blast
    have d: "\<forall>y\<in>set xs. 4 dvd y" "4 dvd x" "\<forall>y\<in>set ys. 4 dvd y" using ok(2) by (auto simp: words_def q(1))
    have "4 dvd off" using 1(1) pow2_4 [OF al(2)] unfolding al(1) by (rule dvd_trans [rotated])
    then have dh: "4 dvd h" using words_span [OF d(1)] q(2) by (metis dvd_add_right_iff)
    then have h: "h = 0 \<or> 4 \<le> h" using q(6) zdvd_imp_le [of 4 h] by fastforce
    have "4 dvd x - h - sz" using dh d(2) sz(2) by (intro dvd_diff)
    then have t: "(if x - h - sz < 4 then 0 else x - h - sz) = x - h - sz"
      using q(7) zdvd_imp_le [of 4 "x - h - sz"] by fastforce
    have "words c'"
      using d dh h \<open>4 dvd x - h - sz\<close> sz(2) by (auto simp: words_def q(3) t taken_map_def)
    moreover have "used c' = used c \<union> block off sz"
      using taken_map_used [OF q(4,5,6), of "x - h - sz" x ys] q(7) sz(1) h
      by (auto simp: q(1,3) t q(2))
    ultimately show ?thesis using * 1 False by auto
  qed
qed

text \<open>With words the slot of a chunk depends on its free bytes only.\<close>

lemma words_slot:
  assumes "chunk_ok c u" "words c"
  shows "pcpu_chunk_slot st c = (if free_size c < 4 then 0 else pcpu_size_to_slot st (free_size c))"
    "0 \<le> free_size c" "free_size c \<le> u"
proof -
  have m: "map_ok (live c) u (free_size c) (contig_hint c)" and u: "u \<le> 1073741824"
    using assms(1) by (simp_all add: chunk_ok_def)
  then have f: "free_size c = free_sum (live c)" "0 \<le> contig_hint c" "contig_hint c \<le> u"
    by (simp_all add: map_ok_def)
  show r: "0 \<le> free_size c" "free_size c \<le> u"
    using m free_sum_le_span [of "live c"] by (simp_all add: map_ok_def)
  have "4 \<le> contig_hint c" if "4 \<le> free_size c"
  proof -
    have "\<exists>x\<in>set xs. 0 < x" if "0 < free_sum xs" for xs using that
    proof (induction xs)
      case (Cons a xs)
      then show ?case by (cases "0 < a") (auto simp: max_def split: if_splits)
    qed simp
    moreover have "0 < free_sum (live c)" using that f(1) by linarith
    ultimately obtain x where x: "x \<in> set (live c)" "0 < x" by blast
    then have "4 \<le> x" using assms(2) zdvd_imp_le [of 4 x] by (auto simp: words_def)
    moreover have "x \<le> contig_hint c" using m x(1) by (auto simp: map_ok_def)
    ultimately show ?thesis by simp
  qed
  then show "pcpu_chunk_slot st c = (if free_size c < 4 then 0 else pcpu_size_to_slot st (free_size c))"
    using r f u by (auto simp: pcpu_chunk_slot_def)
qed

section \<open>Slots\<close>

lemma bit_length_mono: "m \<le> n \<Longrightarrow> bit_length m \<le> bit_length n"
proof (induction n arbitrary: m rule: bit_length.induct)
  case (1 n)
  show ?case
  proof (cases "m = 0")
    case False
    with 1 have "bit_length (m div 2) \<le> bit_length (n div 2)" by (intro 1(1)) (auto intro: div_le_mono)
    with False 1(2) show ?thesis by (subst (1 2) bit_length.simps) simp
  qed (simp add: bit_length.simps [of 0])
qed

lemma size_slot_mono: "0 \<le> a \<Longrightarrow> a \<le> b \<Longrightarrow> b < 4294967296 \<Longrightarrow> pcpu_size_slot a \<le> pcpu_size_slot b"
  using bit_length_mono [OF nat_mono [of a b]]
  by (auto simp: pcpu_size_slot_def fls_def bit_length.simps [of 0] max_def)

lemma size_slot_pos: "1 \<le> pcpu_size_slot a"
  by (simp add: pcpu_size_slot_def)

text \<open>
  The invariant. A chunk that is not reserved is linked in at most the one slot its free bytes call for.
\<close>

definition chunk_good :: "pcpu \<Rightarrow> pcpu_chunk \<Rightarrow> bool" where
  "chunk_good st c \<longleftrightarrow> (\<exists>u \<le> pcpu_unit_size st. chunk_ok c u) \<and> words c"

definition pcpu_ok :: "pcpu \<Rightarrow> bool" where
  "pcpu_ok st \<longleftrightarrow>
     32768 \<le> pcpu_unit_size st \<and> pcpu_unit_size st \<le> 1073741824 \<and> 4 dvd pcpu_unit_size st \<and>
     pcpu_nr_slots st = pcpu_size_slot (pcpu_unit_size st) + 2 \<and>
     length (pcpu_slot st) = nat (pcpu_nr_slots st) \<and>
     (\<forall>r. pcpu_reserved_chunk st = Some r \<longrightarrow> r < length (pchunks st)) \<and>
     (\<forall>i < length (pchunks st). chunk_good st (pchunks st ! i)) \<and>
     (\<forall>s < length (pcpu_slot st). \<forall>i \<in> set (pcpu_slot st ! s).
        i < length (pchunks st) \<and> Some i \<noteq> pcpu_reserved_chunk st \<and>
        pcpu_chunk_slot st (pchunks st ! i) = int s)"

lemma pcpu_okD:
  assumes "pcpu_ok st"
  shows "32768 \<le> pcpu_unit_size st" "pcpu_unit_size st \<le> 1073741824" "4 dvd pcpu_unit_size st"
    "pcpu_nr_slots st = pcpu_size_slot (pcpu_unit_size st) + 2" "length (pcpu_slot st) = nat (pcpu_nr_slots st)"
    "i < length (pchunks st) \<Longrightarrow> chunk_good st (pchunks st ! i)"
    "pcpu_reserved_chunk st = Some r \<Longrightarrow> r < length (pchunks st)"
    "s < length (pcpu_slot st) \<Longrightarrow> i \<in> set (pcpu_slot st ! s) \<Longrightarrow>
       i < length (pchunks st) \<and> Some i \<noteq> pcpu_reserved_chunk st \<and> pcpu_chunk_slot st (pchunks st ! i) = int s"
  using assms by (auto simp: pcpu_ok_def)

lemma slot_range:
  assumes ok: "pcpu_ok st" and c: "chunk_good st c"
  shows "0 \<le> pcpu_chunk_slot st c" "nat (pcpu_chunk_slot st c) < length (pcpu_slot st)"
proof -
  obtain u where u: "u \<le> pcpu_unit_size st" "chunk_ok c u" "words c" using c by (auto simp: chunk_good_def)
  note p = pcpu_okD [OF ok]
  note w = words_slot [OF u(2,3)]
  have "pcpu_size_slot (free_size c) \<le> pcpu_size_slot (pcpu_unit_size st)"
    using w u(1) p(2) by (intro size_slot_mono) auto
  moreover have "1 \<le> pcpu_size_slot (free_size c)" "1 \<le> pcpu_size_slot (pcpu_unit_size st)" by (rule size_slot_pos)+
  ultimately show "0 \<le> pcpu_chunk_slot st c" "nat (pcpu_chunk_slot st c) < length (pcpu_slot st)"
    using p(4,5) unfolding w(1) [of st] pcpu_size_to_slot_def by auto
qed

text \<open>Replacing a chunk and putting it into its new slot keeps the invariant.\<close>

definition same_shape :: "pcpu \<Rightarrow> pcpu \<Rightarrow> bool" where
  "same_shape st st' \<longleftrightarrow>
     pcpu_unit_size st' = pcpu_unit_size st \<and> pcpu_nr_slots st' = pcpu_nr_slots st \<and>
     pcpu_reserved_chunk st' = pcpu_reserved_chunk st"

lemma chunk_slot_shape: "same_shape st st' \<Longrightarrow> pcpu_chunk_slot st' c = pcpu_chunk_slot st c"
  by (simp add: same_shape_def pcpu_chunk_slot_def pcpu_size_to_slot_def)

lemma relocate_ok:
  assumes ok: "pcpu_ok st" and i: "i < length (pchunks st)" and c: "chunk_good st c"
    and os: "oslot = pcpu_chunk_slot st (pchunks st ! i) \<or> oslot = - 1"
  shows "\<exists>st'. pcpu_chunk_relocate (st\<lparr>pchunks := (pchunks st)[i := c]\<rparr>) i oslot = Some st' \<and> pcpu_ok st' \<and>
    same_shape st st' \<and> pchunks st' = (pchunks st)[i := c] \<and>
    (pcpu_chunk_slot st c = oslot \<longrightarrow> pcpu_slot st' = pcpu_slot st) \<and>
    (oslot = - 1 \<and> Some i \<noteq> pcpu_reserved_chunk st \<longrightarrow> i \<in> set (pcpu_slot st' ! nat (pcpu_chunk_slot st c)))"
proof -
  define st1 where "st1 = st\<lparr>pchunks := (pchunks st)[i := c]\<rparr>"
  have sh: "same_shape st st1" by (simp add: st1_def same_shape_def)
  note sl = chunk_slot_shape [OF sh]
  note p = pcpu_okD [OF ok]
  note r = slot_range [OF ok c]
  have ci: "pchunks st1 ! i = c" using i by (simp add: st1_def)
  show ?thesis
  proof (cases "Some i \<noteq> pcpu_reserved_chunk st \<and> oslot \<noteq> pcpu_chunk_slot st c")
    case False
    have "pcpu_chunk_relocate st1 i oslot = Some st1"
      using False by (auto simp: pcpu_chunk_relocate_def ci sl) (simp_all add: st1_def)
    moreover have "pcpu_ok st1"
      unfolding pcpu_ok_def
    proof (intro conjI allI impI ballI)
      fix j assume "j < length (pchunks st1)"
      then show "chunk_good st1 (pchunks st1 ! j)"
        using p(6) [of j] c i by (cases "j = i") (simp_all add: st1_def chunk_good_def)
    next
      fix s j assume s: "s < length (pcpu_slot st1)" "j \<in> set (pcpu_slot st1 ! s)"
      then have *: "j < length (pchunks st) \<and> Some j \<noteq> pcpu_reserved_chunk st \<and> pcpu_chunk_slot st (pchunks st ! j) = int s"
        using p(8) [of s j] by (simp add: st1_def)
      then show "j < length (pchunks st1)" "Some j \<noteq> pcpu_reserved_chunk st1" by (simp_all add: st1_def)
      show "pcpu_chunk_slot st1 (pchunks st1 ! j) = int s"
        using * False os i r(1) unfolding sl by (cases "j = i") (auto simp: st1_def)
    qed (use p(1-5,7) in \<open>simp_all add: st1_def\<close>)
    ultimately show ?thesis using sh False r(1) unfolding st1_def by auto
  next
    case True
    define s where "s = pcpu_chunk_slot st c"
    define sls where "sls = map (filter (\<lambda>k. k \<noteq> i)) (pcpu_slot st)"
    define front where "front = (oslot < s)"
    define st2 where "st2 = st1\<lparr>pcpu_slot := sls[nat s := (if front then i # sls ! nat s else sls ! nat s @ [i])]\<rparr>"
    have sr: "0 \<le> s" "nat s < length (pcpu_slot st)" using r by (simp_all add: s_def)
    have "pcpu_chunk_relocate st1 i oslot = Some st2"
      using True sr unfolding pcpu_chunk_relocate_def ci sl
      by (simp add: s_def [symmetric] slot_move_def st2_def sls_def Let_def front_def) (simp add: st1_def)
    moreover have "pcpu_ok st2"
      unfolding pcpu_ok_def
    proof (intro conjI allI impI ballI)
      fix j assume "j < length (pchunks st2)"
      then show "chunk_good st2 (pchunks st2 ! j)"
        using p(6) [of j] c i by (cases "j = i") (simp_all add: st1_def st2_def chunk_good_def)
    next
      fix t j assume t: "t < length (pcpu_slot st2)" "j \<in> set (pcpu_slot st2 ! t)"
      have tl: "t < length (pcpu_slot st)" using t(1) by (simp add: st2_def sls_def)
      have sh2: "same_shape st st2" by (simp add: st2_def st1_def same_shape_def)
      have cs: "j = i \<and> t = nat s \<or> j \<noteq> i \<and> j \<in> set (pcpu_slot st ! t)"
        using t(2) tl sr by (cases "t = nat s") (auto simp: st2_def sls_def split: if_splits)
      then have "j < length (pchunks st2) \<and> Some j \<noteq> pcpu_reserved_chunk st2 \<and>
        pcpu_chunk_slot st (pchunks st2 ! j) = int t"
      proof
        assume "j = i \<and> t = nat s"
        with i True sr show ?thesis by (simp add: st2_def st1_def s_def)
      next
        assume "j \<noteq> i \<and> j \<in> set (pcpu_slot st ! t)"
        with p(8) [OF tl] show ?thesis by (simp add: st2_def st1_def)
      qed
      then show "j < length (pchunks st2)" "Some j \<noteq> pcpu_reserved_chunk st2" "pcpu_chunk_slot st2 (pchunks st2 ! j) = int t"
        using chunk_slot_shape [OF sh2] by simp_all
    qed (use p(1-5,7) in \<open>simp_all add: st1_def st2_def sls_def\<close>)
    moreover have "i \<in> set (pcpu_slot st2 ! nat s)" using sr by (simp add: st2_def sls_def)
    moreover have "same_shape st st2" "pchunks st2 = (pchunks st)[i := c]"
      by (simp_all add: st2_def st1_def same_shape_def)
    ultimately show ?thesis using True unfolding st1_def s_def by auto
  qed
qed


section \<open>One chunk of the allocator\<close>

text \<open>The same areas in the same chunks.\<close>

definition same_areas :: "pcpu \<Rightarrow> pcpu \<Rightarrow> bool" where
  "same_areas st st' \<longleftrightarrow>
     same_shape st st' \<and> length (pchunks st') = length (pchunks st) \<and>
     (\<forall>i < length (pchunks st). live (pchunks st' ! i) = live (pchunks st ! i) \<and>
        map_used (pchunks st' ! i) = map_used (pchunks st ! i) \<and>
        map_alloc (pchunks st ! i) \<le> map_alloc (pchunks st' ! i) \<and>
        base_addr (pchunks st' ! i) = base_addr (pchunks st ! i))"

lemma same_shape_refl [simp]: "same_shape st st"
  by (simp add: same_shape_def)

lemma same_areas_refl [simp]: "same_areas st st"
  by (simp add: same_areas_def)

lemma same_areasD:
  assumes "same_areas st st'"
  shows "same_shape st st'" "length (pchunks st') = length (pchunks st)"
    "i < length (pchunks st) \<Longrightarrow> live (pchunks st' ! i) = live (pchunks st ! i)"
    "i < length (pchunks st) \<Longrightarrow> map_used (pchunks st' ! i) = map_used (pchunks st ! i)"
    "i < length (pchunks st) \<Longrightarrow> map_alloc (pchunks st ! i) \<le> map_alloc (pchunks st' ! i)"
    "i < length (pchunks st) \<Longrightarrow> base_addr (pchunks st' ! i) = base_addr (pchunks st ! i)"
  using assms by (auto simp: same_areas_def)

lemma same_shape_trans: "same_shape a b \<Longrightarrow> same_shape b c \<Longrightarrow> same_shape a c"
  by (simp add: same_shape_def)

lemma same_areas_trans:
  assumes "same_areas a b" "same_areas b c"
  shows "same_areas a c"
proof -
  note 1 = same_areasD [OF assms(1)] and 2 = same_areasD [OF assms(2)]
  have "map_alloc (pchunks a ! i) \<le> map_alloc (pchunks c ! i)" if "i < length (pchunks a)" for i
    using 1(2,5) 2(5) that by (metis order_trans)
  then show ?thesis
    using same_shape_trans [OF 1(1) 2(1)] unfolding same_areas_def by (simp add: 1(2,3,4,6) 2(2,3,4,6))
qed

text \<open>The area of \<open>sz\<close> bytes at \<open>off\<close> of chunk \<open>cid\<close> has been taken.\<close>

definition area_served :: "pcpu \<Rightarrow> pcpu \<Rightarrow> nat \<Rightarrow> int \<Rightarrow> int \<Rightarrow> int \<Rightarrow> bool" where
  "area_served st st' cid off sz align \<longleftrightarrow>
     pcpu_ok st' \<and> same_shape st st' \<and> length (pchunks st') = length (pchunks st) \<and>
     cid < length (pchunks st) \<and> 0 \<le> off \<and> align dvd off \<and> fits_at (live (pchunks st ! cid)) off sz \<and>
     used (pchunks st' ! cid) = used (pchunks st ! cid) \<union> block off sz \<and>
     (\<forall>i < length (pchunks st). i \<noteq> cid \<longrightarrow> live (pchunks st' ! i) = live (pchunks st ! i)) \<and>
     (\<forall>i < length (pchunks st). base_addr (pchunks st' ! i) = base_addr (pchunks st ! i))"

lemma area_served_same:
  assumes a: "same_areas st st1" and b: "area_served st1 st' cid off sz align"
  shows "area_served st st' cid off sz align"
proof -
  note a = same_areasD [OF a]
  have "same_shape st st'" using a(1) b same_shape_trans unfolding area_served_def by blast
  moreover have "cid < length (pchunks st)" using a(2) b by (simp add: area_served_def)
  moreover from this a(3) have "live (pchunks st1 ! cid) = live (pchunks st ! cid)" by blast
  moreover note b [unfolded area_served_def this]
  ultimately show ?thesis
    using a(2) unfolding area_served_def by (simp add: a(3,6))
qed

lemma double_until_ge: "0 < n \<Longrightarrow> k \<le> double_until n k"
proof (induction n k rule: double_until.induct)
  case (1 n k)
  then show ?case by (subst double_until.simps) auto
qed

lemma need_iff: "pcpu_need_to_extend c = 0 \<longleftrightarrow> map_used c + 2 \<le> map_alloc c"
  using double_until_ge [of PCPU_DFL_MAP_ALLOC "map_used c + 2"]
  by (auto simp: pcpu_need_to_extend_def PCPU_DFL_MAP_ALLOC_def)

lemma alloc_area_step:
  assumes ok: "pcpu_ok st" and i: "i < length (pchunks st)" and room: "pcpu_need_to_extend (pchunks st ! i) = 0"
    and sz: "0 < sz" "4 dvd sz" and al: "align = 2 ^ k" "2 \<le> k"
  shows "\<exists>st' off. pcpu_alloc_area st i sz align = Some (st', off) \<and> pcpu_ok st' \<and>
    (if off = - 1 then same_areas st st' \<and> pcpu_slot st' = pcpu_slot st \<and>
       (\<forall>p\<ge>0. align dvd p \<longrightarrow> \<not> fits_at (live (pchunks st ! i)) p sz) \<and>
       (\<forall>j. pcpu_need_to_extend (pchunks st' ! j) = pcpu_need_to_extend (pchunks st ! j))
     else area_served st st' i off sz align)"
proof -
  let ?c = "pchunks st ! i"
  obtain u where u: "u \<le> pcpu_unit_size st" "chunk_ok ?c u" "words ?c"
    using pcpu_okD(6) [OF ok i] by (auto simp: chunk_good_def)
  obtain c off where c: "chunk_alloc_area ?c sz align = Some (c, off)" "chunk_ok c u" "words c" "base_addr c = base_addr ?c"
    "map_alloc c = map_alloc ?c" "if off = - 1 then live c = live ?c \<and> (\<forall>p\<ge>0. align dvd p \<longrightarrow> \<not> fits_at (live ?c) p sz)
      else align dvd off \<and> fits_at (live ?c) off sz \<and> used c = used ?c \<union> block off sz"
    using chunk_alloc_words [OF u(2,3) _ sz al] room unfolding need_iff by blast
  have g: "chunk_good st c" using u(1) c(2,3) by (auto simp: chunk_good_def)
  obtain st' where st': "pcpu_chunk_relocate (st\<lparr>pchunks := (pchunks st)[i := c]\<rparr>) i (pcpu_chunk_slot st ?c) = Some st'"
    "pcpu_ok st'" "same_shape st st'" "pchunks st' = (pchunks st)[i := c]"
    "pcpu_chunk_slot st c = pcpu_chunk_slot st ?c \<longrightarrow> pcpu_slot st' = pcpu_slot st"
    using relocate_ok [OF ok i g disjI1 [OF refl]] by blast
  have "pcpu_alloc_area st i sz align = Some (st', off)"
    by (simp add: pcpu_alloc_area_def c(1) st'(1) Let_def)
  moreover have "same_areas st st' \<and> pcpu_slot st' = pcpu_slot st \<and>
       (\<forall>j. pcpu_need_to_extend (pchunks st' ! j) = pcpu_need_to_extend (pchunks st ! j))" if "off = - 1"
  proof -
    have lv: "live c = live ?c" using c(6) that by simp
    have "map_used c = map_used ?c"
      using live_split(2) [OF c(2)] live_split(2) [OF u(2)] lv by simp
    moreover have "free_size c = free_size ?c"
      using c(2) u(2) lv by (simp add: chunk_ok_def map_ok_def)
    ultimately have e: "live c = live ?c" "map_used c = map_used ?c" "map_alloc c = map_alloc ?c" "free_size c = free_size ?c"
      using lv c(5) by simp_all
    have "pcpu_slot st' = pcpu_slot st"
      using words_slot(1) [OF c(2,3)] words_slot(1) [OF u(2,3)] st'(5) e(4) by simp
    moreover have "same_areas st st'"
      unfolding same_areas_def st'(4) using st'(3) c(4) e i by (simp add: nth_list_update)
    moreover have "pcpu_need_to_extend (pchunks st' ! j) = pcpu_need_to_extend (pchunks st ! j)" for j
      unfolding st'(4) using e(2,3) i by (cases "j < length (pchunks st)") (auto simp: nth_list_update pcpu_need_to_extend_def)
    ultimately show ?thesis by blast
  qed
  moreover have "area_served st st' i off sz align" if "off \<noteq> - 1"
  proof -
    have "0 \<le> off"
    proof -
      from c(6) that have "fits_at (live ?c) off sz" by simp
      then obtain xs :: "int list" where "span xs \<le> off" unfolding fits_at_def by blast
      then show ?thesis using span_nonneg [of xs] by linarith
    qed
    moreover have "base_addr ((pchunks st)[i := c] ! j) = base_addr (pchunks st ! j)" for j
      using c(4) i by (cases "i = j") simp_all
    moreover from c(6) that have "align dvd off \<and> fits_at (live ?c) off sz \<and> used c = used ?c \<union> block off sz" by simp
    ultimately show ?thesis using st'(2-4) i by (simp add: area_served_def)
  qed
  ultimately show ?thesis using st'(2) c(6) by auto
qed


section \<open>The search\<close>

definition needing :: "pcpu \<Rightarrow> nat" where
  "needing st = card {i. i < length (pchunks st) \<and> pcpu_need_to_extend (pchunks st ! i) \<noteq> 0}"

definition blank :: "pcpu \<Rightarrow> nat \<Rightarrow> bool" where
  "blank st i \<longleftrightarrow> live (pchunks st ! i) = [pcpu_unit_size st]"

text \<open>Memory is there, and the missing \<^verbatim>\<open>return\<close> gives a value that is not negative.\<close>

definition plenty :: "pcpu_env \<Rightarrow> bool" where
  "plenty env \<longleftrightarrow> (\<forall>n. mem_ok env n) \<and> (\<forall>n. vm_base env n \<noteq> None) \<and> 0 \<le> no_return env"

lemma extend_step:
  assumes ok: "pcpu_ok st" and i: "i < length (pchunks st)" and env: "plenty env"
    and need: "pcpu_need_to_extend (pchunks st ! i) \<noteq> 0"
  shows "\<exists>st'. pcpu_extend_area_map env st i (pcpu_need_to_extend (pchunks st ! i)) = (st', no_return env) \<and>
    pcpu_ok st' \<and> same_areas st st' \<and> pcpu_slot st' = pcpu_slot st \<and> needing st' < needing st"
proof -
  define c where "c = pchunks st ! i"
  define n where "n = pcpu_need_to_extend c"
  define c' where "c' = c\<lparr>map_alloc := n, amap := amap c @ replicate (n - map_alloc c) 0\<rparr>"
  define st' where "st' = st\<lparr>mem_calls := mem_calls st + 1, pchunks := (pchunks st)[i := c']\<rparr>"
  note p = pcpu_okD [OF ok]
  have n: "map_used c + 2 \<le> n" "map_alloc c < n"
    using need need_iff [of c] double_until_ge [of PCPU_DFL_MAP_ALLOC "map_used c + 2"]
    by (auto simp: n_def c_def [symmetric] pcpu_need_to_extend_def PCPU_DFL_MAP_ALLOC_def split: if_splits)
  have eq: "pcpu_extend_area_map env st i n = (st', no_return env)"
    using env n(2) by (simp add: pcpu_extend_area_map_def pcpu_mem_alloc_def plenty_def c_def [symmetric] c'_def st'_def)
  obtain u where u: "u \<le> pcpu_unit_size st" "chunk_ok c u" "words c"
    using p(6) [OF i] by (auto simp: chunk_good_def c_def)
  have lv: "live c' = live c"
    using u(2) by (auto simp: live_def c'_def chunk_ok_def)
  have g: "chunk_ok c' u" "words c'"
    using u n lv by (auto simp: chunk_ok_def words_def c'_def)
  have fs: "free_size c' = free_size c" "contig_hint c' = contig_hint c" by (simp_all add: c'_def)
  have sh: "same_shape st st'" by (simp add: st'_def same_shape_def)
  have nth: "pchunks st' ! j = (if j = i then c' else pchunks st ! j)" for j
    using i by (simp add: st'_def nth_list_update)
  have cs: "pcpu_chunk_slot st (pchunks st' ! j) = pcpu_chunk_slot st (pchunks st ! j)" for j
    unfolding nth using fs by (auto simp: pcpu_chunk_slot_def c_def)
  have "pcpu_ok st'"
    unfolding pcpu_ok_def
  proof (intro conjI allI impI ballI)
    fix j assume "j < length (pchunks st')"
    then show "chunk_good st' (pchunks st' ! j)"
      using p(6) [of j] g u(1) unfolding nth by (auto simp: st'_def chunk_good_def)
  next
    fix s j assume "s < length (pcpu_slot st')" "j \<in> set (pcpu_slot st' ! s)"
    then show "j < length (pchunks st')" "Some j \<noteq> pcpu_reserved_chunk st'" "pcpu_chunk_slot st' (pchunks st' ! j) = int s"
      using p(8) [of s j] unfolding chunk_slot_shape [OF sh] cs by (simp_all add: st'_def)
  qed (use p(1-5,7) in \<open>simp_all add: st'_def\<close>)
  moreover have "same_areas st st'"
    unfolding same_areas_def nth using sh lv n by (auto simp: st'_def c_def c'_def)
  moreover have "needing st' < needing st"
    unfolding needing_def
  proof (rule psubset_card_mono)
    have "pcpu_need_to_extend c' = 0" unfolding need_iff using n by (simp add: c'_def)
    then show "{j. j < length (pchunks st') \<and> pcpu_need_to_extend (pchunks st' ! j) \<noteq> 0}
      \<subset> {j. j < length (pchunks st) \<and> pcpu_need_to_extend (pchunks st ! j) \<noteq> 0}"
      using i need unfolding nth by (auto simp: st'_def split: if_splits)
  qed simp
  ultimately show ?thesis using eq by (auto simp: n_def c_def st'_def)
qed

definition walk_ok :: "pcpu \<Rightarrow> int \<Rightarrow> int \<Rightarrow> nat list \<Rightarrow> walk \<Rightarrow> bool" where
  "walk_ok st sz align ids w \<longleftrightarrow> (case w of
     Walk_found st' cid off \<Rightarrow> area_served st st' cid off sz align
   | Walk_failed st' \<Rightarrow> False
   | Walk_restart st' \<Rightarrow> pcpu_ok st' \<and> same_areas st st' \<and> pcpu_slot st' = pcpu_slot st \<and> needing st' < needing st
   | Walk_on st' \<Rightarrow> pcpu_ok st' \<and> same_areas st st' \<and> pcpu_slot st' = pcpu_slot st \<and> needing st' = needing st \<and>
       (\<forall>i\<in>set ids. \<not> blank st i))"

lemma blank_same: "same_areas st st' \<Longrightarrow> i < length (pchunks st) \<Longrightarrow> blank st' i \<longleftrightarrow> blank st i"
  using same_areasD(1) [of st st'] same_areasD(3) [of st st' i] by (simp add: blank_def same_shape_def)

lemma walk_ok_same:
  assumes "walk_ok st' sz align ids w" "same_areas st st'" "pcpu_slot st' = pcpu_slot st" "needing st' = needing st"
    and "\<forall>i\<in>set ids. i < length (pchunks st)" and "\<forall>i\<in>set pre. \<not> blank st i"
  shows "walk_ok st sz align (pre @ ids) w"
  using assms same_areas_trans [OF assms(2)] area_served_same [OF assms(2)] blank_same [OF assms(2)]
  by (auto simp: walk_ok_def split: walk.splits)

lemma walk_slot_ok:
  assumes ok: "pcpu_ok st" and env: "plenty env" and sz: "0 < sz" "4 dvd sz" "sz \<le> 32768"
    and al: "align = 2 ^ k" "2 \<le> k" "k \<le> 12" and ids: "\<forall>i\<in>set ids. i < length (pchunks st)"
  shows "\<exists>w. walk_slot env sz align ids st = Some w \<and> walk_ok st sz align ids w"
  using ok ids
proof (induction ids arbitrary: st)
  case Nil
  then show ?case by (simp add: walk_ok_def)
next
  case (Cons i ids)
  let ?c = "pchunks st ! i"
  have i: "i < length (pchunks st)" and ids: "\<forall>i\<in>set ids. i < length (pchunks st)" using Cons.prems by auto
  note p = pcpu_okD [OF Cons.prems(1)]
  obtain u where u: "u \<le> pcpu_unit_size st" "chunk_ok ?c u" using p(6) [OF i] by (auto simp: chunk_good_def)
  have bl: "32768 \<le> contig_hint ?c \<and> fits_at (live ?c) 0 sz" if "blank st i"
  proof -
    have "contig_hint ?c \<ge> pcpu_unit_size st" using that u(2) by (auto simp: chunk_ok_def map_ok_def blank_def)
    moreover have "fits_at [pcpu_unit_size st] 0 sz"
      using p(1) sz(3) by (intro fits_at_def [THEN iffD2] exI [of _ "[]"] exI [of _ "pcpu_unit_size st"]) auto
    ultimately show ?thesis using p(1) that by (simp add: blank_def)
  qed
  have ch: "u64 (contig_hint ?c) = contig_hint ?c"
    using u p(2) by (intro u64_id) (auto simp: chunk_ok_def map_ok_def)
  have "align \<le> 2 ^ 12" using al(3) unfolding al(1) by (intro power_increasing) auto
  moreover have "1 \<le> align" unfolding al(1) by simp
  ultimately have s32: "s32 sz = sz" "s32 align = align" using sz by simp_all
  consider "contig_hint ?c < sz" | "\<not> contig_hint ?c < sz" "pcpu_need_to_extend ?c \<noteq> 0"
    | "\<not> contig_hint ?c < sz" "pcpu_need_to_extend ?c = 0" by blast
  then show ?case
  proof cases
    case 1
    have "walk_slot env sz align (i # ids) st = walk_slot env sz align ids st" using 1 by (simp add: ch Let_def)
    moreover have "\<not> blank st i" using 1 bl sz(3) by auto
    ultimately show ?thesis
      using Cons.IH [OF Cons.prems(1) ids] walk_ok_same [of st sz align ids _ st "[i]"] ids by auto
  next
    case 2
    obtain st' where "pcpu_extend_area_map env st i (pcpu_need_to_extend ?c) = (st', no_return env)"
      "pcpu_ok st' \<and> same_areas st st' \<and> pcpu_slot st' = pcpu_slot st \<and> needing st' < needing st"
      using extend_step [OF Cons.prems(1) i env 2(2)] by blast
    with 2 env show ?thesis by (simp add: ch Let_def walk_ok_def plenty_def)
  next
    case 3
    obtain st' off where a: "pcpu_alloc_area st i sz align = Some (st', off)" "pcpu_ok st'"
      "if off = - 1 then same_areas st st' \<and> pcpu_slot st' = pcpu_slot st \<and>
         (\<forall>p\<ge>0. align dvd p \<longrightarrow> \<not> fits_at (live ?c) p sz) \<and>
         (\<forall>j. pcpu_need_to_extend (pchunks st' ! j) = pcpu_need_to_extend (pchunks st ! j))
       else area_served st st' i off sz align"
      using alloc_area_step [OF Cons.prems(1) i 3(2) sz(1,2) al(1,2)] by blast
    show ?thesis
    proof (cases "off = - 1")
      case False
      with a(3) have "area_served st st' i off sz align" by simp
      moreover from this have "0 \<le> off" by (simp add: area_served_def)
      ultimately show ?thesis using 3 a(1) by (simp add: ch Let_def s32 walk_ok_def)
    next
      case True
      with a(3) have q: "same_areas st st'" "pcpu_slot st' = pcpu_slot st" "\<not> fits_at (live ?c) 0 sz"
        "\<forall>j. pcpu_need_to_extend (pchunks st' ! j) = pcpu_need_to_extend (pchunks st ! j)" by auto
      have l: "length (pchunks st') = length (pchunks st)" by (rule same_areasD(2) [OF q(1)])
      obtain w where w: "walk_slot env sz align ids st' = Some w" "walk_ok st' sz align ids w"
        using Cons.IH [OF a(2)] ids l by auto
      have "needing st' = needing st" using q(4) l by (simp add: needing_def)
      moreover have "\<not> blank st i" using bl q(3) by auto
      ultimately have "walk_ok st sz align ([i] @ ids) w"
        using walk_ok_same [OF w(2) q(1,2), of "[i]"] ids by auto
      then show ?thesis using 3 a(1) w(1) True q(2) by (simp add: ch Let_def s32)
    qed
  qed
qed

lemma walk_slots_ok:
  assumes ok: "pcpu_ok st" and env: "plenty env" and sz: "0 < sz" "4 dvd sz" "sz \<le> 32768"
    and al: "align = 2 ^ k" "2 \<le> k" "k \<le> 12" and ss: "\<forall>s\<in>set ss. s < length (pcpu_slot st)"
  shows "\<exists>w. walk_slots env sz align ss st = Some w \<and> walk_ok st sz align (concat (map ((!) (pcpu_slot st)) ss)) w"
  using ok ss
proof (induction ss arbitrary: st)
  case Nil
  then show ?case by (simp add: walk_ok_def)
next
  case (Cons s ss)
  have s: "s < length (pcpu_slot st)" using Cons.prems by simp
  have mem: "\<forall>i\<in>set (pcpu_slot st ! s'). i < length (pchunks st)" if "s' < length (pcpu_slot st)" for s'
    using pcpu_okD(8) [OF Cons.prems(1) that] by blast
  obtain w where w: "walk_slot env sz align (pcpu_slot st ! s) st = Some w" "walk_ok st sz align (pcpu_slot st ! s) w"
    using walk_slot_ok [OF Cons.prems(1) env sz al mem [OF s]] by blast
  show ?case
  proof (cases w)
    case (Walk_on st1)
    with w(2) have q: "pcpu_ok st1" "same_areas st st1" "pcpu_slot st1 = pcpu_slot st" "needing st1 = needing st"
      "\<forall>i\<in>set (pcpu_slot st ! s). \<not> blank st i" by (auto simp: walk_ok_def)
    obtain w1 where w1: "walk_slots env sz align ss st1 = Some w1" "walk_ok st1 sz align (concat (map ((!) (pcpu_slot st1)) ss)) w1"
      using Cons.IH [OF q(1)] Cons.prems(2) q(3) by auto
    have "\<forall>i\<in>set (concat (map ((!) (pcpu_slot st1)) ss)). i < length (pchunks st)"
      using mem Cons.prems(2) q(3) by auto
    from walk_ok_same [OF w1(2) q(2,3,4) this q(5)] show ?thesis
      using s w(1) w1(1) Walk_on q(3) by simp
  qed (use s w in \<open>auto simp: walk_ok_def\<close>)
qed


section \<open>The loop ends\<close>

lemma walk_covers:
  assumes ok: "pcpu_ok st" and sz: "0 < sz" "sz \<le> 32768"
  defines "ss \<equiv> [nat (pcpu_size_to_slot st sz)..<nat (pcpu_nr_slots st)]"
  shows "\<forall>s\<in>set ss. s < length (pcpu_slot st)" "nat (pcpu_nr_slots st) - 1 \<in> set ss"
    "1 \<le> pcpu_nr_slots st"
proof -
  note p = pcpu_okD [OF ok]
  have "pcpu_size_slot sz \<le> pcpu_size_slot (pcpu_unit_size st)" using sz p(1,2) by (intro size_slot_mono) auto
  then show "\<forall>s\<in>set ss. s < length (pcpu_slot st)" "nat (pcpu_nr_slots st) - 1 \<in> set ss" "1 \<le> pcpu_nr_slots st"
    using p(4,5) size_slot_pos [of sz] by (auto simp: ss_def pcpu_size_to_slot_def)
qed

definition linked_blank :: "pcpu \<Rightarrow> bool" where
  "linked_blank st \<longleftrightarrow> (\<exists>i\<in>set (pcpu_slot st ! (nat (pcpu_nr_slots st) - 1)). blank st i)"

definition grown :: "pcpu \<Rightarrow> pcpu \<Rightarrow> bool" where
  "grown st st' \<longleftrightarrow> same_shape st st' \<and> length (pchunks st) \<le> length (pchunks st') \<and>
     (\<forall>i < length (pchunks st). live (pchunks st' ! i) = live (pchunks st ! i) \<and>
        base_addr (pchunks st' ! i) = base_addr (pchunks st ! i)) \<and>
     (\<forall>i < length (pchunks st'). length (pchunks st) \<le> i \<longrightarrow> used (pchunks st' ! i) = {})"

lemma grown_same: "same_areas st st1 \<Longrightarrow> grown st st1"
  using same_areasD [of st st1] by (simp add: grown_def)

lemma same_grown: "same_areas st st1 \<Longrightarrow> grown st1 st2 \<Longrightarrow> grown st st2"
  using same_areasD [of st st1] same_shape_trans [of st st1 st2] by (simp add: grown_def)

lemma alloc_restart_blank:
  assumes "pcpu_ok st" "linked_blank st" and env: "plenty env" and sz: "0 < sz" "4 dvd sz" "sz \<le> 32768"
    and al: "align = 2 ^ k" "2 \<le> k" "k \<le> 12"
  shows "\<exists>st' cid off. alloc_restart env sz align st = Some (st', Some (cid, off)) \<and> area_served st st' cid off sz align"
  using assms(1,2)
proof (induction "needing st" arbitrary: st rule: less_induct)
  case less
  define ss where "ss = [nat (pcpu_size_to_slot st sz)..<nat (pcpu_nr_slots st)]"
  have s32: "s32 sz = sz" using sz by simp
  note cov = walk_covers [OF less.prems(1) sz(1,3), folded ss_def]
  obtain w where w: "walk_slots env sz align ss st = Some w"
    "walk_ok st sz align (concat (map ((!) (pcpu_slot st)) ss)) w"
    using walk_slots_ok [OF less.prems(1) env sz al cov(1)] by blast
  have blank: "\<exists>i\<in>set (concat (map ((!) (pcpu_slot st)) ss)). blank st i"
    using less.prems(2) cov(2) by (auto simp: linked_blank_def)
  show ?case
  proof (cases w)
    case (Walk_restart st1)
    with w(2) have q: "pcpu_ok st1" "same_areas st st1" "pcpu_slot st1 = pcpu_slot st" "needing st1 < needing st"
      by (auto simp: walk_ok_def)
    have "linked_blank st1"
      using less.prems blank_same [OF q(2)] same_areasD(1) [OF q(2)] q(3) pcpu_okD(8) [OF less.prems(1)] cov(3)
        pcpu_okD(5) [OF less.prems(1)]
      unfolding linked_blank_def same_shape_def
      by (metis cov(1,2))
    from less.hyps [OF q(4,1) this] show ?thesis
      using w(1) Walk_restart area_served_same [OF q(2)]
      by (subst alloc_restart.simps) (auto simp: s32 ss_def [symmetric])
  next
    case (Walk_found st1 cid off)
    with w show ?thesis by (subst alloc_restart.simps) (simp add: s32 ss_def [symmetric] walk_ok_def)
  qed (use w(2) blank in \<open>auto simp: walk_ok_def\<close>)
qed

lemma create_chunk_ok:
  assumes ok: "pcpu_ok st" and env: "plenty env"
  shows "\<exists>st1 st2 cid. pcpu_create_chunk env st = (st1, Some cid) \<and> pcpu_chunk_relocate st1 cid (- 1) = Some st2 \<and>
    pcpu_ok st2 \<and> linked_blank st2 \<and> grown st st2"
proof -
  note p = pcpu_okD [OF ok]
  let ?u = "pcpu_unit_size st" and ?n = "length (pchunks st)"
  obtain base where base: "vm_base env (mem_calls st + 2) = Some base" using env by (auto simp: plenty_def)
  define c where "c = \<lparr>free_size = ?u, contig_hint = ?u, base_addr = base,
      map_used = 1, map_alloc = PCPU_DFL_MAP_ALLOC,
      amap = (replicate PCPU_DFL_MAP_ALLOC 0)[0 := ?u], immutable = False\<rparr>"
  define st1 where "st1 = st\<lparr>mem_calls := mem_calls st + 2, pchunks := pchunks st @ [c]\<rparr>"
  have lv: "live c = [?u]" by (simp add: live_def c_def PCPU_DFL_MAP_ALLOC_def numeral_eq_Suc)
  have cr: "pcpu_create_chunk env st = (st1, Some ?n)"
    using env base by (simp add: pcpu_create_chunk_def pcpu_alloc_chunk_def pcpu_mem_alloc_def plenty_def st1_def c_def
        numeral_2_eq_2)
  have "chunk_ok c ?u" using p(1,2) by (auto simp: chunk_ok_def lv map_ok_def) (simp_all add: c_def PCPU_DFL_MAP_ALLOC_def)
  moreover have "words c" using p(3) by (simp add: words_def lv)
  ultimately have g: "chunk_good st1 c" by (auto simp: chunk_good_def st1_def)
  have sh: "same_shape st st1" by (simp add: st1_def same_shape_def)
  have ok1: "pcpu_ok st1"
    unfolding pcpu_ok_def
  proof (intro conjI allI impI ballI)
    fix j assume "j < length (pchunks st1)"
    then show "chunk_good st1 (pchunks st1 ! j)"
      using p(6) [of j] g by (cases "j = ?n") (auto simp: st1_def nth_append chunk_good_def)
  next
    fix r assume "pcpu_reserved_chunk st1 = Some r"
    then show "r < length (pchunks st1)" using p(7) [of r] by (simp add: st1_def)
  next
    fix s j assume s: "s < length (pcpu_slot st1)" "j \<in> set (pcpu_slot st1 ! s)"
    then show "j < length (pchunks st1)" "Some j \<noteq> pcpu_reserved_chunk st1" "pcpu_chunk_slot st1 (pchunks st1 ! j) = int s"
      using p(8) [of s j] unfolding chunk_slot_shape [OF sh] by (simp_all add: st1_def nth_append)
  qed (use p(1-5) in \<open>simp_all add: st1_def\<close>)
  have eq: "st1\<lparr>pchunks := (pchunks st1)[?n := c]\<rparr> = st1" by (simp add: st1_def)
  obtain st2 where st2: "pcpu_chunk_relocate st1 ?n (- 1) = Some st2" "pcpu_ok st2" "same_shape st1 st2"
    "pchunks st2 = pchunks st1"
    "Some ?n \<noteq> pcpu_reserved_chunk st1 \<longrightarrow> ?n \<in> set (pcpu_slot st2 ! nat (pcpu_chunk_slot st1 c))"
    using relocate_ok [OF ok1 _ g, of ?n "- 1"] unfolding eq by (auto simp: st1_def)
  have "Some ?n \<noteq> pcpu_reserved_chunk st1" using p(7) [of ?n] by (metis less_irrefl pcpu.select_convs(3) sh same_shape_def)
  moreover have "pcpu_chunk_slot st1 c = pcpu_nr_slots st1 - 1"
  proof -
    have u: "u64 ?u = ?u" using p(1,2) by simp
    have c: "free_size c = ?u" "contig_hint c = ?u" by (simp_all add: c_def)
    have s: "pcpu_unit_size st1 = ?u" by (simp add: st1_def)
    show ?thesis unfolding pcpu_chunk_slot_def c u pcpu_size_to_slot_def s using p(1) by simp
  qed
  ultimately have "?n \<in> set (pcpu_slot st2 ! nat (pcpu_nr_slots st1 - 1))" using st2(5) by simp
  moreover have "nat (pcpu_nr_slots st1 - 1) = nat (pcpu_nr_slots st2) - 1" using st2(3) by (simp add: same_shape_def nat_diff_distrib')
  moreover have "blank st2 ?n"
    using lv st2(3,4) by (simp add: blank_def same_shape_def st1_def)
  ultimately have "linked_blank st2" by (auto simp: linked_blank_def)
  moreover have "grown st st2"
    using same_shape_trans [OF sh st2(3)] st2(4) lv p(1) by (auto simp: grown_def st1_def nth_append)
  ultimately show ?thesis using cr st2(1,2) by blast
qed

lemma alloc_restart_ok:
  assumes "pcpu_ok st" and env: "plenty env" and sz: "0 < sz" "4 dvd sz" "sz \<le> 32768"
    and al: "align = 2 ^ k" "2 \<le> k" "k \<le> 12"
  shows "\<exists>st1 st' cid off. alloc_restart env sz align st = Some (st', Some (cid, off)) \<and> grown st st1 \<and>
    area_served st1 st' cid off sz align"
  using assms(1)
proof (induction "needing st" arbitrary: st rule: less_induct)
  case less
  define ss where "ss = [nat (pcpu_size_to_slot st sz)..<nat (pcpu_nr_slots st)]"
  have s32: "s32 sz = sz" using sz by simp
  note cov = walk_covers [OF less.prems(1) sz(1,3), folded ss_def]
  obtain w where w: "walk_slots env sz align ss st = Some w"
    "walk_ok st sz align (concat (map ((!) (pcpu_slot st)) ss)) w"
    using walk_slots_ok [OF less.prems(1) env sz al cov(1)] by blast
  show ?case
  proof (cases w)
    case (Walk_restart st1)
    with w(2) have q: "pcpu_ok st1" "same_areas st st1" "needing st1 < needing st" by (auto simp: walk_ok_def)
    have "alloc_restart env sz align st = alloc_restart env sz align st1"
      using w(1) Walk_restart by (subst alloc_restart.simps) (simp add: s32 ss_def [symmetric])
    with less.hyps [OF q(3,1)] show ?thesis using same_grown [OF q(2)] by metis
  next
    case (Walk_found st1 cid off)
    with w show ?thesis using grown_same [of st st]
      by (subst alloc_restart.simps) (auto simp add: s32 ss_def [symmetric] walk_ok_def)
  next
    case (Walk_on st1)
    with w(2) have q: "pcpu_ok st1" "same_areas st st1" by (auto simp: walk_ok_def)
    obtain st2 st3 cid where cr: "pcpu_create_chunk env st1 = (st2, Some cid)" "pcpu_chunk_relocate st2 cid (- 1) = Some st3"
      "pcpu_ok st3" "linked_blank st3" "grown st1 st3"
      using create_chunk_ok [OF q(1) env] by blast
    obtain st' cid' off where r: "alloc_restart env sz align st3 = Some (st', Some (cid', off))"
      "area_served st3 st' cid' off sz align"
      using alloc_restart_blank [OF cr(3,4) env sz al] by blast
    have "alloc_restart env sz align st = Some (st', Some (cid', off))"
      using w(1) Walk_on cr(1,2) r(1) by (subst alloc_restart.simps) (simp add: s32 ss_def [symmetric])
    then show ?thesis using r(2) same_grown [OF q(2) cr(5)] by blast
  next
    case (Walk_failed st1)
    with w(2) show ?thesis by (simp add: walk_ok_def)
  qed
qed


section \<open>Properties\<close>

definition bytes_in :: "pcpu \<Rightarrow> nat \<Rightarrow> int set" where
  "bytes_in st i = (if i < length (pchunks st) then used (pchunks st ! i) else {})"

lemma fits_span: "fits_at ms off sz \<Longrightarrow> off + sz \<le> span ms"
proof -
  assume "fits_at ms off sz"
  then obtain xs x ys where "ms = xs @ x # ys" "0 \<le> x" "off + sz \<le> span xs + x" by (auto simp: fits_at_def)
  moreover have "0 \<le> span ys" by simp
  ultimately show ?thesis by (simp del: span_nonneg)
qed

lemma PCPU_MIN_UNIT_SIZE_eq [simp]: "PCPU_MIN_UNIT_SIZE = 32768"
  using mask_down_pow2 [of 36863 12] by (simp add: PCPU_MIN_UNIT_SIZE_def push_bit_eq_mult)

text \<open>
  C4: the per-CPU allocator serves every legal request. When memory can be had and the missing
  \<^verbatim>\<open>return\<close> of \<^verbatim>\<open>pcpu_extend_area_map\<close> gives no negative value, a request of whole words of at most
  \<open>PCPU_MIN_UNIT_SIZE\<close> bytes ends and returns the address of an aligned area that lies in a chunk and in
  which no byte was in use; exactly its bytes come into use, and the invariant of the chunks and slots holds
  again.
\<close>

theorem alloc_percpu_serves:
  assumes ok: "pcpu_ok st" and env: "plenty env" and sz: "0 < sz" "4 dvd sz" "sz \<le> 32768"
    and al: "align = 2 ^ k" "2 \<le> k" "k \<le> 12"
  shows "\<exists>st' cid off. alloc_percpu env sz align st = Some (st', u64 (base_addr (pchunks st' ! cid) + off)) \<and>
    pcpu_ok st' \<and> cid < length (pchunks st') \<and> align dvd off \<and> 0 \<le> off \<and> off + sz \<le> pcpu_unit_size st \<and>
    bytes_in st cid \<inter> block off sz = {} \<and> bytes_in st' cid = bytes_in st cid \<union> block off sz \<and>
    (\<forall>i. i \<noteq> cid \<longrightarrow> bytes_in st' i = bytes_in st i)"
proof -
  obtain st1 st' cid off where r: "alloc_restart env sz align st = Some (st', Some (cid, off))" "grown st st1"
    "area_served st1 st' cid off sz align"
    using alloc_restart_ok [OF ok env sz al] by blast
  have al': "\<not> PAGE_SIZE < align"
  proof -
    have "align \<le> 2 ^ 12" using al(3) unfolding al(1) by (intro power_increasing) auto
    then show ?thesis by simp
  qed
  have "alloc_percpu env sz align st = Some (st', u64 (base_addr (pchunks st' ! cid) + off))"
    using r(1) sz al' by (simp add: alloc_percpu_def pcpu_alloc_def pcpu_populate_chunk_def split: option.splits)
  moreover have s: "pcpu_ok st'" "same_shape st1 st'" "length (pchunks st') = length (pchunks st1)"
    "cid < length (pchunks st1)" "0 \<le> off" "align dvd off" "fits_at (live (pchunks st1 ! cid)) off sz"
    "used (pchunks st' ! cid) = used (pchunks st1 ! cid) \<union> block off sz"
    "\<And>i. i < length (pchunks st1) \<Longrightarrow> i \<noteq> cid \<Longrightarrow> live (pchunks st' ! i) = live (pchunks st1 ! i)"
    using r(3) by (simp_all add: area_served_def)
  moreover have b: "bytes_in st1 i = bytes_in st i" for i
    using r(2) unfolding grown_def bytes_in_def by auto
  moreover have "off + sz \<le> pcpu_unit_size st"
  proof -
    have "span (live (pchunks st1 ! cid)) \<le> pcpu_unit_size st1 \<or> span (live (pchunks st' ! cid)) \<le> pcpu_unit_size st1"
      using pcpu_okD(6) [OF s(1), of cid] s(2,3,4)
      by (auto simp: chunk_good_def chunk_ok_def map_ok_def same_shape_def)
    moreover have "block off sz \<subseteq> block 0 (span (live (pchunks st' ! cid)))"
      using s(8) used_bytes_range [of 0 "live (pchunks st' ! cid)"] by auto
    then have "off + sz \<le> span (live (pchunks st' ! cid))" using sz(1) by (auto simp: subset_iff dest: spec [of _ "off + sz - 1"])
    ultimately show ?thesis using fits_span [OF s(7)] r(2) by (auto simp: grown_def same_shape_def)
  qed
  moreover have "bytes_in st cid \<inter> block off sz = {}"
    using fits_free [OF s(7) sz(1)] s(4) b [of cid] by (auto simp: bytes_in_def)
  moreover have "bytes_in st' cid = bytes_in st cid \<union> block off sz"
    using s(3,4,8) b [of cid] by (simp add: bytes_in_def)
  moreover have "bytes_in st' i = bytes_in st i" if "i \<noteq> cid" for i
    using s(3,9) b [of i] that by (auto simp: bytes_in_def)
  ultimately show ?thesis by (metis s(4))
qed

lemma setup_state:
  "\<exists>st. setup_per_cpu_areas fc pcpu_zero = Some st \<and> pcpu_ok st \<and> length (pchunks st) = 1 \<and>
     live (pchunks st ! 0) = [0, 32768] \<and> base_addr (pchunks st ! 0) = fc \<and> pcpu_unit_size st = 32768"
proof -
  have bl: "bit_length 32768 = 16" "bit_length 32767 = 15" by (simp_all add: bit_length.simps)
  have r: "roundup_pow_of_two 32768 = 32768"
    by (simp add: roundup_pow_of_two_def fls_long_def bl push_bit_eq_mult)
  have sl: "pcpu_size_slot 32768 = 13" by (simp add: pcpu_size_slot_def fls_def bl PCPU_SLOT_BASE_SHIFT_def)
  have rv: "PERCPU_DYNAMIC_RESERVE = 12288" by (simp add: PERCPU_DYNAMIC_RESERVE_def push_bit_eq_mult)
  have pg: "drop_bit PAGE_SHIFT 32768 = (8 :: int)" "push_bit PAGE_SHIFT 8 = (32768 :: int)"
    by (simp_all add: PAGE_SHIFT_def drop_bit_eq_div push_bit_eq_mult)
  define c where "c = \<lparr>free_size = 32768, contig_hint = 32768, base_addr = fc, map_used = 2,
      map_alloc = PERCPU_DYNAMIC_EARLY_SLOTS, amap = (replicate PERCPU_DYNAMIC_EARLY_SLOTS 0)[0 := 0, 1 := 32768],
      immutable = True\<rparr>"
  have lv: "live c = [0, 32768]"
    by (simp add: live_def c_def PERCPU_DYNAMIC_EARLY_SLOTS_def numeral_eq_Suc)
  have cs: "pcpu_chunk_slot st c = pcpu_nr_slots st - 1" if "pcpu_unit_size st = 32768" for st
    using that by (simp add: pcpu_chunk_slot_def pcpu_size_to_slot_def c_def)
  define st0 where "st0 = pcpu_zero\<lparr>pcpu_unit_map := [0], pcpu_unit_offsets := [0], pcpu_group_offsets := [0],
      pcpu_group_sizes := [32768], pcpu_first_unit_cpu := 0, pcpu_last_unit_cpu := 0, pcpu_nr_units := 1,
      pcpu_nr_groups := 1, pcpu_unit_pages := 8, pcpu_unit_size := 32768, pcpu_atom_size := 32768,
      pcpu_nr_slots := 15, pcpu_slot := (replicate 15 [])[14 := [0]], pchunks := [c], pcpu_base_addr := fc\<rparr>"
  define g where "g = \<lparr>nr_units = 1, base_offset = 0, cpu_map = [0]\<rparr>"
  define ai where "ai = \<lparr>static_size = 0, reserved_size = 0, dyn_size = 32768, unit_size = 32768, atom_size = 32768,
      alloc_size = 32768, groups = [g]\<rparr>"
  have ai: "setup_per_cpu_areas fc pcpu_zero = pcpu_setup_first_chunk ai fc pcpu_zero"
    unfolding setup_per_cpu_areas_def rv PCPU_MIN_UNIT_SIZE_eq
    by (simp add: r pcpu_alloc_alloc_info_def NR_CPUS_def ai_def g_def)
  define z where "z = pcpu_zero\<lparr>pcpu_unit_map := replicate NR_CPUS (- 1), pcpu_unit_offsets := replicate NR_CPUS 0,
                 pcpu_group_offsets := [], pcpu_group_sizes := [], pcpu_first_unit_cpu := int NR_CPUS\<rparr>"
  define z1 where "z1 = pcpu_zero\<lparr>pcpu_unit_map := [0], pcpu_unit_offsets := [0], pcpu_group_offsets := [0],
      pcpu_group_sizes := [32768], pcpu_first_unit_cpu := 0, pcpu_last_unit_cpu := 0, pcpu_nr_units := 1\<rparr>"
  have mg: "map_groups 32768 [g] 0 z = Some z1"
    by (simp add: g_def z_def z1_def pcpu_zero_def NR_CPUS_def)
  define z2 where "z2 = z1\<lparr>pcpu_nr_groups := 1, pcpu_unit_pages := 8, pcpu_unit_size := 32768, pcpu_atom_size := 32768,
      pcpu_nr_slots := 15, pcpu_slot := replicate 15 [], pchunks := [c], pcpu_first_chunk := 0\<rparr>"
  have rc: "pcpu_chunk_relocate z2 0 (- 1) = Some (z2\<lparr>pcpu_slot := (replicate 15 [])[14 := [0]]\<rparr>)"
  proof -
    have "pcpu_chunk_slot z2 (pchunks z2 ! 0) = 14" using cs [of z2] by (simp add: z2_def)
    then show ?thesis
      by (simp add: pcpu_chunk_relocate_def slot_move_def) (simp add: z2_def z1_def pcpu_zero_def)
  qed
  have ec: "push_map (push_map (early_chunk fc 32768) 0) 32768 = c"
    by (simp add: push_map_def early_chunk_def c_def)
  have fz: "free_size (push_map (early_chunk fc 32768) 0) = 32768" by (simp add: push_map_def early_chunk_def)
  have "pcpu_setup_first_chunk ai fc pcpu_zero =
    (do { st \<leftarrow> pcpu_chunk_relocate z2 0 (- 1); Some (st\<lparr>pcpu_base_addr := fc\<rparr>) })"
    unfolding pcpu_setup_first_chunk_def z_def [symmetric]
    by (simp add: ai_def mg pg sl ec fz z2_def del: map_groups.simps)
  then have "setup_per_cpu_areas fc pcpu_zero = Some st0"
    unfolding ai rc by (simp add: st0_def z2_def z1_def pcpu_zero_def)
  moreover have "pcpu_ok st0"
  proof -
    have "chunk_ok c 32768" by (simp add: chunk_ok_def lv map_ok_def) (simp add: c_def PERCPU_DYNAMIC_EARLY_SLOTS_def)
    then have "chunk_good st0 c" by (auto simp: chunk_good_def words_def lv st0_def)
    moreover have "pcpu_chunk_slot st0 c = 14" using cs [of st0] by (simp add: st0_def)
    ultimately show ?thesis
      by (auto simp: pcpu_ok_def st0_def sl pcpu_zero_def nth_list_update)
  qed
  ultimately show ?thesis using lv by (auto simp: st0_def pcpu_zero_def) (simp add: c_def)
qed


text \<open>
  The set-up gives the allocator one chunk of 32768 free bytes at the address of the unit, and the
  invariant holds.
\<close>

theorem setup_per_cpu_areas_ok:
  "\<exists>st. setup_per_cpu_areas fc pcpu_zero = Some st \<and> pcpu_ok st \<and> length (pchunks st) = 1 \<and>
     live (pchunks st ! 0) = [0, 32768] \<and> base_addr (pchunks st ! 0) = fc \<and> pcpu_unit_size st = 32768"
  by (rule setup_state)

definition ex_env :: pcpu_env where
  "ex_env = \<lparr>mem_ok = (\<lambda>_. True), vm_base = (\<lambda>_. Some 65536), no_return = 0\<rparr>"

theorem alloc_percpu_serves_witness:
  "\<exists>st st' p. setup_per_cpu_areas 4096 pcpu_zero = Some st \<and> alloc_percpu ex_env 8 4 st = Some (st', p) \<and> pcpu_ok st'"
proof -
  obtain st where "setup_per_cpu_areas 4096 pcpu_zero = Some st" "pcpu_ok st" using setup_state by blast
  moreover have "plenty ex_env" by (simp add: plenty_def ex_env_def)
  moreover have d: "(0::int) < 8" "(4::int) dvd 8" "(8::int) \<le> 32768" "(4::int) = 2 ^ 2" "(2::nat) \<le> 2" "(2::nat) \<le> 12"
    by simp_all
  ultimately obtain st' p where "alloc_percpu ex_env 8 4 st = Some (st', p)" "pcpu_ok st'"
    using alloc_percpu_serves [OF _ _ d] by metis
  with \<open>setup_per_cpu_areas 4096 pcpu_zero = Some st\<close> show ?thesis by blast
qed

lemma words_freed:
  assumes "\<forall>x\<in>set (xs @ (- n) # ys). 4 dvd x"
  shows "\<forall>x\<in>set (freed_map xs n ys). 4 dvd x"
  using assms by (cases ys; cases xs rule: rev_cases) (auto simp: freed_map_def)

text \<open>
  C5: a release frees the area. When the offset is that of an allocated block, not hidden by an empty entry
  before it, and the merge with the next block does not go wrong (there is none, or it happens at entry 1, or
  it takes the last entry), then exactly the bytes of the block become free and the invariant is kept.
\<close>

theorem pcpu_free_area_frees:
  assumes ok: "pcpu_ok st" and i: "cid < length (pchunks st)" and lv: "live (pchunks st ! cid) = xs @ (- n) # ys" and n: "0 < n"
    and nz: "xs \<noteq> [] \<Longrightarrow> last xs \<noteq> 0" and nx: "ys \<noteq> [] \<Longrightarrow> 0 \<le> hd ys \<Longrightarrow> freed_index xs = 1 \<or> length ys = 1"
  shows "\<exists>st'. pcpu_free_area st cid (span xs) = Some st' \<and> pcpu_ok st' \<and>
    bytes_in st' cid = bytes_in st cid - block (span xs) n \<and> (\<forall>i. i \<noteq> cid \<longrightarrow> bytes_in st' i = bytes_in st i)"
proof -
  let ?c = "pchunks st ! cid"
  obtain u where u: "u \<le> pcpu_unit_size st" "chunk_ok ?c u" "words ?c"
    using pcpu_okD(6) [OF ok i] by (auto simp: chunk_good_def)
  obtain c where c: "chunk_free_area ?c (span xs) = Some c" "chunk_ok c u" "used c = used ?c - block (span xs) n"
    using chunk_free_area_correct [OF u(2) lv n nz nx] by blast
  obtain c0 where "chunk_free_area ?c (span xs) = Some c0" "live c0 = freed_map xs n ys"
    using chunk_free_area_eq [OF u(2) lv n nz nx] by blast
  with c(1) have lc: "live c = freed_map xs n ys" by simp
  from u(3) have "\<forall>x\<in>set (xs @ (- n) # ys). 4 dvd x" unfolding words_def lv .
  from words_freed [OF this] have "words c" unfolding words_def lc .
  then have g: "chunk_good st c" using u(1) c(2) by (auto simp: chunk_good_def)
  obtain st' where st': "pcpu_chunk_relocate (st\<lparr>pchunks := (pchunks st)[cid := c]\<rparr>) cid (pcpu_chunk_slot st ?c) = Some st'"
    "pcpu_ok st'" "pchunks st' = (pchunks st)[cid := c]"
    using relocate_ok [OF ok i g disjI1 [OF refl]] by blast
  have "pcpu_free_area st cid (span xs) = Some st'"
    by (simp add: pcpu_free_area_def c(1) st'(1) Let_def)
  moreover have "bytes_in st' cid = bytes_in st cid - block (span xs) n"
    unfolding bytes_in_def st'(3) using c(3) i by simp
  moreover have "bytes_in st' j = bytes_in st j" if "j \<noteq> cid" for j
    unfolding bytes_in_def st'(3) using that by simp
  ultimately show ?thesis using st'(2) by blast
qed

text \<open>
  The set-up starts the first chunk with an empty entry for the static area, which has no bytes here.
  The search of \<^verbatim>\<open>pcpu_free_area\<close> stops at that entry, so an area at offset 0 can never be released.
\<close>

theorem first_area_never_freed:
  assumes ok: "pcpu_ok st" and i: "cid < length (pchunks st)" and lv: "live (pchunks st ! cid) = 0 # (- n) # ys" and n: "0 < n"
  shows "\<exists>st'. pcpu_free_area st cid 0 = Some st' \<and> pcpu_ok st' \<and> (\<forall>i. bytes_in st' i = bytes_in st i)"
proof -
  let ?c = "pchunks st ! cid"
  obtain u where u: "u \<le> pcpu_unit_size st" "chunk_ok ?c u" "words ?c"
    using pcpu_okD(6) [OF ok i] by (auto simp: chunk_good_def)
  define zs where "zs = drop (map_used ?c) (amap ?c)"
  have am: "amap ?c = 0 # (- n) # ys @ zs" and mu: "map_used ?c = 2 + length ys"
    using live_split [OF u(2)] by (simp_all add: zs_def lv)
  have h: "0 \<le> contig_hint ?c" using u(2) by (simp add: chunk_ok_def map_ok_def)
  have "find_area 0 (take (map_used ?c) (amap ?c)) 0 0 = 0" by (simp add: am mu)
  then have "chunk_free_area ?c 0 = Some ?c"
    using n h unfolding chunk_free_area_def Let_def
    by (simp add: am mu merge_prev_def merge_next_def)
  moreover have "chunk_good st ?c" using u by (auto simp: chunk_good_def)
  then obtain st' where "pcpu_chunk_relocate (st\<lparr>pchunks := (pchunks st)[cid := ?c]\<rparr>) cid (pcpu_chunk_slot st ?c) = Some st'"
    "pcpu_ok st'" "pchunks st' = (pchunks st)[cid := ?c]"
    using relocate_ok [OF ok i _ disjI1 [OF refl]] by blast
  ultimately show ?thesis by (auto simp: pcpu_free_area_def Let_def bytes_in_def)
qed

text \<open>The chunk that \<^verbatim>\<open>pcpu_alloc_chunk\<close> makes for a unit of 32768 bytes.\<close>

definition new_chunk :: pcpu_chunk where
  "new_chunk = \<lparr>free_size = 32768, contig_hint = 32768, base_addr = 0, map_used = 1, map_alloc = 16,
                amap = 32768 # replicate 15 0, immutable = False\<rparr>"


definition ex_pcpu :: "int list \<Rightarrow> int \<Rightarrow> pcpu" where
  "ex_pcpu ms fsz = pcpu_zero\<lparr>pcpu_unit_size := 32768, pcpu_nr_slots := 15, pcpu_slot := (replicate 15 [])[12 := [0]],
     pchunks := [\<lparr>free_size = fsz, contig_hint = fsz, base_addr = 4096, map_used = length ms, map_alloc = 16,
                  amap = ms @ replicate (16 - length ms) 0, immutable = False\<rparr>]\<rparr>"

lemma ex_pcpu_ok: "pcpu_ok (ex_pcpu [0, - 16, 32752] 32752)" "pcpu_ok (ex_pcpu [- 16, - 24, 32728] 32728)"
proof -
  have bl: "bit_length 32768 = 16" "bit_length 32752 = 15" "bit_length 32728 = 15" by (simp_all add: bit_length.simps)
  have sl: "pcpu_size_slot 32768 = 13" "pcpu_size_slot 32752 = 12" "pcpu_size_slot 32728 = 12"
    by (simp_all add: pcpu_size_slot_def fls_def bl PCPU_SLOT_BASE_SHIFT_def)
  have "pcpu_ok (ex_pcpu ms fsz)" if "pcpu_size_slot fsz = 12" "4 \<le> fsz" "fsz < 32768"
    "map_ok ms 32768 fsz fsz" "\<forall>x\<in>set ms. 4 dvd x" "length ms \<le> 16" for ms fsz
  proof -
    have c: "chunk_good (ex_pcpu ms fsz) (pchunks (ex_pcpu ms fsz) ! 0)"
      using that by (auto simp: chunk_good_def chunk_ok_def words_def live_def ex_pcpu_def intro!: exI [of _ 32768])
    have "pcpu_chunk_slot (ex_pcpu ms fsz) (pchunks (ex_pcpu ms fsz) ! 0) = 12"
      using that by (simp add: pcpu_chunk_slot_def pcpu_size_to_slot_def ex_pcpu_def)
    then show ?thesis
      using c by (auto simp: pcpu_ok_def sl pcpu_zero_def nth_list_update) (auto simp: ex_pcpu_def sl pcpu_zero_def nth_list_update split: if_splits)
  qed
  from this [of 32752 "[0, - 16, 32752]"] this [of 32728 "[- 16, - 24, 32728]"]
  show "pcpu_ok (ex_pcpu [0, - 16, 32752] 32752)" "pcpu_ok (ex_pcpu [- 16, - 24, 32728] 32728)"
    by (simp_all add: sl map_ok_def)
qed

theorem pcpu_free_area_frees_witness:
  "\<exists>st'. pcpu_free_area (ex_pcpu [- 16, - 24, 32728] 32728) 0 16 = Some st' \<and> pcpu_ok st'"
  using pcpu_free_area_frees [OF ex_pcpu_ok(2), of 0 "[- 16]" 24 "[32728]"]
  by (auto simp: ex_pcpu_def live_def)

theorem first_area_never_freed_witness:
  "\<exists>st'. pcpu_free_area (ex_pcpu [0, - 16, 32752] 32752) 0 0 = Some st' \<and> pcpu_ok st'"
  using first_area_never_freed [OF ex_pcpu_ok(1), of 0 16 "[32752]"]
  by (auto simp: ex_pcpu_def live_def)

text \<open>
  C7: the arithmetic of the area map stays inside C ints. From a chunk that satisfies the invariant an
  allocation makes a chunk whose entries, counters and result are ints again, and so are the sums the
  search forms (the end of a block with the alignment, and the gap with the size).
\<close>

theorem chunk_map_stays_int:
  assumes ok: "chunk_ok c u" and room: "map_used c + 2 \<le> map_alloc c" and sz: "0 < sz" "sz \<le> 32768"
    and al: "align = 2 ^ k" "k \<le> 12" and r: "chunk_alloc_area c sz align = Some (c', off)"
  shows "(\<forall>x \<in> set (live c') \<union> {free_size c', contig_hint c', off}. s32 x = x) \<and>
    (\<forall>xs ys. live c = xs @ ys \<longrightarrow> s32 (span xs + align - 1) = span xs + align - 1 \<and>
       s32 (mask_down (span xs + align - 1) align - span xs + sz) = mask_down (span xs + align - 1) align - span xs + sz)"
proof -
  have a: "1 \<le> align" "align \<le> 4096"
  proof -
    show "1 \<le> align" by (simp add: al(1))
    have "align \<le> 2 ^ 12" using al(2) unfolding al(1) by (intro power_increasing) auto
    then show "align \<le> 4096" by simp
  qed
  have int: "s32 x = x" if "\<bar>x\<bar> \<le> 1073741824" for x using that by simp
  have ok': "chunk_ok c' u" "off = - 1 \<or> fits_at (live c) off sz"
    using chunk_alloc_area_correct [OF ok room sz(1) al(1)] r by (auto split: if_splits)
  have u: "u \<le> 1073741824" "span (live c) = u" "span (live c') = u" "free_size c' = free_sum (live c')"
    "0 \<le> contig_hint c'" "contig_hint c' \<le> u"
    using ok ok'(1) by (simp_all add: chunk_ok_def map_ok_def)
  have e: "\<bar>x\<bar> \<le> span (live c')" if "x \<in> set (live c')" for x
  proof -
    obtain xs ys where "live c' = xs @ x # ys" using \<open>x \<in> set (live c')\<close> by (meson split_list)
    then show ?thesis using span_nonneg [of xs] span_nonneg [of ys] by simp
  qed
  have "\<bar>off\<bar> \<le> 1073741824"
  proof (cases "off = - 1")
    case False
    with ok'(2) have f: "fits_at (live c) off sz" by simp
    then obtain xs :: "int list" where "span xs \<le> off" by (auto simp: fits_at_def)
    with fits_span [OF f] u sz span_nonneg [of xs] show ?thesis by linarith
  qed simp
  moreover have "\<bar>free_size c'\<bar> \<le> 1073741824"
    using u(1,3,4) free_sum_nonneg [of "live c'"] free_sum_le_span [of "live c'"] by linarith
  moreover have "\<bar>x\<bar> \<le> 1073741824" if "x \<in> set (live c')" for x using e [OF that] u by linarith
  moreover have "\<bar>contig_hint c'\<bar> \<le> 1073741824" using u by linarith
  ultimately have "\<forall>x \<in> set (live c') \<union> {free_size c', contig_hint c', off}. s32 x = x" using int by blast
  moreover have "s32 (span xs + align - 1) = span xs + align - 1 \<and>
     s32 (mask_down (span xs + align - 1) align - span xs + sz) = mask_down (span xs + align - 1) align - span xs + sz"
    if "live c = xs @ ys" for xs ys
  proof -
    have "0 \<le> span xs" by simp
    moreover have "span xs \<le> u" using u(2) that span_nonneg [of ys] by (simp del: span_nonneg)
    moreover have "0 \<le> mask_down (span xs + align - 1) align - span xs" "mask_down (span xs + align - 1) align - span xs < align"
      using head_gap [OF al(1), of "span xs"] by auto
    ultimately show ?thesis using a u(1) sz by (intro conjI s32_id) linarith+
  qed
  ultimately show ?thesis by blast
qed

theorem chunk_map_stays_int_witness:
  "\<exists>c' off. chunk_alloc_area new_chunk 16 4 = Some (c', off) \<and> s32 off = off"
proof -
  have ok: "chunk_ok new_chunk 32768" by (simp add: chunk_ok_def live_def new_chunk_def map_ok_def)
  have "chunk_alloc_area new_chunk 16 4 \<noteq> None" by code_simp
  then obtain c' off where r: "chunk_alloc_area new_chunk 16 4 = Some (c', off)" by auto
  show ?thesis
    using chunk_map_stays_int [OF ok _ _ _ _ _ r, of 2] r by (simp add: new_chunk_def)
qed

end
