(* ===== verification/Strings.thy ===== *)
theory Strings
  imports CPrelude
begin

text \<open>
  The string functions of \<^verbatim>\<open>lib/string.c\<close>, \<^verbatim>\<open>lib/ctype.c\<close> and \<^verbatim>\<open>lib/cmdline.c\<close>, and the number parser of
  \<^verbatim>\<open>lib/vsprintf.c\<close>. A C string is its list of characters without the final NUL; a pointer into it is the
  rest of the list, and reading at the end gives NUL. A pointer beyond the NUL is the result \<open>None\<close>.
\<close>

section \<open>Character classes\<close>

definition ctype_table :: "int list" where
  "ctype_table =
     replicate 8 0x08 @ [0x08, 0x28, 0x28, 0x28, 0x28, 0x28, 0x08, 0x08] @ replicate 16 0x08 @
     0xA0 # replicate 15 0x10 @ replicate 10 0x04 @ replicate 6 0x10 @
     0x10 # replicate 6 0x41 @ replicate 20 0x01 @ replicate 5 0x10 @
     0x10 # replicate 6 0x42 @ replicate 20 0x02 @ replicate 4 0x10 @ [0x08] @
     replicate 32 0 @ 0xA0 # replicate 31 0x10 @
     replicate 23 0x01 @ 0x10 # replicate 7 0x01 @ replicate 24 0x02 @ 0x10 # replicate 8 0x02"

definition ismask :: "char \<Rightarrow> int" where
  "ismask c = ctype_table ! of_char c"

definition isalnum :: "char \<Rightarrow> bool" where "isalnum c \<longleftrightarrow> ismask c AND 0x07 \<noteq> 0"

definition isdigit :: "char \<Rightarrow> bool" where "isdigit c \<longleftrightarrow> ismask c AND 0x04 \<noteq> 0"

definition isspace :: "char \<Rightarrow> bool" where "isspace c \<longleftrightarrow> ismask c AND 0x20 \<noteq> 0"

definition isxdigit :: "char \<Rightarrow> bool" where "isxdigit c \<longleftrightarrow> ismask c AND 0x44 \<noteq> 0"

text \<open>The value of a character as an \<^verbatim>\<open>int\<close>, for the characters of ASCII, and \<^verbatim>\<open>TOLOWER\<close>.\<close>

definition code :: "char \<Rightarrow> int" where "code c = int (of_char c)"

definition TOLOWER :: "int \<Rightarrow> int" where "TOLOWER x = x OR 0x20"

abbreviation NUL :: char where "NUL \<equiv> CHR 0x00"

definition char_at :: "string \<Rightarrow> nat \<Rightarrow> char" where
  "char_at cp k = (if k < length cp then cp ! k else NUL)"

section \<open>The parsers\<close>

fun skip_spaces :: "string \<Rightarrow> string" where
  "skip_spaces [] = []"
| "skip_spaces (c # cs) = (if isspace c then skip_spaces cs else c # cs)"

fun strnlen :: "string \<Rightarrow> nat \<Rightarrow> nat" where
  "strnlen s 0 = 0"
| "strnlen [] (Suc n) = 0"
| "strnlen (c # cs) (Suc n) = (if c = NUL then 0 else Suc (strnlen cs n))"

text \<open>\<open>string_guess_base\<close> is the function of \<^verbatim>\<open>string.c\<close>, \<open>vsprintf_guess_base\<close> that of \<^verbatim>\<open>vsprintf.c\<close>, which
  differs in where the parenthesis of \<^verbatim>\<open>TOLOWER\<close> closes.\<close>

definition string_guess_base :: "string \<Rightarrow> int" where
  "string_guess_base cp =
     (if char_at cp 0 = CHR ''0''
      then if TOLOWER (code (char_at cp 1)) = code (CHR ''X'') \<and> isxdigit (char_at cp 2) then 16 else 8
      else 10)"

definition vsprintf_guess_base :: "string \<Rightarrow> int" where
  "vsprintf_guess_base cp =
     (if char_at cp 0 = CHR ''0''
      then if TOLOWER (of_bool (char_at cp 1 = CHR ''x'' \<and> isxdigit (char_at cp 2))) \<noteq> 0 then 16 else 8
      else 10)"

definition digit_value :: "char \<Rightarrow> int" where
  "digit_value c = (if isdigit c then code c - 48 else u32 (TOLOWER (code c) - 97 + 10))"

fun strtoull_loop :: "int \<Rightarrow> string \<Rightarrow> int \<Rightarrow> int \<times> string" where
  "strtoull_loop base [] result = (result, [])"
| "strtoull_loop base (c # cs) result =
     (if \<not> isxdigit c then (result, c # cs)
      else if base \<le> digit_value c then (result, c # cs)
      else strtoull_loop base cs (u64 (result * base + digit_value c)))"

text \<open>\<^verbatim>\<open>simple_strtoull\<close> of \<^verbatim>\<open>string.c\<close>: with base 16 it skips a zero and the character after it, whatever that is.\<close>

definition simple_strtoull :: "string \<Rightarrow> int \<Rightarrow> (int \<times> string) option" where
  "simple_strtoull cp base =
     (let base = (if base = 0 then string_guess_base cp else base) in
      if base = 16 \<and> char_at cp 0 = CHR ''0'' \<and> TOLOWER (of_bool (char_at cp 1 = CHR ''X'')) \<noteq> 0
      then if length cp < 2 then None else Some (strtoull_loop base (drop 2 cp) 0)
      else Some (strtoull_loop base cp 0))"

text \<open>The parser of \<^verbatim>\<open>vsprintf.c\<close>, where the test for the prefix never holds.\<close>

definition vsprintf_strtoull :: "string \<Rightarrow> int \<Rightarrow> int \<times> string" where
  "vsprintf_strtoull cp base =
     (let base = (if base = 0 then vsprintf_guess_base cp else base) in
      if base = 16 \<and> char_at cp 0 = CHR ''0'' \<and> TOLOWER (code (char_at cp 1)) = code (CHR ''X'')
      then strtoull_loop base (drop 2 cp) 0
      else strtoull_loop base cp 0)"

definition simple_strtoul :: "string \<Rightarrow> int \<Rightarrow> int \<times> string" where
  "simple_strtoul cp base = vsprintf_strtoull cp base"

definition signed64 :: "int \<Rightarrow> int" where
  "signed64 x = (x + 9223372036854775808) mod 18446744073709551616 - 9223372036854775808"

definition simple_strtol :: "string \<Rightarrow> int \<Rightarrow> int \<times> string" where
  "simple_strtol cp base =
     (if char_at cp 0 = CHR ''-''
      then let (v, rest) = simple_strtoul (drop 1 cp) base in (signed64 (- v), rest)
      else let (v, rest) = simple_strtoul cp base in (signed64 v, rest))"

section \<open>Command-line options\<close>

definition suffix_shift :: "char \<Rightarrow> nat" where
  "suffix_shift c = (if c = CHR ''G'' \<or> c = CHR ''g'' then 30 else if c = CHR ''M'' \<or> c = CHR ''m'' then 20
     else if c = CHR ''K'' \<or> c = CHR ''k'' then 10 else 0)"

text \<open>Each case of the switch shifts by ten and falls through to the next.\<close>

definition memparse :: "string \<Rightarrow> (int \<times> string) option" where
  "memparse p =
     (case simple_strtoull p 0 of
        None \<Rightarrow> None
      | Some (ret, endptr) \<Rightarrow>
          (let k = suffix_shift (char_at endptr 0);
               ret = (if 30 \<le> k then u64 (push_bit 10 ret) else ret);
               ret = (if 20 \<le> k then u64 (push_bit 10 ret) else ret);
               ret = (if 10 \<le> k then u64 (push_bit 10 ret) else ret)
           in Some (ret, if 10 \<le> k then drop 1 endptr else endptr)))"

text \<open>The code, the integer if one is stored, and the rest of the string.\<close>

definition get_option :: "string \<Rightarrow> int \<times> int option \<times> string" where
  "get_option str =
     (if str = [] then (0, None, str)
      else let (v, rest) = simple_strtol str 0; pint = s32 v in
      if length rest = length str then (0, Some pint, rest)
      else if char_at rest 0 = CHR '','' then (2, Some pint, drop 1 rest)
      else if char_at rest 0 = CHR ''-'' then (3, Some pint, rest)
      else (1, Some pint, rest))"


section \<open>What the classes mean\<close>

lemma of_char_256: "(of_char (c :: char) :: nat) < 256"
  by (rule nat_of_char_less_256)

lemma ctype_classes:
  "\<forall>n < 256. (ctype_table ! n AND 0x04 \<noteq> 0 \<longleftrightarrow> 48 \<le> n \<and> n \<le> 57) \<and>
     (ctype_table ! n AND 0x44 \<noteq> 0 \<longleftrightarrow> 48 \<le> n \<and> n \<le> 57 \<or> 65 \<le> n \<and> n \<le> 70 \<or> 97 \<le> n \<and> n \<le> 102)"
  by code_simp

lemma isdigit_iff: "isdigit c \<longleftrightarrow> 48 \<le> code c \<and> code c \<le> 57"
  using ctype_classes of_char_256 [of c] by (auto simp: isdigit_def ismask_def code_def)

lemma isxdigit_iff:
  "isxdigit c \<longleftrightarrow> 48 \<le> code c \<and> code c \<le> 57 \<or> 65 \<le> code c \<and> code c \<le> 70 \<or> 97 \<le> code c \<and> code c \<le> 102"
  using ctype_classes of_char_256 [of c] by (auto simp: isxdigit_def ismask_def code_def)

end
