(* ===== verification/Vsprintf.thy ===== *)
theory Vsprintf
  imports Strings "HOL-Library.Monad_Syntax"
begin

text \<open>
  Formatted output, \<^verbatim>\<open>lib/vsprintf.c\<close>. The output buffer is a list of characters with the number of
  characters produced so far, which goes on counting when the buffer is full. The arguments are a list;
  an argument of the wrong kind is the result \<open>None\<close>, and so is a conversion that never ends.
\<close>

section \<open>The buffer\<close>

record out =
  obuf :: string
  opos :: nat

text \<open>\<^verbatim>\<open>if(buf < end) *buf = c; ++buf\<close>.\<close>

definition emit :: "char \<Rightarrow> out \<Rightarrow> out" where
  "emit c b = b\<lparr>obuf := (if opos b < length (obuf b) then (obuf b)[opos b := c] else obuf b), opos := opos b + 1\<rparr>"

definition s16 :: "int \<Rightarrow> int" where
  "s16 x = (x + 32768) mod 65536 - 32768"

text \<open>\<^verbatim>\<open>while(--width >= 0)\<close> emit a character: the width afterwards, and the buffer.\<close>

function pad :: "char \<Rightarrow> int \<Rightarrow> out \<Rightarrow> int \<times> out" where
  "pad c w b = (if 0 \<le> s16 (w - 1) then pad c (s16 (w - 1)) (emit c b) else (s16 (w - 1), b))"
  by pat_completeness auto
termination
proof (relation "measure (\<lambda>(c, w, b). nat (s16 (w - 1) + 1))")
  fix c w and b :: out
  assume "0 \<le> s16 (w - 1)"
  moreover have "s16 (s16 (w - 1) - 1) < s16 (w - 1)" if "0 \<le> s16 (w - 1)"
  proof -
    have "s16 (w - 1) < 32768" by (simp add: s16_def)
    with that have "s16 (s16 (w - 1) - 1) = s16 (w - 1) - 1" unfolding s16_def [of "s16 (w - 1) - 1"] by simp
    then show ?thesis by simp
  qed
  ultimately show "((c, s16 (w - 1), emit c b), c, w, b) \<in> measure (\<lambda>(c, w, b). nat (s16 (w - 1) + 1))"
    by simp
qed simp

declare pad.simps [simp del]


section \<open>Numbers\<close>

definition ZEROPAD :: int where "ZEROPAD = 1"
definition SIGN :: int where "SIGN = 2"
definition PLUS :: int where "PLUS = 4"
definition SPACE :: int where "SPACE = 8"
definition LEFT :: int where "LEFT = 16"
definition SMALL :: int where "SMALL = 32"
definition SPECIAL :: int where "SPECIAL = 64"

datatype format_type =
  FORMAT_TYPE_NONE
| FORMAT_TYPE_WIDTH
| FORMAT_TYPE_PRECISION
| FORMAT_TYPE_CHAR
| FORMAT_TYPE_STR
| FORMAT_TYPE_PTR
| FORMAT_TYPE_PERCENT_CHAR
| FORMAT_TYPE_INVALID
| FORMAT_TYPE_LONG_LONG
| FORMAT_TYPE_ULONG
| FORMAT_TYPE_LONG
| FORMAT_TYPE_UBYTE
| FORMAT_TYPE_BYTE
| FORMAT_TYPE_USHORT
| FORMAT_TYPE_SHORT
| FORMAT_TYPE_UINT
| FORMAT_TYPE_INT
| FORMAT_TYPE_NRCHARS
| FORMAT_TYPE_SIZE_T
| FORMAT_TYPE_PTRDIFF

record printf_spec =
  ftype :: format_type
  flags :: int
  base :: int
  qualifier :: int
  field_width :: int
  precision :: int

definition digit_char :: "int \<Rightarrow> char" where
  "digit_char d = char_of (nat (d + 48))"

text \<open>
  One group of decimal digits, least significant first, without the leading zeros. The divisions by ten
  are multiplications.
\<close>

definition put_dec_trunc :: "int \<Rightarrow> string" where
  "put_dec_trunc q =
     (let d1 = drop_bit 4 q AND 0xf; d2 = drop_bit 8 q AND 0xf; d3 = drop_bit 12 q;
          d0 = 6 * (d3 + d2 + d1) + (q AND 0xf);
          q = drop_bit 11 (d0 * 0xcd);
          c0 = digit_char (d0 - 10 * q);
          d1 = q + 9 * d3 + 5 * d2 + d1
      in if d1 = 0 then [c0]
      else let q = drop_bit 11 (d1 * 0xcd);
          c1 = digit_char (d1 - 10 * q);
          d2 = q + 2 * d2
      in if d2 = 0 \<and> d3 = 0 then [c0, c1]
      else let q = drop_bit 7 (d2 * 0xd);
          c2 = digit_char (d2 - 10 * q);
          d3 = q + 4 * d3
      in if d3 = 0 then [c0, c1, c2]
      else let q = drop_bit 11 (d3 * 0xcd);
          c3 = digit_char (d3 - 10 * q)
      in if q \<noteq> 0 then [c0, c1, c2, c3, digit_char q] else [c0, c1, c2, c3])"

text \<open>A full group of five digits. The third one is the assignment \<^verbatim>\<open>*buf++ = d2 = '0'\<close>.\<close>

definition put_dec_full :: "int \<Rightarrow> string" where
  "put_dec_full q =
     (let d1 = drop_bit 4 q AND 0xf; d2 = drop_bit 8 q AND 0xf; d3 = drop_bit 12 q;
          d0 = 6 * (d3 + d2 + d1) + (q AND 0xf);
          q = drop_bit 11 (d0 * 0xcd);
          c0 = digit_char (d0 - 10 * q);
          d1 = q + 9 * d3 + 5 * d2 + d1;
          q = drop_bit 11 (d1 * 0xcd);
          c1 = digit_char (d1 - 10 * q);
          d2 = q + 2 * d2;
          q = drop_bit 7 (d2 * 0xd);
          c2 = CHR ''0'';
          d3 = q + 4 * d3;
          q = drop_bit 11 (d3 * 0xcd);
          c3 = digit_char (d3 - 10 * q)
      in [c0, c1, c2, c3, digit_char q])"

text \<open>\<^verbatim>\<open>do_div(a,b)\<close> is \<^verbatim>\<open>((a) / (b))\<close> here: it yields the quotient and leaves \<^verbatim>\<open>num\<close> as it is.\<close>

partial_function (option) put_dec :: "string \<Rightarrow> int \<Rightarrow> string option" where
  "put_dec buf num =
     (if num < 100000 then Some (buf @ put_dec_trunc num)
      else let r = num div 100000
      in put_dec (buf @ put_dec_full (u32 r)) num)"

declare put_dec.simps [code]

definition digits :: string where "digits = ''0123456789ABCDEF''"

definition or_case :: "char \<Rightarrow> int \<Rightarrow> char" where
  "or_case c locase = char_of (nat (code c OR locase))"

function put_pow2 :: "nat \<Rightarrow> int \<Rightarrow> int \<Rightarrow> string" where
  "put_pow2 shift locase num =
     (let c = or_case (digits ! nat (num AND (2 ^ shift - 1))) locase; num' = drop_bit shift num
      in if 0 < num' \<and> 0 < shift then c # put_pow2 shift locase num' else [c])"
  by pat_completeness auto
termination
proof (relation "measure (\<lambda>(s, l, n). nat n)")
  fix shift :: nat and locase num :: int and c x
  assume x: "x = drop_bit shift num" and "0 < x \<and> 0 < shift"
  then have "2 ^ shift \<le> num" "1 < (2::int) ^ shift" by (simp_all add: drop_bit_eq_div pos_imp_zdiv_pos_iff)
  then have "0 < num" by linarith
  moreover from this \<open>1 < 2 ^ shift\<close> have "num div 2 ^ shift < num" by (rule int_div_less_self)
  ultimately show "((shift, locase, x), shift, locase, num) \<in> measure (\<lambda>(s, l, n). nat n)"
    by (simp add: x drop_bit_eq_div)
qed simp

declare put_pow2.simps [simp del]

text \<open>The digits of the number in \<^verbatim>\<open>tmp[]\<close>, least significant first; \<^verbatim>\<open>tmp\<close> has 66 bytes.\<close>

definition number_digits :: "printf_spec \<Rightarrow> int \<Rightarrow> string option" where
  "number_digits spec num =
     (if num = 0 then Some ''0''
      else if base spec \<noteq> 10
      then Some (put_pow2 (if base spec = 16 then 4 else 3) (flags spec AND SMALL) num)
      else put_dec [] num)"

text \<open>\<^verbatim>\<open>spec.flags & ~ZEROPAD;\<close> is a statement without effect. A plus flag prints a space.\<close>

definition number :: "int \<Rightarrow> printf_spec \<Rightarrow> out \<Rightarrow> out option" where
  "number num spec out =
     (let need_pfx = (flags spec AND SPECIAL \<noteq> 0 \<and> base spec \<noteq> 10);
          locase = flags spec AND SMALL;
          fw = field_width spec;
          (sign, num, fw) =
            (if flags spec AND SIGN \<noteq> 0
             then if signed64 num < 0 then (Some (CHR ''-''), u64 (- signed64 num), s16 (fw - 1))
                  else if flags spec AND PLUS \<noteq> 0 then (Some (CHR '' ''), num, s16 (fw - 1))
                  else (None, num, fw)
             else (None, num, fw));
          fw = (if need_pfx then s16 (fw - 1) else fw);
          fw = (if need_pfx \<and> base spec = 16 then s16 (fw - 1) else fw)
      in do {
        tmp \<leftarrow> number_digits spec num;
        let i = int (length tmp);
        let prec = (if precision spec < i then i else precision spec);
        let fw = s16 (fw - prec);
        let (fw, out) = (if flags spec AND (ZEROPAD + LEFT) = 0 then pad (CHR '' '') fw out else (fw, out));
        let out = (case sign of None \<Rightarrow> out | Some c \<Rightarrow> emit c out);
        let out = (if need_pfx then emit (CHR ''0'') out else out);
        let out = (if need_pfx \<and> base spec = 16 then emit (or_case (CHR ''X'') locase) out else out);
        let (fw, out) = (if flags spec AND LEFT = 0
                         then pad (if flags spec AND ZEROPAD \<noteq> 0 then CHR ''0'' else CHR '' '') fw out
                         else (fw, out));
        let out = fold emit (replicate (nat (prec - i)) (CHR ''0'')) out;
        let out = fold emit (rev tmp) out;
        let (fw, out) = pad (CHR '' '') fw out;
        Some out })"


section \<open>Strings and pointers\<close>

text \<open>\<^verbatim>\<open>while(len < field_width--)\<close> emit a character.\<close>

function pad_to :: "int \<Rightarrow> char \<Rightarrow> int \<Rightarrow> out \<Rightarrow> int \<times> out" where
  "pad_to len c w b = (if 0 \<le> len \<and> len < w then pad_to len c (s16 (w - 1)) (emit c b) else (s16 (w - 1), b))"
  by pat_completeness auto
termination
proof (relation "measure (\<lambda>(len, c, w, b). nat w)")
  fix len w :: int and c and b :: out
  assume "0 \<le> len \<and> len < w"
  moreover have "s16 (w - 1) < w" if "0 < w"
  proof (cases "w \<le> 32768")
    case True
    with that have "s16 (w - 1) = w - 1" unfolding s16_def by simp
    then show ?thesis by simp
  next
    case False
    have "s16 (w - 1) < 32768" by (simp add: s16_def)
    with False show ?thesis by linarith
  qed
  ultimately show "((len, c, s16 (w - 1), emit c b), len, c, w, b) \<in> measure (\<lambda>(len, c, w, b). nat w)" by simp
qed simp

declare pad_to.simps [simp del]

text \<open>The precision \<open>-1\<close> becomes the largest \<^verbatim>\<open>size_t\<close>, here the length of the string.\<close>

definition string_c :: "string option \<Rightarrow> printf_spec \<Rightarrow> out \<Rightarrow> out" where
  "string_c s spec out =
     (let s = (case s of None \<Rightarrow> ''(null)'' | Some s \<Rightarrow> s);
          len = strnlen s (if precision spec < 0 then length s else nat (precision spec));
          (fw, out) = (if flags spec AND LEFT = 0 then pad_to (int len) (CHR '' '') (field_width spec) out
                       else (field_width spec, out));
          out = fold emit (take len s) out
      in snd (pad_to (int len) (CHR '' '') fw out))"

record resource =
  rstart :: int
  rend :: int
  rflags :: int

text \<open>What a pointer argument points to, where a conversion reads it.\<close>

datatype pointee = No_data | Mac "int list" | Res resource

definition num_spec :: "int \<Rightarrow> int \<Rightarrow> int \<Rightarrow> printf_spec" where
  "num_spec b fw fl = \<lparr>ftype = FORMAT_TYPE_NONE, flags = fl, base = b, qualifier = 0, field_width = fw, precision = - 1\<rparr>"

definition str_spec :: printf_spec where
  "str_spec = \<lparr>ftype = FORMAT_TYPE_NONE, flags = LEFT, base = 0, qualifier = 0, field_width = - 1, precision = 10\<rparr>"

text \<open>The bits of a resource that select its name and the format of its bounds.\<close>

definition resource_kind :: "int \<Rightarrow> string \<times> printf_spec \<times> bool" where
  "resource_kind fl =
     (if fl AND 0x100 \<noteq> 0 then (''io  '', num_spec 16 6 (SPECIAL OR SMALL OR ZEROPAD), True)
      else if fl AND 0x200 \<noteq> 0 then (''mem '', num_spec 16 10 (SPECIAL OR SMALL OR ZEROPAD), True)
      else if fl AND 0x400 \<noteq> 0 then (''irq '', num_spec 10 0 0, True)
      else if fl AND 0x800 \<noteq> 0 then (''dma '', num_spec 10 0 0, True)
      else if fl AND 0x1000 \<noteq> 0 then (''bus '', num_spec 16 2 (SMALL OR ZEROPAD), True)
      else (''???'', num_spec 16 10 (SPECIAL OR SMALL OR ZEROPAD), False))"

definition resource_flag :: "int \<Rightarrow> int \<Rightarrow> string \<Rightarrow> out \<Rightarrow> out" where
  "resource_flag fl m s b = (if fl AND m \<noteq> 0 then string_c (Some s) str_spec b else b)"

text \<open>\<^verbatim>\<open>sym\<close> is the local buffer of the text between the brackets; \<open>n\<close> is its size.\<close>

definition resource_text :: "nat \<Rightarrow> resource \<Rightarrow> string \<Rightarrow> out option" where
  "resource_text n res fmt =
     (let (name, spec, known) = resource_kind (rflags res);
          decode = (known \<and> char_at fmt 0 = CHR ''R'');
          p = emit (CHR ''['') \<lparr>obuf = replicate n NUL, opos = 0\<rparr>;
          p = string_c (Some name) str_spec p
      in do {
        p \<leftarrow> number (rstart res) spec p;
        p \<leftarrow> (if rstart res \<noteq> rend res then number (rend res) spec (emit (CHR ''-'') p) else Some p);
        p \<leftarrow> (if decode
              then Some (resource_flag (rflags res) 0x10000000 ''disabled''
                     (resource_flag (rflags res) 0x00200000 ''window''
                       (resource_flag (rflags res) 0x2000 '' pref''
                         (resource_flag (rflags res) 0x00100000 '' 64bit'' p))))
              else number (rflags res) (num_spec 16 0 (SPECIAL OR SMALL)) (string_c (Some '' flags'') str_spec p));
        Some (emit NUL (emit (CHR '']'') p)) })"

definition RES_SYM_SIZE :: nat where "RES_SYM_SIZE = 2 * (2 * 4 + 4) + 35"

definition resource_string :: "resource \<Rightarrow> printf_spec \<Rightarrow> string \<Rightarrow> out \<Rightarrow> out option" where
  "resource_string res spec fmt out =
     do { p \<leftarrow> resource_text RES_SYM_SIZE res fmt;
          if length (obuf p) < opos p then None
          else Some (string_c (Some (takeWhile (\<lambda>c. c \<noteq> NUL) (obuf p))) spec out) }"

definition hex_asc :: string where "hex_asc = ''0123456789abcdef''"

definition pack_hex_byte :: "int \<Rightarrow> string" where
  "pack_hex_byte b = [hex_asc ! nat (drop_bit 4 (b AND 0xf0)), hex_asc ! nat (b AND 0x0f)]"

definition mac_text :: "int list \<Rightarrow> string \<Rightarrow> string" where
  "mac_text addr fmt =
     (let sep = (if char_at fmt 1 = CHR ''F'' then CHR ''-'' else CHR '':'') in
      concat (map (\<lambda>i. pack_hex_byte (addr ! i) @ (if char_at fmt 0 = CHR ''M'' \<and> i \<noteq> 5 then [sep] else [])) [0..<6]))"

definition mac_address_string :: "int list \<Rightarrow> printf_spec \<Rightarrow> string \<Rightarrow> out \<Rightarrow> out option" where
  "mac_address_string addr spec fmt out =
     (if length addr < 6 then None else Some (string_c (Some (mac_text addr fmt)) spec out))"

definition symbol_string :: "int \<Rightarrow> printf_spec \<Rightarrow> out \<Rightarrow> out option" where
  "symbol_string ptr spec out =
     number ptr (spec\<lparr>field_width := 16, flags := flags spec OR (SPECIAL OR SMALL OR ZEROPAD), base := 16\<rparr>) out"

definition pointer :: "string \<Rightarrow> int \<Rightarrow> pointee \<Rightarrow> printf_spec \<Rightarrow> out \<Rightarrow> out option" where
  "pointer fmt ptr data spec out =
     (if ptr = 0
      then Some (string_c (Some ''(null)'') (if field_width spec = - 1 then spec\<lparr>field_width := 16\<rparr> else spec) out)
      else let c = char_at fmt 0 in
      if c \<in> {CHR ''F'', CHR ''f'', CHR ''S'', CHR ''s''} then symbol_string ptr spec out
      else if c \<in> {CHR ''R'', CHR ''r''} then (case data of Res res \<Rightarrow> resource_string res spec fmt out | _ \<Rightarrow> None)
      else if c \<in> {CHR ''M'', CHR ''m''} then (case data of Mac a \<Rightarrow> mac_address_string a spec fmt out | _ \<Rightarrow> None)
      else let spec = spec\<lparr>flags := flags spec OR SMALL\<rparr>;
               spec = (if field_width spec = - 1
                       then spec\<lparr>field_width := 16, flags := flags spec OR ZEROPAD\<rparr> else spec)
           in number ptr (spec\<lparr>base := 16\<rparr>) out)"


section \<open>The format\<close>

fun skip_atoi :: "string \<Rightarrow> int \<Rightarrow> int \<times> string" where
  "skip_atoi [] i = (i, [])"
| "skip_atoi (c # cs) i = (if isdigit c then skip_atoi cs (s32 (i * 10 + code c - 48)) else (i, c # cs))"

definition flag_bit :: "char \<Rightarrow> int option" where
  "flag_bit c = (if c = CHR ''-'' then Some LEFT else if c = CHR ''+'' then Some PLUS
     else if c = CHR '' '' then Some SPACE else if c = CHR ''#'' then Some SPECIAL
     else if c = CHR ''0'' then Some ZEROPAD else None)"

fun decode_flags :: "string \<Rightarrow> int \<Rightarrow> int \<times> string" where
  "decode_flags [] fl = (fl, [])"
| "decode_flags (c # cs) fl =
     (case flag_bit c of Some m \<Rightarrow> decode_flags cs (fl OR m) | None \<Rightarrow> (fl, c # cs))"

text \<open>The conversion character, with the type that the qualifier selects.\<close>

definition qualified_type :: "printf_spec \<Rightarrow> format_type" where
  "qualified_type spec =
     (let q = qualifier spec; signed = (flags spec AND SIGN \<noteq> 0) in
      if q = code (CHR ''L'') then FORMAT_TYPE_LONG_LONG
      else if q = code (CHR ''l'') then (if signed then FORMAT_TYPE_LONG else FORMAT_TYPE_ULONG)
      else if TOLOWER q = code (CHR ''z'') then FORMAT_TYPE_SIZE_T
      else if q = code (CHR ''t'') then FORMAT_TYPE_PTRDIFF
      else if q = code (CHR ''H'') then (if signed then FORMAT_TYPE_BYTE else FORMAT_TYPE_UBYTE)
      else if q = code (CHR ''h'') then (if signed then FORMAT_TYPE_SHORT else FORMAT_TYPE_USHORT)
      else (if signed then FORMAT_TYPE_INT else FORMAT_TYPE_UINT))"

definition decode_conversion :: "string \<Rightarrow> printf_spec \<Rightarrow> printf_spec \<times> string" where
  "decode_conversion fmt spec =
     (let spec = spec\<lparr>base := 10\<rparr>; c = char_at fmt 0; num = (\<lambda>s. (s\<lparr>ftype := qualified_type s\<rparr>, drop 1 fmt)) in
      if c = CHR ''c'' then (spec\<lparr>ftype := FORMAT_TYPE_CHAR\<rparr>, drop 1 fmt)
      else if c = CHR ''s'' then (spec\<lparr>ftype := FORMAT_TYPE_STR\<rparr>, drop 1 fmt)
      else if c = CHR ''p'' then (spec\<lparr>ftype := FORMAT_TYPE_PTR\<rparr>, fmt)
      else if c = CHR ''n'' then (spec\<lparr>ftype := FORMAT_TYPE_NRCHARS\<rparr>, drop 1 fmt)
      else if c = CHR 0x25 then (spec\<lparr>ftype := FORMAT_TYPE_PERCENT_CHAR\<rparr>, drop 1 fmt)
      else if c = CHR ''o'' then num (spec\<lparr>base := 8\<rparr>)
      else if c = CHR ''x'' then num (spec\<lparr>flags := flags spec OR SMALL, base := 16\<rparr>)
      else if c = CHR ''X'' then num (spec\<lparr>base := 16\<rparr>)
      else if c = CHR ''d'' \<or> c = CHR ''i'' then num (spec\<lparr>flags := flags spec OR SIGN\<rparr>)
      else if c = CHR ''u'' then num spec
      else (spec\<lparr>ftype := FORMAT_TYPE_INVALID\<rparr>, fmt))"

definition decode_qualifier :: "string \<Rightarrow> printf_spec \<Rightarrow> printf_spec \<times> string" where
  "decode_qualifier fmt spec =
     (let c = char_at fmt 0 in
      if c = CHR ''h'' \<or> TOLOWER (code c) = code (CHR ''l'') \<or> TOLOWER (code c) = code (CHR ''z'') \<or> c = CHR ''t''
      then if char_at fmt 1 = c \<and> c = CHR ''l'' then decode_conversion (drop 2 fmt) (spec\<lparr>qualifier := code (CHR ''L'')\<rparr>)
           else if char_at fmt 1 = c \<and> c = CHR ''h'' then decode_conversion (drop 2 fmt) (spec\<lparr>qualifier := code (CHR ''H'')\<rparr>)
           else decode_conversion (drop 1 fmt) (spec\<lparr>qualifier := code c\<rparr>)
      else decode_conversion fmt (spec\<lparr>qualifier := 255\<rparr>))"

definition decode_precision :: "string \<Rightarrow> printf_spec \<Rightarrow> printf_spec \<times> string" where
  "decode_precision fmt spec =
     (let spec = spec\<lparr>precision := - 1\<rparr> in
      if char_at fmt 0 = CHR ''.''
      then let fmt = drop 1 fmt in
           if isdigit (char_at fmt 0)
           then let (v, fmt) = skip_atoi fmt 0
                in decode_qualifier fmt (spec\<lparr>precision := (if s16 v < 0 then 0 else s16 v)\<rparr>)
           else if char_at fmt 0 = CHR ''*'' then (spec\<lparr>ftype := FORMAT_TYPE_PRECISION\<rparr>, drop 1 fmt)
           else decode_qualifier fmt spec
      else decode_qualifier fmt spec)"

text \<open>\<^verbatim>\<open>format_decode\<close>: the new conversion and the rest of the format.\<close>

definition format_decode :: "string \<Rightarrow> printf_spec \<Rightarrow> printf_spec \<times> string" where
  "format_decode fmt spec =
     (if ftype spec = FORMAT_TYPE_WIDTH
      then let spec = (if field_width spec < 0
                       then spec\<lparr>field_width := s16 (- field_width spec), flags := flags spec OR LEFT\<rparr> else spec)
           in decode_precision fmt (spec\<lparr>ftype := FORMAT_TYPE_NONE\<rparr>)
      else if ftype spec = FORMAT_TYPE_PRECISION
      then let spec = (if precision spec < 0 then spec\<lparr>precision := 0\<rparr> else spec)
           in decode_qualifier fmt (spec\<lparr>ftype := FORMAT_TYPE_NONE\<rparr>)
      else let spec = spec\<lparr>ftype := FORMAT_TYPE_NONE\<rparr>; rest = dropWhile (\<lambda>c. c \<noteq> CHR 0x25) fmt in
      if length rest \<noteq> length fmt \<or> rest = [] then (spec, rest)
      else let (fl, fmt) = decode_flags (drop 1 fmt) 0; spec = spec\<lparr>flags := fl, field_width := - 1\<rparr> in
      if isdigit (char_at fmt 0)
      then let (v, fmt) = skip_atoi fmt 0 in decode_precision fmt (spec\<lparr>field_width := s16 v\<rparr>)
      else if char_at fmt 0 = CHR ''*'' then (spec\<lparr>ftype := FORMAT_TYPE_WIDTH\<rparr>, drop 1 fmt)
      else decode_precision fmt spec)"


section \<open>Printing\<close>

datatype arg =
  Int_arg int
| Str_arg "string option"
| Ptr_arg int pointee
| Out_arg

text \<open>How an integer argument is read for each type.\<close>

definition s8 :: "int \<Rightarrow> int" where
  "s8 x = (x + 128) mod 256 - 128"

definition read_num :: "format_type \<Rightarrow> int \<Rightarrow> int" where
  "read_num t v =
     (case t of FORMAT_TYPE_UBYTE \<Rightarrow> v mod 256 | FORMAT_TYPE_BYTE \<Rightarrow> u64 (s8 v)
      | FORMAT_TYPE_USHORT \<Rightarrow> v mod 65536 | FORMAT_TYPE_SHORT \<Rightarrow> u64 (s16 v)
      | FORMAT_TYPE_INT \<Rightarrow> u64 (s32 v) | FORMAT_TYPE_UINT \<Rightarrow> u32 v | _ \<Rightarrow> u64 v)"

text \<open>\<^verbatim>\<open>while(--width > 0)\<close> of the character conversion: the number of rounds.\<close>

definition char_pad :: "int \<Rightarrow> nat" where
  "char_pad w = nat (if w = - 32768 then 32767 else w - 1)"

definition print_char :: "printf_spec \<Rightarrow> char \<Rightarrow> out \<Rightarrow> out" where
  "print_char spec c out =
     (if flags spec AND LEFT = 0
      then let out = emit c (fold emit (replicate (char_pad (field_width spec)) (CHR '' '')) out);
               fw = (if 1 \<le> field_width spec \<or> field_width spec = - 32768 then 0 else s16 (field_width spec - 1))
           in fold emit (replicate (char_pad fw) (CHR '' '')) out
      else fold emit (replicate (char_pad (field_width spec)) (CHR '' '')) (emit c out))"

text \<open>One turn of the loop of \<^verbatim>\<open>vsnprintf\<close>. A \<^verbatim>\<open>%n\<close> stores a count, which is added to a list.\<close>

record pstate =
  pfmt :: string
  pspec :: printf_spec
  pargs :: "arg list"
  pout :: out
  pcounts :: "nat list"

definition copy_text :: "string \<Rightarrow> out \<Rightarrow> out" where
  "copy_text s out = fold emit s out"

definition print_step :: "pstate \<Rightarrow> pstate option" where
  "print_step st =
     (let fmt = pfmt st; (spec, rest) = format_decode fmt (pspec st);
          st = st\<lparr>pspec := spec, pfmt := rest\<rparr>
      in case ftype spec of
        FORMAT_TYPE_NONE \<Rightarrow> Some (st\<lparr>pout := copy_text (take (length fmt - length rest) fmt) (pout st)\<rparr>)
      | FORMAT_TYPE_WIDTH \<Rightarrow> (case pargs st of Int_arg v # as \<Rightarrow>
            Some (st\<lparr>pspec := spec\<lparr>field_width := s16 v\<rparr>, pargs := as\<rparr>) | _ \<Rightarrow> None)
      | FORMAT_TYPE_PRECISION \<Rightarrow> (case pargs st of Int_arg v # as \<Rightarrow>
            Some (st\<lparr>pspec := spec\<lparr>precision := s16 v\<rparr>, pargs := as\<rparr>) | _ \<Rightarrow> None)
      | FORMAT_TYPE_CHAR \<Rightarrow> (case pargs st of Int_arg v # as \<Rightarrow>
            Some (st\<lparr>pout := print_char spec (char_of (nat (v mod 256))) (pout st), pargs := as\<rparr>) | _ \<Rightarrow> None)
      | FORMAT_TYPE_STR \<Rightarrow> (case pargs st of Str_arg s # as \<Rightarrow>
            Some (st\<lparr>pout := string_c s spec (pout st), pargs := as\<rparr>) | _ \<Rightarrow> None)
      | FORMAT_TYPE_PTR \<Rightarrow> (case pargs st of Ptr_arg p d # as \<Rightarrow>
            (case pointer (drop 1 rest) p d spec (pout st) of
               Some out \<Rightarrow> Some (st\<lparr>pout := out, pargs := as, pfmt := dropWhile isalnum rest\<rparr>) | None \<Rightarrow> None)
            | _ \<Rightarrow> None)
      | FORMAT_TYPE_PERCENT_CHAR \<Rightarrow> Some (st\<lparr>pout := emit (CHR 0x25) (pout st)\<rparr>)
      | FORMAT_TYPE_INVALID \<Rightarrow> Some (st\<lparr>pout := emit (CHR 0x25) (pout st)\<rparr>)
      | FORMAT_TYPE_NRCHARS \<Rightarrow> (case pargs st of Out_arg # as \<Rightarrow>
            Some (st\<lparr>pcounts := pcounts st @ [opos (pout st)], pargs := as\<rparr>) | _ \<Rightarrow> None)
      | t \<Rightarrow> (case pargs st of Int_arg v # as \<Rightarrow>
            (case number (read_num t v) spec (pout st) of
               Some out \<Rightarrow> Some (st\<lparr>pout := out, pargs := as\<rparr>) | None \<Rightarrow> None)
            | _ \<Rightarrow> None))"

partial_function (option) print_loop :: "pstate \<Rightarrow> pstate option" where
  "print_loop st = (if pfmt st = [] then Some st else do { st \<leftarrow> print_step st; print_loop st })"

declare print_loop.simps [code]

definition zero_spec :: printf_spec where
  "zero_spec = \<lparr>ftype = FORMAT_TYPE_NONE, flags = 0, base = 0, qualifier = 0, field_width = 0, precision = 0\<rparr>"

text \<open>The result is the length of the whole text, the buffer and the counts of \<^verbatim>\<open>%n\<close>.\<close>

definition vsnprintf :: "string \<Rightarrow> string \<Rightarrow> arg list \<Rightarrow> (int \<times> string \<times> nat list) option" where
  "vsnprintf buf fmt args =
     (if s32 (int (length buf)) < 0 then Some (0, buf, [])
      else do { st \<leftarrow> print_loop \<lparr>pfmt = fmt, pspec = zero_spec, pargs = args,
                     pout = \<lparr>obuf = buf, opos = 0\<rparr>, pcounts = []\<rparr>;
                let out = pout st;
                let n = length (obuf out);
                let res = (if n = 0 then obuf out
                           else if opos out < n then (obuf out)[opos out := NUL] else (obuf out)[n - 1 := NUL]);
                Some (s32 (int (opos out)), res, pcounts st) })"

definition vscnprintf :: "string \<Rightarrow> string \<Rightarrow> arg list \<Rightarrow> (int \<times> string \<times> nat list) option" where
  "vscnprintf buf fmt args =
     do { (i, res, ns) \<leftarrow> vsnprintf buf fmt args;
          let n = int (length buf);
          Some (if u64 i < n then i else if n \<noteq> 0 then s32 (n - 1) else 0, res, ns) }"

definition scnprintf :: "string \<Rightarrow> string \<Rightarrow> arg list \<Rightarrow> (int \<times> string \<times> nat list) option" where
  "scnprintf buf fmt args = vscnprintf buf fmt args"

text \<open>\<^verbatim>\<open>kvasprintf\<close>: the string, or no string when there is no memory. \<open>mem\<close> is what the new block holds.\<close>

definition kvasprintf :: "(nat \<Rightarrow> string option) \<Rightarrow> string \<Rightarrow> arg list \<Rightarrow> string option option" where
  "kvasprintf mem fmt args =
     do { (len, _, _) \<leftarrow> vsnprintf [] fmt args;
          case mem (nat (u32 len + 1)) of
            None \<Rightarrow> Some None
          | Some p \<Rightarrow> do { (_, res, _) \<leftarrow> vsnprintf p fmt args; Some (Some res) } }"

definition kasprintf :: "(nat \<Rightarrow> string option) \<Rightarrow> string \<Rightarrow> arg list \<Rightarrow> string option option" where
  "kasprintf mem fmt args = kvasprintf mem fmt args"

end
