(* ===== verification/VsprintfProps.thy ===== *)
theory VsprintfProps
  imports Vsprintf
begin

text \<open>
  What the formatted output and the number parsers guarantee: the text of a call does not depend on the
  buffer, the buffer receives the part that fits and a NUL, and numbers can be read back.
\<close>

section \<open>Texts\<close>

lemma opos_emit [simp]: "opos (emit c b) = opos b + 1"
  by (simp add: emit_def)

lemma opos_fold [simp]: "opos (fold emit t b) = opos b + length t"
  by (induction t arbitrary: b) auto

lemma length_emit [simp]: "length (obuf (emit c b)) = length (obuf b)"
  by (simp add: emit_def)

lemma length_fold [simp]: "length (obuf (fold emit t b)) = length (obuf b)"
  by (induction t arbitrary: b) auto

lemma obuf_fold:
  "obuf (fold emit t \<lparr>obuf = buf, opos = k\<rparr>) =
     (if k \<le> length buf then take k buf @ take (length buf - k) t @ drop (k + length t) buf else buf)"
proof (induction t arbitrary: buf k)
  case (Cons c t)
  show ?case
  proof (cases "k < length buf")
    case True
    have e: "emit c \<lparr>obuf = buf, opos = k\<rparr> = \<lparr>obuf = buf[k := c], opos = Suc k\<rparr>"
      using True by (simp add: emit_def)
    have "take (Suc k) (buf[k := c]) = take k buf @ [c]" using True by (simp add: take_Suc_conv_app_nth)
    moreover have "take (length buf - k) (c # t) = c # take (length buf - Suc k) t"
    proof -
      have "length buf - k = Suc (length buf - Suc k)" using True by simp
      then show ?thesis by simp
    qed
    ultimately show ?thesis using True by (simp add: e Cons.IH)
  next
    case False
    have "emit c \<lparr>obuf = buf, opos = k\<rparr> = \<lparr>obuf = buf, opos = Suc k\<rparr>"
      using False by (simp add: emit_def)
    then show ?thesis using False by (auto simp: Cons.IH)
  qed
qed simp

text \<open>An output function that adds a text to the buffer; the text does not depend on the buffer.\<close>

definition writes :: "(out \<Rightarrow> out) \<Rightarrow> string \<Rightarrow> bool" where
  "writes f t \<longleftrightarrow> (\<forall>b. f b = fold emit t b)"

definition texts :: "(out \<Rightarrow> out option) \<Rightarrow> string option \<Rightarrow> bool" where
  "texts f r \<longleftrightarrow> (\<forall>b. f b = map_option (\<lambda>t. fold emit t b) r)"

lemma pad_texts: "\<exists>w' n. \<forall>b. pad c w b = (w', fold emit (replicate n c) b)"
proof -
  have "\<exists>w' n. \<forall>b. pad c w b = (w', fold emit (replicate n c) b)" if "k = nat (s16 (w - 1) + 1)" for k
    using that
  proof (induction k arbitrary: w rule: less_induct)
    case (less k)
    show ?case
    proof (cases "0 \<le> s16 (w - 1)")
      case True
      define v where "v = s16 (w - 1)"
      have "v < 32768" by (simp add: v_def s16_def)
      with True have "s16 (v - 1) = v - 1" unfolding v_def [symmetric] s16_def [of "v - 1"] by simp
      then have "nat (s16 (v - 1) + 1) < k" using less.prems True by (simp add: v_def)
      from less.IH [OF this refl] obtain w' n where "\<forall>b. pad c v b = (w', fold emit (replicate n c) b)" by blast
      then have "\<forall>b. pad c w b = (w', fold emit (replicate (Suc n) c) b)"
        using True by (subst pad.simps) (simp add: v_def)
      then show ?thesis by blast
    next
      case False
      then show ?thesis by (intro exI [of _ "s16 (w - 1)"] exI [of _ 0]) (simp add: pad.simps)
    qed
  qed
  then show ?thesis by blast
qed

lemma pad_to_texts: "\<exists>w' n. \<forall>b. pad_to len c w b = (w', fold emit (replicate n c) b)"
proof -
  have "\<exists>w' n. \<forall>b. pad_to len c w b = (w', fold emit (replicate n c) b)" if "k = nat w" for k
    using that
  proof (induction k arbitrary: w rule: less_induct)
    case (less k)
    show ?case
    proof (cases "0 \<le> len \<and> len < w")
      case True
      have "s16 (w - 1) < w"
      proof (cases "w \<le> 32768")
        case True
        with \<open>0 \<le> len \<and> len < w\<close> have "s16 (w - 1) = w - 1" unfolding s16_def by simp
        then show ?thesis by simp
      next
        case False
        have "s16 (w - 1) < 32768" by (simp add: s16_def)
        with False show ?thesis by linarith
      qed
      then have "nat (s16 (w - 1)) < k" using less.prems True by simp
      from less.IH [OF this refl] obtain w' n where "\<forall>b. pad_to len c (s16 (w - 1)) b = (w', fold emit (replicate n c) b)"
        by blast
      then have "\<forall>b. pad_to len c w b = (w', fold emit (replicate (Suc n) c) b)"
        using True by (subst pad_to.simps) simp
      then show ?thesis by blast
    next
      case False
      then have "pad_to len c w b = (s16 (w - 1), b)" for b by (subst pad_to.simps) (rule if_not_P)
      then show ?thesis by (intro exI [of _ "s16 (w - 1)"] exI [of _ 0]) simp
    qed
  qed
  then show ?thesis by blast
qed

lemma fold_emit_append: "fold emit t2 (fold emit t1 b) = fold emit (t1 @ t2) b"
  by simp

lemma fold_emit_one: "emit c b = fold emit [c] b"
  by simp

lemma number_texts: "\<exists>r. texts (number num spec) r"
proof -
  define need where "need = (flags spec AND SPECIAL \<noteq> 0 \<and> base spec \<noteq> 10)"
  define locase where "locase = flags spec AND SMALL"
  obtain sign num' fw0 where s: "(if flags spec AND SIGN \<noteq> 0
             then if signed64 num < 0 then (Some (CHR ''-''), u64 (- signed64 num), s16 (field_width spec - 1))
                  else if flags spec AND PLUS \<noteq> 0 then (Some (CHR '' ''), num, s16 (field_width spec - 1))
                  else (None, num, field_width spec)
             else (None, num, field_width spec)) = (sign, num', fw0)" by (metis prod_cases3)
  show ?thesis
  proof (cases "number_digits spec num'")
    case None
    then have "texts (number num spec) None" unfolding texts_def number_def Let_def s by simp
    then show ?thesis by blast
  next
    case (Some tmp)
    define prec where "prec = (if precision spec < int (length tmp) then int (length tmp) else precision spec)"
    define fw1 where "fw1 = (if need \<and> base spec = 16 then s16 ((if need then s16 (fw0 - 1) else fw0) - 1)
        else (if need then s16 (fw0 - 1) else fw0))"
    define fw2 where "fw2 = s16 (fw1 - prec)"
    obtain w1 n1 where p1: "\<And>b. pad (CHR '' '') fw2 b = (w1, fold emit (replicate n1 (CHR '' '')) b)"
      using pad_texts by meson
    define fw3 where "fw3 = (if flags spec AND (ZEROPAD + LEFT) = 0 then w1 else fw2)"
    define zc where "zc = (if flags spec AND ZEROPAD \<noteq> 0 then CHR ''0'' else CHR '' '')"
    obtain w2 n2 where p2: "\<And>b. pad zc fw3 b = (w2, fold emit (replicate n2 zc) b)"
      using pad_texts by meson
    define fw4 where "fw4 = (if flags spec AND LEFT = 0 then w2 else fw3)"
    obtain w3 n3 where p3: "\<And>b. pad (CHR '' '') fw4 b = (w3, fold emit (replicate n3 (CHR '' '')) b)"
      using pad_texts by meson
    define t where "t = (if flags spec AND (ZEROPAD + LEFT) = 0 then replicate n1 (CHR '' '') else []) @
      (case sign of None \<Rightarrow> [] | Some c \<Rightarrow> [c]) @ (if need then [CHR ''0''] else []) @
      (if need \<and> base spec = 16 then [or_case (CHR ''X'') locase] else []) @
      (if flags spec AND LEFT = 0 then replicate n2 zc else []) @
      replicate (nat (prec - int (length tmp))) (CHR ''0'') @ rev tmp @ replicate n3 (CHR '' '')"
    have q1: "(if flags spec AND (ZEROPAD + LEFT) = 0 then pad (CHR '' '') fw2 b else (fw2, b)) =
        (fw3, fold emit (if flags spec AND (ZEROPAD + LEFT) = 0 then replicate n1 (CHR '' '') else []) b)" for b
      by (simp del: fold_replicate add: p1 fw3_def)
    have q2: "(if flags spec AND LEFT = 0 then pad zc fw3 b else (fw3, b)) =
        (fw4, fold emit (if flags spec AND LEFT = 0 then replicate n2 zc else []) b)" for b
      by (simp del: fold_replicate add: p2 fw4_def)
    have q3: "(case sign of None \<Rightarrow> b | Some c \<Rightarrow> emit c b) = fold emit (case sign of None \<Rightarrow> [] | Some c \<Rightarrow> [c]) b" for b
      by (cases sign) simp_all
    have q4: "(if B then emit c b else b) = fold emit (if B then [c] else []) b" for B c b
      by simp
    have "number num spec b = Some (fold emit t b)" for b
      unfolding number_def Let_def s prod.case Some Option.bind.simps need_def [symmetric] locase_def [symmetric]
        prec_def [symmetric] fw1_def [symmetric] fw2_def [symmetric] zc_def [symmetric] q1 q2 q3 q4 p3 t_def fold_append comp_apply
      by (rule refl)
    then have "texts (number num spec) (Some t)" by (simp add: texts_def)
    then show ?thesis by blast
  qed
qed


lemma string_writes: "\<exists>t. writes (string_c s spec) t"
proof -
  define str where "str = (case s of None \<Rightarrow> ''(null)'' | Some s \<Rightarrow> s)"
  define len where "len = strnlen str (if precision spec < 0 then length str else nat (precision spec))"
  obtain w1 n1 where p1: "\<And>b. pad_to (int len) (CHR '' '') (field_width spec) b = (w1, fold emit (replicate n1 (CHR '' '')) b)"
    using pad_to_texts by meson
  define fw where "fw = (if flags spec AND LEFT = 0 then w1 else field_width spec)"
  obtain w2 n2 where p2: "\<And>b. pad_to (int len) (CHR '' '') fw b = (w2, fold emit (replicate n2 (CHR '' '')) b)"
    using pad_to_texts by meson
  have q1: "(if flags spec AND LEFT = 0 then pad_to (int len) (CHR '' '') (field_width spec) b else (field_width spec, b)) =
      (fw, fold emit (if flags spec AND LEFT = 0 then replicate n1 (CHR '' '') else []) b)" for b
    by (simp del: fold_replicate add: p1 fw_def)
  have "string_c s spec b = fold emit ((if flags spec AND LEFT = 0 then replicate n1 (CHR '' '') else []) @
      take len str @ replicate n2 (CHR '' '')) b" for b
    unfolding string_c_def Let_def str_def [symmetric] len_def [symmetric] q1 prod.case p2 snd_conv fold_append comp_apply
    by (rule refl)
  then show ?thesis unfolding writes_def by blast
qed

lemma texts_Some: "writes f t \<Longrightarrow> texts (\<lambda>b. Some (f b)) (Some t)"
  by (simp add: writes_def texts_def)

lemma resource_string_texts: "\<exists>r. texts (resource_string res spec fmt) r"
proof (cases "resource_text RES_SYM_SIZE res fmt")
  case None
  then have "texts (resource_string res spec fmt) None" by (simp add: texts_def resource_string_def)
  then show ?thesis by blast
next
  case (Some p)
  obtain t where "writes (string_c (Some (takeWhile (\<lambda>c. c \<noteq> NUL) (obuf p))) spec) t" using string_writes by blast
  then have "texts (resource_string res spec fmt) (if length (obuf p) < opos p then None else Some t)"
    by (simp add: texts_def writes_def resource_string_def Some)
  then show ?thesis by blast
qed

lemma pointer_texts: "\<exists>r. texts (pointer fmt ptr data spec) r"
proof -
  define sp where "sp = spec\<lparr>flags := flags spec OR SMALL\<rparr>"
  define sp' where "sp' = (if field_width sp = - 1 then sp\<lparr>field_width := 16, flags := flags sp OR ZEROPAD\<rparr> else sp)"
  have eq: "pointer fmt ptr data spec =
     (if ptr = 0 then (\<lambda>b. Some (string_c (Some ''(null)'') (if field_width spec = - 1 then spec\<lparr>field_width := 16\<rparr> else spec) b))
      else let c = char_at fmt 0 in
      if c \<in> {CHR ''F'', CHR ''f'', CHR ''S'', CHR ''s''} then symbol_string ptr spec
      else if c \<in> {CHR ''R'', CHR ''r''} then (case data of Res res \<Rightarrow> resource_string res spec fmt | _ \<Rightarrow> (\<lambda>b. None))
      else if c \<in> {CHR ''M'', CHR ''m''} then (case data of Mac a \<Rightarrow> mac_address_string a spec fmt | _ \<Rightarrow> (\<lambda>b. None))
      else number ptr (sp'\<lparr>base := 16\<rparr>))"
    unfolding sp'_def sp_def by (rule ext) (simp add: pointer_def Let_def split: pointee.splits)
  have none: "\<exists>r. texts (\<lambda>b. None) r" by (rule exI [of _ None]) (simp add: texts_def)
  have mac: "\<exists>r. texts (mac_address_string a spec fmt) r" for a
  proof (cases "length a < 6")
    case True
    then show ?thesis by (intro exI [of _ None]) (simp add: texts_def mac_address_string_def)
  next
    case False
    obtain t where "writes (string_c (Some (mac_text a fmt)) spec) t" using string_writes by blast
    with False show ?thesis by (intro exI [of _ "Some t"]) (simp add: texts_def writes_def mac_address_string_def)
  qed
  have sym: "\<exists>r. texts (symbol_string ptr spec) r"
  proof -
    have "symbol_string ptr spec = number ptr (spec\<lparr>field_width := 16, flags := flags spec OR (SPECIAL OR SMALL OR ZEROPAD), base := 16\<rparr>)"
      by (rule ext) (simp add: symbol_string_def)
    then show ?thesis using number_texts by metis
  qed
  have str: "\<exists>r. texts (\<lambda>b. Some (string_c s sp b)) r" for s sp using string_writes texts_Some by blast
  show ?thesis
    unfolding eq Let_def using none mac sym str resource_string_texts [of _ spec fmt] number_texts
    by (auto split: pointee.splits)
qed

lemma print_char_writes: "\<exists>t. writes (print_char spec c) t"
proof (cases "flags spec AND LEFT = 0")
  case True
  have "print_char spec c b = fold emit (replicate (char_pad (field_width spec)) (CHR '' '') @ [c] @
     replicate (char_pad (if 1 \<le> field_width spec \<or> field_width spec = - 32768 then 0 else s16 (field_width spec - 1))) (CHR '' '')) b" for b
    using True by (simp del: fold_replicate add: print_char_def Let_def)
  then show ?thesis unfolding writes_def by blast
next
  case False
  have "print_char spec c b = fold emit ([c] @ replicate (char_pad (field_width spec)) (CHR '' '')) b" for b
    using False by (simp del: fold_replicate add: print_char_def)
  then show ?thesis unfolding writes_def by blast
qed

section \<open>The loop\<close>

text \<open>The printer's state after the text \<open>t\<close>, for the buffer \<open>buf\<close>.\<close>

definition start :: "string \<Rightarrow> out" where
  "start buf = \<lparr>obuf = buf, opos = 0\<rparr>"

definition at_text :: "pstate \<Rightarrow> string \<Rightarrow> string \<Rightarrow> pstate" where
  "at_text st t buf = st\<lparr>pout := fold emit t (start buf)\<rparr>"

lemma opos_start [simp]: "opos (fold emit t (start buf)) = length t"
  by (simp add: start_def)

lemma at_text_sel [simp]:
  "pfmt (at_text st t buf) = pfmt st" "pspec (at_text st t buf) = pspec st" "pargs (at_text st t buf) = pargs st"
  "pcounts (at_text st t buf) = pcounts st" "pout (at_text st t buf) = fold emit t (start buf)"
  by (simp_all add: at_text_def)

text \<open>One turn adds a text that does not depend on the buffer.\<close>

definition steps_to :: "(string \<Rightarrow> pstate option) \<Rightarrow> bool" where
  "steps_to f \<longleftrightarrow> (\<forall>buf. f buf = None) \<or> (\<exists>st' t'. \<forall>buf. f buf = Some (at_text st' t' buf))"

lemma steps_to_None: "steps_to (\<lambda>buf. None)"
  by (simp add: steps_to_def)

lemma steps_to_Some: "(\<And>buf. f buf = at_text st t buf) \<Longrightarrow> steps_to (\<lambda>buf. Some (f buf))"
  by (auto simp: steps_to_def)

lemma print_step_texts: "steps_to (\<lambda>buf. print_step (at_text st t buf))"
proof -
  obtain spec rest where d: "format_decode (pfmt st) (pspec st) = (spec, rest)" by (metis prod.exhaust)
  define st1 where "st1 = st\<lparr>pspec := spec, pfmt := rest\<rparr>"
  have wr: "steps_to (\<lambda>buf. Some (st2\<lparr>pout := g (fold emit t (start buf))\<rparr>))" if "writes g t'" for g t' st2
    using that by (intro steps_to_Some [of _ st2 "t @ t'"]) (simp add: at_text_def writes_def)
  have wo: "steps_to (\<lambda>buf. case f (fold emit t (start buf)) of Some b \<Rightarrow> Some (st2\<lparr>pout := b\<rparr>) | None \<Rightarrow> None)"
    if "texts f r" for f r st2
  proof (cases r)
    case None
    with that show ?thesis by (simp add: texts_def steps_to_None)
  next
    case (Some t')
    with that show ?thesis by (simp add: texts_def) (rule steps_to_Some [of _ st2 "t @ t'"], simp add: at_text_def)
  qed
  have num: ?thesis
    if ps: "\<And>buf. print_step (at_text st t buf) = (case pargs st of Int_arg v # as \<Rightarrow>
        (case number (read_num (ftype spec) v) spec (fold emit t (start buf)) of
           Some b \<Rightarrow> Some ((st1\<lparr>pargs := as\<rparr>)\<lparr>pout := b\<rparr>) | None \<Rightarrow> None) | _ \<Rightarrow> None)"
  proof (cases "\<exists>v as. pargs st = Int_arg v # as")
    case True
    then obtain v as where a: "pargs st = Int_arg v # as" by blast
    obtain r where "texts (number (read_num (ftype spec) v) spec) r" using number_texts by blast
    from wo [OF this, of "st1\<lparr>pargs := as\<rparr>"] show ?thesis unfolding ps a by simp
  next
    case False
    then show ?thesis
      unfolding ps by (cases "pargs st"; cases "hd (pargs st)") (auto simp: steps_to_None)
  qed
  show ?thesis
  proof (cases "ftype spec")
    case FORMAT_TYPE_NONE
    have "writes (copy_text (take (length (pfmt st) - length rest) (pfmt st))) (take (length (pfmt st) - length rest) (pfmt st))"
      by (simp add: writes_def copy_text_def)
    from wr [OF this, of st1] show ?thesis
      by (simp add: print_step_def d FORMAT_TYPE_NONE at_text_def st1_def Let_def)
  next
    case FORMAT_TYPE_WIDTH
    show ?thesis
    proof (cases "\<exists>v as. pargs st = Int_arg v # as")
      case True
      then obtain v as where a: "pargs st = Int_arg v # as" by blast
      have "print_step (at_text st t buf) = Some (at_text (st1\<lparr>pspec := spec\<lparr>field_width := s16 v\<rparr>, pargs := as\<rparr>) t buf)" for buf
        by (simp add: print_step_def d FORMAT_TYPE_WIDTH at_text_def st1_def a)
      then show ?thesis unfolding steps_to_def by blast
    next
      case False
      then show ?thesis
        by (cases "pargs st"; cases "hd (pargs st)") (auto simp: print_step_def d FORMAT_TYPE_WIDTH steps_to_None)
    qed
  next
    case FORMAT_TYPE_PRECISION
    show ?thesis
    proof (cases "\<exists>v as. pargs st = Int_arg v # as")
      case True
      then obtain v as where a: "pargs st = Int_arg v # as" by blast
      have "print_step (at_text st t buf) = Some (at_text (st1\<lparr>pspec := spec\<lparr>precision := s16 v\<rparr>, pargs := as\<rparr>) t buf)" for buf
        by (simp add: print_step_def d FORMAT_TYPE_PRECISION at_text_def st1_def a)
      then show ?thesis unfolding steps_to_def by blast
    next
      case False
      then show ?thesis
        by (cases "pargs st"; cases "hd (pargs st)") (auto simp: print_step_def d FORMAT_TYPE_PRECISION steps_to_None)
    qed
  next
    case FORMAT_TYPE_CHAR
    show ?thesis
    proof (cases "\<exists>v as. pargs st = Int_arg v # as")
      case True
      then obtain v as where a: "pargs st = Int_arg v # as" by blast
      obtain t' where "writes (print_char spec (char_of (nat (v mod 256)))) t'" using print_char_writes by blast
      note w = wr [OF this, of "st1\<lparr>pargs := as\<rparr>"]
      have "print_step (at_text st t buf) = Some ((st1\<lparr>pargs := as\<rparr>)\<lparr>pout := print_char spec (char_of (nat (v mod 256))) (fold emit t (start buf))\<rparr>)" for buf
        by (simp add: print_step_def d FORMAT_TYPE_CHAR at_text_def st1_def a)
      with w show ?thesis by simp
    next
      case False
      then show ?thesis
        by (cases "pargs st"; cases "hd (pargs st)") (auto simp: print_step_def d FORMAT_TYPE_CHAR steps_to_None)
    qed
  next
    case FORMAT_TYPE_STR
    show ?thesis
    proof (cases "\<exists>s as. pargs st = Str_arg s # as")
      case True
      then obtain s as where a: "pargs st = Str_arg s # as" by blast
      obtain t' where "writes (string_c s spec) t'" using string_writes by blast
      note w = wr [OF this, of "st1\<lparr>pargs := as\<rparr>"]
      have "print_step (at_text st t buf) = Some ((st1\<lparr>pargs := as\<rparr>)\<lparr>pout := string_c s spec (fold emit t (start buf))\<rparr>)" for buf
        by (simp add: print_step_def d FORMAT_TYPE_STR at_text_def st1_def a)
      with w show ?thesis by simp
    next
      case False
      then show ?thesis
        by (cases "pargs st"; cases "hd (pargs st)") (auto simp: print_step_def d FORMAT_TYPE_STR steps_to_None)
    qed
  next
    case FORMAT_TYPE_PTR
    show ?thesis
    proof (cases "\<exists>p dt as. pargs st = Ptr_arg p dt # as")
      case True
      then obtain p dt as where a: "pargs st = Ptr_arg p dt # as" by blast
      obtain r where "texts (pointer (drop 1 rest) p dt spec) r" using pointer_texts by blast
      note w = wo [OF this, of "st1\<lparr>pargs := as, pfmt := dropWhile isalnum rest\<rparr>"]
      have "print_step (at_text st t buf) = (case pointer (drop 1 rest) p dt spec (fold emit t (start buf)) of
          Some b \<Rightarrow> Some ((st1\<lparr>pargs := as, pfmt := dropWhile isalnum rest\<rparr>)\<lparr>pout := b\<rparr>) | None \<Rightarrow> None)" for buf
        by (simp add: print_step_def d FORMAT_TYPE_PTR at_text_def st1_def a split: option.split)
      with w show ?thesis by simp
    next
      case False
      then show ?thesis
        by (cases "pargs st"; cases "hd (pargs st)") (auto simp: print_step_def d FORMAT_TYPE_PTR steps_to_None)
    qed
  next
    case FORMAT_TYPE_PERCENT_CHAR
    have "writes (emit (CHR 0x25)) [CHR 0x25]" by (simp add: writes_def)
    from wr [OF this, of st1] show ?thesis by (simp add: print_step_def d FORMAT_TYPE_PERCENT_CHAR at_text_def st1_def)
  next
    case FORMAT_TYPE_INVALID
    have "writes (emit (CHR 0x25)) [CHR 0x25]" by (simp add: writes_def)
    from wr [OF this, of st1] show ?thesis by (simp add: print_step_def d FORMAT_TYPE_INVALID at_text_def st1_def)
  next
    case FORMAT_TYPE_NRCHARS
    show ?thesis
    proof (cases "\<exists>as. pargs st = Out_arg # as")
      case True
      then obtain as where a: "pargs st = Out_arg # as" by blast
      have "print_step (at_text st t buf) = Some (at_text (st1\<lparr>pcounts := pcounts st @ [length t], pargs := as\<rparr>) t buf)" for buf
        by (simp add: print_step_def d FORMAT_TYPE_NRCHARS at_text_def st1_def a start_def)
      then show ?thesis unfolding steps_to_def by blast
    next
      case False
      then show ?thesis
        by (cases "pargs st"; cases "hd (pargs st)") (auto simp: print_step_def d FORMAT_TYPE_NRCHARS steps_to_None)
    qed
  next
    case FORMAT_TYPE_LONG_LONG
    show ?thesis by (rule num) (simp add: print_step_def d FORMAT_TYPE_LONG_LONG at_text_def st1_def split: option.split list.split arg.split)
  next
    case FORMAT_TYPE_ULONG
    show ?thesis by (rule num) (simp add: print_step_def d FORMAT_TYPE_ULONG at_text_def st1_def split: option.split list.split arg.split)
  next
    case FORMAT_TYPE_LONG
    show ?thesis by (rule num) (simp add: print_step_def d FORMAT_TYPE_LONG at_text_def st1_def split: option.split list.split arg.split)
  next
    case FORMAT_TYPE_UBYTE
    show ?thesis by (rule num) (simp add: print_step_def d FORMAT_TYPE_UBYTE at_text_def st1_def split: option.split list.split arg.split)
  next
    case FORMAT_TYPE_BYTE
    show ?thesis by (rule num) (simp add: print_step_def d FORMAT_TYPE_BYTE at_text_def st1_def split: option.split list.split arg.split)
  next
    case FORMAT_TYPE_USHORT
    show ?thesis by (rule num) (simp add: print_step_def d FORMAT_TYPE_USHORT at_text_def st1_def split: option.split list.split arg.split)
  next
    case FORMAT_TYPE_SHORT
    show ?thesis by (rule num) (simp add: print_step_def d FORMAT_TYPE_SHORT at_text_def st1_def split: option.split list.split arg.split)
  next
    case FORMAT_TYPE_UINT
    show ?thesis by (rule num) (simp add: print_step_def d FORMAT_TYPE_UINT at_text_def st1_def split: option.split list.split arg.split)
  next
    case FORMAT_TYPE_INT
    show ?thesis by (rule num) (simp add: print_step_def d FORMAT_TYPE_INT at_text_def st1_def split: option.split list.split arg.split)
  next
    case FORMAT_TYPE_SIZE_T
    show ?thesis by (rule num) (simp add: print_step_def d FORMAT_TYPE_SIZE_T at_text_def st1_def split: option.split list.split arg.split)
  next
    case FORMAT_TYPE_PTRDIFF
    show ?thesis by (rule num) (simp add: print_step_def d FORMAT_TYPE_PTRDIFF at_text_def st1_def split: option.split list.split arg.split)
  qed
qed


lemma print_loop_texts:
  assumes "print_loop (at_text st t buf) = Some st'"
  shows "\<exists>st1 t1. \<forall>buf'. print_loop (at_text st t buf') = Some (at_text st1 t1 buf')"
proof -
  have "s = at_text st t buf \<longrightarrow> (\<exists>st1 t1. \<forall>buf'. print_loop (at_text st t buf') = Some (at_text st1 t1 buf'))"
    if "print_loop s = Some r" for s r st t
    using that
  proof (induction arbitrary: st t rule: print_loop.raw_induct [rotated, consumes 1, case_names step])
    case (step loop s r st t)
    show ?case
    proof (intro impI)
      assume s: "s = at_text st t buf"
      show "\<exists>st1 t1. \<forall>buf'. print_loop (at_text st t buf') = Some (at_text st1 t1 buf')"
      proof (cases "pfmt st = []")
        case True
        then have "print_loop (at_text st t buf') = Some (at_text st t buf')" for buf'
          by (subst print_loop.simps) simp
        then show ?thesis by blast
      next
        case False
        with step(2) s obtain s1 where s1: "print_step s = Some s1" "loop s1 = Some r"
          by (auto split: bind_splits)
        with print_step_texts [of st t] s obtain st1 t1 where p: "\<And>buf'. print_step (at_text st t buf') = Some (at_text st1 t1 buf')"
          unfolding steps_to_def by fastforce
        then have "s1 = at_text st1 t1 buf" using s1(1) s by simp
        with step(1) [OF s1(2)] obtain st2 t2 where "\<And>buf'. print_loop (at_text st1 t1 buf') = Some (at_text st2 t2 buf')"
          by blast
        then have "print_loop (at_text st t buf') = Some (at_text st2 t2 buf')" for buf'
          using False p by (subst print_loop.simps) simp
        then show ?thesis by blast
      qed
    qed
  qed
  with assms show ?thesis by blast
qed

text \<open>The part of a text that a buffer holds, with its NUL; the rest of the buffer is as before.\<close>

definition fit_text :: "string \<Rightarrow> string \<Rightarrow> string" where
  "fit_text t buf = (if buf = [] then [] else
     let m = min (length t) (length buf - 1) in take m t @ NUL # drop (m + 1) buf)"

lemma fit_buf:
  assumes "b = fold emit t (start buf)" "n = length (obuf b)"
  shows "(if n = 0 then obuf b else if opos b < n then (obuf b)[opos b := NUL] else (obuf b)[n - 1 := NUL]) = fit_text t buf"
proof -
  have b: "obuf b = take (length buf) t @ drop (length t) buf" "opos b = length t" "n = length buf"
    using assms by (simp_all add: start_def obuf_fold)
  consider "buf = []" | "buf \<noteq> []" "length t < length buf" | "buf \<noteq> []" "length buf \<le> length t" by linarith
  then show ?thesis
  proof cases
    case 2
    then obtain x xs where "drop (length t) buf = x # xs" by (metis drop_eq_Nil leD list.exhaust)
    moreover from this have "drop (Suc (length t)) buf = xs" by (metis drop_Suc list.sel(3) tl_drop)
    moreover have "min (length t) (length buf - 1) = length t" using 2 by linarith
    ultimately show ?thesis using 2 by (simp add: b fit_text_def Let_def list_update_append)
  next
    case 3
    then obtain k where k: "length buf = Suc k" by (cases buf) auto
    with 3 have "take (Suc k) t = take k t @ [t ! k]" by (simp add: take_Suc_conv_app_nth)
    with 3 k show ?thesis by (simp add: b fit_text_def Let_def list_update_append min_def)
  qed (simp add: b fit_text_def)
qed

lemma vsnprintf_text:
  assumes "vsnprintf buf fmt args = Some (r, res, ns)" "length buf < 2147483648"
  shows "\<exists>t. \<forall>buf'. length buf' < 2147483648 \<longrightarrow> vsnprintf buf' fmt args = Some (s32 (int (length t)), fit_text t buf', ns)"
proof -
  define st0 where "st0 = \<lparr>pfmt = fmt, pspec = zero_spec, pargs = args, pout = start [], pcounts = []\<rparr>"
  have v: "vsnprintf buf' fmt args = (do { st \<leftarrow> print_loop (at_text st0 [] buf');
      Some (s32 (int (opos (pout st))), (if length (obuf (pout st)) = 0 then obuf (pout st)
         else if opos (pout st) < length (obuf (pout st)) then (obuf (pout st))[opos (pout st) := NUL]
         else (obuf (pout st))[length (obuf (pout st)) - 1 := NUL]), pcounts st) })" if "length buf' < 2147483648" for buf'
    using that by (simp add: vsnprintf_def st0_def at_text_def start_def Let_def cong: if_cong)
  from assms obtain st1 where "print_loop (at_text st0 [] buf) = Some st1" unfolding v [OF assms(2)]
    by (auto split: bind_splits)
  from print_loop_texts [OF this] obtain st2 t where p: "\<And>buf'. print_loop (at_text st0 [] buf') = Some (at_text st2 t buf')"
    by blast
  have "vsnprintf buf' fmt args = Some (s32 (int (length t)), fit_text t buf', pcounts st2)" if "length buf' < 2147483648" for buf'
    unfolding v [OF that] p Option.bind.simps at_text_sel fit_buf [OF refl refl] by (simp add: start_def)
  moreover from this [OF assms(2)] assms(1) have "pcounts st2 = ns" by simp
  ultimately show ?thesis by blast
qed

text \<open>The loop with a bound on its turns, for evaluation.\<close>

fun print_run :: "nat \<Rightarrow> pstate \<Rightarrow> pstate option" where
  "print_run 0 st = None"
| "print_run (Suc n) st =
     (if pfmt st = [] then Some st else case print_step st of None \<Rightarrow> None | Some s \<Rightarrow> print_run n s)"

lemma print_run_loop: "print_run n st = Some s \<Longrightarrow> print_loop st = Some s"
proof (induction n arbitrary: st)
  case (Suc n)
  then show ?case by (subst print_loop.simps) (auto split: if_splits option.splits)
qed simp

definition print_end :: "pstate \<Rightarrow> int \<times> string \<times> nat list" where
  "print_end st =
     (let out = pout st; n = length (obuf out);
          res = (if n = 0 then obuf out else if opos out < n then (obuf out)[opos out := NUL] else (obuf out)[n - 1 := NUL])
      in (s32 (int (opos out)), res, pcounts st))"

lemma vsnprintf_run:
  assumes "map_option print_end (print_run n \<lparr>pfmt = fmt, pspec = zero_spec, pargs = args,
      pout = \<lparr>obuf = buf, opos = 0\<rparr>, pcounts = []\<rparr>) = Some r"
    and "length buf < 2147483648"
  shows "vsnprintf buf fmt args = Some r"
proof -
  obtain st where st: "print_run n \<lparr>pfmt = fmt, pspec = zero_spec, pargs = args,
      pout = \<lparr>obuf = buf, opos = 0\<rparr>, pcounts = []\<rparr> = Some st" "print_end st = r"
    using assms(1) by auto
  show ?thesis
    using assms(2) st(2) by (simp add: vsnprintf_def print_run_loop [OF st(1)] print_end_def Let_def cong: if_cong)
qed



text \<open>
  C36: \<^verbatim>\<open>kasprintf\<close> measures the text with an empty buffer first; the block it then asks for holds the whole
  text and its NUL exactly, whatever was in the block.
\<close>

theorem kasprintf_exact:
  assumes r: "kasprintf mem fmt args = Some (Some res)" and m: "\<And>n p. mem n = Some p \<Longrightarrow> length p = n"
    and small: "vsnprintf [] fmt args = Some (len, [], ns)" "0 \<le> len" "len < 2147483647"
  shows "\<exists>t. res = take (nat len) t @ [NUL] \<and> s32 (int (length t)) = len \<and>
    (\<forall>buf. length buf < 2147483648 \<longrightarrow> vsnprintf buf fmt args = Some (len, fit_text t buf, ns))"
proof -
  obtain t where t: "\<And>buf'. length buf' < 2147483648 \<Longrightarrow> vsnprintf buf' fmt args = Some (s32 (int (length t)), fit_text t buf', ns)"
    using vsnprintf_text [OF small(1)] by auto
  have len: "s32 (int (length t)) = len" using t [of "[]"] small(1) by simp
  have n: "nat (u32 len + 1) = Suc (nat len)" using small(2,3) by simp
  from r small(1) obtain p where p: "mem (Suc (nat len)) = Some p" "(do { (_, res, _) \<leftarrow> vsnprintf p fmt args; Some (Some res) }) = Some (Some res)"
    by (auto simp: kasprintf_def kvasprintf_def n split: option.splits)
  have lp: "length p = Suc (nat len)" using m [OF p(1)] .
  then have small_p: "length p < 2147483648" using small(2,3) by simp
  have "res = fit_text t p" using p(2) t [OF small_p] by simp
  moreover have "nat len \<le> length t"
    using zmod_le_nonneg_dividend [of "int (length t) + 2147483648" 4294967296] len unfolding s32_def by linarith
  then have "fit_text t p = take (nat len) t @ [NUL]" using lp by (cases p) (simp_all add: fit_text_def Let_def min_def)
  ultimately show ?thesis using len t by blast
qed

theorem kasprintf_exact_witness:
  "\<exists>res. kasprintf (\<lambda>n. Some (replicate n (CHR ''?''))) ''%s!'' [Str_arg (Some ''ab'')] = Some (Some res) \<and> res = ''ab!'' @ [NUL]"
proof -
  have v: "vsnprintf [] ''%s!'' [Str_arg (Some ''ab'')] = Some (3, [], [])"
    by (rule vsnprintf_run [of 3]) (code_simp, simp)
  have v4: "vsnprintf ''????'' ''%s!'' [Str_arg (Some ''ab'')] = Some (3, ''ab!'' @ [NUL], [])"
    by (rule vsnprintf_run [of 3]) (code_simp, simp)
  have k: "kasprintf (\<lambda>n. Some (replicate n (CHR ''?''))) ''%s!'' [Str_arg (Some ''ab'')] = Some (Some (''ab!'' @ [NUL]))"
  proof -
    have 4: "nat (u32 3 + 1) = 4" "replicate 4 (CHR ''?'') = ''????''" by (simp, simp add: numeral_eq_Suc)
    show ?thesis unfolding kasprintf_def kvasprintf_def v Option.bind.simps prod.case 4 option.case v4 by (rule refl)
  qed
  from kasprintf_exact [OF k _ v] show ?thesis using k by simp
qed

end
