(* ===== verification/NumberProps.thy ===== *)
theory NumberProps
  imports VsprintfProps
begin

text \<open>
  Numbers printed and read back: the decimal, octal and hexadecimal conversions of \<^verbatim>\<open>number\<close> against the
  parsers of \<^verbatim>\<open>simple_strtoul\<close>, \<^verbatim>\<open>memparse\<close> and \<^verbatim>\<open>get_option\<close>.
\<close>

section \<open>Decimal digits\<close>

lemma code_digit_char: "0 \<le> d \<Longrightarrow> d \<le> 9 \<Longrightarrow> code (digit_char d) = d + 48"
  by (simp add: code_def digit_char_def)

fun lsb_value :: "int \<Rightarrow> string \<Rightarrow> int" where
  "lsb_value b [] = 0"
| "lsb_value b (c # cs) = digit_value c + b * lsb_value b cs"

lemma digit_value_char: "0 \<le> d \<Longrightarrow> d \<le> 9 \<Longrightarrow> digit_value (digit_char d) = d \<and> isdigit (digit_char d)"
  by (simp add: digit_value_def isdigit_iff code_digit_char)

lemma div10_205: "0 \<le> x \<Longrightarrow> x \<le> 339 \<Longrightarrow> drop_bit 11 (x * 0xcd) = x div (10 :: int)"
proof -
  assume x: "0 \<le> x" "x \<le> 339"
  have "x * 205 = 2048 * (x div 10) + (2 * (x div 10) + 205 * (x mod 10))"
    using div_mult_mod_eq [of x 10] by linarith
  moreover have "0 \<le> 2 * (x div 10) + 205 * (x mod 10)" "2 * (x div 10) + 205 * (x mod 10) < 2048"
    using x div_mult_mod_eq [of x 10] pos_mod_bound [of 10 x] pos_mod_sign [of 10 x] by linarith+
  ultimately have "x * 205 div 2048 = x div 10" by (rule int_div_pos_eq)
  then show ?thesis by (simp add: drop_bit_eq_div)
qed

lemma div10_13: "0 \<le> x \<Longrightarrow> x \<le> 63 \<Longrightarrow> drop_bit 7 (x * 0xd) = x div (10 :: int)"
proof -
  assume x: "0 \<le> x" "x \<le> 63"
  have "x * 13 = 128 * (x div 10) + (2 * (x div 10) + 13 * (x mod 10))"
    using div_mult_mod_eq [of x 10] by linarith
  moreover have "0 \<le> 2 * (x div 10) + 13 * (x mod 10)" "2 * (x div 10) + 13 * (x mod 10) < 128"
    using x div_mult_mod_eq [of x 10] pos_mod_bound [of 10 x] pos_mod_sign [of 10 x] by linarith+
  ultimately have "x * 13 div 128 = x div 10" by (rule int_div_pos_eq)
  then show ?thesis by (simp add: drop_bit_eq_div)
qed

text \<open>The digits by multiplication are the decimal digits.\<close>

lemma put_dec_trunc_digits:
  assumes q: "0 \<le> q" "q < 100000"
  shows "lsb_value 10 (put_dec_trunc q) = q \<and> (\<forall>c\<in>set (put_dec_trunc q). isdigit c) \<and> put_dec_trunc q \<noteq> [] \<and>
    (0 < q \<longrightarrow> last (put_dec_trunc q) \<noteq> CHR ''0'')"
proof -
  define e1 e2 e3 r where "e1 = drop_bit 4 q AND 0xf" and "e2 = drop_bit 8 q AND 0xf" and "e3 = drop_bit 12 q"
    and "r = q AND 0xf"
  have and15: "y AND 15 = y mod 16" for y :: int
    using take_bit_eq_mask [of 4 y] by (simp add: take_bit_eq_mod mask_eq_exp_minus_1)
  have e: "0 \<le> e1" "e1 \<le> 15" "0 \<le> e2" "e2 \<le> 15" "0 \<le> e3" "e3 \<le> 24" "0 \<le> r" "r \<le> 15"
    "q = 4096 * e3 + 256 * e2 + 16 * e1 + r"
  proof -
    have 0: "q div 256 = q div 16 div 16" "q div 4096 = q div 16 div 16 div 16"
      by (simp_all add: zdiv_zmult2_eq [symmetric])
    have E: "e1 = q div 16 mod 16" "e2 = q div 16 div 16 mod 16" "e3 = q div 16 div 16 div 16" "r = q mod 16"
      by (simp_all add: e1_def e2_def e3_def r_def and15 drop_bit_eq_div 0)
    show "q = 4096 * e3 + 256 * e2 + 16 * e1 + r"
      unfolding E
      using div_mult_mod_eq [of q 16] div_mult_mod_eq [of "q div 16" 16] div_mult_mod_eq [of "q div 16 div 16" 16]
      by linarith
  qed (use q in \<open>simp_all add: e1_def e2_def e3_def r_def and15 drop_bit_eq_div\<close>)
  define d0 where "d0 = 6 * (e3 + e2 + e1) + r"
  define q0 where "q0 = d0 div 10"
  define d1 where "d1 = q0 + 9 * e3 + 5 * e2 + e1"
  define q1 where "q1 = d1 div 10"
  define d2 where "d2 = q1 + 2 * e2"
  define q2 where "q2 = d2 div 10"
  define d3 where "d3 = q2 + 4 * e3"
  define q3 where "q3 = d3 div 10"
  have b: "0 \<le> d0" "d0 \<le> 339" "0 \<le> q0" "q0 \<le> 33" "0 \<le> d1" "d1 \<le> 339" "0 \<le> q1" "q1 \<le> 33"
    "0 \<le> d2" "d2 \<le> 63" "0 \<le> q2" "q2 \<le> 6" "0 \<le> d3" "d3 \<le> 102" "0 \<le> q3" "q3 \<le> 10"
    using e by (simp_all add: d0_def q0_def d1_def q1_def d2_def q2_def d3_def q3_def)
  have s: "drop_bit 11 (d0 * 0xcd) = q0" "drop_bit 11 (d1 * 0xcd) = q1" "drop_bit 7 (d2 * 0xd) = q2"
    "drop_bit 11 (d3 * 0xcd) = q3"
    using b by (simp_all add: div10_205 div10_13 q0_def q1_def q2_def q3_def)
  have m: "d0 - 10 * q0 = d0 mod 10" "d1 - 10 * q1 = d1 mod 10" "d2 - 10 * q2 = d2 mod 10" "d3 - 10 * q3 = d3 mod 10"
    by (simp_all add: q0_def q1_def q2_def q3_def minus_mult_div_eq_mod)
  have val: "q = d0 mod 10 + 10 * (d1 mod 10) + 100 * (d2 mod 10) + 1000 * (d3 mod 10) + 10000 * q3"
    unfolding m [symmetric] unfolding d3_def d2_def d1_def d0_def using e(9) by (simp add: algebra_simps)
  have q3: "q3 \<le> 9" using val q b by (smt (verit) pos_mod_sign)
  have trunc: "put_dec_trunc q = (let c0 = digit_char (d0 mod 10) in if d1 = 0 then [c0] else
     let c1 = digit_char (d1 mod 10) in if d2 = 0 \<and> e3 = 0 then [c0, c1] else
     let c2 = digit_char (d2 mod 10) in if d3 = 0 then [c0, c1, c2] else
     let c3 = digit_char (d3 mod 10) in if q3 \<noteq> 0 then [c0, c1, c2, c3, digit_char q3] else [c0, c1, c2, c3])"
    unfolding put_dec_trunc_def Let_def e1_def [symmetric] e2_def [symmetric] e3_def [symmetric] r_def [symmetric]
      d0_def [symmetric] s d1_def [symmetric] d2_def [symmetric] d3_def [symmetric] m by (rule refl)
  have dv: "digit_value (digit_char (y mod 10)) = y mod 10" "isdigit (digit_char (y mod 10))" for y
    using digit_value_char [of "y mod 10"] by simp_all
  have dv3: "digit_value (digit_char q3) = q3" "isdigit (digit_char q3)" using digit_value_char [of q3] b q3 by simp_all
  have nz: "digit_char (y mod 10) \<noteq> CHR ''0''" if "y mod 10 \<noteq> 0" for y
  proof
    assume "digit_char (y mod 10) = CHR ''0''"
    then have "code (digit_char (y mod 10)) = 48" by (simp add: code_def)
    then show False using that by (simp add: code_digit_char)
  qed
  have nz3: "digit_char q3 \<noteq> CHR ''0''" if "q3 \<noteq> 0"
    using nz [of q3] that b(15) q3 by simp
  have d3z: "d3 = 0 \<Longrightarrow> e3 = 0 \<and> q2 = 0 \<and> q3 = 0" using b e by (simp add: d3_def q3_def)
  have lt: "y mod 10 = y" if "0 \<le> y" "y div 10 = 0" for y :: int using that div_mult_mod_eq [of y 10] by linarith
  consider (a) "d1 = 0" | (b) "d1 \<noteq> 0" "d2 = 0" "e3 = 0" | (c) "d1 \<noteq> 0" "\<not> (d2 = 0 \<and> e3 = 0)" "d3 = 0"
    | (d) "d1 \<noteq> 0" "\<not> (d2 = 0 \<and> e3 = 0)" "d3 \<noteq> 0" "q3 = 0" | (e) "d1 \<noteq> 0" "\<not> (d2 = 0 \<and> e3 = 0)" "d3 \<noteq> 0" "q3 \<noteq> 0"
    by blast
  then show ?thesis
  proof cases
    case a
    then have "q0 = 0" "e3 = 0" "e2 = 0" "q1 = 0" using b e by (simp_all add: d1_def q1_def)
    then have z: "d2 = 0" "q2 = 0" "d3 = 0" "q3 = 0" by (simp_all add: d2_def q2_def d3_def q3_def)
    with a show ?thesis unfolding trunc using val nz [of d0] by (auto simp: Let_def dv)
  next
    case b
    then have "q1 = 0" "q2 = 0" "d3 = 0" "q3 = 0" using \<open>0 \<le> q1\<close> e by (simp_all add: d2_def q2_def d3_def q3_def)
    with b show ?thesis unfolding trunc using val nz [of d1] dv [of d1] lt [of d1] \<open>0 \<le> d1\<close> by (auto simp: Let_def dv q1_def)
  next
    case c
    with d3z have "e3 = 0" "q2 = 0" "q3 = 0" by auto
    with c show ?thesis unfolding trunc using val nz [of d2] dv [of d2] lt [of d2] \<open>0 \<le> d2\<close> by (auto simp: Let_def dv q2_def)
  next
    case d
    then show ?thesis unfolding trunc using val nz [of d3] dv [of d3] lt [of d3] \<open>0 \<le> d3\<close> by (auto simp: Let_def dv q3_def)
  next
    case e
    then show ?thesis unfolding trunc using val nz3 by (auto simp: Let_def dv dv3)
  qed
qed


section \<open>Digits of a power of two\<close>

lemma code_inj: "code a = code b \<longleftrightarrow> a = b"
  by (auto simp: code_def)

lemma or_case_digits:
  assumes "locase = 0 \<or> locase = 32" "d < 16"
  shows "isxdigit (or_case (digits ! d) locase) \<and> digit_value (or_case (digits ! d) locase) = int d"
proof -
  have cd: "map code digits = [48, 49, 50, 51, 52, 53, 54, 55, 56, 57, 65, 66, 67, 68, 69, 70]"
    by (simp add: digits_def code_def)
  then have n: "length digits = 16" by (simp add: digits_def)
  have c: "code (digits ! d) = map code digits ! d" using assms(2) n by simp
  have o: "code (or_case (digits ! d) locase) = int (nat (code (digits ! d) OR locase) mod 256)"
    by (simp add: code_def or_case_def of_char_of)
  have "d \<in> {0, 1, 2, 3, 4, 5, 6, 7, 8, 9, 10, 11, 12, 13, 14, 15}" using assms(2) unfolding insert_iff empty_iff by presburger
  then show ?thesis
    using assms(1)
    unfolding isxdigit_iff isdigit_iff digit_value_def o c cd TOLOWER_def insert_iff empty_iff
    by (elim disjE; simp add: u32_def)
qed

lemma put_pow2_digits:
  assumes "0 \<le> num" "shift = 3 \<or> shift = 4" "locase = 0 \<or> locase = 32"
  shows "lsb_value (2 ^ shift) (put_pow2 shift locase num) = num \<and>
    (\<forall>c\<in>set (put_pow2 shift locase num). isxdigit c \<and> digit_value c < 2 ^ shift) \<and> put_pow2 shift locase num \<noteq> []"
  using assms(1)
proof (induction "nat num" arbitrary: num rule: less_induct)
  case less
  define c where "c = or_case (digits ! nat (num AND (2 ^ shift - 1))) locase"
  have sh: "0 < shift" "(2::int) ^ shift \<le> 16" "1 < (2::int) ^ shift" using assms(2) by auto
  have m: "num AND (2 ^ shift - 1) = num mod 2 ^ shift"
    using take_bit_eq_mask [of shift num] by (simp add: take_bit_eq_mod mask_eq_exp_minus_1)
  have r: "0 \<le> num mod 2 ^ shift" "num mod 2 ^ shift < 2 ^ shift" using sh by simp_all
  then have "nat (num mod 2 ^ shift) < 16" using sh(2) by linarith
  then have c: "isxdigit c" "digit_value c = num mod 2 ^ shift"
    using or_case_digits [OF assms(3), of "nat (num mod 2 ^ shift)"] r(1) unfolding c_def m by auto
  show ?case
  proof (cases "0 < drop_bit shift num")
    case True
    define n' where "n' = drop_bit shift num"
    have "0 < num" using True less.prems by (cases "num = 0") auto
    then have "nat n' < nat num" "0 \<le> n'"
      using True int_div_less_self [of num "2 ^ shift"] sh(3) by (simp_all add: n'_def drop_bit_eq_div)
    note IH = less.hyps [OF this]
    have e: "put_pow2 shift locase num = c # put_pow2 shift locase n'"
      using True sh(1) by (subst put_pow2.simps) (simp add: c_def n'_def)
    have "num mod 2 ^ shift + 2 ^ shift * n' = num" by (simp add: n'_def drop_bit_eq_div)
    then show ?thesis unfolding e using IH c r by simp
  next
    case False
    have e: "put_pow2 shift locase num = [c]" using False by (subst put_pow2.simps) (simp add: c_def)
    have "num div 2 ^ shift = 0"
      using False less.prems pos_imp_zdiv_nonneg_iff [of "2 ^ shift" num] by (simp add: drop_bit_eq_div)
    then have "num mod 2 ^ shift = num" using div_mult_mod_eq [of num "2 ^ shift"] by simp
    then show ?thesis unfolding e using c r by simp
  qed
qed


section \<open>Reading digits\<close>

text \<open>The value that the parser gives to a run of digits.\<close>

definition msb_value :: "int \<Rightarrow> string \<Rightarrow> int" where
  "msb_value b ds = foldl (\<lambda>a c. a * b + digit_value c) 0 ds"

lemma msb_value_rev: "msb_value b (rev ds) = lsb_value b ds"
proof -
  have "foldl (\<lambda>a c. a * b + digit_value c) 0 (rev ds) = lsb_value b ds"
    by (induction ds) (auto simp: mult.commute)
  then show ?thesis by (simp add: msb_value_def)
qed

definition stops :: "int \<Rightarrow> string \<Rightarrow> bool" where
  "stops b s \<longleftrightarrow> (s = [] \<or> \<not> isxdigit (hd s) \<or> b \<le> digit_value (hd s))"

lemma u64_step: "u64 (u64 x * b + v) = u64 (x * b + v)"
  unfolding u64_def by (metis mod_add_left_eq mod_mult_left_eq)

lemma strtoull_loop_digits:
  assumes "\<forall>c\<in>set ds. isxdigit c \<and> digit_value c < b" "stops b rest"
  shows "strtoull_loop b (ds @ rest) (u64 r) = (u64 (foldl (\<lambda>a c. a * b + digit_value c) r ds), rest)"
  using assms(1)
proof (induction ds arbitrary: r)
  case Nil
  show ?case using assms(2) by (cases rest) (auto simp: stops_def)
next
  case (Cons c ds)
  then show ?case by (simp add: u64_step)
qed

lemma digit_value_dec: "isdigit c \<Longrightarrow> isxdigit c \<and> 0 \<le> digit_value c \<and> digit_value c < 10"
  by (auto simp: isdigit_iff isxdigit_iff digit_value_def)

lemma stops_not_digit: "s = [] \<or> \<not> isdigit (hd s) \<Longrightarrow> stops 10 s"
proof -
  assume "s = [] \<or> \<not> isdigit (hd s)"
  moreover have "10 \<le> digit_value (hd s)" if "isxdigit (hd s)" "\<not> isdigit (hd s)"
  proof -
    define n where "n = code (hd s)"
    have "65 \<le> n \<and> n \<le> 70 \<or> 97 \<le> n \<and> n \<le> 102" using that by (auto simp: isxdigit_iff isdigit_iff n_def)
    then have "n \<in> {65, 66, 67, 68, 69, 70, 97, 98, 99, 100, 101, 102}" by auto
    moreover have "\<forall>n \<in> {65, 66, 67, 68, 69, 70, 97, 98, 99, 100, 101, 102}. 10 \<le> u32 (TOLOWER n - 97 + 10)"
      by code_simp
    ultimately show ?thesis using that(2) by (auto simp: digit_value_def n_def)
  qed
  ultimately show ?thesis by (auto simp: stops_def)
qed

text \<open>A conversion without width, precision and flags.\<close>

definition plain_spec :: "int \<Rightarrow> int \<Rightarrow> printf_spec" where
  "plain_spec b fl = \<lparr>ftype = FORMAT_TYPE_ULONG, flags = fl, base = b, qualifier = 255, field_width = - 1, precision = - 1\<rparr>"

lemma pad_neg: "pad c w b = (s16 (w - 1), b)" if "s16 (w - 1) < 0"
  using that by (subst pad.simps) simp

text \<open>The digits of a number, most significant first.\<close>

definition digit_text :: "int \<Rightarrow> int \<Rightarrow> int \<Rightarrow> string" where
  "digit_text b fl n = (if n = 0 then ''0'' else if b = 10 then rev (put_dec_trunc n)
     else rev (put_pow2 (if b = 16 then 4 else 3) fl n))"

lemma number_plain:
  assumes n: "0 \<le> n" "n < (if b = 10 then 100000 else 18446744073709551616)" and b: "b \<in> {8, 10, 16}" and fl: "fl = 0 \<or> fl = 32"
  shows "number n (plain_spec b fl) out = Some (fold emit (digit_text b fl n) out)"
proof -
  have fs: "fl AND SPECIAL = 0" "fl AND SIGN = 0" "fl AND LEFT = 0" "fl AND (ZEROPAD + LEFT) = 0" "fl AND ZEROPAD = 0" "fl AND SMALL = fl"
    using fl by (auto simp: SPECIAL_def SIGN_def LEFT_def ZEROPAD_def SMALL_def)
  define tmp where "tmp = rev (digit_text b fl n)"
  have t: "number_digits (plain_spec b fl) n = Some tmp"
  proof -
    have "put_dec [] n = Some (put_dec_trunc n)" if "b = 10" using n that by (subst put_dec.simps) simp
    then show ?thesis using n b fs by (auto simp: number_digits_def plain_spec_def tmp_def digit_text_def)
  qed
  have len: "length tmp \<le> 30000"
  proof -
    have p: "length (put_pow2 s l m) \<le> 64" if "0 \<le> m" "m < 2 ^ 64" "s = 3 \<or> s = 4" for s l m
    proof -
      have "length (put_pow2 s l m) \<le> Suc k" if "0 \<le> m" "m < 2 ^ Suc k" for k m using that
      proof (induction k arbitrary: m)
        case 0
        then have "drop_bit s m \<le> 0" using \<open>s = 3 \<or> s = 4\<close> by (auto simp: drop_bit_eq_div)
        then show ?case by (subst put_pow2.simps) simp
      next
        case (Suc k)
        have "0 \<le> drop_bit s m" "drop_bit s m < 2 ^ Suc k"
        proof -
          show "0 \<le> drop_bit s m" using Suc.prems by simp
          have "m div 2 ^ s \<le> m div 2" using \<open>s = 3 \<or> s = 4\<close> Suc.prems by (intro zdiv_mono2) auto
          also have "\<dots> < 2 ^ Suc k" using Suc.prems by simp
          finally show "drop_bit s m < 2 ^ Suc k" by (simp add: drop_bit_eq_div)
        qed
        from Suc.IH [OF this] show ?case by (subst put_pow2.simps) (simp add: Let_def)
      qed
      from this [of m 63] that show ?thesis by simp
    qed
    have "length (put_dec_trunc m) \<le> 5" for m by (simp add: put_dec_trunc_def Let_def)
    from this [of n] have "length (put_dec_trunc n) \<le> 30000" by linarith
    moreover have "length (put_pow2 (if b = 16 then 4 else 3) fl n) \<le> 30000" if "b \<noteq> 10"
      using p [of n "if b = 16 then 4 else 3" fl] n that by auto
    ultimately show ?thesis by (simp add: tmp_def digit_text_def)
  qed
  have w: "s16 (- 1 - int (length tmp)) < 0" "s16 (s16 (- 1 - int (length tmp)) - 1) < 0"
    "s16 (s16 (s16 (- 1 - int (length tmp)) - 1) - 1) < 0" "s16 (s16 (s16 (s16 (- 1 - int (length tmp)) - 1) - 1) - 1) < 0"
    using len by (simp_all add: s16_def)
  have "number n (plain_spec b fl) out = Some (fold emit (rev tmp) out)"
    using fs w t by (simp add: number_def Let_def plain_spec_def pad_neg)
  then show ?thesis by (simp add: tmp_def)
qed

end
