(* ===== verification/NumberParse.thy ===== *)
theory NumberParse
  imports NumberProps
begin

text \<open>
  The parsers against the printer: what \<^verbatim>\<open>number\<close> prints is read back by \<^verbatim>\<open>simple_strtoul\<close>, which decimal
  numbers cannot be printed at all, and what the command-line parsers \<^verbatim>\<open>memparse\<close> and \<^verbatim>\<open>get_option\<close> return.
\<close>

section \<open>Values of digit runs\<close>

lemma digit_text_digits:
  assumes n: "0 \<le> n" "n < (if b = 10 then 100000 else 18446744073709551616)" and b: "b \<in> {8, 10, 16}" and fl: "fl = 0 \<or> fl = 32"
  shows "msb_value b (digit_text b fl n) = n \<and> (\<forall>c\<in>set (digit_text b fl n). isxdigit c \<and> digit_value c < b)"
proof (cases "n = 0")
  case True
  have "isxdigit (CHR ''0'')" "digit_value (CHR ''0'') = 0" by (simp_all add: isxdigit_iff isdigit_iff digit_value_def code_def)
  then show ?thesis using True b by (auto simp: digit_text_def msb_value_def)
next
  case n0: False
  show ?thesis
  proof (cases "b = 10")
    case True
    then show ?thesis using put_dec_trunc_digits [of n] n n0 digit_value_dec
      by (auto simp: digit_text_def msb_value_rev)
  next
    case False
    define s :: nat where "s = (if b = 16 then 4 else 3)"
    have s: "s = 3 \<or> s = 4" "b = 2 ^ s" using b False by (auto simp: s_def)
    have t: "digit_text b fl n = rev (put_pow2 s fl n)" using n0 False by (simp add: digit_text_def s_def)
    show ?thesis unfolding t msb_value_rev set_rev using put_pow2_digits [OF n(1) s(1) fl] s(2) by auto
  qed
qed

lemma u64_0: "u64 0 = 0"
  by (simp add: u64_def)

lemma strtoull_loop_msb:
  "\<forall>c\<in>set ds. isxdigit c \<and> digit_value c < b \<Longrightarrow> stops b rest \<Longrightarrow>
     strtoull_loop b (ds @ rest) 0 = (u64 (msb_value b ds), rest)"
  using strtoull_loop_digits [of ds b rest 0] by (simp add: u64_0 msb_value_def)

lemma no_upper_x: "TOLOWER (code c) \<noteq> code (CHR ''X'')"
proof
  assume "TOLOWER (code c) = code (CHR ''X'')"
  then have "code c OR 32 = 88" by (simp add: TOLOWER_def code_def)
  then have "bit (code c OR 32) 5 = bit (88 :: int) 5" by simp
  then show False by (simp add: bit_or_iff)
qed

lemma vsprintf_strtoull_loop: "b \<noteq> 0 \<Longrightarrow> vsprintf_strtoull s b = strtoull_loop b s 0"
  by (simp add: vsprintf_strtoull_def no_upper_x)

section \<open>Printing and reading back\<close>

text \<open>
  C37: a number that is printed without width, precision and flags, in octal or hexadecimal (of either case), or in
  decimal below 100000, is read back by \<^verbatim>\<open>simple_strtoul\<close> in the same base, whatever non-digit text follows.
\<close>
theorem number_print_parse:
  assumes n: "0 \<le> n" "n < (if b = 10 then 100000 else 18446744073709551616)" and b: "b \<in> {8, 10, 16}" and fl: "fl = 0 \<or> fl = 32"
    and rest: "stops b rest"
  shows "\<exists>t. number n (plain_spec b fl) out = Some (copy_text t out) \<and> simple_strtoul (t @ rest) b = (n, rest)"
proof (intro exI conjI)
  show "number n (plain_spec b fl) out = Some (copy_text (digit_text b fl n) out)"
    using number_plain [OF n b fl] by (simp add: copy_text_def)
  have "u64 n = n" using n by (intro u64_id) (auto split: if_splits)
  then show "simple_strtoul (digit_text b fl n @ rest) b = (n, rest)"
    using digit_text_digits [OF n b fl] b rest
    by (auto simp: simple_strtoul_def vsprintf_strtoull_loop strtoull_loop_msb)
qed

theorem number_print_parse_witness:
  "\<exists>t. number 0xBEEF (plain_spec 16 32) \<lparr>obuf = ''....'', opos = 0\<rparr> = Some (copy_text t \<lparr>obuf = ''....'', opos = 0\<rparr>) \<and>
     simple_strtoul (t @ '' end'') 16 = (0xBEEF, '' end'')"
proof (rule number_print_parse)
  show "stops 16 '' end''" by (simp add: stops_def isxdigit_iff code_def)
qed simp_all


section \<open>Decimal numbers that never end\<close>

lemma put_dec_returns_below: "put_dec buf num = Some r \<Longrightarrow> num < 100000"
proof (induct rule: put_dec.raw_induct [rotated, consumes 1, case_names step])
  case (step put_dec buf num r)
  then show ?case by (auto split: if_splits)
qed

lemma put_dec_diverges: "100000 \<le> num \<Longrightarrow> put_dec buf num = None"
  using put_dec_returns_below [of buf num] by (cases "put_dec buf num") auto

text \<open>
  C38: no decimal number from 100000 to the largest signed 64-bit value is ever printed: \<^verbatim>\<open>put_dec\<close> divides with a \<^verbatim>\<open>do_div\<close> that leaves the number as
  it is, so its loop never ends (and its digits run over the end of \<^verbatim>\<open>tmp\<close>); whatever the width, precision and flags.
\<close>
theorem decimal_print_diverges:
  assumes "100000 \<le> n" "n < 9223372036854775808" "base spec = 10"
  shows "number n spec out = None"
proof -
  have "signed64 n = n" using assms(1,2) by (simp add: signed64_def)
  moreover have "number_digits spec n = None"
    using assms put_dec_diverges [OF assms(1)] by (simp add: number_digits_def)
  ultimately show ?thesis using assms(1) by (simp add: number_def Let_def)
qed

theorem decimal_print_diverges_witness: "number 1048576 (plain_spec 10 0) \<lparr>obuf = '''', opos = 0\<rparr> = None"
  by (rule decimal_print_diverges) (simp_all add: plain_spec_def)


section \<open>Options of the command line\<close>

lemma decimal_guess: "ds \<noteq> [] \<Longrightarrow> hd ds \<noteq> CHR ''0'' \<Longrightarrow> string_guess_base (ds @ rest) = 10 \<and> vsprintf_guess_base (ds @ rest) = 10"
  by (cases ds) (auto simp: string_guess_base_def vsprintf_guess_base_def char_at_def)

lemma u64_push: "u64 (push_bit k (u64 x)) = u64 (push_bit k x)"
  unfolding u64_def push_bit_eq_mult by (metis mod_mult_left_eq)

text \<open>
  C39: \<^verbatim>\<open>memparse\<close> of a decimal number without a leading zero is its value, shifted by 10, 20 or 30 bits when the next
  character is a suffix, modulo \<open>2^64\<close>; the suffix is consumed with it.
\<close>
theorem memparse_decimal:
  assumes ds: "ds \<noteq> []" "\<forall>c\<in>set ds. isdigit c" "hd ds \<noteq> CHR ''0''" and rest: "rest = [] \<or> \<not> isdigit (hd rest)"
  shows "memparse (ds @ rest) = Some (u64 (push_bit (suffix_shift (char_at rest 0)) (msb_value 10 ds)),
           if suffix_shift (char_at rest 0) = 0 then rest else drop 1 rest)"
proof -
  have "strtoull_loop 10 (ds @ rest) 0 = (u64 (msb_value 10 ds), rest)"
    using ds(2) digit_value_dec stops_not_digit [OF rest] by (intro strtoull_loop_msb) auto
  then have p: "simple_strtoull (ds @ rest) 0 = Some (u64 (msb_value 10 ds), rest)"
    using decimal_guess [OF ds(1,3)] by (simp add: simple_strtoull_def)
  have k: "suffix_shift (char_at rest 0) \<in> {0, 10, 20, 30}" by (simp add: suffix_shift_def)
  have uu: "u64 (u64 x) = u64 x" for x using u64_push [of 0 x] by simp
  show ?thesis using k unfolding memparse_def p by (auto simp: Let_def u64_push uu push_bit_push_bit)
qed

theorem memparse_decimal_witness: "memparse ''64M'' = Some (67108864, [])"
  using memparse_decimal [of "''64''" "''M''"]
  by (simp add: isdigit_iff code_def suffix_shift_def char_at_def msb_value_def digit_value_def u64_def push_bit_eq_mult)

text \<open>
  A hexadecimal size on the command line is zero: \<^verbatim>\<open>memparse\<close> of \<^verbatim>\<open>0x\<close> and any text stops before the \<^verbatim>\<open>x\<close> with the
  value 0, because the lower-cased character is compared with an upper-case one.
\<close>
theorem memparse_hex_zero: "memparse (''0x'' @ s) = Some (0, ''x'' @ s)"
proof -
  have g: "string_guess_base (''0x'' @ s) = 8" by (simp add: string_guess_base_def char_at_def no_upper_x)
  have z: "isxdigit (CHR ''0'')" "digit_value (CHR ''0'') = 0" "\<not> isxdigit (CHR ''x'')"
    by (simp_all add: isxdigit_iff isdigit_iff digit_value_def code_def)
  have "simple_strtoull (''0x'' @ s) 0 = Some (0, ''x'' @ s)"
    unfolding simple_strtoull_def Let_def using g z by (simp add: u64_0)
  then show ?thesis unfolding memparse_def by (simp add: char_at_def suffix_shift_def)
qed

lemma s32_s64_u64: "s32 (signed64 (u64 x)) = s32 x"
proof -
  have "signed64 (u64 x) mod 18446744073709551616 = x mod 18446744073709551616" unfolding signed64_def u64_def
    by (simp add: mod_simps)
  then have "signed64 (u64 x) mod 4294967296 = x mod 4294967296"
    using mod_mod_cancel [of 4294967296 18446744073709551616 x] mod_mod_cancel [of 4294967296 18446744073709551616 "signed64 (u64 x)"]
    by simp
  then show ?thesis unfolding s32_def by (metis mod_add_left_eq)
qed

text \<open>
  C40: an integer option with a leading zero is read as hexadecimal by \<^verbatim>\<open>get_option\<close>, with or without an \<^verbatim>\<open>x\<close>:
  \<^verbatim>\<open>simple_guess_base\<close> lower-cases a truth value, which is never zero.
\<close>
theorem get_option_leading_zero:
  assumes ds: "\<forall>c\<in>set ds. isxdigit c \<and> digit_value c < 16" and rest: "stops 16 rest" "rest = [] \<or> hd rest \<notin> {CHR '','', CHR ''-''}"
  shows "get_option (''0'' @ ds @ rest) = (1, Some (s32 (msb_value 16 ds)), rest)"
proof -
  have z: "isxdigit (CHR ''0'')" "digit_value (CHR ''0'') = 0" by (simp_all add: isxdigit_iff isdigit_iff digit_value_def code_def)
  have g: "vsprintf_guess_base (''0'' @ ds @ rest) = 16"
    by (simp add: vsprintf_guess_base_def char_at_def TOLOWER_def or_eq_0_iff)
  have "strtoull_loop 16 ((''0'' @ ds) @ rest) 0 = (u64 (msb_value 16 (''0'' @ ds)), rest)"
    using ds rest(1) z by (intro strtoull_loop_msb) auto
  then have "simple_strtoul (''0'' @ ds @ rest) 0 = (u64 (msb_value 16 ds), rest)"
    using g z by (simp add: simple_strtoul_def vsprintf_strtoull_def no_upper_x msb_value_def)
  then have "simple_strtol (''0'' @ ds @ rest) 0 = (signed64 (u64 (msb_value 16 ds)), rest)"
    by (simp add: simple_strtol_def char_at_def)
  moreover have "char_at rest 0 \<noteq> CHR '',''" "char_at rest 0 \<noteq> CHR ''-''"
    using rest(2) by (cases rest; simp add: char_at_def)+
  ultimately show ?thesis by (simp add: get_option_def s32_s64_u64)
qed

theorem get_option_leading_zero_witness: "get_option ''010'' = (1, Some 16, [])"
  using get_option_leading_zero [of "''10''" "[]"]
  by (simp add: isxdigit_iff isdigit_iff code_def stops_def msb_value_def digit_value_def s32_def)

end
