(* ===== verification/Slub.thy ===== *)
theory Slub
  imports Freelist
begin

text \<open>
  The slab allocator, \<^verbatim>\<open>mm/slub.c\<close>: its data, the slab pages, the per-CPU and the partial slabs, allocation and
  release. The configuration has one CPU, one node, no \<^verbatim>\<open>CONFIG_SLUB_DEBUG\<close>, and \<^verbatim>\<open>CONFIG_SLUB_STATS\<close>; the
  bit locks are empty, the code runs with interrupts off, and \<^verbatim>\<open>BUG_ON\<close> only prints.

  A \<^verbatim>\<open>struct page *\<close> is its page frame number; a pointer to an object is its physical address, which
  \<^verbatim>\<open>phys_to_mem\<close> and \<^verbatim>\<open>mem_to_phys\<close> translate by an offset; \<^verbatim>\<open>NULL\<close> is 0. A \<^verbatim>\<open>struct kmem_cache *\<close> is a number.
  The fields of \<^verbatim>\<open>struct page\<close> that the allocator of pages uses for other purposes (\<^verbatim>\<open>inuse\<close> and \<^verbatim>\<open>objects\<close>
  share memory with \<^verbatim>\<open>_mapcount\<close>, \<^verbatim>\<open>slab\<close> with \<^verbatim>\<open>private\<close>, \<^verbatim>\<open>freelist\<close> with \<^verbatim>\<open>index\<close>) are a record of their own:
  a slab page is not in the hands of the page allocator, and \<^verbatim>\<open>__free_slab\<close> restores \<^verbatim>\<open>_mapcount\<close> (the
  operation \<open>po_reset\<close>) before it gives it back. The page allocator is reached through the operations of \<open>page_ops\<close>; a request that never
  returns is the result \<open>None\<close>.
\<close>

section \<open>Data\<close>

datatype stat_item =
  ALLOC_FASTPATH
| ALLOC_SLOWPATH
| FREE_FASTPATH
| FREE_SLOWPATH
| FREE_FROZEN
| FREE_ADD_PARTIAL
| FREE_REMOVE_PARTIAL
| ALLOC_FROM_PARTIAL
| ALLOC_SLAB
| ALLOC_REFILL
| FREE_SLAB
| CPUSLAB_FLUSH
| DEACTIVATE_FULL
| DEACTIVATE_EMPTY
| DEACTIVATE_TO_HEAD
| DEACTIVATE_TO_TAIL
| DEACTIVATE_REMOTE_FREES
| ORDER_FALLBACK

text \<open>\<^verbatim>\<open>struct kmem_cache\<close> with its \<^verbatim>\<open>kmem_cache_cpu\<close> (fields \<open>c_\<close>) and its \<^verbatim>\<open>kmem_cache_node\<close> (fields \<open>n_\<close>).\<close>

record kmem_cache =
  kc_flags :: int
  kc_size :: int
  kc_objsize :: int
  kc_offset :: int
  kc_oo :: int
  kc_max :: int
  kc_min :: int
  kc_allocflags :: int
  kc_refcount :: int
  kc_ctor :: bool
  kc_inuse :: int
  kc_align :: int
  kc_min_partial :: int
  c_freelist :: int
  c_page :: "int option"
  c_node :: int
  c_stat :: "stat_item \<Rightarrow> int"
  n_partial :: "int list"
  n_nr_partial :: int

record spage =
  sp_flags :: "64 word"
  sp_inuse :: int
  sp_objects :: int
  sp_private :: int
  sp_freelist :: int
  sp_lru_prev :: int

record 'z slub =
  smem :: "int \<Rightarrow> int"
  spg :: "int \<Rightarrow> spage"
  caches :: "nat \<Rightarrow> kmem_cache"
  pool :: 'z

record 'z page_ops =
  po_alloc :: "int \<Rightarrow> nat \<Rightarrow> 'z \<Rightarrow> (int option \<times> 'z) option"
  po_free :: "int \<Rightarrow> nat \<Rightarrow> 'z \<Rightarrow> 'z option"
  po_reset :: "int \<Rightarrow> 'z \<Rightarrow> 'z"
  po_put :: "int \<Rightarrow> 'z \<Rightarrow> 'z option"
  po_count :: "bool \<Rightarrow> int \<Rightarrow> int \<Rightarrow> 'z \<Rightarrow> 'z"
  po_allowed :: int

definition u16 :: "int \<Rightarrow> int" where "u16 x = x mod 65536"

definition PG_head_tail_mask :: "64 word" where
  "PG_head_tail_mask = flag PG_compound OR flag PG_reclaim"

definition PG_slub_frozen :: nat where "PG_slub_frozen = PG_active"

definition upd_cache :: "nat \<Rightarrow> (kmem_cache \<Rightarrow> kmem_cache) \<Rightarrow> 'z slub \<Rightarrow> 'z slub" where
  "upd_cache s f st = st\<lparr>caches := (caches st)(s := f (caches st s))\<rparr>"

definition upd_spage :: "int \<Rightarrow> (spage \<Rightarrow> spage) \<Rightarrow> 'z slub \<Rightarrow> 'z slub" where
  "upd_spage p f st = st\<lparr>spg := (spg st)(p := f (spg st p))\<rparr>"

definition upd_pool :: "('z \<Rightarrow> 'z) \<Rightarrow> 'z slub \<Rightarrow> 'z slub" where
  "upd_pool f st = st\<lparr>pool := f (pool st)\<rparr>"

definition PageSlab :: "spage \<Rightarrow> bool" where "PageSlab g \<longleftrightarrow> sp_flags g AND flag PG_slab \<noteq> 0"

definition PageSlubFrozen :: "spage \<Rightarrow> bool" where "PageSlubFrozen g \<longleftrightarrow> sp_flags g AND flag PG_slub_frozen \<noteq> 0"

definition PageHead :: "spage \<Rightarrow> bool" where "PageHead g \<longleftrightarrow> sp_flags g AND flag PG_compound \<noteq> 0"

definition PageTail :: "spage \<Rightarrow> bool" where
  "PageTail g \<longleftrightarrow> sp_flags g AND PG_head_tail_mask = PG_head_tail_mask"

definition SetFlag :: "nat \<Rightarrow> spage \<Rightarrow> spage" where "SetFlag k g = g\<lparr>sp_flags := sp_flags g OR flag k\<rparr>"

definition ClearFlag :: "nat \<Rightarrow> spage \<Rightarrow> spage" where "ClearFlag k g = g\<lparr>sp_flags := sp_flags g AND NOT (flag k)\<rparr>"

definition compound_head :: "int \<Rightarrow> 'z slub \<Rightarrow> int" where
  "compound_head p st = (if PageTail (spg st p) then sp_private (spg st p) else p)"

definition compound_order :: "int \<Rightarrow> 'z slub \<Rightarrow> nat" where
  "compound_order p st = (if \<not> PageHead (spg st p) then 0 else nat (sp_lru_prev (spg st (p + 1))))"

definition virt_to_head_page :: "int \<Rightarrow> 'z slub \<Rightarrow> int" where
  "virt_to_head_page x st = compound_head (drop_bit PAGE_SHIFT x) st"

definition page_start :: "int \<Rightarrow> int" where "page_start p = push_bit PAGE_SHIFT p"

definition NUMA_NO_NODE :: int where "NUMA_NO_NODE = - 1"

text \<open>There is one node.\<close>

definition page_to_nid :: "int \<Rightarrow> int" where "page_to_nid p = 0"

definition stat :: "nat \<Rightarrow> stat_item \<Rightarrow> 'z slub \<Rightarrow> 'z slub" where
  "stat s si st = upd_cache s (\<lambda>k. k\<lparr>c_stat := (c_stat k)(si := u32 (c_stat k si + 1))\<rparr>) st"

definition get_freepointer :: "nat \<Rightarrow> int \<Rightarrow> 'z slub \<Rightarrow> int" where
  "get_freepointer s obj st = smem st (obj + kc_offset (caches st s))"

definition set_freepointer :: "nat \<Rightarrow> int \<Rightarrow> int \<Rightarrow> 'z slub \<Rightarrow> 'z slub" where
  "set_freepointer s obj fp st = st\<lparr>smem := (smem st)(obj + kc_offset (caches st s) := fp)\<rparr>"

definition OO_SHIFT :: nat where "OO_SHIFT = 16"
definition OO_MASK :: int where "OO_MASK = push_bit OO_SHIFT 1 - 1"

definition oo_make :: "nat \<Rightarrow> int \<Rightarrow> int" where
  "oo_make order sz = u64 (push_bit OO_SHIFT (int order) + push_bit order PAGE_SIZE div sz)"

definition oo_order :: "int \<Rightarrow> nat" where "oo_order x = nat (drop_bit OO_SHIFT x)"
definition oo_objects :: "int \<Rightarrow> int" where "oo_objects x = x AND OO_MASK"

definition SLAB_RECLAIM_ACCOUNT :: int where "SLAB_RECLAIM_ACCOUNT = 0x20000"


section \<open>Slab pages\<close>

text \<open>\<^verbatim>\<open>current->reclaim_state\<close> is never set. The physical page is released with its compound order.\<close>

definition do_free_slab :: "'z page_ops \<Rightarrow> nat \<Rightarrow> int \<Rightarrow> 'z slub \<Rightarrow> 'z slub option" where
  "do_free_slab ops s page st =
     (let order = compound_order page st;
          pages = push_bit order 1;
          st = upd_pool (po_count ops (kc_flags (caches st s) AND SLAB_RECLAIM_ACCOUNT \<noteq> 0) page (- pages)) st;
          st = upd_spage page (ClearFlag PG_slab) st;
          st = upd_pool (po_reset ops page) st
      in map_option (\<lambda>z. st\<lparr>pool := z\<rparr>) (po_free ops page order (pool st)))"

text \<open>With \<^verbatim>\<open>SLAB_DESTROY_BY_RCU\<close> the code calls \<^verbatim>\<open>stop\<close>, an endless loop.\<close>

definition SLAB_DESTROY_BY_RCU :: int where "SLAB_DESTROY_BY_RCU = 0x80000"

definition discard_slab :: "'z page_ops \<Rightarrow> nat \<Rightarrow> int \<Rightarrow> 'z slub \<Rightarrow> 'z slub option" where
  "discard_slab ops s page st =
     (if kc_flags (caches st s) AND SLAB_DESTROY_BY_RCU \<noteq> 0 then None else do_free_slab ops s page st)"

definition add_partial :: "nat \<Rightarrow> int \<Rightarrow> bool \<Rightarrow> 'z slub \<Rightarrow> 'z slub" where
  "add_partial s page tail st =
     upd_cache s (\<lambda>k. k\<lparr>n_nr_partial := u64 (n_nr_partial k + 1),
       n_partial := (if tail then n_partial k @ [page] else page # n_partial k)\<rparr>) st"

definition remove_partial :: "nat \<Rightarrow> int \<Rightarrow> 'z slub \<Rightarrow> 'z slub" where
  "remove_partial s page st =
     upd_cache s (\<lambda>k. k\<lparr>n_partial := remove1 page (n_partial k), n_nr_partial := u64 (n_nr_partial k - 1)\<rparr>) st"

definition unfreeze_slab :: "'z page_ops \<Rightarrow> nat \<Rightarrow> int \<Rightarrow> bool \<Rightarrow> 'z slub \<Rightarrow> 'z slub option" where
  "unfreeze_slab ops s page tail st =
     (let st = upd_spage page (ClearFlag PG_slub_frozen) st in
      if sp_inuse (spg st page) \<noteq> 0
      then Some (if sp_freelist (spg st page) \<noteq> 0
                 then stat s (if tail then DEACTIVATE_TO_TAIL else DEACTIVATE_TO_HEAD) (add_partial s page tail st)
                 else stat s DEACTIVATE_FULL st)
      else let st = stat s DEACTIVATE_EMPTY st in
           if n_nr_partial (caches st s) < kc_min_partial (caches st s)
           then Some (add_partial s page True st)
           else discard_slab ops s page (stat s FREE_SLAB st))"

text \<open>The loop of \<^verbatim>\<open>deactive_slab\<close>, which gives the objects of the CPU back to the slab, with the variable \<^verbatim>\<open>tail\<close>.\<close>

partial_function (option) drain_cpu :: "nat \<Rightarrow> int \<Rightarrow> bool \<Rightarrow> 'z slub \<Rightarrow> (bool \<times> 'z slub) option" where
  "drain_cpu s page tail st =
     (let obj = c_freelist (caches st s) in
      if obj = 0 then Some (tail, st)
      else let st = upd_cache s (\<lambda>k. k\<lparr>c_freelist := get_freepointer s obj st\<rparr>) st;
               st = set_freepointer s obj (sp_freelist (spg st page)) st;
               st = upd_spage page (\<lambda>g. g\<lparr>sp_freelist := obj, sp_inuse := u16 (sp_inuse g - 1)\<rparr>) st
           in drain_cpu s page False st)"

declare drain_cpu.simps [code]

definition deactive_slab :: "'z page_ops \<Rightarrow> nat \<Rightarrow> 'z slub \<Rightarrow> 'z slub option" where
  "deactive_slab ops s st =
     (case c_page (caches st s) of
        None \<Rightarrow> None
      | Some page \<Rightarrow>
          do { let st = (if sp_freelist (spg st page) \<noteq> 0 then stat s DEACTIVATE_REMOTE_FREES st else st);
               (tail, st) \<leftarrow> drain_cpu s page True st;
               unfreeze_slab ops s page tail (upd_cache s (\<lambda>k. k\<lparr>c_page := None\<rparr>) st) })"

definition flush_slab :: "'z page_ops \<Rightarrow> nat \<Rightarrow> 'z slub \<Rightarrow> 'z slub option" where
  "flush_slab ops s st = deactive_slab ops s (stat s CPUSLAB_FLUSH st)"

text \<open>The first slab of the partial list; without locks the attempt to lock it succeeds.\<close>

definition get_partial :: "nat \<Rightarrow> 'z slub \<Rightarrow> int option \<times> 'z slub" where
  "get_partial s st =
     (let k = caches st s in
      if n_nr_partial k = 0 then (None, st)
      else case n_partial k of
             [] \<Rightarrow> (None, st)
           | page # _ \<Rightarrow> (Some page, upd_spage page (SetFlag PG_slub_frozen) (remove_partial s page st)))"


section \<open>New slabs\<close>

definition GFP_IO :: int where "GFP_IO = 0x40"
definition GFP_FS :: int where "GFP_FS = 0x80"
definition GFP_ZERO :: int where "GFP_ZERO = 0x8000"
definition GFP_THISNODE :: int where "GFP_THISNODE = 0x40000"
definition GFP_NOTRACK :: int where "GFP_NOTRACK = 0x200000"

definition GFP_RECLAIM_MASK :: int where
  "GFP_RECLAIM_MASK = GFP_WAIT OR GFP_HIGH OR GFP_IO OR GFP_FS OR GFP_NOWARN OR GFP_REPEAT OR GFP_NOFAIL OR
     GFP_NORETRY OR GFP_NOMEMALLOC"

definition GFP_CONSTRAINT_MASK :: int where "GFP_CONSTRAINT_MASK = GFP_HARDWALL OR GFP_THISNODE"

definition alloc_slab_page :: "'z page_ops \<Rightarrow> int \<Rightarrow> int \<Rightarrow> 'z slub \<Rightarrow> (int option \<times> 'z slub) option" where
  "alloc_slab_page ops fl oo st =
     map_option (\<lambda>(r, z). (r, st\<lparr>pool := z\<rparr>)) (po_alloc ops (fl OR GFP_NOTRACK) (oo_order oo) (pool st))"

definition allocate_slab :: "'z page_ops \<Rightarrow> nat \<Rightarrow> int \<Rightarrow> 'z slub \<Rightarrow> (int option \<times> 'z slub) option" where
  "allocate_slab ops s fl st =
     (let k = caches st s;
          fl = fl OR kc_allocflags k;
          alloc_gfp = (fl OR GFP_NOWARN OR GFP_NORETRY) AND NOT GFP_NOFAIL
      in do { (page, st) \<leftarrow> alloc_slab_page ops alloc_gfp (kc_oo k) st;
              (page, oo, st) \<leftarrow>
                (case page of
                   Some p \<Rightarrow> Some (Some p, kc_oo k, st)
                 | None \<Rightarrow> do { (page, st) \<leftarrow> alloc_slab_page ops fl (kc_min k) st;
                               Some (page, kc_min k, if page = None then st else stat s ORDER_FALLBACK st) });
              case page of
                None \<Rightarrow> Some (None, st)
              | Some p \<Rightarrow>
                  Some (Some p, upd_pool (po_count ops (kc_flags k AND SLAB_RECLAIM_ACCOUNT \<noteq> 0) p
                                    (push_bit (oo_order oo) 1))
                          (upd_spage p (\<lambda>g. g\<lparr>sp_objects := u16 (oo_objects oo)\<rparr>) st)) })"

text \<open>
  \<^verbatim>\<open>for_each_object\<close> with the body that links each object to the next; \<open>n\<close> objects are left, the
  constructor is client code, which does not change the free pointer of its object afterwards.
\<close>

fun link_objects :: "nat \<Rightarrow> nat \<Rightarrow> int \<Rightarrow> int \<Rightarrow> 'z slub \<Rightarrow> int \<times> 'z slub" where
  "link_objects 0 s p lst st = (lst, st)"
| "link_objects (Suc n) s p lst st =
     link_objects n s (p + kc_size (caches st s)) p (set_freepointer s lst p st)"

definition SLAB_POISON :: int where "SLAB_POISON = 0x800"

text \<open>\<^verbatim>\<open>memset\<close> with \<^verbatim>\<open>POISON_INUSE\<close> over the pages of the slab; the map \<open>smem\<close> has the word that starts at an address.\<close>

definition poison_slab :: "int \<Rightarrow> 'z slub \<Rightarrow> 'z slub" where
  "poison_slab p st =
     st\<lparr>smem := (\<lambda>a. if page_start p \<le> a \<and> a < page_start p + push_bit (compound_order p st) PAGE_SIZE
                  then 0x5a5a5a5a5a5a5a5a else smem st a)\<rparr>"

definition mk_slab :: "nat \<Rightarrow> int \<Rightarrow> 'z slub \<Rightarrow> 'z slub" where
  "mk_slab s p st =
     (let st = upd_spage p (\<lambda>g. SetFlag PG_slab (g\<lparr>sp_private := int s\<rparr>)) st;
          start = page_start p;
          st = (if kc_flags (caches st s) AND SLAB_POISON \<noteq> 0 then poison_slab p st else st);
          (lst, st) = link_objects (nat (sp_objects (spg st p))) s start start st;
          st = set_freepointer s lst 0 st
      in upd_spage p (\<lambda>g. g\<lparr>sp_freelist := start, sp_inuse := 0\<rparr>) st)"

definition new_slab :: "'z page_ops \<Rightarrow> nat \<Rightarrow> int \<Rightarrow> 'z slub \<Rightarrow> (int option \<times> 'z slub) option" where
  "new_slab ops s fl st =
     do { (page, st) \<leftarrow> allocate_slab ops s (fl AND (GFP_RECLAIM_MASK OR GFP_CONSTRAINT_MASK)) st;
          Some (page, case page of None \<Rightarrow> st | Some p \<Rightarrow> mk_slab s p st) }"


section \<open>Allocation\<close>

text \<open>The labels of \<^verbatim>\<open>__slab_alloc\<close>; a result 0 is \<^verbatim>\<open>NULL\<close>.\<close>

datatype slab_label = Load_freelist | Another_slab | New_slab

partial_function (option) slab_alloc_from ::
  "'z page_ops \<Rightarrow> nat \<Rightarrow> int \<Rightarrow> slab_label \<Rightarrow> 'z slub \<Rightarrow> (int \<times> 'z slub) option" where
  "slab_alloc_from ops s fl l st =
     (case l of
        Load_freelist \<Rightarrow>
          (case c_page (caches st s) of
             None \<Rightarrow> None
           | Some page \<Rightarrow>
               (let obj = sp_freelist (spg st page) in
                if obj = 0 then slab_alloc_from ops s fl Another_slab st
                else let st = upd_cache s (\<lambda>k. k\<lparr>c_freelist := get_freepointer s obj st\<rparr>) st;
                         st = upd_spage page (\<lambda>g. g\<lparr>sp_inuse := sp_objects g, sp_freelist := 0\<rparr>) st;
                         st = upd_cache s (\<lambda>k. k\<lparr>c_node := page_to_nid page\<rparr>) st
                     in Some (obj, stat s ALLOC_SLOWPATH st)))
      | Another_slab \<Rightarrow>
          do { st \<leftarrow> deactive_slab ops s st; slab_alloc_from ops s fl New_slab st }
      | New_slab \<Rightarrow>
          (let (new, st) = get_partial s st in
           case new of
             Some page \<Rightarrow>
               slab_alloc_from ops s fl Load_freelist
                 (stat s ALLOC_FROM_PARTIAL (upd_cache s (\<lambda>k. k\<lparr>c_page := Some page\<rparr>) st))
           | None \<Rightarrow>
               do { (new, st) \<leftarrow> new_slab ops s (fl AND po_allowed ops) st;
                    case new of
                      None \<Rightarrow> Some (0, st)
                    | Some page \<Rightarrow>
                        do { let st = stat s ALLOC_SLAB st;
                             st \<leftarrow> (if c_page (caches st s) \<noteq> None then flush_slab ops s st else Some st);
                             let st = upd_spage page (SetFlag PG_slub_frozen) st;
                             slab_alloc_from ops s (fl AND po_allowed ops) Load_freelist
                               (upd_cache s (\<lambda>k. k\<lparr>c_page := Some page\<rparr>) st) } }))"

declare slab_alloc_from.simps [code]

definition slab_alloc_slow :: "'z page_ops \<Rightarrow> nat \<Rightarrow> int \<Rightarrow> 'z slub \<Rightarrow> (int \<times> 'z slub) option" where
  "slab_alloc_slow ops s fl st =
     (let fl = fl AND NOT GFP_ZERO in
      if c_page (caches st s) = None then slab_alloc_from ops s fl New_slab st
      else slab_alloc_from ops s fl Load_freelist (stat s ALLOC_REFILL st))"

definition zero_object :: "nat \<Rightarrow> int \<Rightarrow> 'z slub \<Rightarrow> 'z slub" where
  "zero_object s x st =
     st\<lparr>smem := (\<lambda>a. if x \<le> a \<and> a < x + kc_objsize (caches st s) then 0 else smem st a)\<rparr>"

definition slab_alloc :: "'z page_ops \<Rightarrow> nat \<Rightarrow> int \<Rightarrow> 'z slub \<Rightarrow> (int \<times> 'z slub) option" where
  "slab_alloc ops s fl st =
     do { let obj = c_freelist (caches st s);
          (obj, st) \<leftarrow>
            (if obj = 0 then slab_alloc_slow ops s fl st
             else Some (obj, stat s ALLOC_FASTPATH (upd_cache s (\<lambda>k. k\<lparr>c_freelist := get_freepointer s obj st\<rparr>) st)));
          Some (obj, if fl AND GFP_ZERO \<noteq> 0 \<and> obj \<noteq> 0 then zero_object s obj st else st) }"

definition kmem_cache_alloc :: "'z page_ops \<Rightarrow> nat \<Rightarrow> int \<Rightarrow> 'z slub \<Rightarrow> (int \<times> 'z slub) option" where
  "kmem_cache_alloc ops s fl st = slab_alloc ops s fl st"


section \<open>Release\<close>

definition slab_free_slow :: "'z page_ops \<Rightarrow> nat \<Rightarrow> int \<Rightarrow> int \<Rightarrow> 'z slub \<Rightarrow> 'z slub option" where
  "slab_free_slow ops s page x st =
     (let st = stat s FREE_SLOWPATH st;
          prior = sp_freelist (spg st page);
          st = set_freepointer s x prior st;
          st = upd_spage page (\<lambda>g. g\<lparr>sp_freelist := x, sp_inuse := u16 (sp_inuse g - 1)\<rparr>) st
      in if PageSlubFrozen (spg st page) then Some (stat s FREE_FROZEN st)
         else if sp_inuse (spg st page) = 0
         then let st = (if prior \<noteq> 0 then stat s FREE_REMOVE_PARTIAL (remove_partial s page st) else st)
              in discard_slab ops s page (stat s FREE_SLAB st)
         else if prior = 0 then Some (stat s FREE_ADD_PARTIAL (add_partial s page True st))
         else Some st)"

definition slab_free :: "'z page_ops \<Rightarrow> nat \<Rightarrow> int \<Rightarrow> int \<Rightarrow> 'z slub \<Rightarrow> 'z slub option" where
  "slab_free ops s page x st =
     (let k = caches st s in
      if c_page k = Some page \<and> c_node k \<noteq> NUMA_NO_NODE
      then Some (stat s FREE_FASTPATH
             (upd_cache s (\<lambda>k. k\<lparr>c_freelist := x\<rparr>) (set_freepointer s x (c_freelist k) st)))
      else slab_free_slow ops s page x st)"

definition ZERO_SIZE_PTR :: int where "ZERO_SIZE_PTR = 16"

definition ZERO_OR_NULL_PTR :: "int \<Rightarrow> bool" where "ZERO_OR_NULL_PTR x \<longleftrightarrow> x \<le> ZERO_SIZE_PTR"

definition kfree :: "'z page_ops \<Rightarrow> int \<Rightarrow> 'z slub \<Rightarrow> 'z slub option" where
  "kfree ops x st =
     (if ZERO_OR_NULL_PTR x then Some st
      else let page = virt_to_head_page x st in
           if \<not> PageSlab (spg st page)
           then map_option (\<lambda>z. st\<lparr>pool := z\<rparr>) (po_put ops page (pool st))
           else slab_free ops (nat (sp_private (spg st page))) page x st)"

definition kmem_cache_free :: "'z page_ops \<Rightarrow> nat \<Rightarrow> int \<Rightarrow> 'z slub \<Rightarrow> 'z slub option" where
  "kmem_cache_free ops s x st = slab_free ops s (virt_to_head_page x st) x st"

end
