(* ===== verification/SlubInv.thy ===== *)
theory SlubInv
  imports Slub
begin

text \<open>
  The state of the slab allocator as what it stands for: for each cache the set of live objects. The free
  objects are on chains through the objects themselves, one per slab page and one for the CPU.
\<close>

section \<open>Chains\<close>

fun chain :: "(int \<Rightarrow> int) \<Rightarrow> int \<Rightarrow> int \<Rightarrow> int list \<Rightarrow> bool" where
  "chain m off x [] \<longleftrightarrow> x = 0"
| "chain m off x (y # ys) \<longleftrightarrow> x = y \<and> y \<noteq> 0 \<and> chain m off (m (y + off)) ys"

lemma chain_frame:
  "chain m off x ys \<Longrightarrow> (\<And>y. y \<in> set ys \<Longrightarrow> m' (y + off) = m (y + off)) \<Longrightarrow> chain m' off x ys"
  by (induction ys arbitrary: x) auto

lemma chain_upd [simp]: "y \<notin> set ys \<Longrightarrow> chain (m(y + off := v)) off x ys = chain m off x ys"
  by (induction ys arbitrary: x) auto

lemma chain_push: "chain m off x ys \<Longrightarrow> y \<noteq> 0 \<Longrightarrow> y \<notin> set ys \<Longrightarrow> chain (m(y + off := x)) off y (y # ys)"
  by simp

lemma chain_0 [simp]: "chain m off 0 ys \<longleftrightarrow> ys = []"
  by (cases ys) auto

lemma chain_nonzero: "chain m off x ys \<Longrightarrow> x \<noteq> 0 \<Longrightarrow> \<exists>zs. ys = x # zs \<and> chain m off (m (x + off)) zs"
  by (cases ys) auto

lemma chain_Nil_iff: "chain m off x ys \<Longrightarrow> ys = [] \<longleftrightarrow> x = 0"
  by (cases ys) auto


section \<open>Objects of a slab\<close>

definition objs :: "int \<Rightarrow> int \<Rightarrow> int \<Rightarrow> int set" where
  "objs sz p n = (\<lambda>i. page_start p + i * sz) ` {0..<n}"

lemma page_start_eq: "page_start p = p * 4096"
  by (simp add: page_start_def PAGE_SHIFT_def push_bit_eq_mult)

text \<open>The bytes of an object, and that those of different objects of a slab, or of two pages, are different.\<close>

lemma objs_range:
  assumes "x \<in> objs sz p n" "0 < sz" "n * sz \<le> 4096"
  shows "p * 4096 \<le> x" "x + sz \<le> p * 4096 + 4096"
proof -
  from assms(1) obtain i where "x = page_start p + i * sz" "i \<in> {0..<n}" unfolding objs_def by (rule imageE)
  then have i: "x = p * 4096 + i * sz" "0 \<le> i" "i < n" by (simp_all add: page_start_eq)
  then have "(i + 1) * sz \<le> n * sz" using assms(2) by (intro mult_right_mono) auto
  with i assms(2,3) show "p * 4096 \<le> x" "x + sz \<le> p * 4096 + 4096" by (simp_all add: algebra_simps)
qed

lemma objs_page:
  assumes "x \<in> objs sz p n" "0 < sz" "n * sz \<le> 4096" "0 \<le> a" "a < sz"
  shows "(x + a) div 4096 = p"
  using objs_range [OF assms(1-3)] assms(4,5) by (intro int_div_pos_eq [where r = "x + a - p * 4096"]) auto

lemma objs_apart:
  assumes "x \<in> objs sz p n" "y \<in> objs sz p n" "x \<noteq> y" "0 < sz" "0 \<le> a" "a < sz" "0 \<le> b" "b < sz"
  shows "x + a \<noteq> y + b"
proof
  assume e: "x + a = y + b"
  from assms(1) obtain i where i: "x = page_start p + i * sz" unfolding objs_def by (rule imageE)
  from assms(2) obtain j where "y = page_start p + j * sz" unfolding objs_def by (rule imageE)
  with i have ij: "x = page_start p + i * sz" "y = page_start p + j * sz" by auto
  then have d: "(i - j) * sz = b - a" using e by (simp add: algebra_simps)
  have "i = j"
  proof (rule ccontr)
    assume "i \<noteq> j"
    then consider "i - j \<ge> 1" | "i - j \<le> - 1" by linarith
    then have "sz \<le> \<bar>(i - j) * sz\<bar>"
    proof cases
      case 1
      then have "1 * sz \<le> (i - j) * sz" using assms(4) by (intro mult_right_mono) auto
      then show ?thesis by simp
    next
      case 2
      then have "(i - j) * sz \<le> - 1 * sz" using assms(4) by (intro mult_right_mono) auto
      then show ?thesis by simp
    qed
    then show False using d assms(5-8) by simp
  qed
  then show False using ij assms(3) by simp
qed


section \<open>The invariant\<close>

definition owner :: "'z slub \<Rightarrow> int \<Rightarrow> nat" where "owner st p = nat (sp_private (spg st p))"

definition obj_of :: "'z slub \<Rightarrow> int \<Rightarrow> int set" where
  "obj_of st p = objs (kc_size (caches st (owner st p))) p (sp_objects (spg st p))"

definition is_slab :: "'z slub \<Rightarrow> nat \<Rightarrow> int \<Rightarrow> bool" where
  "is_slab st s p \<longleftrightarrow> PageSlab (spg st p) \<and> sp_private (spg st p) = int s"

text \<open>The parameters of a cache whose slabs are single pages and whose objects hold their free pointer.\<close>

definition cache_wf :: "kmem_cache \<Rightarrow> bool" where
  "cache_wf k \<longleftrightarrow> 0 < kc_size k \<and> 0 \<le> kc_offset k \<and> kc_offset k < kc_size k \<and> 0 \<le> kc_objsize k \<and>
     kc_objsize k \<le> kc_size k \<and> oo_order (kc_oo k) = 0 \<and> oo_order (kc_min k) = 0 \<and>
     0 < oo_objects (kc_oo k) \<and> oo_objects (kc_oo k) * kc_size k \<le> 4096 \<and>
     0 < oo_objects (kc_min k) \<and> oo_objects (kc_min k) * kc_size k \<le> 4096 \<and>
     kc_flags k AND SLAB_DESTROY_BY_RCU = 0 \<and> kc_allocflags k AND (GFP_MOVABLE OR GFP_WAIT OR GFP_NOFAIL) = 0 \<and> c_node k \<noteq> NUMA_NO_NODE"

definition slab_ok :: "(int \<Rightarrow> int) \<Rightarrow> kmem_cache \<Rightarrow> spage \<Rightarrow> int \<Rightarrow> int list \<Rightarrow> int list \<Rightarrow> bool" where
  "slab_ok m k g p fl cl \<longleftrightarrow> 0 < p \<and> 0 < sp_objects g \<and> sp_objects g * kc_size k \<le> 4096 \<and>
     chain m (kc_offset k) (sp_freelist g) fl \<and> distinct (fl @ cl) \<and>
     set (fl @ cl) \<subseteq> objs (kc_size k) p (sp_objects g) \<and> sp_inuse g = sp_objects g - int (length fl)"

definition cpu_objs :: "'z slub \<Rightarrow> nat \<Rightarrow> int \<Rightarrow> (nat \<Rightarrow> int list) \<Rightarrow> int list" where
  "cpu_objs st s p C = (if c_page (caches st s) = Some p then C s else [])"

definition page_rep :: "'z slub \<Rightarrow> int set \<Rightarrow> (int \<Rightarrow> int list) \<Rightarrow> (nat \<Rightarrow> int list) \<Rightarrow> nat set \<Rightarrow> int \<Rightarrow> bool" where
  "page_rep st X F C A p \<longleftrightarrow>
     \<not> PageHead (spg st p) \<and> \<not> PageTail (spg st p) \<and>
     (PageSlab (spg st p) \<longrightarrow> 0 \<le> sp_private (spg st p) \<and> owner st p \<in> A \<and>
        slab_ok (smem st) (caches st (owner st p)) (spg st p) p (F p) (cpu_objs st (owner st p) p C)) \<and>
     (p \<notin> X \<longrightarrow> (PageSlubFrozen (spg st p) \<longleftrightarrow> PageSlab (spg st p) \<and> c_page (caches st (owner st p)) = Some p))"

definition cache_rep :: "'z slub \<Rightarrow> int set \<Rightarrow> (int \<Rightarrow> int list) \<Rightarrow> (nat \<Rightarrow> int list) \<Rightarrow> nat \<Rightarrow> bool" where
  "cache_rep st X F C s \<longleftrightarrow> cache_wf (caches st s) \<and>
     chain (smem st) (kc_offset (caches st s)) (c_freelist (caches st s)) (C s) \<and>
     (case c_page (caches st s) of None \<Rightarrow> C s = [] | Some p \<Rightarrow> is_slab st s p \<and> p \<notin> X) \<and>
     distinct (n_partial (caches st s)) \<and> n_nr_partial (caches st s) = u64 (int (length (n_partial (caches st s)))) \<and>
     (\<forall>p. p \<in> set (n_partial (caches st s)) \<longleftrightarrow>
        is_slab st s p \<and> c_page (caches st s) \<noteq> Some p \<and> p \<notin> X \<and> F p \<noteq> [])"

definition rep :: "nat set \<Rightarrow> int set \<Rightarrow> 'z slub \<Rightarrow> (int \<Rightarrow> int list) \<Rightarrow> (nat \<Rightarrow> int list) \<Rightarrow> bool" where
  "rep A X st F C \<longleftrightarrow> (\<forall>p. page_rep st X F C A p) \<and> (\<forall>s \<in> A. cache_rep st X F C s)"

text \<open>The live objects of a cache: the objects of its slabs that are on no chain.\<close>

definition slots :: "'z slub \<Rightarrow> nat \<Rightarrow> int set" where
  "slots st s = {x. is_slab st s (x div 4096) \<and>
     x \<in> objs (kc_size (caches st s)) (x div 4096) (sp_objects (spg st (x div 4096)))}"

definition live :: "'z slub \<Rightarrow> (int \<Rightarrow> int list) \<Rightarrow> (nat \<Rightarrow> int list) \<Rightarrow> nat \<Rightarrow> int set" where
  "live st F C s = {x \<in> slots st s. x \<notin> set (F (x div 4096)) \<and> x \<notin> set (C s)}"


section \<open>Parts of the state\<close>

lemma upd_sel [simp]:
  "smem (upd_cache s f st) = smem st" "spg (upd_cache s f st) = spg st" "pool (upd_cache s f st) = pool st"
  "caches (upd_cache s f st) t = (if t = s then f (caches st s) else caches st t)"
  "smem (upd_spage p g st) = smem st" "caches (upd_spage p g st) = caches st" "pool (upd_spage p g st) = pool st"
  "spg (upd_spage p g st) q = (if q = p then g (spg st p) else spg st q)"
  "smem (upd_pool h st) = smem st" "spg (upd_pool h st) = spg st" "caches (upd_pool h st) = caches st"
  "pool (upd_pool h st) = h (pool st)"
  "spg (set_freepointer s x v st) = spg st" "caches (set_freepointer s x v st) = caches st"
  "pool (set_freepointer s x v st) = pool st"
  "smem (set_freepointer s x v st) = (smem st)(x + kc_offset (caches st s) := v)"
  by (simp_all add: upd_cache_def upd_spage_def upd_pool_def set_freepointer_def)

lemma stat_sel [simp]:
  "smem (stat s i st) = smem st" "spg (stat s i st) = spg st" "pool (stat s i st) = pool st"
  "kc_flags (caches (stat s i st) t) = kc_flags (caches st t)" "kc_size (caches (stat s i st) t) = kc_size (caches st t)"
  "kc_objsize (caches (stat s i st) t) = kc_objsize (caches st t)" "kc_offset (caches (stat s i st) t) = kc_offset (caches st t)"
  "kc_oo (caches (stat s i st) t) = kc_oo (caches st t)" "kc_min (caches (stat s i st) t) = kc_min (caches st t)"
  "kc_allocflags (caches (stat s i st) t) = kc_allocflags (caches st t)"
  "kc_min_partial (caches (stat s i st) t) = kc_min_partial (caches st t)"
  "c_freelist (caches (stat s i st) t) = c_freelist (caches st t)" "c_page (caches (stat s i st) t) = c_page (caches st t)"
  "c_node (caches (stat s i st) t) = c_node (caches st t)" "n_partial (caches (stat s i st) t) = n_partial (caches st t)"
  "n_nr_partial (caches (stat s i st) t) = n_nr_partial (caches st t)"
  by (simp_all add: stat_def)

lemma owner_simps [simp]:
  "owner (stat s i st) = owner st" "owner (upd_cache s f st) = owner st" "owner (upd_pool h st) = owner st"
  "owner (set_freepointer s x v st) = owner st" "is_slab (stat s i st) = is_slab st"
  "is_slab (upd_cache s f st) = is_slab st" "is_slab (upd_pool h st) = is_slab st"
  "is_slab (set_freepointer s x v st) = is_slab st"
  "owner (st\<lparr>pool := z\<rparr>) = owner st" "is_slab (st\<lparr>pool := z\<rparr>) = is_slab st"
  by (simp_all add: owner_def is_slab_def fun_eq_iff)

lemma rep_stat [simp]: "rep A X (stat s i st) F C = rep A X st F C" "live (stat s i st) = live st"
  by (simp_all add: rep_def page_rep_def cache_rep_def cpu_objs_def slab_ok_def cache_wf_def live_def slots_def fun_eq_iff
      cong: option.case_cong)

lemma rep_pool [simp]: "rep A X (upd_pool h st) F C = rep A X st F C" "live (upd_pool h st) = live st"
  "rep A X (st\<lparr>pool := z\<rparr>) F C = rep A X st F C" "live (st\<lparr>pool := z\<rparr>) = live st"
  by (simp_all add: rep_def page_rep_def cache_rep_def cpu_objs_def slab_ok_def cache_wf_def live_def slots_def fun_eq_iff
      cong: option.case_cong)

lemma flag_simps [simp]:
  "PageSlab (SetFlag PG_slub_frozen g) = PageSlab g" "PageSlab (ClearFlag PG_slub_frozen g) = PageSlab g"
  "PageSlubFrozen (SetFlag PG_slub_frozen g)" "\<not> PageSlubFrozen (ClearFlag PG_slub_frozen g)"
  "PageSlab (SetFlag PG_slab g)" "\<not> PageSlab (ClearFlag PG_slab g)"
  "PageSlubFrozen (SetFlag PG_slab g) = PageSlubFrozen g" "PageSlubFrozen (ClearFlag PG_slab g) = PageSlubFrozen g"
  "PageHead (SetFlag PG_slab g) = PageHead g" "PageHead (ClearFlag PG_slab g) = PageHead g"
  "PageHead (SetFlag PG_slub_frozen g) = PageHead g" "PageHead (ClearFlag PG_slub_frozen g) = PageHead g"
  "PageTail (SetFlag PG_slab g) = PageTail g" "PageTail (ClearFlag PG_slab g) = PageTail g"
  "PageTail (SetFlag PG_slub_frozen g) = PageTail g" "PageTail (ClearFlag PG_slub_frozen g) = PageTail g"
proof -
  have e: "w AND flag k \<noteq> 0 \<longleftrightarrow> bit w k" for w k
    by (simp add: flag_def bit_iff_and_push_bit_not_eq_0)
  have nz: "flag 6 \<noteq> 0" "flag 7 \<noteq> 0" by (simp_all add: flag_def)
  have bf: "bit (flag k) n \<longleftrightarrow> n = k \<and> k < 64" for k n
    by (auto simp: flag_def bit_exp_iff)
  have m: "w AND PG_head_tail_mask = PG_head_tail_mask \<longleftrightarrow> bit w PG_compound \<and> bit w PG_reclaim" for w
  proof
    assume *: "w AND PG_head_tail_mask = PG_head_tail_mask"
    have "bit (w AND PG_head_tail_mask) PG_compound = bit PG_head_tail_mask PG_compound"
      "bit (w AND PG_head_tail_mask) PG_reclaim = bit PG_head_tail_mask PG_reclaim" by (simp_all only: *)
    then show "bit w PG_compound \<and> bit w PG_reclaim"
      by (simp add: PG_head_tail_mask_def bit_or_iff bit_and_iff bf PG_compound_def PG_reclaim_def)
  next
    assume "bit w PG_compound \<and> bit w PG_reclaim"
    then show "w AND PG_head_tail_mask = PG_head_tail_mask"
      by (intro bit_eqI) (auto simp: PG_head_tail_mask_def bit_or_iff bit_and_iff bf)
  qed
  have s: "bit (w OR flag k) j \<longleftrightarrow> bit w j \<or> j = k" if "j < 64" for w :: "64 word" and k j
    using that by (auto simp: flag_def bit_simps)
  have c: "bit (w AND NOT (flag k)) j \<longleftrightarrow> bit w j \<and> j \<noteq> k" if "j < 64" for w :: "64 word" and k j
    using that by (auto simp: flag_def bit_simps)
  show "PageSlab (SetFlag PG_slub_frozen g) = PageSlab g" "PageSlab (ClearFlag PG_slub_frozen g) = PageSlab g"
    "PageSlubFrozen (SetFlag PG_slub_frozen g)" "\<not> PageSlubFrozen (ClearFlag PG_slub_frozen g)"
    "PageSlab (SetFlag PG_slab g)" "\<not> PageSlab (ClearFlag PG_slab g)"
    "PageSlubFrozen (SetFlag PG_slab g) = PageSlubFrozen g" "PageSlubFrozen (ClearFlag PG_slab g) = PageSlubFrozen g"
    "PageHead (SetFlag PG_slab g) = PageHead g" "PageHead (ClearFlag PG_slab g) = PageHead g"
    "PageHead (SetFlag PG_slub_frozen g) = PageHead g" "PageHead (ClearFlag PG_slub_frozen g) = PageHead g"
    "PageTail (SetFlag PG_slab g) = PageTail g" "PageTail (ClearFlag PG_slab g) = PageTail g"
    "PageTail (SetFlag PG_slub_frozen g) = PageTail g" "PageTail (ClearFlag PG_slub_frozen g) = PageTail g"
    by (simp_all add: PageSlab_def PageSlubFrozen_def PageHead_def PageTail_def SetFlag_def ClearFlag_def e m s c nz
        PG_slab_def PG_slub_frozen_def PG_active_def PG_compound_def PG_reclaim_def)
qed

lemma flag_fields [simp]:
  "sp_inuse (SetFlag k g) = sp_inuse g" "sp_objects (SetFlag k g) = sp_objects g" "sp_private (SetFlag k g) = sp_private g"
  "sp_freelist (SetFlag k g) = sp_freelist g" "sp_inuse (ClearFlag k g) = sp_inuse g"
  "sp_objects (ClearFlag k g) = sp_objects g" "sp_private (ClearFlag k g) = sp_private g"
  "sp_freelist (ClearFlag k g) = sp_freelist g"
  by (simp_all add: SetFlag_def ClearFlag_def)

lemma flags_of_fields [simp]:
  "PageSlab (g\<lparr>sp_freelist := x\<rparr>) = PageSlab g" "PageSlab (g\<lparr>sp_inuse := i\<rparr>) = PageSlab g"
  "PageSlab (g\<lparr>sp_objects := n\<rparr>) = PageSlab g" "PageSlab (g\<lparr>sp_private := v\<rparr>) = PageSlab g"
  "PageSlubFrozen (g\<lparr>sp_freelist := x\<rparr>) = PageSlubFrozen g" "PageSlubFrozen (g\<lparr>sp_inuse := i\<rparr>) = PageSlubFrozen g"
  "PageSlubFrozen (g\<lparr>sp_objects := n\<rparr>) = PageSlubFrozen g" "PageSlubFrozen (g\<lparr>sp_private := v\<rparr>) = PageSlubFrozen g"
  "PageHead (g\<lparr>sp_freelist := x\<rparr>) = PageHead g" "PageHead (g\<lparr>sp_inuse := i\<rparr>) = PageHead g"
  "PageHead (g\<lparr>sp_objects := n\<rparr>) = PageHead g" "PageHead (g\<lparr>sp_private := v\<rparr>) = PageHead g"
  "PageTail (g\<lparr>sp_freelist := x\<rparr>) = PageTail g" "PageTail (g\<lparr>sp_inuse := i\<rparr>) = PageTail g"
  "PageTail (g\<lparr>sp_objects := n\<rparr>) = PageTail g" "PageTail (g\<lparr>sp_private := v\<rparr>) = PageTail g"
  by (simp_all add: PageSlab_def PageSlubFrozen_def PageHead_def PageTail_def)



section \<open>Changes of one page and one cache\<close>

lemma repD:
  assumes "rep A X st F C"
  shows "page_rep st X F C A p" "s \<in> A \<Longrightarrow> cache_rep st X F C s" "s \<in> A \<Longrightarrow> cache_wf (caches st s)"
  using assms by (simp_all add: rep_def cache_rep_def)

lemma slab_wf: "rep A X st F C \<Longrightarrow> PageSlab (spg st p) \<Longrightarrow> cache_wf (caches st (owner st p))"
  using repD(1) repD(3) by (fastforce simp: page_rep_def)

lemma is_slab_owner: "rep A X st F C \<Longrightarrow> is_slab st s p \<longleftrightarrow> PageSlab (spg st p) \<and> owner st p = s"
  using repD(1) [of A X st F C p] by (auto simp: is_slab_def owner_def page_rep_def)

lemma is_slab_slab_ok:
  assumes "rep A X st F C" "is_slab st s p"
  shows "slab_ok (smem st) (caches st s) (spg st p) p (F p) (cpu_objs st s p C)" "s \<in> A"
  using repD(1) [OF assms(1), of p] assms(2) is_slab_owner [OF assms(1), of s p] by (auto simp: page_rep_def)

text \<open>The free-pointer word of an object lies in its page.\<close>

lemma word_page:
  assumes "cache_wf k" "slab_ok m k g p fl cl" "y \<in> objs (kc_size k) p (sp_objects g)"
  shows "(y + kc_offset k) div 4096 = p"
  using assms objs_page [OF assms(3), of "kc_offset k"] by (simp add: cache_wf_def slab_ok_def)

lemma chain_local:
  assumes "cache_wf k" "slab_ok m k g p fl cl" "set ys \<subseteq> objs (kc_size k) p (sp_objects g)"
    and "\<And>a. a div 4096 = p \<Longrightarrow> m' a = m a"
  shows "chain m (kc_offset k) x ys \<Longrightarrow> chain m' (kc_offset k) x ys"
  by (erule chain_frame, rule assms(4), rule word_page [OF assms(1,2)], use assms(3) in blast)

definition confined :: "'z slub \<Rightarrow> 'z slub \<Rightarrow> nat \<Rightarrow> int \<Rightarrow> bool" where
  "confined st st' s q \<longleftrightarrow> (\<forall>p. p \<noteq> q \<longrightarrow> spg st' p = spg st p) \<and> (\<forall>t. t \<noteq> s \<longrightarrow> caches st' t = caches st t) \<and>
     (\<forall>a. a div 4096 \<noteq> q \<longrightarrow> smem st' a = smem st a) \<and>
     kc_size (caches st' s) = kc_size (caches st s) \<and> kc_offset (caches st' s) = kc_offset (caches st s) \<and>
     (\<forall>t. t \<noteq> s \<longrightarrow> \<not> is_slab st t q \<and> \<not> is_slab st' t q)"

lemma confined_sizes:
  "confined st st' s q \<Longrightarrow> kc_size (caches st' t) = kc_size (caches st t) \<and> kc_offset (caches st' t) = kc_offset (caches st t)"
  by (cases "t = s") (auto simp: confined_def)

lemma confined_slab: "confined st st' s q \<Longrightarrow> p \<noteq> q \<or> t \<noteq> s \<Longrightarrow> is_slab st' t p = is_slab st t p"
  by (cases "p = q") (auto simp: confined_def is_slab_def)

lemma rep_confined:
  assumes rep: "rep A X st F C" and loc: "confined st st' s q"
    and F: "\<And>p. p \<noteq> q \<Longrightarrow> F' p = F p" and C: "\<And>t. t \<noteq> s \<Longrightarrow> C' t = C t" and X: "\<And>p. p \<noteq> q \<Longrightarrow> p \<in> X' \<longleftrightarrow> p \<in> X"
    and cp: "\<And>p. p \<noteq> q \<Longrightarrow> c_page (caches st' s) = Some p \<longleftrightarrow> c_page (caches st s) = Some p"
    and cC: "\<And>p. p \<noteq> q \<Longrightarrow> c_page (caches st s) = Some p \<Longrightarrow> C' s = C s"
    and page: "page_rep st' X' F' C' A q" and cache: "cache_rep st' X' F' C' s"
  shows "rep A X' st' F' C'"
  unfolding rep_def
proof (intro conjI allI ballI)
  fix p
  show "page_rep st' X' F' C' A p"
  proof (cases "p = q")
    case False
    note P = repD(1) [OF rep, of p]
    have g: "spg st' p = spg st p" "owner st' p = owner st p" using loc False by (simp_all add: confined_def owner_def)
    let ?t = "owner st p"
    have k: "kc_size (caches st' ?t) = kc_size (caches st ?t)" "kc_offset (caches st' ?t) = kc_offset (caches st ?t)"
      using confined_sizes [OF loc] by simp_all
    have mem: "a div 4096 = p \<Longrightarrow> smem st' a = smem st a" for a using loc False by (auto simp: confined_def)
    have c: "c_page (caches st' ?t) = Some p \<longleftrightarrow> c_page (caches st ?t) = Some p"
      using cp [OF False] loc by (cases "?t = s") (auto simp: confined_def)
    have o: "cpu_objs st' ?t p C' = cpu_objs st ?t p C"
      using c C [of ?t] cC [OF False] by (cases "?t = s") (auto simp: cpu_objs_def)
    have "slab_ok (smem st') (caches st' ?t) (spg st p) p (F p) (cpu_objs st ?t p C)" if "PageSlab (spg st p)"
    proof -
      have ok: "slab_ok (smem st) (caches st ?t) (spg st p) p (F p) (cpu_objs st ?t p C)"
        using P that by (simp add: page_rep_def)
      have "chain (smem st) (kc_offset (caches st ?t)) (sp_freelist (spg st p)) (F p)" using ok by (simp add: slab_ok_def)
      then have "chain (smem st') (kc_offset (caches st ?t)) (sp_freelist (spg st p)) (F p)"
        using ok mem by (elim chain_local [OF slab_wf [OF rep that] ok, rotated -1]) (auto simp: slab_ok_def)
      then show ?thesis using ok k by (simp add: slab_ok_def)
    qed
    then show ?thesis
      using P unfolding page_rep_def g o c F [OF False] X [OF False] by blast
  qed (use page in simp)
next
  fix t
  assume t: "t \<in> A"
  show "cache_rep st' X' F' C' t"
  proof (cases "t = s")
    case False
    note R = repD(2) [OF rep t]
    have k: "caches st' t = caches st t" using loc False by (simp add: confined_def)
    have sl: "is_slab st' t p = is_slab st t p" for p using confined_slab [OF loc] False by simp
    have nq: "\<not> is_slab st t q" using loc False by (simp add: confined_def)
    have ch: "chain (smem st) (kc_offset (caches st t)) (c_freelist (caches st t)) (C t)" using R by (simp add: cache_rep_def)
    have "chain (smem st') (kc_offset (caches st t)) (c_freelist (caches st t)) (C t)"
    proof (cases "c_page (caches st t)")
      case None
      then show ?thesis using R by (auto simp: cache_rep_def)
    next
      case (Some p)
      then have p: "is_slab st t p" "p \<noteq> q" using R nq by (auto simp: cache_rep_def)
      have ok: "slab_ok (smem st) (caches st t) (spg st p) p (F p) (C t)"
        using is_slab_slab_ok [OF rep p(1)] Some by (simp add: cpu_objs_def)
      have "a div 4096 = p \<Longrightarrow> smem st' a = smem st a" for a using loc p(2) by (auto simp: confined_def)
      with ch ok show ?thesis by (elim chain_local [OF repD(3) [OF rep t] ok, rotated -1]) (auto simp: slab_ok_def)
    qed
    moreover have "is_slab st t p \<and> p \<notin> X' \<longleftrightarrow> is_slab st t p \<and> p \<notin> X" "is_slab st t p \<Longrightarrow> F' p = F p" for p
      using X [of p] F [of p] nq by (metis)+
    moreover have "is_slab st t p \<and> c \<and> p \<notin> X' \<and> F' p \<noteq> [] \<longleftrightarrow> is_slab st t p \<and> c \<and> p \<notin> X \<and> F p \<noteq> []" for p c
      using X [of p] F [of p] nq by metis
    ultimately show ?thesis
      using R unfolding cache_rep_def k sl C [OF False] by (auto split: option.splits)
  qed (use cache in simp)
qed

end
