(* ===== verification/SlubOps.thy ===== *)
theory SlubOps
  imports SlubInv
begin

text \<open>What the steps of the slab allocator do to the chains and to the live objects.\<close>

section \<open>Slots\<close>

lemma slots_eq:
  assumes "\<And>p. is_slab st' s p = is_slab st s p" "kc_size (caches st' s) = kc_size (caches st s)"
    "\<And>p. sp_objects (spg st' p) = sp_objects (spg st p)"
  shows "slots st' s = slots st s"
  using assms by (simp add: slots_def)

lemma slots_simps [simp]:
  "slots (set_freepointer s x v st) = slots st" "slots (stat s i st) = slots st"
  by (simp_all add: slots_def fun_eq_iff)

lemma slot_page:
  assumes "rep A X st F C" "is_slab st s p" "x \<in> objs (kc_size (caches st s)) p (sp_objects (spg st p))"
  shows "x div 4096 = p" "x \<in> slots st s"
proof -
  have "cache_wf (caches st s)" "slab_ok (smem st) (caches st s) (spg st p) p (F p) (cpu_objs st s p C)"
    using repD(3) [OF assms(1)] is_slab_slab_ok [OF assms(1,2)] by auto
  then show "x div 4096 = p" using objs_page [OF assms(3), of 0] by (simp add: cache_wf_def slab_ok_def)
  then show "x \<in> slots st s" using assms by (simp add: slots_def)
qed

lemma live_other:
  assumes "confined st st' s q" "t \<noteq> s" "\<And>p. p \<noteq> q \<Longrightarrow> F' p = F p" "C' t = C t"
  shows "live st' F' C' t = live st F C t"
proof -
  have q: "\<not> is_slab st t q" "\<not> is_slab st' t q" using assms(1,2) by (simp_all add: confined_def)
  have "x \<in> live st' F' C' t \<longleftrightarrow> x \<in> live st F C t" for x
  proof (cases "x div 4096 = q")
    case True
    then show ?thesis using q by (simp add: live_def slots_def)
  next
    case False
    then show ?thesis
      using assms(1,2,4) assms(3) [OF False] confined_slab [OF assms(1), of "x div 4096" t]
      by (auto simp: live_def slots_def confined_def)
  qed
  then show ?thesis by blast
qed

lemma u64_Suc: "u64 (u64 (int n) + 1) = u64 (int (Suc n))" "u64 (u64 (int (Suc n)) - 1) = u64 (int n)"
  "u64 (u64 (1 + int n) - 1) = u64 (int n)"
  by (simp_all add: u64_def mod_simps ac_simps)


lemma cache_repD:
  assumes "rep A X st F C" "s \<in> A"
  shows "cache_wf (caches st s)" "chain (smem st) (kc_offset (caches st s)) (c_freelist (caches st s)) (C s)"
    "c_page (caches st s) = None \<Longrightarrow> C s = []" "c_page (caches st s) = Some p \<Longrightarrow> is_slab st s p \<and> p \<notin> X"
    "distinct (n_partial (caches st s))" "n_nr_partial (caches st s) = u64 (int (length (n_partial (caches st s))))"
    "p \<in> set (n_partial (caches st s)) \<longleftrightarrow> is_slab st s p \<and> c_page (caches st s) \<noteq> Some p \<and> p \<notin> X \<and> F p \<noteq> []"
  using repD(2) [OF assms] by (auto simp: cache_rep_def split: option.splits)

text \<open>A page of a cache, with what its record and its chains say.\<close>

lemma cpu_page:
  assumes "rep A X st F C" "s \<in> A" "c_page (caches st s) = Some p"
  shows "is_slab st s p" "p \<notin> X" "slab_ok (smem st) (caches st s) (spg st p) p (F p) (C s)" "owner st p = s"
    "PageSlab (spg st p)" "PageSlubFrozen (spg st p)"
proof -
  show p: "is_slab st s p" "p \<notin> X" using cache_repD(4) [OF assms] by auto
  show "slab_ok (smem st) (caches st s) (spg st p) p (F p) (C s)"
    using is_slab_slab_ok [OF assms(1) p(1)] assms(3) by (simp add: cpu_objs_def)
  show o: "owner st p = s" "PageSlab (spg st p)" using p is_slab_owner [OF assms(1)] by auto
  show "PageSlubFrozen (spg st p)" using repD(1) [OF assms(1), of p] o p assms(3) by (simp add: page_rep_def)
qed

lemma confinedI:
  assumes "rep A X st F C" "is_slab st s q"
    "\<And>p. p \<noteq> q \<Longrightarrow> spg st' p = spg st p" "\<And>t. t \<noteq> s \<Longrightarrow> caches st' t = caches st t"
    "\<And>a. a div 4096 \<noteq> q \<Longrightarrow> smem st' a = smem st a"
    "kc_size (caches st' s) = kc_size (caches st s)" "kc_offset (caches st' s) = kc_offset (caches st s)"
    "sp_private (spg st' q) = sp_private (spg st q)"
  shows "confined st st' s q"
  using assms by (auto simp: confined_def is_slab_def)

lemma slab_obj_nonzero:
  assumes "rep A X st F C" "is_slab st s p" "x \<in> objs (kc_size (caches st s)) p (sp_objects (spg st p))"
  shows "x \<noteq> 0"
proof
  assume "x = 0"
  then have "p = 0" using slot_page(1) [OF assms] by simp
  then show False using is_slab_slab_ok(1) [OF assms(1,2)] by (simp add: slab_ok_def)
qed

text \<open>The first free object of the CPU is taken.\<close>

lemma take_cpu:
  assumes rep: "rep A X st F C" and s: "s \<in> A" and x: "c_freelist (caches st s) = x" "x \<noteq> 0"
    and st': "st' = upd_cache s (\<lambda>k. k\<lparr>c_freelist := get_freepointer s x st\<rparr>) st"
  shows "\<exists>xs. C s = x # xs \<and> rep A X st' F (C(s := xs)) \<and> x \<in> slots st s \<and> x \<notin> live st F C s \<and>
    live st' F (C(s := xs)) = (live st F C)(s := insert x (live st F C s))"
proof -
  note D = cache_repD [OF rep s]
  obtain xs where xs: "C s = x # xs" "chain (smem st) (kc_offset (caches st s)) (smem st (x + kc_offset (caches st s))) xs"
    using chain_nonzero [OF D(2)] x by auto
  obtain p where p: "c_page (caches st s) = Some p" using D(3) xs(1) by (cases "c_page (caches st s)") auto
  note P = cpu_page [OF rep s p]
  have ok: "slab_ok (smem st) (caches st s) (spg st p) p (F p) (x # xs)" using P(3) xs(1) by simp
  have con: "confined st st' s p" unfolding st' by (rule confinedI [OF rep P(1)]) simp_all
  have "rep A X st' F (C(s := xs))"
  proof (rule rep_confined [OF rep con])
    show "page_rep st' X F (C(s := xs)) A p"
      using repD(1) [OF rep, of p] P ok p s unfolding page_rep_def st' by (auto simp: slab_ok_def cpu_objs_def)
    show "cache_rep st' X F (C(s := xs)) s"
      using repD(2) [OF rep s] xs p unfolding cache_rep_def st' by (auto simp: get_freepointer_def cache_wf_def)
  qed (use p in \<open>auto simp: st'\<close>)
  moreover have xo: "x \<in> objs (kc_size (caches st s)) p (sp_objects (spg st p))" using ok by (simp add: slab_ok_def)
  note sl = slot_page [OF rep P(1) xo]
  have "x \<notin> set (F p)" "x \<notin> set xs" using ok by (auto simp: slab_ok_def)
  then have "live st' F (C(s := xs)) s = insert x (live st F C s)"
    using sl xs(1) slots_eq [of st' s st] by (auto simp: live_def st')
  moreover have "live st' F (C(s := xs)) t = live st F C t" if "t \<noteq> s" for t
    using live_other [OF con that] that by simp
  moreover have "x \<notin> live st F C s" using xs(1) by (simp add: live_def)
  ultimately show ?thesis using xs(1) sl by (auto simp: fun_eq_iff)
qed

text \<open>The chain of the slab of the CPU becomes the chain of the CPU, and its first object is taken.\<close>

lemma load_freelist:
  assumes rep: "rep A X st F C" and s: "s \<in> A" and p: "c_page (caches st s) = Some p" and C: "C s = []"
    and x: "sp_freelist (spg st p) = x" "x \<noteq> 0"
    and st': "st' = upd_cache s (\<lambda>k. k\<lparr>c_node := page_to_nid p\<rparr>) (upd_spage p (\<lambda>g. g\<lparr>sp_inuse := sp_objects g, sp_freelist := 0\<rparr>)
       (upd_cache s (\<lambda>k. k\<lparr>c_freelist := get_freepointer s x st\<rparr>) st))"
  shows "\<exists>xs. F p = x # xs \<and> rep A X st' (F(p := [])) (C(s := xs)) \<and> x \<in> slots st s \<and> x \<notin> live st F C s \<and>
    live st' (F(p := [])) (C(s := xs)) = (live st F C)(s := insert x (live st F C s))"
proof -
  note P = cpu_page [OF rep s p]
  have ch: "chain (smem st) (kc_offset (caches st s)) (sp_freelist (spg st p)) (F p)" using P(3) by (simp add: slab_ok_def)
  obtain xs where xs: "F p = x # xs" "chain (smem st) (kc_offset (caches st s)) (smem st (x + kc_offset (caches st s))) xs"
    using chain_nonzero [OF ch] x by auto
  have ok: "slab_ok (smem st) (caches st s) (spg st p) p (x # xs) []" using P(3) xs(1) C by simp
  have con: "confined st st' s p" unfolding st' by (rule confinedI [OF rep P(1)]) simp_all
  have "rep A X st' (F(p := [])) (C(s := xs))"
  proof (rule rep_confined [OF rep con])
    show "page_rep st' X (F(p := [])) (C(s := xs)) A p"
      using repD(1) [OF rep, of p] P ok p s unfolding page_rep_def st' owner_def
      by (auto simp: slab_ok_def cpu_objs_def owner_def)
    have "is_slab st' s q = is_slab st s q" for q by (simp add: st' is_slab_def)
    then show "cache_rep st' X (F(p := [])) (C(s := xs)) s"
      using repD(2) [OF rep s] xs p unfolding cache_rep_def
      by (auto simp: st' get_freepointer_def cache_wf_def page_to_nid_def NUMA_NO_NODE_def)
  qed (use p in \<open>auto simp: st'\<close>)
  moreover have xo: "x \<in> objs (kc_size (caches st s)) p (sp_objects (spg st p))" using ok by (simp add: slab_ok_def)
  note sl = slot_page [OF rep P(1) xo]
  have d: "x \<notin> set xs" "set xs \<subseteq> objs (kc_size (caches st s)) p (sp_objects (spg st p))" using ok by (auto simp: slab_ok_def)
  have xp: "y div 4096 = p" if "y \<in> set xs" for y using d(2) slot_page(1) [OF rep P(1)] that by blast
  have so: "slots st' s = slots st s" by (rule slots_eq) (simp_all add: st' is_slab_def)
  have "y \<in> live st' (F(p := [])) (C(s := xs)) s \<longleftrightarrow> y = x \<or> y \<in> live st F C s" for y
  proof (cases "y div 4096 = p")
    case True
    then show ?thesis using sl(2) xs(1) d(1) C unfolding live_def so by auto
  next
    case False
    then have "y \<noteq> x" "y \<notin> set xs" using sl(1) xp by auto
    then show ?thesis using False C unfolding live_def so by simp
  qed
  then have "live st' (F(p := [])) (C(s := xs)) s = insert x (live st F C s)" by blast
  moreover have "live st' (F(p := [])) (C(s := xs)) t = live st F C t" if "t \<noteq> s" for t
    using live_other [OF con that, of "F(p := [])" F "C(s := xs)" C] that by simp
  moreover have "x \<notin> live st F C s" using xs(1) sl by (simp add: live_def)
  ultimately show ?thesis using xs(1) sl by (auto simp: fun_eq_iff)
qed


section \<open>What stays\<close>

text \<open>The parameters of a cache.\<close>

definition cfg :: "kmem_cache \<Rightarrow> kmem_cache" where
  "cfg k = k\<lparr>c_freelist := 0, c_page := None, c_node := 0, c_stat := (\<lambda>_. 0), n_partial := [], n_nr_partial := 0\<rparr>"

definition steady :: "'z slub \<Rightarrow> 'z slub \<Rightarrow> bool" where
  "steady st st' \<longleftrightarrow> is_slab st' = is_slab st \<and> pool st' = pool st \<and> (\<forall>t. cfg (caches st' t) = cfg (caches st t)) \<and>
     (\<forall>p. PageSlab (spg st' p) = PageSlab (spg st p) \<and> sp_objects (spg st' p) = sp_objects (spg st p))"

lemma steady_refl [simp]: "steady st st"
  by (simp add: steady_def)

lemma steady_trans [trans]: "steady st st1 \<Longrightarrow> steady st1 st2 \<Longrightarrow> steady st st2"
  by (simp add: steady_def)

lemma cfg_sel:
  "cfg k' = cfg k \<Longrightarrow> kc_size k' = kc_size k \<and> kc_objsize k' = kc_objsize k \<and> kc_offset k' = kc_offset k \<and>
     kc_flags k' = kc_flags k \<and> kc_oo k' = kc_oo k \<and> kc_min k' = kc_min k \<and> kc_allocflags k' = kc_allocflags k \<and>
     kc_min_partial k' = kc_min_partial k"
  by (cases k, cases k') (simp add: cfg_def)

lemma cfg_stat [simp]: "cfg (caches (stat s i st) t) = cfg (caches st t)"
  by (simp add: stat_def cfg_def)

lemma steady_slots: "steady st st' \<Longrightarrow> slots st' s = slots st s"
  using cfg_sel [of "caches st' s" "caches st s"] by (intro slots_eq) (simp_all add: steady_def)

lemma steady_stat [simp]: "steady st (stat s i st') = steady st st'"
  by (simp add: steady_def)

lemma upd_page_c_page [simp]: "c_page (caches (upd_spage p g st) s) = c_page (caches st s)"
  by simp


section \<open>The slab of the CPU goes back\<close>

lemma objs_count:
  assumes "distinct xs" "set xs \<subseteq> objs sz p n" "0 \<le> n"
  shows "int (length xs) \<le> n"
proof -
  have "card (set xs) \<le> card (objs sz p n)" using assms(2) by (intro card_mono) (simp_all add: objs_def)
  also have "\<dots> \<le> card {0..<n}" unfolding objs_def by (rule card_image_le) simp
  finally show ?thesis using distinct_card [OF assms(1)] assms(3) by simp
qed

lemma slab_ok_count:
  assumes "slab_ok m k g p fl cl" "0 < kc_size k"
  shows "int (length fl) + int (length cl) \<le> sp_objects g" "sp_objects g \<le> 4096"
proof -
  show "int (length fl) + int (length cl) \<le> sp_objects g"
    using assms objs_count [of "fl @ cl" "kc_size k" p "sp_objects g"] by (simp add: slab_ok_def)
  have "sp_objects g * 1 \<le> sp_objects g * kc_size k" using assms by (intro mult_left_mono) (simp_all add: slab_ok_def)
  then show "sp_objects g \<le> 4096" using assms(1) unfolding slab_ok_def by linarith
qed

lemma u16_id: "0 \<le> x \<Longrightarrow> x < 65536 \<Longrightarrow> u16 x = x"
  by (simp add: u16_def)

lemma drain_step:
  assumes rep: "rep A X st F C" and s: "s \<in> A" and p: "c_page (caches st s) = Some p"
    and x: "c_freelist (caches st s) = x" "x \<noteq> 0"
    and st': "st' = upd_spage p (\<lambda>g. g\<lparr>sp_freelist := x, sp_inuse := u16 (sp_inuse g - 1)\<rparr>)
       (set_freepointer s x (sp_freelist (spg st p)) (upd_cache s (\<lambda>k. k\<lparr>c_freelist := get_freepointer s x st\<rparr>) st))"
  shows "\<exists>xs. C s = x # xs \<and> rep A X st' (F(p := x # F p)) (C(s := xs)) \<and>
    live st' (F(p := x # F p)) (C(s := xs)) = live st F C \<and> steady st st' \<and> c_page (caches st' s) = Some p"
proof -
  note P = cpu_page [OF rep s p] and wf = repD(3) [OF rep s]
  obtain xs where xs: "C s = x # xs" "chain (smem st) (kc_offset (caches st s)) (smem st (x + kc_offset (caches st s))) xs"
    using chain_nonzero [OF cache_repD(2) [OF rep s]] x by auto
  have ok: "slab_ok (smem st) (caches st s) (spg st p) p (F p) (x # xs)" using P(3) xs(1) by simp
  have xo: "x \<in> objs (kc_size (caches st s)) p (sp_objects (spg st p))" using ok by (simp add: slab_ok_def)
  have iu: "u16 (sp_inuse (spg st p) - 1) = sp_objects (spg st p) - int (length (x # F p))"
    using slab_ok_count [OF ok] wf ok by (subst u16_id) (simp_all add: slab_ok_def cache_wf_def)
  have wp: "(x + kc_offset (caches st s)) div 4096 = p" by (rule word_page [OF wf ok xo])
  have sl: "is_slab st' = is_slab st" by (simp add: st' is_slab_def fun_eq_iff)
  have con: "confined st st' s p" unfolding st' by (rule confinedI [OF rep P(1)]) (use wp in auto)
  have d: "x \<notin> set (F p)" "x \<notin> set xs" using ok by (auto simp: slab_ok_def)
  have "rep A X st' (F(p := x # F p)) (C(s := xs))"
  proof (rule rep_confined [OF rep con])
    show "page_rep st' X (F(p := x # F p)) (C(s := xs)) A p"
      using repD(1) [OF rep, of p] P ok p s d iu x(2) unfolding page_rep_def
      by (auto simp: slab_ok_def cpu_objs_def owner_def st')
    show "cache_rep st' X (F(p := x # F p)) (C(s := xs)) s"
      using repD(2) [OF rep s] xs p d(2) unfolding cache_rep_def sl
      by (auto simp: st' get_freepointer_def cache_wf_def)
  qed (use p in \<open>auto simp: st'\<close>)
  moreover have so: "slots st' s = slots st s" by (rule slots_eq) (simp_all add: sl, simp_all add: st')
  have xp: "x div 4096 = p" by (rule slot_page(1) [OF rep P(1) xo])
  have "y \<in> live st' (F(p := x # F p)) (C(s := xs)) s \<longleftrightarrow> y \<in> live st F C s" for y
    using xs(1) xp unfolding live_def so by auto
  then have "live st' (F(p := x # F p)) (C(s := xs)) = live st F C"
    using live_other [OF con, of _ "F(p := x # F p)" F "C(s := xs)" C] by (intro ext) (metis fun_upd_other set_eqI)
  moreover have "steady st st'" using sl by (auto simp: steady_def st' cfg_def)
  ultimately show ?thesis using xs(1) p by (auto simp: st')
qed

lemma drain_all:
  assumes "rep A X st F C" "s \<in> A" "c_page (caches st s) = Some p"
  shows "\<exists>st'. drain_cpu s p tail st = Some (tail \<and> C s = [], st') \<and> rep A X st' (F(p := rev (C s) @ F p)) (C(s := [])) \<and>
    live st' (F(p := rev (C s) @ F p)) (C(s := [])) = live st F C \<and> steady st st' \<and> c_page (caches st' s) = Some p"
  using assms
proof (induction "C s" arbitrary: st F C tail)
  case Nil
  then have "c_freelist (caches st s) = 0" using cache_repD(2) [OF Nil(2,3)] by simp
  moreover have "C(s := []) = C" "F(p := rev (C s) @ F p) = F" using Nil by auto
  ultimately show ?case using Nil by (subst drain_cpu.simps) (simp add: Let_def)
next
  case (Cons x xs)
  have c: "chain (smem st) (kc_offset (caches st s)) (c_freelist (caches st s)) (x # xs)"
    using cache_repD(2) [OF Cons(3,4)] Cons(2) by simp
  then have x: "c_freelist (caches st s) = x" "x \<noteq> 0" by simp_all
  define st1 where "st1 = upd_spage p (\<lambda>g. g\<lparr>sp_freelist := x, sp_inuse := u16 (sp_inuse g - 1)\<rparr>)
       (set_freepointer s x (sp_freelist (spg st p)) (upd_cache s (\<lambda>k. k\<lparr>c_freelist := get_freepointer s x st\<rparr>) st))"
  obtain ys where y: "C s = x # ys" "rep A X st1 (F(p := x # F p)) (C(s := ys))"
    "live st1 (F(p := x # F p)) (C(s := ys)) = live st F C" "steady st st1" "c_page (caches st1 s) = Some p"
    using drain_step [OF Cons(3-5) x st1_def] by blast
  have "xs = (C(s := ys)) s" using y(1) Cons(2) by simp
  from Cons(1) [OF this y(2) Cons(4) y(5), of False]
  obtain st' where "drain_cpu s p False st1 = Some (False, st')" and
    st': "rep A X st' (F(p := rev (C s) @ F p)) (C(s := []))"
    "live st' (F(p := rev (C s) @ F p)) (C(s := [])) = live st F C" "steady st st'" "c_page (caches st' s) = Some p"
    using y steady_trans [OF y(4)] by auto
  moreover have "drain_cpu s p tail st = drain_cpu s p False st1"
    using x by (subst drain_cpu.simps) (simp add: Let_def st1_def)
  ultimately show ?case using y(1) by auto
qed


section \<open>A loose slab\<close>

lemma detach:
  assumes rep: "rep A {} st F C" and s: "s \<in> A" and p: "c_page (caches st s) = Some p" and C: "C s = []"
    and st': "st' = upd_cache s (\<lambda>k. k\<lparr>c_page := None\<rparr>) st"
  shows "rep A {p} st' F C \<and> live st' F C = live st F C \<and> steady st st' \<and> c_page (caches st' s) = None"
proof -
  note P = cpu_page [OF rep s p]
  have con: "confined st st' s p" unfolding st' by (rule confinedI [OF rep P(1)]) simp_all
  have sl: "is_slab st' = is_slab st" by (simp add: st')
  have "rep A {p} st' F C"
  proof (rule rep_confined [OF rep con])
    show "page_rep st' {p} F C A p"
      using repD(1) [OF rep, of p] P C s unfolding page_rep_def st' by (auto simp: slab_ok_def cpu_objs_def)
    show "cache_rep st' {p} F C s"
      using repD(2) [OF rep s] p C unfolding cache_rep_def sl by (auto simp: st' cache_wf_def)
  qed (use p in \<open>auto simp: st'\<close>)
  moreover have "live st' F C = live st F C"
    using slots_eq [of st' _ st] by (auto simp: live_def st' fun_eq_iff)
  moreover have "steady st st'" by (auto simp: steady_def st' cfg_def)
  ultimately show ?thesis by (simp add: st')
qed

text \<open>What holds of a page that is in no list and not with the CPU.\<close>

lemma loose_page:
  assumes "rep A {p} st F C" "is_slab st s p"
  shows "s \<in> A" "c_page (caches st s) \<noteq> Some p" "p \<notin> set (n_partial (caches st s))" "owner st p = s" "PageSlab (spg st p)"
    "slab_ok (smem st) (caches st s) (spg st p) p (F p) []" "\<not> PageHead (spg st p)" "\<not> PageTail (spg st p)"
proof -
  show s: "s \<in> A" by (rule is_slab_slab_ok(2) [OF assms])
  show c: "c_page (caches st s) \<noteq> Some p" using cache_repD(4) [OF assms(1) s] by blast
  show "p \<notin> set (n_partial (caches st s))" using cache_repD(7) [OF assms(1) s] by simp
  show "owner st p = s" "PageSlab (spg st p)" using assms(2) is_slab_owner [OF assms(1)] by auto
  show "slab_ok (smem st) (caches st s) (spg st p) p (F p) []"
    using is_slab_slab_ok(1) [OF assms] c by (simp add: cpu_objs_def)
  show "\<not> PageHead (spg st p)" "\<not> PageTail (spg st p)" using repD(1) [OF assms(1), of p] by (auto simp: page_rep_def)
qed

lemma freelist_iff: "slab_ok m k g p fl cl \<Longrightarrow> sp_freelist g \<noteq> 0 \<longleftrightarrow> fl \<noteq> []"
  by (auto simp: slab_ok_def dest: chain_Nil_iff)

lemma live_slots: "(\<And>t. slots st' t = slots st t) \<Longrightarrow> live st' F C = live st F C"
  by (simp add: live_def fun_eq_iff)

lemma unfreeze_partial:
  assumes rep: "rep A {p} st F C" and p: "is_slab st s p" and F: "F p \<noteq> []"
    and st': "st' = add_partial s p tail (upd_spage p (ClearFlag PG_slub_frozen) st)"
  shows "rep A {} st' F C \<and> live st' F C = live st F C \<and> steady st st' \<and> c_page (caches st' s) = c_page (caches st s)"
proof -
  note L = loose_page [OF rep p]
  have con: "confined st st' s p" unfolding st' add_partial_def by (rule confinedI [OF rep p]) simp_all
  have sl: "is_slab st' = is_slab st" by (simp add: st' add_partial_def is_slab_def fun_eq_iff)
  have "rep A {} st' F C"
  proof (rule rep_confined [OF rep con])
    show "page_rep st' {} F C A p"
      using repD(1) [OF rep, of p] L unfolding page_rep_def owner_def
      by (auto simp: slab_ok_def cpu_objs_def st' add_partial_def)
    show "cache_rep st' {} F C s"
      using repD(2) [OF rep L(1)] L(2,3) F p unfolding cache_rep_def sl
      by (auto simp: st' add_partial_def cache_wf_def u64_Suc split: option.splits)
  qed (use L in \<open>auto simp: st' add_partial_def\<close>)
  moreover have "live st' F C = live st F C"
    by (intro live_slots slots_eq) (simp_all add: sl, simp_all add: st' add_partial_def)
  moreover have "steady st st'" using sl by (auto simp: steady_def st' cfg_def add_partial_def)
  ultimately show ?thesis by (simp add: st' add_partial_def)
qed

lemma unfreeze_full:
  assumes rep: "rep A {p} st F C" and p: "is_slab st s p" and F: "F p = []"
    and st': "st' = upd_spage p (ClearFlag PG_slub_frozen) st"
  shows "rep A {} st' F C \<and> live st' F C = live st F C \<and> steady st st' \<and> c_page (caches st' s) = c_page (caches st s)"
proof -
  note L = loose_page [OF rep p]
  have con: "confined st st' s p" unfolding st' by (rule confinedI [OF rep p]) simp_all
  have sl: "is_slab st' = is_slab st" by (simp add: st' is_slab_def fun_eq_iff)
  have "rep A {} st' F C"
  proof (rule rep_confined [OF rep con])
    show "page_rep st' {} F C A p"
      using repD(1) [OF rep, of p] L unfolding page_rep_def owner_def
      by (auto simp: slab_ok_def cpu_objs_def st')
    show "cache_rep st' {} F C s"
      using repD(2) [OF rep L(1)] L(2,3) F p unfolding cache_rep_def sl
      by (auto simp: st' cache_wf_def split: option.splits)
  qed (use L in \<open>auto simp: st'\<close>)
  moreover have "live st' F C = live st F C"
    by (intro live_slots slots_eq) (simp_all add: sl, simp_all add: st')
  moreover have "steady st st'" using sl by (auto simp: steady_def st')
  ultimately show ?thesis by (simp add: st')
qed

text \<open>An empty slab has all its objects on its chain, so that nothing is lost when it is given up.\<close>

lemma empty_slab_objs:
  assumes "slab_ok m k g p fl cl" "sp_inuse g = 0"
  shows "set fl = objs (kc_size k) p (sp_objects g)"
proof (rule card_seteq)
  show "finite (objs (kc_size k) p (sp_objects g))" by (simp add: objs_def)
  have "set (fl @ cl) \<subseteq> objs (kc_size k) p (sp_objects g)" using assms(1) by (simp only: slab_ok_def)
  then show "set fl \<subseteq> objs (kc_size k) p (sp_objects g)" by simp
  have "card (objs (kc_size k) p (sp_objects g)) \<le> card {0..<sp_objects g}"
    unfolding objs_def by (rule card_image_le) simp
  also have "\<dots> = length fl" using assms by (simp add: slab_ok_def)
  also have "\<dots> = card (set fl)" using assms by (simp add: slab_ok_def distinct_card)
  finally show "card (objs (kc_size k) p (sp_objects g)) \<le> card (set fl)" .
qed

lemma give_up_slab:
  assumes rep: "rep A {p} st F C" and p: "is_slab st s p" and e: "sp_inuse (spg st p) = 0" "\<not> PageSlubFrozen (spg st p)"
    and st': "st' = upd_spage p (ClearFlag PG_slab) st"
  shows "rep A {} st' F C \<and> live st' F C = live st F C \<and>
    (\<forall>q. PageSlab (spg st' q) \<longleftrightarrow> PageSlab (spg st q) \<and> q \<noteq> p) \<and> (\<forall>t q. is_slab st' t q \<longleftrightarrow> is_slab st t q \<and> q \<noteq> p)"
proof -
  note L = loose_page [OF rep p]
  have con: "confined st st' s p" unfolding st' by (rule confinedI [OF rep p]) simp_all
  have sl: "is_slab st' t q \<longleftrightarrow> is_slab st t q \<and> q \<noteq> p" for t q by (auto simp: st' is_slab_def)
  have "rep A {} st' F C"
  proof (rule rep_confined [OF rep con])
    show "page_rep st' {} F C A p" using L e unfolding page_rep_def by (simp add: st')
    show "cache_rep st' {} F C s"
      using repD(2) [OF rep L(1)] L(2,3) p unfolding cache_rep_def sl
      by (auto simp: st' cache_wf_def split: option.splits)
  qed (use L in \<open>auto simp: st'\<close>)
  moreover have "y \<in> live st' F C t \<longleftrightarrow> y \<in> live st F C t" for y t
  proof (cases "y div 4096 = p")
    case True
    have "y \<notin> live st F C t"
    proof
      assume y: "y \<in> live st F C t"
      then have "is_slab st t p" "y \<in> objs (kc_size (caches st t)) p (sp_objects (spg st p))" "y \<notin> set (F p)"
        using True by (simp_all add: live_def slots_def)
      moreover from this have "t = s" using p by (simp add: is_slab_def)
      ultimately show False using empty_slab_objs [OF L(6) e(1)] by simp
    qed
    then show ?thesis using True sl by (simp add: live_def slots_def)
  next
    case False
    then show ?thesis using sl by (simp add: live_def slots_def st')
  qed
  moreover have "PageSlab (spg st' q) \<longleftrightarrow> PageSlab (spg st q) \<and> q \<noteq> p" for q by (simp add: st')
  ultimately show ?thesis using sl by (simp add: fun_eq_iff set_eq_iff)
qed

lemma freeze:
  assumes rep: "rep A {p} st F C" and p: "is_slab st s p" and st': "st' = upd_spage p f st"
    and f: "f = SetFlag PG_slub_frozen \<or> f = ClearFlag PG_slub_frozen"
  shows "rep A {p} st' F C \<and> live st' F C = live st F C \<and> steady st st' \<and> caches st' = caches st"
proof -
  note L = loose_page [OF rep p]
  have f': "PageSlab (f g) = PageSlab g" "PageHead (f g) = PageHead g" "PageTail (f g) = PageTail g"
    "sp_private (f g) = sp_private g" "sp_objects (f g) = sp_objects g" "sp_inuse (f g) = sp_inuse g"
    "sp_freelist (f g) = sp_freelist g" for g
    using f by auto
  have con: "confined st st' s p" unfolding st' by (rule confinedI [OF rep p]) (simp_all add: f')
  have sl: "is_slab st' = is_slab st" by (simp add: st' is_slab_def fun_eq_iff f')
  have "rep A {p} st' F C"
  proof (rule rep_confined [OF rep con])
    show "page_rep st' {p} F C A p"
      using repD(1) [OF rep, of p] L unfolding page_rep_def owner_def by (auto simp: slab_ok_def cpu_objs_def st' f')
    show "cache_rep st' {p} F C s"
      using repD(2) [OF rep L(1)] unfolding cache_rep_def sl by (auto simp: st' split: option.splits)
  qed (use L in \<open>auto simp: st'\<close>)
  moreover have "live st' F C = live st F C"
    by (intro live_slots slots_eq) (simp_all add: sl, simp_all add: st' f')
  moreover have "steady st st'" using sl by (auto simp: steady_def st' f')
  ultimately show ?thesis by (simp add: st')
qed

lemma attach:
  assumes rep: "rep A {p} st F C" and p: "is_slab st s p" "PageSlubFrozen (spg st p)" and c: "c_page (caches st s) = None"
    and st': "st' = upd_cache s (\<lambda>k. k\<lparr>c_page := Some p\<rparr>) st"
  shows "rep A {} st' F C \<and> live st' F C = live st F C \<and> steady st st' \<and> c_page (caches st' s) = Some p \<and> C s = []"
proof -
  note L = loose_page [OF rep p(1)] and C = cache_repD(3) [OF rep loose_page(1) [OF rep p(1)] c]
  have con: "confined st st' s p" unfolding st' by (rule confinedI [OF rep p(1)]) simp_all
  have sl: "is_slab st' = is_slab st" by (simp add: st')
  have "rep A {} st' F C"
  proof (rule rep_confined [OF rep con])
    show "page_rep st' {} F C A p"
      using repD(1) [OF rep, of p] L p C unfolding page_rep_def st' by (auto simp: slab_ok_def cpu_objs_def)
    show "cache_rep st' {} F C s"
      using repD(2) [OF rep L(1)] c C p unfolding cache_rep_def sl by (auto simp: st' cache_wf_def)
  qed (use c in \<open>auto simp: st'\<close>)
  moreover have "live st' F C = live st F C"
    by (intro live_slots slots_eq) (simp_all add: sl, simp_all add: st')
  moreover have "steady st st'" by (auto simp: steady_def st' cfg_def)
  ultimately show ?thesis using C by (simp add: st')
qed

lemma unlink:
  assumes rep: "rep A {} st F C" and s: "s \<in> A" and p: "p \<in> set (n_partial (caches st s))"
    and st': "st' = remove_partial s p st"
  shows "rep A {p} st' F C \<and> live st' F C = live st F C \<and> steady st st' \<and> is_slab st' s p \<and> F p \<noteq> [] \<and>
    c_page (caches st' s) = c_page (caches st s) \<and> c_page (caches st s) \<noteq> Some p \<and> \<not> PageSlubFrozen (spg st' p)"
proof -
  note D = cache_repD [OF rep s]
  have pp: "is_slab st s p" "c_page (caches st s) \<noteq> Some p" "F p \<noteq> []" using D(7) p by blast+
  have con: "confined st st' s p" unfolding st' remove_partial_def by (rule confinedI [OF rep pp(1)]) simp_all
  have sl: "is_slab st' = is_slab st" by (simp add: st' remove_partial_def)
  obtain n where n: "length (n_partial (caches st s)) = Suc n" using p by (cases "n_partial (caches st s)") auto
  have r: "set (remove1 p (n_partial (caches st s))) = set (n_partial (caches st s)) - {p}"
    "length (remove1 p (n_partial (caches st s))) = n"
    using D(5) p n by (simp_all add: length_remove1)
  have "rep A {p} st' F C"
  proof (rule rep_confined [OF rep con])
    show "page_rep st' {p} F C A p"
      using repD(1) [OF rep, of p] unfolding page_rep_def
      by (auto simp: slab_ok_def cpu_objs_def st' remove_partial_def)
    show "cache_rep st' {p} F C s"
      unfolding cache_rep_def sl using D(1,2,5,6) cache_repD(3,4) [OF rep s] pp(2)
      by (simp add: st' remove_partial_def cache_wf_def u64_Suc r n D(7) split: option.splits) auto
  qed (use pp in \<open>auto simp: st' remove_partial_def\<close>)
  moreover have "live st' F C = live st F C"
    by (intro live_slots slots_eq) (simp_all add: sl, simp_all add: st' remove_partial_def)
  moreover have "steady st st'" by (auto simp: steady_def st' cfg_def remove_partial_def)
  moreover have "\<not> PageSlubFrozen (spg st' p)"
    using repD(1) [OF rep, of p] pp is_slab_owner [OF rep, of s p] by (auto simp: page_rep_def st' remove_partial_def)
  ultimately show ?thesis using pp sl by (simp add: st' remove_partial_def)
qed

end
