(* ===== verification/SlubFree.thy ===== *)
theory SlubFree
  imports SlubOps
begin

text \<open>Objects that come back, and the chain of a new slab.\<close>

section \<open>An object comes back\<close>

lemma liveD:
  assumes "rep A X st F C" "x \<in> live st F C s"
  shows "is_slab st s (x div 4096)" "x \<in> objs (kc_size (caches st s)) (x div 4096) (sp_objects (spg st (x div 4096)))"
    "x \<notin> set (F (x div 4096))" "x \<notin> set (C s)" "x \<noteq> 0" "s \<in> A"
proof -
  show 1: "is_slab st s (x div 4096)" "x \<in> objs (kc_size (caches st s)) (x div 4096) (sp_objects (spg st (x div 4096)))"
    "x \<notin> set (F (x div 4096))" "x \<notin> set (C s)"
    using assms(2) by (simp_all add: live_def slots_def)
  show "x \<noteq> 0" by (rule slab_obj_nonzero [OF assms(1) 1(1,2)])
  show "s \<in> A" by (rule is_slab_slab_ok(2) [OF assms(1) 1(1)])
qed

lemma push_cpu:
  assumes rep: "rep A X st F C" and x: "x \<in> live st F C s" and p: "c_page (caches st s) = Some (x div 4096)"
    and st': "st' = upd_cache s (\<lambda>k. k\<lparr>c_freelist := x\<rparr>) (set_freepointer s x (c_freelist (caches st s)) st)"
  shows "rep A X st' F (C(s := x # C s)) \<and> live st' F (C(s := x # C s)) = (live st F C)(s := live st F C s - {x}) \<and>
    steady st st'"
proof -
  define p where "p = x div 4096"
  note L = liveD [OF rep x, folded p_def] and p = p [folded p_def]
  note P = cpu_page [OF rep L(6) p] and wf = repD(3) [OF rep L(6)]
  have wp: "(x + kc_offset (caches st s)) div 4096 = p" by (rule word_page [OF wf P(3) L(2)])
  have con: "confined st st' s p" unfolding st' by (rule confinedI [OF rep P(1)]) (use wp in auto)
  have sl: "is_slab st' = is_slab st" by (simp add: st')
  have "rep A X st' F (C(s := x # C s))"
  proof (rule rep_confined [OF rep con])
    show "page_rep st' X F (C(s := x # C s)) A p"
      using repD(1) [OF rep, of p] P L p unfolding page_rep_def st' by (auto simp: slab_ok_def cpu_objs_def)
    show "cache_rep st' X F (C(s := x # C s)) s"
      using repD(2) [OF rep L(6)] p L(4,5) unfolding cache_rep_def sl by (auto simp: st' cache_wf_def)
  qed (use p in \<open>auto simp: st'\<close>)
  moreover have so: "slots st' s = slots st s" by (rule slots_eq) (simp_all add: st')
  have "live st' F (C(s := x # C s)) s = live st F C s - {x}" unfolding live_def so by auto
  moreover have "live st' F (C(s := x # C s)) t = live st F C t" if "t \<noteq> s" for t
    using live_other [OF con that] that by simp
  moreover have "steady st st'" by (auto simp: steady_def st' cfg_def)
  ultimately show ?thesis by (simp add: fun_eq_iff)
qed

lemma push_page:
  assumes rep: "rep A {} st F C" and x: "x \<in> live st F C s" and pg: "p = x div 4096"
    and c: "c_page (caches st s) \<noteq> Some p"
    and st': "st' = upd_spage p (\<lambda>g. g\<lparr>sp_freelist := x, sp_inuse := u16 (sp_inuse g - 1)\<rparr>)
        (set_freepointer s x (sp_freelist (spg st p)) st)"
  shows "rep A (if F p = [] then {p} else {}) st' (F(p := x # F p)) C \<and>
    live st' (F(p := x # F p)) C = (live st F C)(s := live st F C s - {x}) \<and> steady st st' \<and>
    is_slab st' s p \<and> \<not> PageSlubFrozen (spg st' p) \<and> (F p \<noteq> [] \<longleftrightarrow> sp_freelist (spg st p) \<noteq> 0) \<and>
    (F p \<noteq> [] \<longrightarrow> p \<in> set (n_partial (caches st' s)))"
proof -
  note L = liveD [OF rep x, folded pg]
  have wf: "cache_wf (caches st s)" by (rule repD(3) [OF rep L(6)])
  have ok: "slab_ok (smem st) (caches st s) (spg st p) p (F p) []"
    using is_slab_slab_ok(1) [OF rep L(1)] c by (simp add: cpu_objs_def)
  have o: "owner st p = s" "PageSlab (spg st p)" using L(1) is_slab_owner [OF rep] by auto
  have wp: "(x + kc_offset (caches st s)) div 4096 = p" by (rule word_page [OF wf ok L(2)])
  have ok': "slab_ok (smem st) (caches st s) (spg st p) p (F p) [x] \<or> True" by simp
  have "int (length (x # F p)) \<le> sp_objects (spg st p)"
    using ok L(2,3) by (intro objs_count) (auto simp: slab_ok_def)
  then have iu: "u16 (sp_inuse (spg st p) - 1) = sp_objects (spg st p) - int (length (x # F p))"
    using slab_ok_count [OF ok] wf ok by (subst u16_id) (simp_all add: slab_ok_def cache_wf_def)
  have con: "confined st st' s p" unfolding st' by (rule confinedI [OF rep L(1)]) (use wp in auto)
  have sl: "is_slab st' = is_slab st" by (simp add: st' is_slab_def fun_eq_iff)
  have nf: "\<not> PageSlubFrozen (spg st p)" using repD(1) [OF rep, of p] o c by (simp add: page_rep_def)
  have mem: "p \<in> set (n_partial (caches st s)) \<longleftrightarrow> F p \<noteq> []"
    using cache_repD(7) [OF rep L(6), of p] L(1) c by simp
  have cf: "chain (smem st') (kc_offset (caches st s)) (c_freelist (caches st s)) (C s)"
    using cache_repD(2) [OF rep L(6)] L(4) by (simp add: st')
  have "rep A (if F p = [] then {p} else {}) st' (F(p := x # F p)) C"
  proof (rule rep_confined [OF rep con])
    show "page_rep st' (if F p = [] then {p} else {}) (F(p := x # F p)) C A p"
      using repD(1) [OF rep, of p] ok o L c nf iu unfolding page_rep_def
      by (simp add: slab_ok_def cpu_objs_def owner_def st')
    have "q \<in> set (n_partial (caches st s)) \<longleftrightarrow> is_slab st s q \<and> c_page (caches st s) \<noteq> Some q \<and>
        q \<notin> (if F p = [] then {p} else {}) \<and> (F(p := x # F p)) q \<noteq> []" for q
      using cache_repD(7) [OF rep L(6), of q] mem L(1) c by (cases "q = p") auto
    then show "cache_rep st' (if F p = [] then {p} else {}) (F(p := x # F p)) C s"
      using repD(2) [OF rep L(6)] cf c unfolding cache_rep_def sl
      by (simp add: st' split: option.splits)
  qed (use c in \<open>auto simp: st'\<close>)
  moreover have so: "slots st' s = slots st s" by (rule slots_eq) (simp_all add: sl, simp_all add: st')
  have "y \<in> live st' (F(p := x # F p)) C s \<longleftrightarrow> y \<in> live st F C s - {x}" for y
    unfolding live_def so using pg by auto
  moreover have "live st' (F(p := x # F p)) C t = live st F C t" if "t \<noteq> s" for t
    using live_other [OF con that, of "F(p := x # F p)" F C C] by simp
  moreover have "steady st st'" using sl by (auto simp: steady_def st')
  moreover have "F p \<noteq> [] \<longleftrightarrow> sp_freelist (spg st p) \<noteq> 0" using freelist_iff [OF ok] by simp
  ultimately show ?thesis using L(1) sl nf mem by (simp add: fun_eq_iff set_eq_iff) (simp add: st')
qed


section \<open>A new slab\<close>

fun objlist :: "int \<Rightarrow> int \<Rightarrow> nat \<Rightarrow> int list" where
  "objlist sz x 0 = []"
| "objlist sz x (Suc n) = x # objlist sz (x + sz) n"

lemma objlist_eq: "objlist sz x n = map (\<lambda>i. x + int i * sz) [0..<n]"
proof (induction n arbitrary: x)
  case (Suc n)
  have "[0..<Suc n] = 0 # map Suc [0..<n]" by (simp add: upt_conv_Cons map_Suc_upt del: upt_Suc)
  then show ?case using Suc by (simp add: algebra_simps del: upt_Suc)
qed simp

lemma set_objlist: "set (objlist sz (page_start p) n) = objs sz p (int n)"
proof -
  have "{0..<int n} = int ` {0..<n}" by (simp add: image_int_atLeastLessThan)
  then show ?thesis by (simp add: objlist_eq objs_def image_image)
qed

lemma objlist_above: "0 < sz \<Longrightarrow> y \<in> set (objlist sz x n) \<Longrightarrow> x \<le> y"
  by (auto simp: objlist_eq)

lemma distinct_objlist: "0 < sz \<Longrightarrow> distinct (objlist sz x n)"
  by (auto simp: objlist_eq distinct_map inj_on_def)

lemma length_objlist [simp]: "length (objlist sz x n) = n"
  by (simp add: objlist_eq)

lemma link_chain:
  assumes "0 < sz" "sz = kc_size (caches st s)" "off = kc_offset (caches st s)" "lst < p" "0 < p"
    and "link_objects n s p lst st = (l, st')"
  shows "chain ((smem st')(l + off := 0)) off (((smem st')(l + off := 0)) (lst + off)) (objlist sz p n) \<and>
    (\<forall>a. a \<noteq> lst + off \<longrightarrow> (\<forall>y \<in> set (objlist sz p n). a \<noteq> y + off) \<longrightarrow> ((smem st')(l + off := 0)) a = smem st a) \<and>
    st' = st\<lparr>smem := smem st'\<rparr>"
  using assms
proof (induction n arbitrary: p lst st)
  case 0
  then show ?case by simp
next
  case (Suc n)
  define st1 where "st1 = set_freepointer s lst p st"
  have run: "link_objects n s (p + sz) p st1 = (l, st')" using Suc.prems by (simp add: st1_def)
  have c: "caches st1 = caches st" by (simp add: st1_def)
  define m where "m = (smem st')(l + off := 0)"
  have "chain m off (m (p + off)) (objlist sz (p + sz) n) \<and>
    (\<forall>a. a \<noteq> p + off \<longrightarrow> (\<forall>y \<in> set (objlist sz (p + sz) n). a \<noteq> y + off) \<longrightarrow> m a = smem st1 a) \<and>
    st' = st1\<lparr>smem := smem st'\<rparr>"
    unfolding m_def by (rule Suc.IH [OF Suc.prems(1) _ _ _ _ run]) (use Suc.prems c in simp_all)
  then have IH: "chain m off (m (p + off)) (objlist sz (p + sz) n)"
    "\<And>a. a \<noteq> p + off \<Longrightarrow> (\<forall>y \<in> set (objlist sz (p + sz) n). a \<noteq> y + off) \<Longrightarrow> m a = smem st1 a"
    "st' = st1\<lparr>smem := smem st'\<rparr>"
    by blast+
  have "m (lst + off) = p"
  proof -
    have "\<forall>y \<in> set (objlist sz (p + sz) n). lst + off \<noteq> y + off"
      using objlist_above [OF Suc.prems(1), of _ "p + sz" n] Suc.prems(1,4) by fastforce
    then show ?thesis using IH(2) [of "lst + off"] Suc.prems(3,4) by (simp add: st1_def)
  qed
  moreover have "m a = smem st a" if "a \<noteq> lst + off" "\<forall>y \<in> set (objlist sz p (Suc n)). a \<noteq> y + off" for a
    using IH(2) [of a] that Suc.prems(3) by (simp add: st1_def)
  moreover have "st' = st\<lparr>smem := smem st'\<rparr>" using IH(3) by (simp add: st1_def set_freepointer_def)
  ultimately show ?case using IH(1) Suc.prems(5) unfolding m_def [symmetric] by simp
qed

text \<open>The first object is linked to itself first; the next turn of the loop overwrites that.\<close>

lemma new_chain:
  assumes "0 < sz" "sz = kc_size (caches st s)" "off = kc_offset (caches st s)" "0 < x"
    and "link_objects (Suc n) s x x st = (l, st')"
  shows "chain (smem (set_freepointer s l 0 st')) off x (objlist sz x (Suc n)) \<and>
    (\<forall>a. (\<forall>y \<in> set (objlist sz x (Suc n)). a \<noteq> y + off) \<longrightarrow> smem (set_freepointer s l 0 st') a = smem st a) \<and>
    set_freepointer s l 0 st' = st\<lparr>smem := smem (set_freepointer s l 0 st')\<rparr>"
proof -
  define st1 where "st1 = set_freepointer s x x st"
  have run: "link_objects n s (x + sz) x st1 = (l, st')" using assms by (simp add: st1_def)
  have c: "caches st1 = caches st" by (simp add: st1_def)
  have "chain ((smem st')(l + off := 0)) off (((smem st')(l + off := 0)) (x + off)) (objlist sz (x + sz) n) \<and>
    (\<forall>a. a \<noteq> x + off \<longrightarrow> (\<forall>y \<in> set (objlist sz (x + sz) n). a \<noteq> y + off) \<longrightarrow> ((smem st')(l + off := 0)) a = smem st1 a) \<and>
    st' = st1\<lparr>smem := smem st'\<rparr>"
    by (rule link_chain [OF assms(1) _ _ _ _ run]) (use assms c in simp_all)
  then have K': "chain ((smem st')(l + off := 0)) off (((smem st')(l + off := 0)) (x + off)) (objlist sz (x + sz) n)"
    "\<And>a. a \<noteq> x + off \<Longrightarrow> (\<forall>y \<in> set (objlist sz (x + sz) n). a \<noteq> y + off) \<Longrightarrow> ((smem st')(l + off := 0)) a = smem st1 a"
    "st' = st1\<lparr>smem := smem st'\<rparr>"
    by blast+
  have sel: "caches st' = caches st" "spg st' = spg st" "pool st' = pool st"
    using arg_cong [OF K'(3), of caches] arg_cong [OF K'(3), of spg] arg_cong [OF K'(3), of pool]
    by (simp_all add: st1_def)
  then have m: "smem (set_freepointer s l 0 st') = (smem st')(l + off := 0)" using assms(3) by simp
  have "set_freepointer s l 0 st' = st\<lparr>smem := smem (set_freepointer s l 0 st')\<rparr>"
    using sel by (simp add: set_freepointer_def)
  moreover have "((smem st')(l + off := 0)) a = smem st a" if "\<forall>y \<in> set (objlist sz x (Suc n)). a \<noteq> y + off" for a
    using K'(2) [of a] that assms(3) by (simp add: st1_def)
  ultimately show ?thesis using K'(1) assms(4) unfolding m by simp
qed


text \<open>A page from the page allocator becomes a slab whose objects are all free.\<close>

lemma mk_slab_rep:
  assumes rep: "rep A {} st F C" and s: "s \<in> A" and p: "0 < p" "\<not> PageSlab (spg st p)"
    and n: "0 < n" "n * kc_size (caches st s) \<le> 4096"
    and st': "st' = mk_slab s p (upd_spage p (\<lambda>g. g\<lparr>sp_objects := n\<rparr>) st)"
  shows "\<exists>fl. fl \<noteq> [] \<and> rep A {p} st' (F(p := fl)) C \<and> live st' (F(p := fl)) C = live st F C \<and> caches st' = caches st \<and>
    pool st' = pool st \<and> is_slab st' s p \<and> (\<forall>q. PageSlab (spg st' q) \<longleftrightarrow> PageSlab (spg st q) \<or> q = p) \<and>
    (\<forall>a. a div 4096 \<noteq> p \<longrightarrow> smem st' a = smem st a)"
proof -
  define sz off k where "sz = kc_size (caches st s)" and "off = kc_offset (caches st s)" and "k = nat n - 1"
  have wf: "cache_wf (caches st s)" by (rule repD(3) [OF rep s])
  have sz: "0 < sz" "0 \<le> off" "off < sz" using wf by (simp_all add: cache_wf_def sz_def off_def)
  have k: "nat n = Suc k" "int (Suc k) = n" using n by (simp_all add: k_def)
  define st0 where "st0 = upd_spage p (\<lambda>g. SetFlag PG_slab (g\<lparr>sp_private := int s\<rparr>)) (upd_spage p (\<lambda>g. g\<lparr>sp_objects := n\<rparr>) st)"
  define st1 where "st1 = (if kc_flags (caches st0 s) AND SLAB_POISON \<noteq> 0 then poison_slab p st0 else st0)"
  have "\<not> PageHead (spg st0 p)" using repD(1) [OF rep, of p] by (simp add: st0_def page_rep_def)
  then have pz: "spg st1 = spg st0" "caches st1 = caches st" "pool st1 = pool st"
    "\<And>a. a div 4096 \<noteq> p \<Longrightarrow> smem st1 a = smem st a"
    by (auto simp: st1_def poison_slab_def compound_order_def page_start_eq PAGE_SIZE_def PAGE_SHIFT_def) (auto simp: st0_def)
  obtain l st2 where run: "link_objects (nat n) s (page_start p) (page_start p) st1 = (l, st2)" by fastforce
  define st3 where "st3 = set_freepointer s l 0 st2"
  have st'': "st' = upd_spage p (\<lambda>g. g\<lparr>sp_freelist := page_start p, sp_inuse := 0\<rparr>) st3"
  proof -
    have "sp_objects (spg st1 p) = n" by (simp add: pz st0_def SetFlag_def)
    then show ?thesis using run by (simp add: st' mk_slab_def Let_def st0_def [symmetric] st1_def [symmetric] st3_def)
  qed
  define fl where "fl = objlist sz (page_start p) (Suc k)"
  have "0 < page_start p" using p by (simp add: page_start_eq)
  then have N: "chain (smem st3) off (page_start p) fl"
    "\<And>a. (\<forall>y \<in> set fl. a \<noteq> y + off) \<Longrightarrow> smem st3 a = smem st1 a" "st3 = st1\<lparr>smem := smem st3\<rparr>"
    using new_chain [OF sz(1), of st1 s off "page_start p" k l st2] run
    by (auto simp: k(1) st3_def fl_def pz sz_def off_def)
  have fs: "set fl = objs sz p n" using set_objlist [of sz p "Suc k"] k(2) by (simp add: fl_def)
  have sel: "caches st3 = caches st" "pool st3 = pool st" "spg st3 = spg st1"
    using arg_cong [OF N(3), of caches] arg_cong [OF N(3), of pool] arg_cong [OF N(3), of spg] by (simp_all add: pz)
  have g: "spg st' q = (if q = p then (SetFlag PG_slab (spg st p\<lparr>sp_objects := n, sp_private := int s\<rparr>))
      \<lparr>sp_freelist := page_start p, sp_inuse := 0\<rparr> else spg st q)" for q
    using sel by (simp add: st'' pz st0_def)
  have c: "caches st' = caches st" "pool st' = pool st" using sel by (simp_all add: st'')
  have sm: "smem st' = smem st3" by (simp add: st'')
  have sl: "is_slab st' t q \<longleftrightarrow> (if q = p then t = s else is_slab st t q)" for t q
    by (auto simp: is_slab_def g)
  have nsl: "\<not> is_slab st t p" for t using p by (simp add: is_slab_def)
  have mem: "smem st' a = smem st a" if "a div 4096 \<noteq> p" for a
  proof -
    have "a \<noteq> y + off" if "y \<in> set fl" for y
      using objs_page [of y sz p n off] that sz n \<open>a div 4096 \<noteq> p\<close> by (auto simp: fs sz_def)
    then show ?thesis using N(2) sm pz(4) [OF that] by simp
  qed
  have con: "confined st st' s p" unfolding confined_def using mem sl nsl by (simp add: c g)
  have d: "distinct fl" unfolding fl_def by (rule distinct_objlist [OF sz(1)])
  have R: "\<not> PageHead (spg st p)" "\<not> PageTail (spg st p)" "\<not> PageSlubFrozen (spg st p)"
    "c_page (caches st s) \<noteq> Some p"
    using repD(1) [OF rep, of p] p cache_repD(4) [OF rep s, of p] nsl by (auto simp: page_rep_def)
  have "rep A {p} st' (F(p := fl)) C"
  proof (rule rep_confined [OF rep con])
    show "page_rep st' {p} (F(p := fl)) C A p"
      using R s p n N(1) d fs k(2) unfolding page_rep_def owner_def
      by (simp add: g c sm slab_ok_def cpu_objs_def sz_def off_def fl_def [symmetric]) (simp add: fl_def)
    have ch: "chain (smem st') (kc_offset (caches st s)) (c_freelist (caches st s)) (C s)"
    proof (cases "c_page (caches st s)")
      case None
      then show ?thesis using cache_repD(2,3) [OF rep s] by auto
    next
      case (Some q)
      note Q = cpu_page [OF rep s Some]
      have "q \<noteq> p" using R Some by simp
      then have "\<And>a. a div 4096 = q \<Longrightarrow> smem st' a = smem st a" using mem by simp
      then show ?thesis using cache_repD(2) [OF rep s] Q(3)
        by (elim chain_local [OF wf Q(3), rotated -1]) (auto simp: slab_ok_def)
    qed
    show "cache_rep st' {p} (F(p := fl)) C s"
      using repD(2) [OF rep s] ch R(4) nsl [of s] unfolding cache_rep_def
      by (auto simp: c sl split: option.splits if_splits)
  qed (simp_all add: c)
  moreover have "y \<in> live st' (F(p := fl)) C t \<longleftrightarrow> y \<in> live st F C t" for y t
  proof (cases "y div 4096 = p")
    case True
    then show ?thesis using nsl [of t] fs by (auto simp: live_def slots_def sl c g sz_def)
  next
    case False
    then show ?thesis by (simp add: live_def slots_def sl c g)
  qed
  moreover have "fl \<noteq> []" by (simp add: fl_def)
  moreover have "PageSlab (spg st' q) \<longleftrightarrow> PageSlab (spg st q) \<or> q = p" for q by (simp add: g)
  ultimately show ?thesis using c sl mem by (intro exI [of _ fl]) (auto simp: fun_eq_iff set_eq_iff)
qed

end
