(* ===== verification/SlubAlloc.thy ===== *)
theory SlubAlloc
  imports SlubFree
begin

text \<open>
  Allocation and release over any page allocator that keeps its promises, the locale \<open>page_source\<close>: it
  never hands out a page twice, and takes back single pages that it handed out.
\<close>

section \<open>The page allocator as the slab allocator sees it\<close>

locale page_source =
  fixes ops :: "'z page_ops" and ok :: "'z \<Rightarrow> bool" and avail :: "'z \<Rightarrow> int set" and held :: "'z \<Rightarrow> int set"
  assumes count_ok: "ok z \<Longrightarrow> ok (po_count ops b p d z) \<and> avail (po_count ops b p d z) = avail z \<and>
      held (po_count ops b p d z) = held z"
    and apart: "ok z \<Longrightarrow> avail z \<inter> held z = {}" and physical: "ok z \<Longrightarrow> held z \<subseteq> {0<..<2 ^ 52}"
    and alloc_none: "ok z \<Longrightarrow> g AND GFP_MOVABLE = 0 \<Longrightarrow> po_alloc ops g 0 z = Some (None, z') \<Longrightarrow>
      ok z' \<and> avail z' = avail z \<and> held z \<subseteq> held z'"
    and alloc_some: "ok z \<Longrightarrow> g AND GFP_MOVABLE = 0 \<Longrightarrow> po_alloc ops g 0 z = Some (Some p, z') \<Longrightarrow>
      ok z' \<and> p \<in> avail z \<and> avail z' = avail z - {p} \<and> insert p (held z) \<subseteq> held z'"
    and free_held: "ok z \<Longrightarrow> p \<in> held z \<Longrightarrow>
      \<exists>z'. po_free ops p 0 (po_reset ops p z) = Some z' \<and> ok z' \<and> avail z' = insert p (avail z) \<and> held z - {p} \<subseteq> held z'"

definition slab_pages :: "'z slub \<Rightarrow> int set" where "slab_pages st = {p. PageSlab (spg st p)}"

text \<open>The state is in order: the chains, and the pool of pages, which holds the slab pages as handed out.\<close>

definition slub_inv :: "('z \<Rightarrow> bool) \<Rightarrow> ('z \<Rightarrow> int set) \<Rightarrow> nat set \<Rightarrow> int set \<Rightarrow> 'z slub \<Rightarrow> (int \<Rightarrow> int list) \<Rightarrow> (nat \<Rightarrow> int list) \<Rightarrow> bool" where
  "slub_inv ok held A X st F C \<longleftrightarrow> rep A X st F C \<and> ok (pool st) \<and> slab_pages st \<subseteq> held (pool st)"

text \<open>What every operation keeps: the parameters of the caches and the total of free pages and slab pages.\<close>

definition keeps :: "('z \<Rightarrow> int set) \<Rightarrow> 'z slub \<Rightarrow> 'z slub \<Rightarrow> bool" where
  "keeps avail st st' \<longleftrightarrow> (\<forall>t. cfg (caches st' t) = cfg (caches st t)) \<and>
     avail (pool st') \<union> slab_pages st' = avail (pool st) \<union> slab_pages st"

lemma cfg_size: "cfg k' = cfg k \<Longrightarrow> kc_size k' = kc_size k"
  by (drule arg_cong [of _ _ kc_size]) (simp add: cfg_def)

lemma keeps_size: "keeps avail st st' \<Longrightarrow> kc_size (caches st' s) = kc_size (caches st s)"
  by (intro cfg_size) (simp add: keeps_def)

lemma keeps_refl [simp]: "keeps avail st st"
  by (simp add: keeps_def)

lemma keeps_trans: "keeps avail st st1 \<Longrightarrow> keeps avail st1 st2 \<Longrightarrow> keeps avail st st2"
  by (simp add: keeps_def)

lemma slab_pages_simps [simp]:
  "slab_pages (stat s i st) = slab_pages st" "slab_pages (upd_cache s f st) = slab_pages st"
  "slab_pages (upd_pool h st) = slab_pages st" "slab_pages (st\<lparr>pool := z\<rparr>) = slab_pages st"
  by (simp_all add: slab_pages_def)

lemma keeps_stat [simp]: "keeps avail st (stat s i st') = keeps avail st st'" "keeps avail (stat s i st) st' = keeps avail st st'"
  by (simp_all add: keeps_def)

lemma inv_stat [simp]: "slub_inv ok held A X (stat s i st) F C = slub_inv ok held A X st F C"
  by (simp add: slub_inv_def)

lemma steady_inv:
  "steady st st' \<Longrightarrow> slub_inv ok held A X st F C \<Longrightarrow> rep A X' st' F' C' \<Longrightarrow> slub_inv ok held A X' st' F' C'"
  "steady st st' \<Longrightarrow> keeps avail st st'"
  by (simp_all add: steady_def slub_inv_def keeps_def slab_pages_def)

lemma steady_pages: "steady st st' \<Longrightarrow> slab_pages st' = slab_pages st"
  by (simp add: steady_def slab_pages_def)

text \<open>The steps that write to no object.\<close>

lemma unfreeze_mem: "unfreeze_slab ops s p tail st = Some st' \<Longrightarrow> smem st' = smem st"
  by (auto simp: unfreeze_slab_def discard_slab_def do_free_slab_def add_partial_def Let_def split: if_splits)

lemma deactive_mem:
  assumes "deactive_slab ops s st = Some st'" "c_freelist (caches st s) = 0"
  shows "smem st' = smem st"
proof -
  have "drain_cpu s p t (if b then stat s i st else st) = Some (t, if b then stat s i st else st)" for p t b i
    using assms(2) by (subst drain_cpu.simps) simp
  then show ?thesis
    using assms(1) unfreeze_mem [where s = s]
    by (fastforce simp: deactive_slab_def Let_def bind_eq_Some_conv split: option.splits if_splits)
qed

context page_source
begin

abbreviation inv :: "nat set \<Rightarrow> int set \<Rightarrow> 'z slub \<Rightarrow> (int \<Rightarrow> int list) \<Rightarrow> (nat \<Rightarrow> int list) \<Rightarrow> bool" where
  "inv \<equiv> slub_inv ok held"

lemma give_up:
  assumes iv: "inv A {p} st F C" and p: "is_slab st s p" and e: "sp_inuse (spg st p) = 0" "\<not> PageSlubFrozen (spg st p)"
  shows "\<exists>st'. discard_slab ops s p st = Some st' \<and> inv A {} st' F C \<and> live st' F C = live st F C \<and> keeps avail st st' \<and>
    caches st' = caches st \<and> slab_pages st' = slab_pages st - {p}"
proof -
  have rep: "rep A {p} st F C" using iv by (simp add: slub_inv_def)
  note L = loose_page [OF rep p]
  have rcu: "kc_flags (caches st s) AND SLAB_DESTROY_BY_RCU = 0" using repD(3) [OF rep L(1)] by (simp add: cache_wf_def)
  define st1 where "st1 = upd_spage p (ClearFlag PG_slab) st"
  note G = give_up_slab [OF rep p e st1_def]
  define cnt where "cnt = po_count ops (kc_flags (caches st s) AND SLAB_RECLAIM_ACCOUNT \<noteq> 0) p (- 1)"
  have cnt: "ok (cnt (pool st))" "avail (cnt (pool st)) = avail (pool st)" "held (cnt (pool st)) = held (pool st)"
    using count_ok iv by (simp_all add: cnt_def slub_inv_def)
  have ph: "p \<in> held (cnt (pool st))" using iv L(5) by (auto simp: slub_inv_def slab_pages_def cnt)
  obtain z where z: "po_free ops p 0 (po_reset ops p (cnt (pool st))) = Some z" "ok z" "avail z = insert p (avail (pool st))"
    "held (pool st) - {p} \<subseteq> held z"
    using free_held [OF cnt(1) ph] unfolding cnt(2,3) by blast
  have o: "compound_order p st = 0" using L(7) by (simp add: compound_order_def)
  have "discard_slab ops s p st = Some (st1\<lparr>pool := z\<rparr>)"
    using z(1) rcu by (simp add: discard_slab_def do_free_slab_def o cnt_def st1_def Let_def)
      (simp add: upd_pool_def upd_spage_def)
  moreover have sp: "slab_pages st1 = slab_pages st - {p}" using G by (auto simp: slab_pages_def)
  have "inv A {} (st1\<lparr>pool := z\<rparr>) F C" using G z iv sp by (auto simp: slub_inv_def)
  moreover have "p \<in> slab_pages st" using L(5) by (simp add: slab_pages_def)
  then have "keeps avail st (st1\<lparr>pool := z\<rparr>)" using z(3) sp by (auto simp: keeps_def st1_def)
  ultimately show ?thesis using G sp by (auto simp: st1_def)
qed

lemma unfreeze:
  assumes iv: "inv A {p} st F C" and p: "is_slab st s p"
  shows "\<exists>st'. unfreeze_slab ops s p tail st = Some st' \<and> inv A {} st' F C \<and> live st' F C = live st F C \<and>
    keeps avail st st' \<and> c_page (caches st' s) = c_page (caches st s) \<and> (F p = [] \<longrightarrow> steady st st')"
proof -
  have rep: "rep A {p} st F C" using iv by (simp add: slub_inv_def)
  note L = loose_page [OF rep p]
  define st1 where "st1 = upd_spage p (ClearFlag PG_slub_frozen) st"
  have fl: "sp_freelist (spg st1 p) \<noteq> 0 \<longleftrightarrow> F p \<noteq> []" using freelist_iff [OF L(6)] by (simp add: st1_def)
  note P = unfreeze_partial [OF rep p _ refl]
  have st1: "sp_inuse (spg st1 p) = sp_inuse (spg st p)" by (simp add: st1_def)
  have empty: "F p \<noteq> []" if "sp_inuse (spg st p) = 0" using L(6) that by (auto simp: slab_ok_def)
  consider (full) "sp_inuse (spg st p) \<noteq> 0" "F p = []" | (part) "sp_inuse (spg st p) \<noteq> 0" "F p \<noteq> []"
    | (keep) "sp_inuse (spg st p) = 0" "n_nr_partial (caches st s) < kc_min_partial (caches st s)"
    | (give) "sp_inuse (spg st p) = 0" "\<not> n_nr_partial (caches st s) < kc_min_partial (caches st s)" by blast
  then show ?thesis
  proof cases
    case full
    then show ?thesis
      using unfreeze_full [OF rep p full(2) refl] fl steady_inv(1) [OF _ iv] steady_inv(2)
      by (auto simp: unfreeze_slab_def Let_def st1_def [symmetric] st1)
  next
    case part
    then show ?thesis
      using P [of tail] fl steady_inv(1) [OF _ iv] steady_inv(2)
      by (auto simp: unfreeze_slab_def Let_def st1_def [symmetric] st1)
  next
    case keep
    define sta where "sta = add_partial s p True (stat s DEACTIVATE_EMPTY st1)"
    have "sta = stat s DEACTIVATE_EMPTY (add_partial s p True st1)"
      by (cases "caches st1 s") (simp add: sta_def add_partial_def stat_def upd_cache_def)
    then have "unfreeze_slab ops s p tail st = Some (stat s DEACTIVATE_EMPTY (add_partial s p True st1))"
      using keep by (simp add: unfreeze_slab_def Let_def st1_def [symmetric] st1 sta_def) (simp add: st1_def)
    then show ?thesis
      using P [of True] empty [OF keep(1)] steady_inv(1) [OF _ iv] steady_inv(2) by (auto simp: st1_def)
  next
    case give
    have rep1: "rep A {p} st1 F C \<and> live st1 F C = live st F C \<and> steady st st1"
      using freeze [OF rep p st1_def] by simp
    then have iv1: "inv A {p} (stat s FREE_SLAB (stat s DEACTIVATE_EMPTY st1)) F C"
      using steady_inv(1) [OF _ iv] by simp
    have "unfreeze_slab ops s p tail st = discard_slab ops s p (stat s FREE_SLAB (stat s DEACTIVATE_EMPTY st1))"
      using give by (simp add: unfreeze_slab_def Let_def st1_def [symmetric] st1) (simp add: st1_def)
    moreover have "is_slab st1 s p" using rep1 p by (simp add: steady_def)
    then obtain st' where "discard_slab ops s p (stat s FREE_SLAB (stat s DEACTIVATE_EMPTY st1)) = Some st'"
      "inv A {} st' F C" "live st' F C = live st1 F C" "keeps avail st1 st'" "c_page (caches st' s) = c_page (caches st1 s)"
      using give_up [OF iv1, of s] give(1) st1 by (auto simp: st1_def)
    moreover have "keeps avail st st1" using rep1 steady_inv(2) by blast
    ultimately show ?thesis using rep1 empty [OF give(1)] by (auto simp: st1_def intro: keeps_trans)
  qed
qed

lemma deactivate:
  assumes iv: "inv A {} st F C" and s: "s \<in> A" and p: "c_page (caches st s) = Some p"
  shows "\<exists>st' F'. deactive_slab ops s st = Some st' \<and> inv A {} st' F' (C(s := [])) \<and>
    live st' F' (C(s := [])) = live st F C \<and> keeps avail st st' \<and> c_page (caches st' s) = None \<and>
    (F p = [] \<longrightarrow> C s = [] \<longrightarrow> steady st st')"
proof -
  define st0 where "st0 = (if sp_freelist (spg st p) \<noteq> 0 then stat s DEACTIVATE_REMOTE_FREES st else st)"
  have rep: "rep A {} st0 F C" and l0: "live st0 F C = live st F C" and p0: "c_page (caches st0 s) = Some p"
    and s0: "steady st st0"
    using iv p by (simp_all add: st0_def slub_inv_def)
  obtain st1 where st1: "drain_cpu s p True st0 = Some (C s = [], st1)" "rep A {} st1 (F(p := rev (C s) @ F p)) (C(s := []))"
    "live st1 (F(p := rev (C s) @ F p)) (C(s := [])) = live st0 F C" "steady st0 st1" "c_page (caches st1 s) = Some p"
    using drain_all [OF rep s p0, of True] by auto
  define F' where "F' = F(p := rev (C s) @ F p)"
  define st2 where "st2 = upd_cache s (\<lambda>k. k\<lparr>c_page := None\<rparr>) st1"
  note D = detach [OF st1(2) s st1(5) _ st2_def, folded F'_def]
  have d: "rep A {p} st2 F' (C(s := []))" "live st2 F' (C(s := [])) = live st F C" "steady st1 st2" "c_page (caches st2 s) = None"
    using D st1(3) l0 by (simp_all add: F'_def)
  have s2: "steady st st2" using steady_trans [OF s0 steady_trans [OF st1(4) d(3)]] .
  have iv2: "inv A {p} st2 F' (C(s := []))" by (rule steady_inv(1) [OF s2 iv d(1)])
  have "is_slab st s p" using cpu_page(1) [OF _ s p] iv by (auto simp: slub_inv_def)
  then have "is_slab st2 s p" using s2 by (simp add: steady_def)
  from unfreeze [OF iv2 this, of "C s = []"] obtain st' where
    st': "unfreeze_slab ops s p (C s = []) st2 = Some st'" "inv A {} st' F' (C(s := []))"
    "live st' F' (C(s := [])) = live st2 F' (C(s := []))" "keeps avail st2 st'" "c_page (caches st' s) = c_page (caches st2 s)"
    "F' p = [] \<Longrightarrow> steady st2 st'" by blast
  have "deactive_slab ops s st = Some st'"
    using p st1(1) st'(1) by (simp add: deactive_slab_def st0_def [symmetric] st2_def)
  moreover have "F p = [] \<Longrightarrow> C s = [] \<Longrightarrow> steady st st'" using st'(6) s2 steady_trans by (simp add: F'_def)
  ultimately show ?thesis
    using st' d keeps_trans [OF steady_inv(2) [OF s2] st'(4)] by (intro exI [of _ st'] exI [of _ F']) auto
qed

lemma flag_bits:
  "x AND GFP_MOVABLE = 0 \<longleftrightarrow> \<not> bit x 3" "x AND GFP_WAIT = 0 \<longleftrightarrow> \<not> bit x 4" "x AND GFP_NOFAIL = 0 \<longleftrightarrow> \<not> bit x 11"
  for x :: int
  using bit_iff_and_push_bit_not_eq_0 [of x 3] bit_iff_and_push_bit_not_eq_0 [of x 4] bit_iff_and_push_bit_not_eq_0 [of x 11]
  by (simp_all add: GFP_MOVABLE_def GFP_WAIT_def GFP_NOFAIL_def)

lemma no_bits:
  "x AND (GFP_MOVABLE OR GFP_WAIT OR GFP_NOFAIL) = 0 \<longleftrightarrow> x AND GFP_MOVABLE = 0 \<and> x AND GFP_WAIT = 0 \<and> x AND GFP_NOFAIL = 0"
  for x :: int
  by (simp add: bit.conj_disj_distrib or_eq_0_iff)

text \<open>A request for pages that an allocation with the flags \<open>fl\<close> makes.\<close>

definition asks :: "int \<Rightarrow> int \<Rightarrow> bool" where
  "asks fl g \<longleftrightarrow> g AND GFP_MOVABLE = 0 \<and> (g AND GFP_WAIT \<noteq> 0 \<longrightarrow> fl AND GFP_WAIT \<noteq> 0) \<and>
     (g AND GFP_NOFAIL \<noteq> 0 \<longrightarrow> fl AND GFP_NOFAIL \<noteq> 0)"

lemma asks_mono: "asks (fl AND m) g \<Longrightarrow> asks fl g"
  unfolding asks_def flag_bits by (simp add: bit_and_iff)

lemma slab_flags:
  assumes "al AND (GFP_MOVABLE OR GFP_WAIT OR GFP_NOFAIL) = 0"
  shows "asks fl ((fl AND (GFP_RECLAIM_MASK OR GFP_CONSTRAINT_MASK) OR al) OR GFP_NOTRACK)"
    "asks fl (((fl AND (GFP_RECLAIM_MASK OR GFP_CONSTRAINT_MASK) OR al) OR GFP_NOWARN OR GFP_NORETRY) AND NOT GFP_NOFAIL OR GFP_NOTRACK)"
proof -
  have m: "\<not> bit (GFP_RECLAIM_MASK OR GFP_CONSTRAINT_MASK) 3"
    "\<not> bit GFP_NOTRACK 3" "\<not> bit GFP_NOWARN 3" "\<not> bit GFP_NORETRY 3"
    "\<not> bit GFP_NOTRACK 4" "\<not> bit GFP_NOWARN 4" "\<not> bit GFP_NORETRY 4"
    "\<not> bit GFP_NOTRACK 11" "\<not> bit GFP_NOWARN 11" "\<not> bit GFP_NORETRY 11"
    by code_simp+
  show "asks fl ((fl AND (GFP_RECLAIM_MASK OR GFP_CONSTRAINT_MASK) OR al) OR GFP_NOTRACK)"
    "asks fl (((fl AND (GFP_RECLAIM_MASK OR GFP_CONSTRAINT_MASK) OR al) OR GFP_NOWARN OR GFP_NORETRY) AND NOT GFP_NOFAIL OR GFP_NOTRACK)"
    using assms m unfolding asks_def flag_bits no_bits by (simp_all add: bit_or_iff bit_and_iff)
qed

text \<open>A request to the page allocator that never returns, or that gets nothing.\<close>

definition diverges :: "int \<Rightarrow> bool" where
  "diverges fl \<longleftrightarrow> (\<exists>g z. ok z \<and> asks fl g \<and> po_alloc ops g 0 z = None)"

definition refused :: "int \<Rightarrow> int set \<Rightarrow> bool" where
  "refused fl a \<longleftrightarrow> (\<exists>g z z'. ok z \<and> avail z = a \<and> asks fl g \<and> po_alloc ops g 0 z = Some (None, z'))"

lemma diverges_mono: "diverges (fl AND m) \<Longrightarrow> diverges fl"
  unfolding diverges_def using asks_mono by blast

lemma refused_mono: "refused (fl AND m) a \<Longrightarrow> refused fl a"
  unfolding refused_def using asks_mono by blast

lemma allocate_slab_ok:
  assumes iv: "inv A {} st F C" and s: "s \<in> A"
  shows "case allocate_slab ops s (fl AND (GFP_RECLAIM_MASK OR GFP_CONSTRAINT_MASK)) st of
     None \<Rightarrow> diverges fl
   | Some (None, st') \<Rightarrow> inv A {} st' F C \<and> live st' F C = live st F C \<and> keeps avail st st' \<and> caches st' = caches st \<and>
       refused fl (avail (pool st))
   | Some (Some p, st') \<Rightarrow> \<exists>st1 n z. st' = (upd_spage p (\<lambda>g. g\<lparr>sp_objects := n\<rparr>) st1)\<lparr>pool := z\<rparr> \<and> (st1 = st \<or> st1 = stat s ORDER_FALLBACK st) \<and>
       0 < n \<and> n * kc_size (caches st s) \<le> 4096 \<and> ok z \<and> p \<in> avail (pool st) \<and> avail z = avail (pool st) - {p} \<and>
       insert p (held (pool st)) \<subseteq> held z"
proof -
  define k where "k = caches st s"
  define f0 where "f0 = fl AND (GFP_RECLAIM_MASK OR GFP_CONSTRAINT_MASK) OR kc_allocflags k"
  define f1 where "f1 = (f0 OR GFP_NOWARN OR GFP_NORETRY) AND NOT GFP_NOFAIL OR GFP_NOTRACK"
  have wf: "cache_wf k" using repD(3) [OF _ s] iv by (auto simp: slub_inv_def k_def)
  have ak: "asks fl f1" "asks fl (f0 OR GFP_NOTRACK)"
    using slab_flags [of "kc_allocflags k" fl] wf by (simp_all add: f0_def f1_def cache_wf_def)
  then have fl: "f1 AND GFP_MOVABLE = 0" "(f0 OR GFP_NOTRACK) AND GFP_MOVABLE = 0" by (simp_all add: asks_def)
  have oo: "oo_order (kc_oo k) = 0" "oo_order (kc_min k) = 0" using wf by (simp_all add: cache_wf_def)
  have okz: "ok (pool st)" using iv by (simp add: slub_inv_def)
  have ps: "oo_objects x * kc_size k \<le> 4096 \<Longrightarrow> 0 < oo_objects x \<Longrightarrow> u16 (oo_objects x) = oo_objects x" for x
  proof -
    assume a: "oo_objects x * kc_size k \<le> 4096" "0 < oo_objects x"
    then have "oo_objects x * 1 \<le> oo_objects x * kc_size k" using wf by (intro mult_left_mono) (simp_all add: cache_wf_def)
    with a show "u16 (oo_objects x) = oo_objects x" by (intro u16_id) linarith+
  qed
  define cnt where "cnt p z = po_count ops (kc_flags k AND SLAB_RECLAIM_ACCOUNT \<noteq> 0) p 1 z" for p z
  have cnt: "ok z \<Longrightarrow> ok (cnt p z) \<and> avail (cnt p z) = avail z \<and> held (cnt p z) = held z" for p z
    using count_ok by (simp add: cnt_def)
  have run: "allocate_slab ops s (fl AND (GFP_RECLAIM_MASK OR GFP_CONSTRAINT_MASK)) st =
    (case po_alloc ops f1 0 (pool st) of None \<Rightarrow> None
     | Some (Some p, z) \<Rightarrow> Some (Some p, (upd_spage p (\<lambda>g. g\<lparr>sp_objects := u16 (oo_objects (kc_oo k))\<rparr>) st)\<lparr>pool := cnt p z\<rparr>)
     | Some (None, z) \<Rightarrow>
         (case po_alloc ops (f0 OR GFP_NOTRACK) 0 z of None \<Rightarrow> None
          | Some (None, z) \<Rightarrow> Some (None, st\<lparr>pool := z\<rparr>)
          | Some (Some p, z) \<Rightarrow> Some (Some p, (upd_spage p (\<lambda>g. g\<lparr>sp_objects := u16 (oo_objects (kc_min k))\<rparr>)
                (stat s ORDER_FALLBACK st))\<lparr>pool := cnt p z\<rparr>)))"
    unfolding allocate_slab_def Let_def k_def [symmetric] f0_def [symmetric] alloc_slab_page_def oo
    unfolding f1_def [symmetric]
    by (auto simp: oo cnt_def upd_pool_def upd_spage_def stat_def upd_cache_def split: option.splits)
  show ?thesis
  proof (cases "po_alloc ops f1 0 (pool st)")
    case None
    then have "diverges fl" using okz ak(1) unfolding diverges_def by blast
    then show ?thesis using None by (simp add: run)
  next
    case (Some rz)
    obtain r z where rz: "po_alloc ops f1 0 (pool st) = Some (r, z)" using Some by (cases rz) simp
    show ?thesis
    proof (cases r)
      case (Some p)
      note L = alloc_some [OF okz fl(1) rz [unfolded Some]]
      have st': "allocate_slab ops s (fl AND (GFP_RECLAIM_MASK OR GFP_CONSTRAINT_MASK)) st =
          Some (Some p, (upd_spage p (\<lambda>g. g\<lparr>sp_objects := oo_objects (kc_oo k)\<rparr>) st)\<lparr>pool := cnt p z\<rparr>)"
        using rz Some ps [of "kc_oo k"] wf by (simp add: run cache_wf_def)
      show ?thesis unfolding st' option.case prod.case
        using L cnt [of z p] wf
        by (intro exI [of _ st] exI [of _ "oo_objects (kc_oo k)"] exI [of _ "cnt p z"]) (simp add: cache_wf_def k_def)
    next
      case None
      note N = alloc_none [OF okz fl(1) rz [unfolded None]]
      have okz': "ok z" using N by simp
      show ?thesis
      proof (cases "po_alloc ops (f0 OR GFP_NOTRACK) 0 z")
        case n2: None
        then have "diverges fl" using okz' ak(2) unfolding diverges_def by blast
        then show ?thesis using rz None n2 by (simp add: run)
      next
        case (Some rz2)
        obtain r2 z2 where rz2: "po_alloc ops (f0 OR GFP_NOTRACK) 0 z = Some (r2, z2)" using Some by (cases rz2) simp
        show ?thesis
        proof (cases r2)
          case n2: None
          note N2 = alloc_none [OF okz' fl(2) rz2 [unfolded n2]]
          have st': "allocate_slab ops s (fl AND (GFP_RECLAIM_MASK OR GFP_CONSTRAINT_MASK)) st = Some (None, st\<lparr>pool := z2\<rparr>)"
            using rz None rz2 n2 by (simp add: run)
          have "refused fl (avail (pool st))" using okz' N ak(2) rz2 n2 unfolding refused_def by metis
          then show ?thesis unfolding st' option.case prod.case
            using iv N N2 by (auto simp: slub_inv_def keeps_def)
        next
          case (Some p)
          note L = alloc_some [OF okz' fl(2) rz2 [unfolded Some]]
          have st': "allocate_slab ops s (fl AND (GFP_RECLAIM_MASK OR GFP_CONSTRAINT_MASK)) st =
              Some (Some p, (upd_spage p (\<lambda>g. g\<lparr>sp_objects := oo_objects (kc_min k)\<rparr>) (stat s ORDER_FALLBACK st))\<lparr>pool := cnt p z2\<rparr>)"
            using rz None rz2 Some ps [of "kc_min k"] wf by (simp add: run cache_wf_def)
          show ?thesis unfolding st' option.case prod.case
            using L N cnt [of z2 p] wf
            by (intro exI [of _ "stat s ORDER_FALLBACK st"] exI [of _ "oo_objects (kc_min k)"] exI [of _ "cnt p z2"])
              (auto simp add: cache_wf_def k_def)
        qed
      qed
    qed
  qed
qed

lemma allocate_slab_mem: "allocate_slab ops s fl st = Some (r, st') \<Longrightarrow> smem st' = smem st"
  by (auto simp: allocate_slab_def alloc_slab_page_def Let_def bind_eq_Some_conv split: option.splits if_splits)

lemma new_slab_ok:
  assumes iv: "inv A {} st F C" and s: "s \<in> A"
  shows "case new_slab ops s fl st of
     None \<Rightarrow> diverges fl
   | Some (None, st') \<Rightarrow> inv A {} st' F C \<and> live st' F C = live st F C \<and> keeps avail st st' \<and>
       refused fl (avail (pool st)) \<and> smem st' = smem st
   | Some (Some p, st') \<Rightarrow> \<exists>F'. F' p \<noteq> [] \<and> inv A {p} st' F' C \<and> live st' F' C = live st F C \<and> keeps avail st st' \<and>
       c_page (caches st' s) = c_page (caches st s) \<and> is_slab st' s p \<and> slab_pages st \<subseteq> slab_pages st' \<and>
       (\<forall>a. a div 4096 \<in> slab_pages st \<longrightarrow> smem st' a = smem st a)"
proof -
  note M = allocate_slab_ok [OF iv s, of fl]
  consider (a) "allocate_slab ops s (fl AND (GFP_RECLAIM_MASK OR GFP_CONSTRAINT_MASK)) st = None"
    | (b) st' where "allocate_slab ops s (fl AND (GFP_RECLAIM_MASK OR GFP_CONSTRAINT_MASK)) st = Some (None, st')"
    | (c) p st' where "allocate_slab ops s (fl AND (GFP_RECLAIM_MASK OR GFP_CONSTRAINT_MASK)) st = Some (Some p, st')"
    by (cases "allocate_slab ops s (fl AND (GFP_RECLAIM_MASK OR GFP_CONSTRAINT_MASK)) st") (auto, metis option.exhaust)
  then show ?thesis
  proof cases
    case a
    then show ?thesis using M by (simp add: new_slab_def)
  next
    case b
    moreover from this have "smem st' = smem st" by (rule allocate_slab_mem)
    ultimately show ?thesis using M by (simp add: new_slab_def)
  next
    case c
    then obtain st1 n z where st': "st' = (upd_spage p (\<lambda>g. g\<lparr>sp_objects := n\<rparr>) st1)\<lparr>pool := z\<rparr>"
      "st1 = st \<or> st1 = stat s ORDER_FALLBACK st" "0 < n" "n * kc_size (caches st s) \<le> 4096" "ok z" "p \<in> avail (pool st)"
      "avail z = avail (pool st) - {p}" "insert p (held (pool st)) \<subseteq> held z"
      using M by auto
    define st2 where "st2 = st1\<lparr>pool := z\<rparr>"
    have e: "st' = upd_spage p (\<lambda>g. g\<lparr>sp_objects := n\<rparr>) st2" by (simp add: st'(1) st2_def upd_spage_def)
    have rep2: "rep A {} st2 F C" "live st2 F C = live st F C" "slab_pages st2 = slab_pages st" "smem st2 = smem st"
      using st'(2) iv by (auto simp: st2_def slub_inv_def)
    have ks: "kc_size (caches st2 s) = kc_size (caches st s)" "c_page (caches st2 s) = c_page (caches st s)"
      "cfg (caches st2 t) = cfg (caches st t)" for t
      using st'(2) by (auto simp: st2_def)
    have p: "p \<notin> slab_pages st" "0 < p"
      using apart [of "pool st"] physical [OF st'(5)] iv st'(6,8) by (auto simp: slub_inv_def)
    then have np: "\<not> PageSlab (spg st2 p)" using rep2(3) by (simp add: slab_pages_def set_eq_iff)
    obtain ls where ls: "ls \<noteq> []" "rep A {p} (mk_slab s p st') (F(p := ls)) C"
      "live (mk_slab s p st') (F(p := ls)) C = live st2 F C" "caches (mk_slab s p st') = caches st2"
      "pool (mk_slab s p st') = pool st2" "is_slab (mk_slab s p st') s p"
      "\<And>q. PageSlab (spg (mk_slab s p st') q) \<longleftrightarrow> PageSlab (spg st2 q) \<or> q = p"
      "\<And>a. a div 4096 \<noteq> p \<Longrightarrow> smem (mk_slab s p st') a = smem st2 a"
      using mk_slab_rep [OF rep2(1) s p(2) np st'(3) _ refl] st'(4) ks(1) unfolding e by auto
    have sp: "slab_pages (mk_slab s p st') = insert p (slab_pages st)"
      using ls(7) rep2(3) by (auto simp: slab_pages_def)
    have "inv A {p} (mk_slab s p st') (F(p := ls)) C"
      using ls(2,5) sp st'(5,8) iv by (auto simp: slub_inv_def st2_def)
    moreover have "keeps avail st (mk_slab s p st')"
      using ls(4,5) sp st'(6,7) ks by (auto simp: keeps_def st2_def)
    moreover have "smem (mk_slab s p st') a = smem st a" if "a div 4096 \<in> slab_pages st" for a
    proof -
      have "a div 4096 \<noteq> p" using that p(1) by blast
      then show ?thesis using ls(8) rep2(4) by simp
    qed
    ultimately show ?thesis
      using c ls(1-6) rep2 ks sp by (auto simp: new_slab_def intro!: exI [of _ "F(p := ls)"])
  qed
qed

end

end
