(* ===== verification/SlubLive.thy ===== *)
theory SlubLive
  imports SlubAlloc
begin

text \<open>The whole of an allocation and of a release, over any \<open>page_source\<close>.\<close>

context page_source
begin

section \<open>Allocation\<close>

text \<open>
  What an allocation from cache \<open>s\<close> that takes the state from \<open>st\<close> to \<open>st'\<close> has done: a new object is live, or
  (result 0) all objects were live and the page allocator refused; the slabs are written only in the new object.
\<close>

definition alloc_post :: "nat set \<Rightarrow> nat \<Rightarrow> int \<Rightarrow> 'z slub \<Rightarrow> (int \<Rightarrow> int list) \<Rightarrow> (nat \<Rightarrow> int list) \<Rightarrow> int \<Rightarrow> 'z slub \<Rightarrow> bool" where
  "alloc_post A s fl st F C x st' \<longleftrightarrow>
     (\<forall>a. a div 4096 \<in> slab_pages st \<longrightarrow> a < x \<or> x + kc_size (caches st s) \<le> a \<longrightarrow> smem st' a = smem st a) \<and>
     (\<exists>F' C'. inv A {} st' F' C' \<and> keeps avail st st' \<and>
     (if x = 0 then live st' F' C' = live st F C \<and> slots st s \<subseteq> live st F C s \<and> refused fl (avail (pool st))
      else x \<in> slots st' s \<and> x \<notin> live st F C s \<and> live st' F' C' = (live st F C)(s := insert x (live st F C s))))"

lemma alloc_post_steady:
  assumes "alloc_post A s fl st1 F1 C1 x st'" "keeps avail st st1" "live st1 F1 C1 = live st F C"
    "x = 0 \<Longrightarrow> slots st1 s = slots st s \<and> avail (pool st1) = avail (pool st)"
    "slab_pages st \<subseteq> slab_pages st1" "\<And>a. a div 4096 \<in> slab_pages st \<Longrightarrow> smem st1 a = smem st a"
  shows "alloc_post A s fl st F C x st'"
proof -
  obtain F' C' where "inv A {} st' F' C'" "keeps avail st1 st'"
    "if x = 0 then live st' F' C' = live st1 F1 C1 \<and> slots st1 s \<subseteq> live st1 F1 C1 s \<and> refused fl (avail (pool st1))
      else x \<in> slots st' s \<and> x \<notin> live st1 F1 C1 s \<and> live st' F' C' = (live st1 F1 C1)(s := insert x (live st1 F1 C1 s))"
    using assms(1) unfolding alloc_post_def by blast
  moreover from this(2) assms(2) have "keeps avail st st'" by (rule keeps_trans [rotated])
  moreover have "kc_size (caches st1 s) = kc_size (caches st s)" by (rule keeps_size [OF assms(2)])
  then have "smem st' a = smem st a" if "a div 4096 \<in> slab_pages st" "a < x \<or> x + kc_size (caches st s) \<le> a" for a
    using assms(1,5,6) that unfolding alloc_post_def by auto
  ultimately show ?thesis using assms(3,4) unfolding alloc_post_def by (auto split: if_splits)
qed

lemma alloc_post_mono: "alloc_post A s (fl AND m) st F C x st' \<Longrightarrow> alloc_post A s fl st F C x st'"
  unfolding alloc_post_def using refused_mono by (meson)

text \<open>The slab of the CPU has a free object.\<close>

lemma from_load:
  assumes iv: "inv A {} st F C" and s: "s \<in> A" and p: "c_page (caches st s) = Some p" and C: "C s = []" and F: "F p \<noteq> []"
  shows "\<exists>x st'. slab_alloc_from ops s fl Load_freelist st = Some (x, st') \<and> x \<noteq> 0 \<and> alloc_post A s fl st F C x st'"
proof -
  have rep: "rep A {} st F C" using iv by (simp add: slub_inv_def)
  define x where "x = sp_freelist (spg st p)"
  have x: "x \<noteq> 0" using freelist_iff [OF cpu_page(3) [OF rep s p]] F by (simp add: x_def)
  define st1 where "st1 = upd_cache s (\<lambda>k. k\<lparr>c_node := page_to_nid p\<rparr>)
      (upd_spage p (\<lambda>g. g\<lparr>sp_inuse := sp_objects g, sp_freelist := 0\<rparr>)
       (upd_cache s (\<lambda>k. k\<lparr>c_freelist := get_freepointer s x st\<rparr>) st))"
  obtain xs where L: "F p = x # xs" "rep A {} st1 (F(p := [])) (C(s := xs))" "x \<in> slots st s" "x \<notin> live st F C s"
    "live st1 (F(p := [])) (C(s := xs)) = (live st F C)(s := insert x (live st F C s))"
    using load_freelist [OF rep s p C x_def [symmetric] x st1_def] by blast
  have "steady st st1" by (auto simp: steady_def st1_def cfg_def is_slab_def fun_eq_iff)
  note S = steady_inv [OF this]
  have mem: "smem st1 = smem st" by (simp add: st1_def)
  have "slab_alloc_from ops s fl Load_freelist st = Some (x, stat s ALLOC_SLOWPATH st1)"
    using p x by (subst slab_alloc_from.simps) (simp add: Let_def x_def st1_def)
  moreover have "slots st1 s = slots st s" by (rule slots_eq) (simp_all add: st1_def is_slab_def)
  then have "alloc_post A s fl st F C x (stat s ALLOC_SLOWPATH st1)"
    unfolding alloc_post_def using L S(1) [OF iv L(2)] S(2) x mem
    by (intro conjI exI [of _ "F(p := [])"] exI [of _ "C(s := xs)"]) simp_all
  ultimately show ?thesis using x by blast
qed

lemma partial_Nil:
  assumes iv: "inv A X st F C" and s: "s \<in> A" and n: "n_nr_partial (caches st s) = 0"
  shows "n_partial (caches st s) = []"
proof -
  have rep: "rep A X st F C" using iv by (simp add: slub_inv_def)
  note D = cache_repD [OF rep s]
  have "set (n_partial (caches st s)) \<subseteq> {0<..<2 ^ 52}"
  proof
    fix p
    assume "p \<in> set (n_partial (caches st s))"
    then have "PageSlab (spg st p)" using D(7) by (simp add: is_slab_def)
    then have "p \<in> slab_pages st" by (simp add: slab_pages_def)
    then show "p \<in> {0<..<2 ^ 52}" using physical [of "pool st"] iv by (auto simp: slub_inv_def)
  qed
  then have "card (set (n_partial (caches st s))) \<le> card {0<..<(2::int) ^ 52}" by (intro card_mono) simp_all
  then have "length (n_partial (caches st s)) < 2 ^ 52" using distinct_card [OF D(5)] by simp
  then show ?thesis using D(6) n by (simp add: u64_def)
qed

text \<open>There is no slab of the CPU.\<close>

lemma from_new:
  assumes iv: "inv A {} st F C" and s: "s \<in> A" and c: "c_page (caches st s) = None"
  shows "case slab_alloc_from ops s fl New_slab st of None \<Rightarrow> diverges fl | Some (x, st') \<Rightarrow> alloc_post A s fl st F C x st'"
proof (cases "n_nr_partial (caches st s) = 0 \<or> n_partial (caches st s) = []")
  case False
  have rep: "rep A {} st F C" using iv by (simp add: slub_inv_def)
  obtain p ps where ps: "n_partial (caches st s) = p # ps" using False by (cases "n_partial (caches st s)") auto
  define st1 where "st1 = remove_partial s p st"
  note U = unlink [OF rep s _ st1_def]
  have u: "rep A {p} st1 F C" "live st1 F C = live st F C" "steady st st1" "is_slab st1 s p" "F p \<noteq> []"
    "c_page (caches st1 s) = None" using U ps c by auto
  define st2 where "st2 = upd_spage p (SetFlag PG_slub_frozen) st1"
  have f: "rep A {p} st2 F C" "live st2 F C = live st1 F C" "steady st1 st2" "caches st2 = caches st1"
    using freeze [OF u(1,4) st2_def] by simp_all
  have "is_slab st2 s p" using u(4) f(3) by (simp add: steady_def)
  moreover define st3 where "st3 = upd_cache s (\<lambda>k. k\<lparr>c_page := Some p\<rparr>) st2"
  ultimately have a: "rep A {} st3 F C" "live st3 F C = live st2 F C" "steady st2 st3" "c_page (caches st3 s) = Some p" "C s = []"
    using attach [OF f(1) _ _ _ st3_def] u(6) f(4) by (simp_all add: st2_def)
  have sty: "steady st st3" using u(3) f(3) a(3) by (blast intro: steady_trans)
  have iv3: "inv A {} (stat s ALLOC_FROM_PARTIAL st3) F C" using steady_inv(1) [OF sty iv a(1)] by simp
  obtain x st' where x: "slab_alloc_from ops s fl Load_freelist (stat s ALLOC_FROM_PARTIAL st3) = Some (x, st')" "x \<noteq> 0"
    "alloc_post A s fl (stat s ALLOC_FROM_PARTIAL st3) F C x st'"
    using from_load [OF iv3 s _ a(5) u(5), of fl] a(4) by auto
  have "alloc_post A s fl st F C x st'"
    by (rule alloc_post_steady [OF x(3)]) (use steady_inv(2) [OF sty] u(2) f(2) a(2) x(2) steady_pages [OF sty]
        in \<open>simp_all add: st3_def st2_def st1_def remove_partial_def\<close>)
  moreover have "slab_alloc_from ops s fl New_slab st = slab_alloc_from ops s fl Load_freelist (stat s ALLOC_FROM_PARTIAL st3)"
    using False ps by (subst slab_alloc_from.simps) (simp add: get_partial_def Let_def st1_def st2_def st3_def)
  ultimately show ?thesis using x(1) by simp
next
  case True
  have rep: "rep A {} st F C" using iv by (simp add: slub_inv_def)
  have np: "n_partial (caches st s) = []" using True partial_Nil [OF iv s] by blast
  have run: "slab_alloc_from ops s fl New_slab st =
      do { (new, st) \<leftarrow> new_slab ops s (fl AND po_allowed ops) st;
           case new of
             None \<Rightarrow> Some (0, st)
           | Some page \<Rightarrow>
               do { let st = stat s ALLOC_SLAB st;
                    st \<leftarrow> (if c_page (caches st s) \<noteq> None then flush_slab ops s st else Some st);
                    let st = upd_spage page (SetFlag PG_slub_frozen) st;
                    slab_alloc_from ops s (fl AND po_allowed ops) Load_freelist
                      (upd_cache s (\<lambda>k. k\<lparr>c_page := Some page\<rparr>) st) } }"
    using True np by (subst slab_alloc_from.simps) (auto simp: get_partial_def Let_def)
  have Cs: "C s = []" by (rule cache_repD(3) [OF rep s c])
  have full: "slots st s \<subseteq> live st F C s"
  proof
    fix y
    assume y: "y \<in> slots st s"
    then have "is_slab st s (y div 4096)" by (simp add: slots_def)
    then have "F (y div 4096) = []" using cache_repD(7) [OF rep s, of "y div 4096"] np c by simp
    then show "y \<in> live st F C s" using y Cs by (simp add: live_def)
  qed
  note N = new_slab_ok [OF iv s, of "fl AND po_allowed ops"]
  consider (a) "new_slab ops s (fl AND po_allowed ops) st = None" | (b) st' where "new_slab ops s (fl AND po_allowed ops) st = Some (None, st')"
    | (c) p st' where "new_slab ops s (fl AND po_allowed ops) st = Some (Some p, st')"
    by (cases "new_slab ops s (fl AND po_allowed ops) st") (auto, metis option.exhaust)
  then show ?thesis
  proof cases
    case a
    then show ?thesis using N run diverges_mono by simp
  next
    case b
    then have "alloc_post A s fl st F C 0 st'" unfolding alloc_post_def using N full refused_mono [of fl "po_allowed ops"]
      by (intro conjI exI [of _ F] exI [of _ C]) simp_all
    then show ?thesis using run b by simp
  next
    case (c p st1)
    then obtain F' where F': "F' p \<noteq> []" "inv A {p} st1 F' C" "live st1 F' C = live st F C" "keeps avail st st1"
      "c_page (caches st1 s) = None" "is_slab st1 s p" "slab_pages st \<subseteq> slab_pages st1"
      "\<And>a. a div 4096 \<in> slab_pages st \<Longrightarrow> smem st1 a = smem st a" using N assms(3) by auto
    define st2 where "st2 = upd_spage p (SetFlag PG_slub_frozen) (stat s ALLOC_SLAB st1)"
    have rep1: "rep A {p} (stat s ALLOC_SLAB st1) F' C" "is_slab (stat s ALLOC_SLAB st1) s p"
      using F'(2,6) by (simp_all add: slub_inv_def)
    have f: "rep A {p} st2 F' C" "live st2 F' C = live st1 F' C" "steady st1 st2" "caches st2 = caches (stat s ALLOC_SLAB st1)"
      using freeze [OF rep1 st2_def] by (simp_all add: steady_def)
    have "is_slab st2 s p" using F'(6) f(3) by (simp add: steady_def)
    moreover define st3 where "st3 = upd_cache s (\<lambda>k. k\<lparr>c_page := Some p\<rparr>) st2"
    ultimately have a: "rep A {} st3 F' C" "live st3 F' C = live st2 F' C" "steady st2 st3" "c_page (caches st3 s) = Some p"
      using attach [OF f(1) _ _ _ st3_def] F'(5) f(4) by (simp_all add: st2_def)
    have sty: "steady st1 st3" using f(3) a(3) by (blast intro: steady_trans)
    have iv3: "inv A {} st3 F' C" by (rule steady_inv(1) [OF sty F'(2) a(1)])
    obtain x st' where x: "slab_alloc_from ops s (fl AND po_allowed ops) Load_freelist st3 = Some (x, st')" "x \<noteq> 0"
      "alloc_post A s (fl AND po_allowed ops) st3 F' C x st'"
      using from_load [OF iv3 s a(4) Cs F'(1)] by blast
    have "alloc_post A s fl st F C x st'"
      by (rule alloc_post_steady [OF alloc_post_mono [OF x(3)]])
        (use keeps_trans [OF F'(4) steady_inv(2) [OF sty]] F'(3,7,8) f(2) a(2) x(2) steady_pages [OF sty]
          in \<open>simp_all add: st3_def st2_def\<close>)
    moreover have "slab_alloc_from ops s fl New_slab st = Some (x, st')"
      using run c F'(5) x(1) by (simp add: Let_def st2_def st3_def)
    ultimately show ?thesis by simp
  qed
qed

lemma slow_ok:
  assumes iv: "inv A {} st F C" and s: "s \<in> A" and z: "c_freelist (caches st s) = 0"
  shows "case slab_alloc_slow ops s fl st of None \<Rightarrow> diverges fl | Some (x, st') \<Rightarrow> alloc_post A s fl st F C x st'"
proof (cases "c_page (caches st s)")
  case None
  then show ?thesis
    using from_new [OF iv s None, of "fl AND NOT GFP_ZERO"] diverges_mono alloc_post_mono
    by (auto simp: slab_alloc_slow_def split: option.splits)
next
  case (Some p)
  have rep: "rep A {} st F C" using iv by (simp add: slub_inv_def)
  have Cs: "C s = []" using cache_repD(2) [OF rep s] z by simp
  define st0 where "st0 = stat s ALLOC_REFILL st"
  have iv0: "inv A {} st0 F C" and p0: "c_page (caches st0 s) = Some p" and sty: "steady st st0" "live st0 F C = live st F C"
    "slots st0 = slots st" "spg st0 = spg st"
    using iv Some by (simp_all add: st0_def)
  have run: "slab_alloc_slow ops s fl st = slab_alloc_from ops s (fl AND NOT GFP_ZERO) Load_freelist st0"
    using Some by (simp add: slab_alloc_slow_def st0_def)
  have post: "alloc_post A s fl st F C x st'" if "alloc_post A s (fl AND NOT GFP_ZERO) st0 F C x st'" for x st'
    by (rule alloc_post_steady [OF alloc_post_mono [OF that]]) (use steady_inv(2) [OF sty(1)] sty in \<open>simp_all add: st0_def\<close>)
  show ?thesis
  proof (cases "F p = []")
    case False
    then show ?thesis using from_load [OF iv0 s p0 Cs False, of "fl AND NOT GFP_ZERO"] run post by auto
  next
    case True
    obtain st1 F1 where d: "deactive_slab ops s st0 = Some st1" "inv A {} st1 F1 (C(s := []))"
      "live st1 F1 (C(s := [])) = live st0 F C" "keeps avail st0 st1" "c_page (caches st1 s) = None" "steady st0 st1"
      using deactivate [OF iv0 s p0] True Cs by blast
    have "sp_freelist (spg st p) = 0" using freelist_iff [OF cpu_page(3) [OF rep s Some]] True by blast
    then have "slab_alloc_from ops s (fl AND NOT GFP_ZERO) Load_freelist st0 = slab_alloc_from ops s (fl AND NOT GFP_ZERO) New_slab st1"
      using p0 d(1) sty(4) by (subst slab_alloc_from.simps, simp, subst slab_alloc_from.simps, simp)
    moreover have "slots st1 s = slots st0 s" by (rule steady_slots [OF d(6)])
    then have "alloc_post A s (fl AND NOT GFP_ZERO) st0 F C x st'"
      if "alloc_post A s (fl AND NOT GFP_ZERO) st1 F1 (C(s := [])) x st'" for x st'
      using d(3,4,6) steady_pages [OF d(6)] deactive_mem [OF d(1)] z
      by (intro alloc_post_steady [OF that]) (simp_all add: steady_def st0_def)
    ultimately show ?thesis using from_new [OF d(2) s d(5), of "fl AND NOT GFP_ZERO"] run post diverges_mono
      by (auto split: option.splits)
  qed
qed

end

end
