(* ===== verification/SlubMem.thy ===== *)
theory SlubMem
  imports SlubLive
begin

text \<open>Client memory, the allocation with \<^verbatim>\<open>__GFP_ZERO\<close>, and the release.\<close>

section \<open>Writes of the client\<close>

lemma live_bytes:
  assumes rep: "rep A X st F C" and x: "x \<in> live st F C s"
    and q: "PageSlab (spg st q)" "y \<in> obj_of st q" "y \<noteq> x"
  shows "y + kc_offset (caches st (owner st q)) < x \<or> x + kc_size (caches st s) \<le> y + kc_offset (caches st (owner st q))"
proof (rule ccontr)
  note L = liveD [OF rep x]
  define t where "t = owner st q"
  assume "\<not> ?thesis"
  then have n: "0 \<le> y + kc_offset (caches st t) - x" "y + kc_offset (caches st t) - x < kc_size (caches st s)"
    by (simp_all add: t_def)
  have Q: "is_slab st t q" using q(1) is_slab_owner [OF rep] by (simp add: t_def)
  have okq: "slab_ok (smem st) (caches st t) (spg st q) q (F q) (cpu_objs st t q C)" and wt: "cache_wf (caches st t)"
    using is_slab_slab_ok [OF rep Q] repD(3) [OF rep] by auto
  have okx: "slab_ok (smem st) (caches st s) (spg st (x div 4096)) (x div 4096) (F (x div 4096)) (cpu_objs st s (x div 4096) C)"
    and ws: "cache_wf (caches st s)"
    using is_slab_slab_ok(1) [OF rep L(1)] repD(3) [OF rep L(6)] by auto
  have y: "y \<in> objs (kc_size (caches st t)) q (sp_objects (spg st q))" using q(2) by (simp add: obj_of_def t_def)
  have "(y + kc_offset (caches st t)) div 4096 = q" by (rule word_page [OF wt okq y])
  moreover have "(x + (y + kc_offset (caches st t) - x)) div 4096 = x div 4096"
    by (rule objs_page [OF L(2) _ _ n]) (use ws okx in \<open>simp_all add: cache_wf_def slab_ok_def\<close>)
  ultimately have e: "x div 4096 = q" by simp
  then have "t = s" using L(1) Q by (simp add: is_slab_def)
  then have "y + kc_offset (caches st t) \<noteq> x + (y + kc_offset (caches st t) - x)"
    using y L(2) e q(3) n ws
    by (intro objs_apart [where sz = "kc_size (caches st s)" and p = q and n = "sp_objects (spg st q)"])
      (simp_all add: cache_wf_def)
  then show False by simp
qed

lemma client_write:
  assumes rep: "rep A X st F C" and x: "x \<in> live st F C s"
    and m: "\<And>a. a < x \<or> x + kc_size (caches st s) \<le> a \<Longrightarrow> m' a = smem st a"
  shows "rep A X (st\<lparr>smem := m'\<rparr>) F C" "live (st\<lparr>smem := m'\<rparr>) F C = live st F C"
proof -
  note L = liveD [OF rep x]
  have same: "m' (y + kc_offset (caches st (owner st q))) = smem st (y + kc_offset (caches st (owner st q)))"
    if "PageSlab (spg st q)" "y \<in> obj_of st q" "y \<noteq> x" for q y
    using m live_bytes [OF rep x that] by blast
  have ow: "owner (st\<lparr>smem := m'\<rparr>) = owner st" "is_slab (st\<lparr>smem := m'\<rparr>) = is_slab st"
    by (simp_all add: owner_def is_slab_def fun_eq_iff)
  have "page_rep (st\<lparr>smem := m'\<rparr>) X F C A p" for p
  proof -
    note P = repD(1) [OF rep, of p]
    have "slab_ok m' (caches st (owner st p)) (spg st p) p (F p) (cpu_objs st (owner st p) p C)" if sl: "PageSlab (spg st p)"
    proof -
      have ok: "slab_ok (smem st) (caches st (owner st p)) (spg st p) p (F p) (cpu_objs st (owner st p) p C)"
        using P sl by (simp add: page_rep_def)
      have "y \<noteq> x" if y: "y \<in> set (F p)" for y
      proof
        assume "y = x"
        then have "x \<in> obj_of st p" using ok y by (auto simp: slab_ok_def obj_of_def)
        then have "x div 4096 = p"
          using slot_page(1) [OF rep, of "owner st p" p x] is_slab_owner [OF rep] sl by (simp add: obj_of_def)
        then show False using L(3) y \<open>y = x\<close> by simp
      qed
      note nx = this
      have sub: "set (F p) \<subseteq> obj_of st p" and ch: "chain (smem st) (kc_offset (caches st (owner st p))) (sp_freelist (spg st p)) (F p)"
        using ok by (simp_all add: slab_ok_def obj_of_def)
      from ch have "chain m' (kc_offset (caches st (owner st p))) (sp_freelist (spg st p)) (F p)"
        by (rule chain_frame) (use same [OF sl] sub nx in blast)
      then show ?thesis using ok by (simp add: slab_ok_def)
    qed
    then show ?thesis using P by (simp add: page_rep_def ow cpu_objs_def)
  qed
  moreover have "cache_rep (st\<lparr>smem := m'\<rparr>) X F C t" if t: "t \<in> A" for t
  proof -
    note R = repD(2) [OF rep t] and D = cache_repD [OF rep t]
    have "chain m' (kc_offset (caches st t)) (c_freelist (caches st t)) (C t)"
    proof (cases "c_page (caches st t)")
      case None
      then show ?thesis using D(2,3) by auto
    next
      case (Some p)
      note P = cpu_page [OF rep t Some]
      have o: "set (C t) \<subseteq> obj_of st p" using P(3,4) by (auto simp: slab_ok_def obj_of_def)
      have "y \<noteq> x" if y: "y \<in> set (C t)" for y
      proof
        assume "y = x"
        then have "x div 4096 = p" using slot_page(1) [OF rep P(1), of x] o y P(4) by (auto simp: obj_of_def)
        then have "t = s" using L(1) P(1) by (simp add: is_slab_def)
        then show False using L(4) y \<open>y = x\<close> by simp
      qed
      then show ?thesis using same [OF P(5)] o unfolding P(4) by (intro chain_frame [OF D(2)]) blast
    qed
    then show ?thesis using R by (simp add: cache_rep_def ow cong: option.case_cong)
  qed
  ultimately show "rep A X (st\<lparr>smem := m'\<rparr>) F C" by (simp add: rep_def)
  show "live (st\<lparr>smem := m'\<rparr>) F C = live st F C" by (simp add: live_def slots_def ow fun_eq_iff)
qed

context page_source
begin

section \<open>Allocation with zeroing\<close>

lemma zero_post:
  assumes p: "alloc_post A s fl st F C x st'" and x: "x \<noteq> 0" and s: "s \<in> A"
  shows "alloc_post A s fl st F C x (zero_object s x st')"
proof -
  obtain F' C' where P: "inv A {} st' F' C'" "keeps avail st st'" "x \<in> slots st' s" "x \<notin> live st F C s"
    "live st' F' C' = (live st F C)(s := insert x (live st F C s))"
    using p x unfolding alloc_post_def by auto
  have rep: "rep A {} st' F' C'" using P(1) by (simp add: slub_inv_def)
  have sz: "kc_size (caches st' s) = kc_size (caches st s)" by (rule keeps_size [OF P(2)])
  have xl: "x \<in> live st' F' C' s" using P(5) by simp
  have wf: "kc_objsize (caches st' s) \<le> kc_size (caches st' s)" using repD(3) [OF rep s] by (simp add: cache_wf_def)
  define m where "m = (\<lambda>a. if x \<le> a \<and> a < x + kc_objsize (caches st' s) then 0 else smem st' a)"
  have z: "zero_object s x st' = st'\<lparr>smem := m\<rparr>" by (simp add: zero_object_def m_def)
  have ma: "m a = smem st' a" if "a < x \<or> x + kc_size (caches st' s) \<le> a" for a using that wf by (auto simp: m_def)
  have mem: "m a = smem st a" if "a div 4096 \<in> slab_pages st" "a < x \<or> x + kc_size (caches st s) \<le> a" for a
    using p that ma sz unfolding alloc_post_def by auto
  have "rep A {} (st'\<lparr>smem := m\<rparr>) F' C'" "live (st'\<lparr>smem := m\<rparr>) F' C' = live st' F' C'"
    using client_write [OF rep xl, of m] ma by blast+
  moreover have "slots (st'\<lparr>smem := m\<rparr>) = slots st'" "slab_pages (st'\<lparr>smem := m\<rparr>) = slab_pages st'"
    by (simp_all add: slots_def slab_pages_def is_slab_def fun_eq_iff)
  ultimately show ?thesis
    unfolding alloc_post_def z using P x mem
    by (intro conjI exI [of _ F'] exI [of _ C']) (simp_all add: slub_inv_def keeps_def)
qed

lemma slab_alloc_ok:
  assumes iv: "inv A {} st F C" and s: "s \<in> A"
  shows "case slab_alloc ops s fl st of None \<Rightarrow> diverges fl | Some (x, st') \<Rightarrow> alloc_post A s fl st F C x st'"
proof -
  have zp: "alloc_post A s fl st F C x (if fl AND GFP_ZERO \<noteq> 0 \<and> x \<noteq> 0 then zero_object s x st' else st')"
    if "alloc_post A s fl st F C x st'" for x st'
    using zero_post [OF that _ s] that by simp
  show ?thesis
  proof (cases "c_freelist (caches st s) = 0")
    case True
    then show ?thesis using slow_ok [OF iv s True, of fl] zp by (auto simp: slab_alloc_def split: option.splits)
  next
    case False
    define x where "x = c_freelist (caches st s)"
    have rep: "rep A {} st F C" using iv by (simp add: slub_inv_def)
    define st1 where "st1 = upd_cache s (\<lambda>k. k\<lparr>c_freelist := get_freepointer s x st\<rparr>) st"
    obtain xs where T: "C s = x # xs" "rep A {} st1 F (C(s := xs))" "x \<in> slots st s" "x \<notin> live st F C s"
      "live st1 F (C(s := xs)) = (live st F C)(s := insert x (live st F C s))"
      using take_cpu [OF rep s x_def [symmetric] _ st1_def] False [folded x_def] by blast
    have sty: "steady st st1" by (auto simp: steady_def st1_def cfg_def)
    have "alloc_post A s fl st F C x (stat s ALLOC_FASTPATH st1)"
      unfolding alloc_post_def
      using steady_inv(1) [OF sty iv T(2)] steady_inv(2) [OF sty] T False steady_slots [OF sty, of s]
      by (intro conjI exI [of _ F] exI [of _ "C(s := xs)"]) (simp_all add: x_def st1_def)
    from zp [OF this] show ?thesis
      using False unfolding slab_alloc_def Let_def x_def [symmetric] by (simp add: x_def [symmetric] st1_def [symmetric])
  qed
qed


section \<open>Release\<close>

definition free_post :: "nat set \<Rightarrow> nat \<Rightarrow> 'z slub \<Rightarrow> (int \<Rightarrow> int list) \<Rightarrow> (nat \<Rightarrow> int list) \<Rightarrow> int \<Rightarrow> 'z slub \<Rightarrow> bool" where
  "free_post A s st F C x st' \<longleftrightarrow> (\<exists>F' C'. inv A {} st' F' C' \<and> keeps avail st st' \<and>
     live st' F' C' = (live st F C)(s := live st F C s - {x}))"

lemma slow_free_ok:
  assumes iv: "inv A {} st F C" and x: "x \<in> live st F C s" and c: "c_page (caches st s) \<noteq> Some (x div 4096)"
  shows "\<exists>st'. slab_free_slow ops s (x div 4096) x st = Some st' \<and> free_post A s st F C x st'"
proof -
  define p where "p = x div 4096"
  define st0 where "st0 = stat s FREE_SLOWPATH st"
  have rep0: "rep A {} st0 F C" and x0: "x \<in> live st0 F C s" and c0: "c_page (caches st0 s) \<noteq> Some p" and iv0: "inv A {} st0 F C"
    and l0: "live st0 F C = live st F C" and s0: "steady st st0"
    using iv x c by (simp_all add: st0_def slub_inv_def p_def)
  define prior where "prior = sp_freelist (spg st0 p)"
  define st1 where "st1 = upd_spage p (\<lambda>g. g\<lparr>sp_freelist := x, sp_inuse := u16 (sp_inuse g - 1)\<rparr>) (set_freepointer s x prior st0)"
  note P = push_page [OF rep0 x0 p_def c0 st1_def [unfolded prior_def]]
  define F1 where "F1 = F(p := x # F p)"
  have P1: "rep A (if F p = [] then {p} else {}) st1 F1 C" "live st1 F1 C = (live st F C)(s := live st F C s - {x})"
    "steady st st1" "is_slab st1 s p" "\<not> PageSlubFrozen (spg st1 p)" "F p \<noteq> [] \<longleftrightarrow> prior \<noteq> 0"
    "F p \<noteq> [] \<Longrightarrow> p \<in> set (n_partial (caches st1 s))" "F1 p \<noteq> []"
    using P steady_trans [OF s0] l0 by (auto simp: F1_def prior_def)
  have sA: "s \<in> A" by (rule is_slab_slab_ok(2) [OF P1(1,4)])
  have run: "slab_free_slow ops s p x st =
      (if sp_inuse (spg st1 p) = 0
       then let st = (if prior \<noteq> 0 then stat s FREE_REMOVE_PARTIAL (remove_partial s p st1) else st1)
            in discard_slab ops s p (stat s FREE_SLAB st)
       else if prior = 0 then Some (stat s FREE_ADD_PARTIAL (add_partial s p True st1)) else Some st1)"
    using P1(5) by (simp add: slab_free_slow_def Let_def st0_def [symmetric] prior_def [symmetric] st1_def)
  have post: "free_post A s st F C x st'" if "inv A {} st' F1 C" "live st' F1 C = live st1 F1 C" "keeps avail st1 st'" for st'
    unfolding free_post_def using that P1(2) keeps_trans [OF steady_inv(2) [OF P1(3)] that(3)] by auto
  have thaw: "upd_spage p (ClearFlag PG_slub_frozen) st1 = st1"
  proof -
    have "sp_flags (spg st1 p) AND NOT (flag PG_slub_frozen) = sp_flags (spg st1 p)"
      using P1(5) unfolding PageSlubFrozen_def by (metis (no_types) and.assoc and.commute and_zero_eq bit.conj_cancel_right bit.conj_disj_distrib bit.disj_cancel_right bit.conj_one_right or_eq_0_iff or.right_neutral)
    then show ?thesis by (simp add: upd_spage_def ClearFlag_def)
  qed
  consider (keep) "sp_inuse (spg st1 p) \<noteq> 0" "prior \<noteq> 0" | (add) "sp_inuse (spg st1 p) \<noteq> 0" "prior = 0"
    | (give) "sp_inuse (spg st1 p) = 0" by blast
  then show ?thesis
  proof cases
    case keep
    then have "rep A {} st1 F1 C" using P1(1,6) by simp
    then have "free_post A s st F C x st1" by (intro post steady_inv(1) [OF P1(3) iv]) simp_all
    then show ?thesis using run keep by (simp add: p_def)
  next
    case add
    then have "rep A {p} st1 F1 C" using P1(1,6) by simp
    from unfreeze_partial [OF this P1(4,8) refl, of True, unfolded thaw]
    have U: "rep A {} (add_partial s p True st1) F1 C" "live (add_partial s p True st1) F1 C = live st1 F1 C"
      "steady st1 (add_partial s p True st1)" by simp_all
    have "inv A {} (add_partial s p True st1) F1 C" by (rule steady_inv(1) [OF steady_trans [OF P1(3) U(3)] iv U(1)])
    then have "free_post A s st F C x (stat s FREE_ADD_PARTIAL (add_partial s p True st1))"
      using U steady_inv(2) by (intro post) simp_all
    then show ?thesis using run add by (simp add: p_def)
  next
    case give
    define st2 where "st2 = (if prior \<noteq> 0 then stat s FREE_REMOVE_PARTIAL (remove_partial s p st1) else st1)"
    have R: "rep A {p} st2 F1 C \<and> live st2 F1 C = live st1 F1 C \<and> steady st1 st2 \<and> is_slab st2 s p \<and>
        \<not> PageSlubFrozen (spg st2 p) \<and> sp_inuse (spg st2 p) = 0"
    proof (cases "prior = 0")
      case True
      then show ?thesis using P1 give by (simp add: st2_def)
    next
      case False
      then have "rep A {} st1 F1 C" "p \<in> set (n_partial (caches st1 s))" using P1(1,6,7) by auto
      from unlink [OF this(1) sA this(2) refl] show ?thesis
        using False give by (simp add: st2_def) (simp add: remove_partial_def)
    qed
    have iv2: "inv A {p} (stat s FREE_SLAB st2) F1 C" using R steady_inv(1) [OF steady_trans [OF P1(3)] iv, of st2] by simp
    obtain st' where "discard_slab ops s p (stat s FREE_SLAB st2) = Some st'" "inv A {} st' F1 C"
      "live st' F1 C = live st2 F1 C" "keeps avail st2 st'"
      using give_up [OF iv2, of s] R by auto
    moreover from this R have "free_post A s st F C x st'"
      by (intro post) (simp_all, meson keeps_trans steady_inv(2))
    ultimately show ?thesis using run give by (simp add: p_def st2_def)
  qed
qed

lemma slab_free_ok:
  assumes iv: "inv A {} st F C" and x: "x \<in> live st F C s"
  shows "\<exists>st'. slab_free ops s (x div 4096) x st = Some st' \<and> free_post A s st F C x st'"
proof -
  have rep: "rep A {} st F C" using iv by (simp add: slub_inv_def)
  note L = liveD [OF rep x]
  have nn: "c_node (caches st s) \<noteq> NUMA_NO_NODE" using repD(3) [OF rep L(6)] by (simp add: cache_wf_def)
  show ?thesis
  proof (cases "c_page (caches st s) = Some (x div 4096)")
    case True
    note P = push_cpu [OF rep x True refl]
    define st1 where "st1 = upd_cache s (\<lambda>k. k\<lparr>c_freelist := x\<rparr>) (set_freepointer s x (c_freelist (caches st s)) st)"
    have "free_post A s st F C x (stat s FREE_FASTPATH st1)"
      unfolding free_post_def
      using P steady_inv(1) [OF _ iv, of st1] steady_inv(2) [of st st1]
      by (intro exI [of _ F] exI [of _ "C(s := x # C s)"]) (simp add: st1_def)
    then show ?thesis using True nn by (simp add: slab_free_def st1_def Let_def)
  next
    case False
    then show ?thesis using slow_free_ok [OF iv x False] by (simp add: slab_free_def)
  qed
qed

lemma object_page:
  assumes iv: "inv A {} st F C" and x: "x \<in> live st F C s"
  shows "virt_to_head_page x st = x div 4096" "PageSlab (spg st (x div 4096))" "nat (sp_private (spg st (x div 4096))) = s"
    "\<not> ZERO_OR_NULL_PTR x"
proof -
  have rep: "rep A {} st F C" using iv by (simp add: slub_inv_def)
  note L = liveD [OF rep x]
  show "virt_to_head_page x st = x div 4096"
    using repD(1) [OF rep, of "x div 4096"]
    by (simp add: virt_to_head_page_def compound_head_def page_rep_def drop_bit_eq_div PAGE_SHIFT_def)
  show "PageSlab (spg st (x div 4096))" "nat (sp_private (spg st (x div 4096))) = s" using L(1) by (simp_all add: is_slab_def)
  have "0 < x div 4096" using is_slab_slab_ok(1) [OF rep L(1)] by (simp add: slab_ok_def)
  then show "\<not> ZERO_OR_NULL_PTR x" by (simp add: ZERO_OR_NULL_PTR_def ZERO_SIZE_PTR_def)
qed

lemma kfree_ok:
  assumes iv: "inv A {} st F C" and x: "x \<in> live st F C s"
  shows "\<exists>st'. kfree ops x st = Some st' \<and> free_post A s st F C x st'"
  using slab_free_ok [OF assms] object_page [OF assms] by (simp add: kfree_def Let_def)

lemma kmem_cache_free_ok:
  assumes iv: "inv A {} st F C" and x: "x \<in> live st F C s"
  shows "\<exists>st'. kmem_cache_free ops s x st = Some st' \<and> free_post A s st F C x st'"
  using slab_free_ok [OF assms] object_page [OF assms] by (simp add: kmem_cache_free_def)

end

end
