(* ===== verification/SlubClient.thy ===== *)
theory SlubClient
  imports SlubMem
begin

text \<open>
  The slab allocator as its clients see it: a set of objects, each a range of bytes of its own, that the
  allocator hands out, takes back and does not write to in between.
\<close>

section \<open>Objects do not overlap\<close>

definition bytes :: "'z slub \<Rightarrow> nat \<Rightarrow> int \<Rightarrow> int set" where
  "bytes st s x = {x..<x + kc_size (caches st s)}"

lemma live_page:
  assumes rep: "rep A X st F C" and x: "x \<in> live st F C s" and a: "a \<in> bytes st s x"
  shows "a div 4096 = x div 4096" "x div 4096 \<in> slab_pages st"
proof -
  note L = liveD [OF rep x]
  have "slab_ok (smem st) (caches st s) (spg st (x div 4096)) (x div 4096) (F (x div 4096)) (cpu_objs st s (x div 4096) C)"
    "cache_wf (caches st s)"
    using is_slab_slab_ok(1) [OF rep L(1)] repD(3) [OF rep L(6)] by auto
  then have "(x + (a - x)) div 4096 = x div 4096"
    using a by (intro objs_page [OF L(2)]) (simp_all add: cache_wf_def slab_ok_def bytes_def)
  then show "a div 4096 = x div 4096" by simp
  show "x div 4096 \<in> slab_pages st" using L(1) by (simp add: is_slab_def slab_pages_def)
qed

lemma objects_apart:
  assumes rep: "rep A X st F C" and x: "x \<in> live st F C s" and y: "y \<in> live st F C t" and ne: "(s, x) \<noteq> (t, y)"
  shows "bytes st s x \<inter> bytes st t y = {}"
proof (rule ccontr)
  assume "\<not> ?thesis"
  then obtain a where a: "a \<in> bytes st s x" "a \<in> bytes st t y" by blast
  note Lx = liveD [OF rep x] and Ly = liveD [OF rep y]
  have e: "x div 4096 = y div 4096"
    using live_page(1) [OF rep x a(1)] live_page(1) [OF rep y a(2)] by simp
  then have ts: "t = s" using Lx(1) Ly(1) by (simp add: is_slab_def)
  have "cache_wf (caches st s)" using repD(3) [OF rep Lx(6)] by auto
  then have "x + (a - x) \<noteq> y + (a - y)"
    using Lx(2) Ly(2) ne ts e a
    by (intro objs_apart [where sz = "kc_size (caches st s)" and p = "y div 4096" and n = "sp_objects (spg st (y div 4096))"])
      (simp_all add: cache_wf_def bytes_def)
  then show False by simp
qed


section \<open>What a release writes\<close>

lemma discard_mem: "discard_slab ops s p st = Some st' \<Longrightarrow> smem st' = smem st"
  by (auto simp: discard_slab_def do_free_slab_def Let_def split: if_splits)

lemma slab_free_mem:
  assumes "slab_free ops s p x st = Some st'" "a \<noteq> x + kc_offset (caches st s)"
  shows "smem st' a = smem st a"
  using assms discard_mem
  by (auto simp: slab_free_def slab_free_slow_def add_partial_def remove_partial_def Let_def split: if_splits)
    (fastforce dest: discard_mem)+

context page_source
begin

lemma kfree_mem:
  assumes iv: "inv A {} st F C" and x: "x \<in> live st F C s" and k: "kfree ops x st = Some st'" and a: "a \<notin> bytes st s x"
  shows "smem st' a = smem st a"
proof -
  have rep: "rep A {} st F C" using iv by (simp add: slub_inv_def)
  have wf: "cache_wf (caches st s)" using repD(3) [OF rep liveD(6) [OF rep x]] .
  have "slab_free ops s (x div 4096) x st = Some st'"
    using k object_page [OF iv x] by (simp add: kfree_def Let_def)
  then show ?thesis using a wf by (intro slab_free_mem) (auto simp: bytes_def cache_wf_def)
qed

text \<open>The objects of other clients keep their contents.\<close>

lemma alloc_mem:
  assumes iv: "inv A {} st F C" and s: "s \<in> A" and p: "alloc_post A s fl st F C x st'" and y: "y \<in> live st F C t"
    and a: "a \<in> bytes st t y"
  shows "smem st' a = smem st a"
proof -
  have rep: "rep A {} st F C" using iv by (simp add: slub_inv_def)
  obtain F' C' where P: "inv A {} st' F' C'" "keeps avail st st'"
    "if x = 0 then live st' F' C' = live st F C
     else x \<notin> live st F C s \<and> live st' F' C' = (live st F C)(s := insert x (live st F C s))"
    using p unfolding alloc_post_def by (auto split: if_splits)
  have sz: "bytes st' t y = bytes st t y" for t y using keeps_size [OF P(2)] by (simp add: bytes_def)
  have "a \<notin> bytes st s x \<or> x = 0"
  proof (cases "x = 0")
    case False
    have rep': "rep A {} st' F' C'" using P(1) by (simp add: slub_inv_def)
    have "x \<in> live st' F' C' s" "y \<in> live st' F' C' t" "(s, x) \<noteq> (t, y)" using P(3) False y by auto
    then show ?thesis using objects_apart [OF rep'] a unfolding sz by blast
  qed simp
  moreover have "a div 4096 \<in> slab_pages st" using live_page [OF rep y a] by simp
  moreover have "kc_size (caches st s) \<le> a"
  proof -
    have wf: "cache_wf (caches st s)" by (rule repD(3) [OF rep s])
    then have "1 * kc_size (caches st s) \<le> oo_objects (kc_oo (caches st s)) * kc_size (caches st s)"
      by (intro mult_right_mono) (simp_all add: cache_wf_def)
    then have "kc_size (caches st s) \<le> 4096" using wf unfolding cache_wf_def by linarith
    moreover have "0 < a div 4096"
      using is_slab_slab_ok(1) [OF rep liveD(1) [OF rep y]] live_page(1) [OF rep y a] by (simp add: slab_ok_def)
    ultimately show ?thesis by simp
  qed
  ultimately show ?thesis using p unfolding alloc_post_def bytes_def by (cases "x = 0") auto
qed

end


section \<open>Runs\<close>

text \<open>
  A client with the objects \<open>H\<close>: it allocates from the caches \<open>A\<close>, releases objects it holds, and writes what it
  likes to their bytes.
\<close>

inductive client_step :: "'z page_ops \<Rightarrow> nat set \<Rightarrow> 'z slub \<times> (nat \<times> int) set \<Rightarrow> 'z slub \<times> (nat \<times> int) set \<Rightarrow> bool"
  for ops A where
  alloc: "s \<in> A \<Longrightarrow> kmem_cache_alloc ops s fl st = Some (x, st') \<Longrightarrow> x \<noteq> 0 \<Longrightarrow>
    client_step ops A (st, H) (st', insert (s, x) H)"
| no_memory: "s \<in> A \<Longrightarrow> kmem_cache_alloc ops s fl st = Some (0, st') \<Longrightarrow> client_step ops A (st, H) (st', H)"
| release: "(s, x) \<in> H \<Longrightarrow> kfree ops x st = Some st' \<Longrightarrow> client_step ops A (st, H) (st', H - {(s, x)})"
| cache_release: "(s, x) \<in> H \<Longrightarrow> kmem_cache_free ops s x st = Some st' \<Longrightarrow> client_step ops A (st, H) (st', H - {(s, x)})"
| client_writes: "(s, x) \<in> H \<Longrightarrow> \<forall>a. a \<notin> bytes st s x \<longrightarrow> m a = smem st a \<Longrightarrow>
    client_step ops A (st, H) (st\<lparr>smem := m\<rparr>, H)"

definition objects :: "(nat \<times> int) set \<Rightarrow> nat \<Rightarrow> int set" where
  "objects H s = {x. (s, x) \<in> H}"

lemma objects_simps [simp]:
  "objects (insert (s, x) H) = (objects H)(s := insert x (objects H s))"
  "objects (H - {(s, x)}) = (objects H)(s := objects H s - {x})" "objects {} = (\<lambda>_. {})"
  by (auto simp: objects_def fun_eq_iff)

context page_source
begin

lemma step_ok:
  assumes "client_step ops A (st, H) (st', H')" and iv: "inv A {} st F C" and l: "live st F C = objects H"
  shows "\<exists>F' C'. inv A {} st' F' C' \<and> live st' F' C' = objects H' \<and> keeps avail st st'"
proof -
  have got: "alloc_post A s fl st F C x st1" if "s \<in> A" "kmem_cache_alloc ops s fl st = Some (x, st1)" for s fl x st1
    using slab_alloc_ok [OF iv that(1), of fl] that(2) by (simp add: kmem_cache_alloc_def)
  have new: "\<exists>F' C'. inv A {} st1 F' C' \<and>
      live st1 F' C' = (if x = 0 then objects H else (objects H)(s := insert x (objects H s))) \<and> keeps avail st st1"
    if "alloc_post A s fl st F C x st1" for s fl x st1
    using that unfolding alloc_post_def by (auto simp: l split: if_splits)
  have gone: "\<exists>F' C'. inv A {} st1 F' C' \<and> live st1 F' C' = (objects H)(s := objects H s - {x}) \<and> keeps avail st st1"
    if "free_post A s st F C x st1" for s x st1
    using that unfolding free_post_def by (auto simp: l)
  from assms(1) show ?thesis
  proof (cases rule: client_step.cases)
    case (alloc s fl x)
    then show ?thesis using new [OF got [OF alloc(2,3)]] by simp
  next
    case (no_memory s fl)
    then show ?thesis using new [OF got [OF no_memory(2,3)]] by simp
  next
    case (release s x)
    have "x \<in> live st F C s" using release(2) by (simp add: l objects_def)
    from kfree_ok [OF iv this] release(3) have "free_post A s st F C x st'" by auto
    then show ?thesis using gone release(1) by simp
  next
    case (cache_release s x)
    have "x \<in> live st F C s" using cache_release(2) by (simp add: l objects_def)
    from kmem_cache_free_ok [OF iv this] cache_release(3) have "free_post A s st F C x st'" by auto
    then show ?thesis using gone cache_release(1) by simp
  next
    case (client_writes s x m)
    have rep: "rep A {} st F C" using iv by (simp add: slub_inv_def)
    have x: "x \<in> live st F C s" using client_writes by (simp add: l objects_def)
    have w: "\<And>a. a < x \<or> x + kc_size (caches st s) \<le> a \<Longrightarrow> m a = smem st a"
      using client_writes by (auto simp: bytes_def)
    have "rep A {} (st\<lparr>smem := m\<rparr>) F C" "live (st\<lparr>smem := m\<rparr>) F C = live st F C"
      using client_write [OF rep x w] by simp_all
    then show ?thesis using iv l client_writes
      by (intro exI [of _ F] exI [of _ C]) (simp add: slub_inv_def keeps_def slab_pages_def)
  qed
qed

lemma run_ok:
  assumes "(client_step ops A)\<^sup>*\<^sup>* s1 s2" and iv: "inv A {} (fst s1) F C" and l: "live (fst s1) F C = objects (snd s1)"
  shows "\<exists>F' C'. inv A {} (fst s2) F' C' \<and> live (fst s2) F' C' = objects (snd s2) \<and> keeps avail (fst s1) (fst s2)"
  using assms(1)
proof (induction rule: rtranclp_induct)
  case base
  then show ?case using iv l keeps_refl by blast
next
  case (step y z)
  then obtain F' C' where "inv A {} (fst y) F' C'" "live (fst y) F' C' = objects (snd y)" "keeps avail (fst s1) (fst y)"
    by blast
  with step_ok [of A "fst y" "snd y" "fst z" "snd z" F' C'] step.hyps(2) keeps_trans show ?case
    by (metis prod.collapse)
qed

end

end
