(* ===== verification/PageReturn.thy ===== *)
theory PageReturn
  imports FreelistProps
begin

text \<open>
  A single page goes back to the node: besides the stock, the release keeps everything that the
  allocations after it rely on.
\<close>

section \<open>What draining the per-CPU lists leaves alone\<close>

definition tended :: "zstate \<Rightarrow> zstate \<Rightarrow> bool" where
  "tended z z' \<longleftrightarrow> same_zone z z' \<and> pageblock_flags z' = pageblock_flags z \<and>
     (\<forall>q. fresh (mem_map z q) \<longrightarrow> fresh (mem_map z' q)) \<and>
     (\<forall>q. q \<notin> stock z \<longrightarrow> mem_map z' q = mem_map z q)"

lemma tended_refl [simp]: "tended z z"
  by (simp add: tended_def)

lemma tended_trans: "tended z z1 \<Longrightarrow> stock z1 = stock z \<Longrightarrow> tended z1 z2 \<Longrightarrow> tended z z2"
  using same_zone_trans by (simp add: tended_def) blast

lemma drain_one_tended:
  assumes ok: "pcp_ok valid z" and ne: "pcp_list t z \<noteq> []"
  defines "p \<equiv> last (pcp_list t z)"
  shows "tended z (do_free_one_page valid p 0 (nat (pg_private (mem_map (list_del p z) p))) (list_del p z))"
proof -
  note p = drain_leaves(1) [OF ok ne, folded p_def] and pp = drain_leaves(2) [OF ok ne, folded p_def]
    and L = leavesD [OF drain_leaves(3) [OF ok ne, folded p_def]]
  note R = pcp_remove [OF ok p]
  let ?z = "do_free_one_page valid p 0 (nat (pg_private (mem_map (list_del p z) p))) (list_del p z)"
  have "same_zone (list_del p z) ?z" by (rule same_zone_frame [OF L(4)])
  then have "same_zone z ?z" by (rule same_zone_trans [rotated]) simp
  moreover have "mem_map ?z q = mem_map z q" if "q \<notin> stock z" for q
  proof -
    have "q \<notin> free_set (list_del p z) \<union> (free_set z \<union> {p})" using that pp R(3) by (auto simp: stock_def)
    then show ?thesis using L(5) R(5) by simp
  qed
  ultimately show ?thesis
    using fresh_frame [OF L(4)] R(5) by (simp add: tended_def free_one_map)
qed

lemma drain_list_tended:
  assumes "pcp_ok valid z" "pcp_list t z \<noteq> []" "drain_list valid n b t z = (n', b', z')"
  shows "tended z z'"
  using assms
proof (induction n arbitrary: b z)
  case 0
  then show ?case using drain_one_tended [OF 0(1,2)] by (auto simp: Let_def drain_list.simps)
next
  case (Suc n)
  let ?p = "last (pcp_list t z)"
  let ?z = "do_free_one_page valid ?p 0 (nat (pg_private (mem_map (list_del ?p z) ?p))) (list_del ?p z)"
  note O = drain_one [OF Suc.prems(1,2)] and T = drain_one_tended [OF Suc.prems(1,2)]
  show ?case
  proof (cases "b = 0 \<or> pcp_list t ?z = []")
    case True
    then show ?thesis using Suc.prems(3) T by (auto simp: Let_def drain_list.simps split: nat.splits)
  next
    case False
    then obtain c where c: "b = Suc c" by (cases b) auto
    then have "drain_list valid n c t ?z = (n', b', z')"
      using Suc.prems(3) False by (auto simp: Let_def drain_list.simps [of valid "Suc n"])
    from Suc.IH [OF O(1) _ this] False show ?thesis using tended_trans [OF T O(2)] by blast
  qed
qed

lemma pcppages_loop_tended:
  assumes "pcp_ok valid z" "pcppages_loop k valid n mt b z = Some z'"
  shows "tended z z'"
  using assms
proof (induction k arbitrary: n mt b z)
  case 0
  then show ?case by (cases n) (auto simp: pcppages_loop.simps)
next
  case (Suc k)
  show ?case
  proof (cases n)
    case 0
    then show ?thesis using Suc.prems by (simp add: pcppages_loop.simps)
  next
    case n: (Suc m)
    obtain t c where tb: "next_pcp_list 3 mt b z = Some (t, c)"
      using Suc.prems(2) n by (auto simp: pcppages_loop.simps bind_eq_Some_conv)
    obtain n' b' z1 where d: "drain_list valid m (c - 1) t z = (n', b', z1)" by (metis prod_cases3)
    have run: "pcppages_loop k valid n' t b' z1 = Some z'"
      using Suc.prems(2) n tb d by (simp add: pcppages_loop.simps [of "Suc k"])
    note ne = next_pcp_list_ok [OF tb]
    note R = drain_list_ok [OF Suc.prems(1) ne d] and T = drain_list_tended [OF Suc.prems(1) ne d]
    show ?thesis using tended_trans [OF T] R Suc.IH [OF _ run] by blast
  qed
qed

lemma free_pcppages_bulk_tended:
  assumes "pcp_ok valid z" "free_pcppages_bulk valid count z = Some z'"
  shows "tended z z'"
proof -
  let ?z = "z\<lparr>all_unreclaimable := 0, pages_scanned := 0\<rparr>"
  obtain z1 where z1: "pcppages_loop (nat count) valid (nat count) 0 0 ?z = Some z1"
    "z' = mod_zone_page_state NR_FREE_PAGES count z1"
    using assms(2) by (auto simp: free_pcppages_bulk_def bind_eq_Some_conv split: if_splits)
  have "tended ?z z1" using pcppages_loop_tended [OF _ z1(1)] assms(1) by simp
  then show ?thesis by (simp add: tended_def z1(2) same_zone_def stock_def mod_zone_page_state_def zone_page_state_add_def)
qed


section \<open>The release of a page\<close>

text \<open>The effect on a zone of giving page \<open>p\<close> back.\<close>

definition returned :: "(int \<Rightarrow> bool) \<Rightarrow> int \<Rightarrow> zstate \<Rightarrow> zstate \<Rightarrow> bool" where
  "returned valid p z z' \<longleftrightarrow> pcp_ok valid z' \<and> stock z' = insert p (stock z) \<and>
     pcp_count (pageset z') = int (pcp_total z') \<and> same_zone z z' \<and> pageblock_flags z' = pageblock_flags z \<and>
     all_fresh z' \<and> zone_pages valid z' = zone_pages valid z \<and>
     (\<forall>q. q \<notin> insert p (stock z) \<longrightarrow> mem_map z' q = mem_map z q)"

lemma stripped_fresh: "clean_page q \<Longrightarrow> fresh (set_page_private x (stripped (CLEARPAGEFLAG PG_mlocked q)))"
proof -
  assume c: "clean_page q"
  have "(w AND NOT (mask 22)) AND mask 22 = 0" for w :: "64 word"
    by (rule bit_word_eqI) (auto simp: bit_and_iff bit_not_iff)
  then show ?thesis
    using c by (simp add: fresh_def clean_page_def set_page_private_def stripped_def CLEARPAGEFLAG_def check_at_prep_mask)
qed

lemma handed_fields:
  "same_zone z (handed p t z)" "pageblock_flags (handed p t z) = pageblock_flags z"
  "q \<noteq> p \<Longrightarrow> mem_map (handed p t z) q = mem_map z q"
  "clean_page (mem_map z p) \<Longrightarrow> fresh (mem_map (handed p t z) p)"
  using stripped_fresh [of "mem_map z p" "int t"]
  by (simp_all add: handed_def free_page_mlock_def dec_zone_page_state_def zone_page_state_add_def same_zone_def
      upd_page_def Let_def)

lemma free_one_rest:
  assumes f: "freeing valid z p i" and t: "t < MIGRATE_TYPES"
  shows "same_zone z (free_one_page valid p i t z)"
    "fresh (mem_map z q) \<Longrightarrow> fresh (mem_map (free_one_page valid p i t z) q)"
proof -
  let ?z = "z\<lparr>all_unreclaimable := 0, pages_scanned := 0\<rparr>"
  have "freeing valid ?z p i" using f by (simp add: freeing_def usable_def)
  note L = leavesD(4) [OF do_free_one_page_ok [OF this t]]
  have "same_zone ?z (do_free_one_page valid p i t ?z)" by (rule same_zone_frame [OF L])
  then show "same_zone z (free_one_page valid p i t z)"
    by (simp add: free_one_page_def Let_def same_zone_def mod_zone_page_state_def zone_page_state_add_def)
  show "fresh (mem_map z q) \<Longrightarrow> fresh (mem_map (free_one_page valid p i t z) q)"
    using fresh_frame [OF L, of q] by (simp add: free_one_page_def Let_def)
qed

lemma free_hot_cold_returned:
  assumes ok: "pcp_ok valid z" and sane: "pcp_sane z" and fr: "all_fresh z"
    and p: "p \<in> zone_pages valid z" "p \<notin> stock z" and c: "clean_page (mem_map z p)"
    and t: "get_pageblock_migratetype p z = Some t" "t < MIGRATE_TYPES"
  shows "\<exists>z'. free_hot_cold_page valid p cold z = Some z' \<and> returned valid p z z'"
proof -
  obtain z' where z': "free_hot_cold_page valid p cold z = Some z'" "pcp_ok valid z'" "stock z' = insert p (stock z)"
    "pcp_count (pageset z') = int (pcp_total z')"
    using free_hot_cold_ok [OF ok sane p c t] by blast
  let ?z = "handed p t z"
  note H = handed_ok [OF ok p(2) c, of t] and HF = handed_fields [where p = p and t = t and z = z]
  have frh: "fresh (mem_map ?z q)" if "q \<in> insert p (stock z)" for q
    using that HF(3) [of q] HF(4) [OF c] fr by (cases "q = p") (auto simp: all_fresh_def)
  have pz: "p \<in> zone_pages valid ?z" "p \<notin> stock ?z" using p H(2,5) by auto
  have "same_zone z z' \<and> pageblock_flags z' = pageblock_flags z \<and> all_fresh z' \<and>
    (\<forall>q. q \<notin> insert p (stock z) \<longrightarrow> mem_map z' q = mem_map z q)"
  proof (cases "t = MIGRATE_ISOLATE")
    case True
    have e: "z' = free_one_page valid p 0 t ?z" using free_hot_cold_eq [OF c t(1)] True z'(1) by simp
    have b: "block p (2 ^ 0) = {p}" by auto
    have f: "freeing valid ?z p 0"
      using pcp_okD(1,2) [OF H(1)] pz by (auto simp: freeing_def usable_def b stock_def buddy_consts)
    note F = free_one_page_ok [OF f t(2), unfolded b] and R = free_one_rest [OF f t(2)]
    have "mem_map z' q = mem_map z q" if "q \<notin> insert p (stock z)" for q
    proof -
      have "q \<notin> free_set ?z \<union> {p}" using that H(2) by (auto simp: stock_def)
      then show ?thesis using F HF(3) that unfolding e by auto
    qed
    moreover have "same_zone z z'" unfolding e using same_zone_trans [OF HF(1) R(1)] .
    ultimately show ?thesis
      using R(2) frh HF(2) z'(3) unfolding e by (auto simp: all_fresh_def free_one_page_map)
  next
    case False
    define u where "u = (if MIGRATE_PCPTYPES \<le> t then MIGRATE_MOVABLE else t)"
    define ps where "ps = (if cold then pcp_list u ?z @ [p] else p # pcp_list u ?z)"
    define z2 where "z2 = pcp_count_add 1 (set_pcp_list u ps ?z)"
    have u: "u < MIGRATE_PCPTYPES" by (simp add: u_def buddy_consts)
    have "p \<notin> set (pcp_list u ?z)" using pz(2) by (auto simp: stock_def pcp_pages_list)
    then have ps: "set ps = insert p (set (pcp_list u ?z))" "distinct ps"
      using pcp_okD(3) [OF H(1), of u] by (auto simp: ps_def)
    have pr: "nat (pg_private (mem_map ?z p)) < MIGRATE_TYPES" using H(6) t(2) by simp
    note A = pcp_add [OF H(1) pz u pr ps]
    have z2: "pcp_ok valid z2" "stock z2 = insert p (stock z)" "mem_map z2 = mem_map ?z" "same_zone z z2"
      "pageblock_flags z2 = pageblock_flags z"
      using A H(2) HF(1,2) by (simp_all add: z2_def)
    have "free_hot_cold_page valid p cold z =
        (if pcp_high (pageset z2) \<le> pcp_count (pageset z2)
         then map_option (\<lambda>z. pcp_count_add (- pcp_batch (pageset z)) z)
                (free_pcppages_bulk valid (pcp_batch (pageset z2)) z2)
         else Some z2)"
      using free_hot_cold_eq [OF c t(1)] False by (simp add: Let_def u_def ps_def z2_def)
    then have "z' = z2 \<or> (\<exists>z3. free_pcppages_bulk valid (pcp_batch (pageset z2)) z2 = Some z3 \<and>
        z' = pcp_count_add (- pcp_batch (pageset z3)) z3)"
      using z'(1) by (cases "free_pcppages_bulk valid (pcp_batch (pageset z2)) z2") (auto split: if_splits)
    then have "tended z2 z'"
      using free_pcppages_bulk_tended [OF z2(1)] by (auto simp: tended_def)
    then have T: "same_zone z2 z'" "pageblock_flags z' = pageblock_flags z2"
      "\<And>q. fresh (mem_map z2 q) \<Longrightarrow> fresh (mem_map z' q)" "\<And>q. q \<notin> stock z2 \<Longrightarrow> mem_map z' q = mem_map z2 q"
      by (simp_all add: tended_def)
    have "mem_map z' q = mem_map z q" if "q \<notin> insert p (stock z)" for q
      using T(4) [of q] that HF(3) [of q] unfolding z2(2,3) by auto
    moreover have "all_fresh z'" unfolding all_fresh_def z'(3) using T(3) frh unfolding z2(3) by blast
    ultimately show ?thesis using T(1,2) z2(4,5) same_zone_trans by auto
  qed
  moreover from this have "zone_pages valid z' = zone_pages valid z"
    unfolding buddy_invD(8) [OF pcp_okD(1) [OF ok]] buddy_invD(8) [OF pcp_okD(1) [OF z'(2)]]
    by (simp add: same_zone_def)
  ultimately show ?thesis using z' by (auto simp: returned_def)
qed

text \<open>\<^verbatim>\<open>__free_pages\<close> on a page that has been handed out and that nobody maps.\<close>

lemma free_page_returned:
  assumes zo: "zone_ok valid i z" and p: "p \<in> zone_pages valid z" "p \<notin> stock z"
    and out: "out_page (mem_map z p)" and mc: "pg_mapcount (mem_map z p) = - 1"
  shows "\<exists>z'. free_pages_c valid p 0 z = Some z' \<and> returned valid p z z'"
proof -
  note Z = zone_okD [OF zo]
  let ?f = "set_page_count 0"
  let ?z = "upd_page p ?f z"
  have f: "page_zone_id (?f (mem_map z p)) = page_zone_id (mem_map z p)" "\<not> PageBuddy (?f (mem_map z p))"
    using mc by (simp_all add: set_page_count_def page_zone_id_def PageBuddy_def)
  have ok: "pcp_ok valid ?z" by (rule pcp_ok_upd [of valid z p ?f, OF Z(2) p(2) f])
  have zp: "zone_pages valid ?z = zone_pages valid z" by (rule zone_pages_upd [of ?f, OF f(1)])
  have low: "w AND PAGE_FLAGS_CHECK_AT_PREP = 0 \<Longrightarrow> (w AND NOT (flag PG_mlocked)) AND PAGE_FLAGS_CHECK_AT_FREE = 0"
    for w :: "64 word"
  proof -
    assume w: "w AND PAGE_FLAGS_CHECK_AT_PREP = 0"
    have e: "PAGE_FLAGS_CHECK_AT_PREP AND PAGE_FLAGS_CHECK_AT_FREE = PAGE_FLAGS_CHECK_AT_FREE" by code_simp
    have "w AND PAGE_FLAGS_CHECK_AT_FREE = (w AND PAGE_FLAGS_CHECK_AT_PREP) AND PAGE_FLAGS_CHECK_AT_FREE"
      by (simp only: and.assoc e)
    then have z: "w AND PAGE_FLAGS_CHECK_AT_FREE = 0" using w by simp
    have "(w AND NOT (flag PG_mlocked)) AND PAGE_FLAGS_CHECK_AT_FREE = (w AND PAGE_FLAGS_CHECK_AT_FREE) AND NOT (flag PG_mlocked)"
      by (simp add: ac_simps)
    then show ?thesis unfolding z by simp
  qed
  have c: "clean_page (mem_map ?z p)"
    using out mc low by (simp add: clean_page_def out_page_def set_page_count_def CLEARPAGEFLAG_def)
  have fl: "flags_ok ?z" using Z(4) by (simp add: flags_ok_def)
  have k: "kinds_ok ?z" using Z(6) kinds_same [of ?z z] by simp
  have "in_span ?z p" using p(1) buddy_invD(8) [OF pcp_okD(1) [OF ok]] unfolding zp [symmetric] by (simp add: in_span_def)
  then obtain t where t: "get_pageblock_migratetype p ?z = Some t" "t < MIGRATE_TYPES"
    using kinds_type [OF fl _ k] by blast
  have af: "all_fresh ?z" using Z(5) p(2) by (auto simp: all_fresh_def stock_def)
  have "pcp_sane ?z" using Z(3) by (simp add: pcp_sane_def)
  moreover have "p \<in> zone_pages valid ?z" "p \<notin> stock ?z" using p zp by simp_all
  ultimately obtain z' where z': "free_hot_cold_page valid p False ?z = Some z'" "returned valid p ?z z'"
    using free_hot_cold_returned [OF ok _ af _ _ c t] by blast
  have "pg_count (mem_map z p) = 1" using out by (simp add: out_page_def)
  then have "free_pages_c valid p 0 z = Some z'"
    using z'(1) by (simp add: free_pages_c_def put_page_testzero_def)
  moreover have "returned valid p z z'" using z'(2) zp by (simp add: returned_def)
  ultimately show ?thesis by blast
qed

lemma zone_ok_returned: "zone_ok valid i z \<Longrightarrow> returned valid p z z' \<Longrightarrow> zone_ok valid i z'"
  using flags_same_zone [of z z'] kinds_same [of z' z] by (simp add: zone_ok_def returned_def same_zone_def)

end
