(* ===== verification/NodePages.thy ===== *)
theory NodePages
  imports SlubClient PageReturn
begin

text \<open>
  The slab allocator over the pages of the node: the operations of \<^verbatim>\<open>mm/page_alloc.c\<close> that it calls, as they act on
  the node, keep the promises of \<open>page_source\<close>.
\<close>

section \<open>The calls\<close>

definition NR_SLAB_RECLAIMABLE :: nat where "NR_SLAB_RECLAIMABLE = 12"
definition NR_SLAB_UNRECLAIMABLE :: nat where "NR_SLAB_UNRECLAIMABLE = 13"

definition page_zone :: "int \<Rightarrow> node \<Rightarrow> nat" where
  "page_zone p n = page_zone_id (node_mem_map n p)"

text \<open>\<^verbatim>\<open>__free_pages\<close> on the zone of the page.\<close>

definition free_pages_node :: "(int \<Rightarrow> bool) \<Rightarrow> int \<Rightarrow> nat \<Rightarrow> node \<Rightarrow> node option" where
  "free_pages_node valid page order n =
     (let i = page_zone page n in map_option (\<lambda>z. zone_put i z n) (free_pages_c valid page order (zone_view i n)))"

text \<open>
  \<^verbatim>\<open>put_page\<close>: dropping the last reference takes the page off a list of pages in use; the page of a large
  object is on no such list and the code follows a stale link, here the result \<open>None\<close>, which also stands for
  the release of a page marked as compound, a mark that nothing sets.
\<close>

definition put_page :: "int \<Rightarrow> node \<Rightarrow> node option" where
  "put_page page n =
     (if TESTPAGEFLAG PG_compound (node_mem_map n page) then None
      else let i = page_zone page n; (zero, z) = put_page_testzero page (zone_view i n)
      in if zero then None else Some (zone_put i z n))"

definition count_slab :: "bool \<Rightarrow> int \<Rightarrow> int \<Rightarrow> node \<Rightarrow> node" where
  "count_slab reclaimable page delta n =
     (let i = page_zone page n
      in zone_put i (mod_zone_page_state (if reclaimable then NR_SLAB_RECLAIMABLE else NR_SLAB_UNRECLAIMABLE) delta
           (zone_view i n)) n)"

definition reset_mapcount :: "int \<Rightarrow> node \<Rightarrow> node" where
  "reset_mapcount page n =
     n\<lparr>node_mem_map := (node_mem_map n)(page := reset_page_mapcount (node_mem_map n page))\<rparr>"

definition node_ops ::
  "(int \<Rightarrow> bool) \<Rightarrow> (zstate \<Rightarrow> int) \<Rightarrow> task \<Rightarrow> int \<Rightarrow> int \<Rightarrow> zoneref list \<Rightarrow> node page_ops" where
  "node_ops valid state tk progress allowed zl =
     \<lparr>po_alloc = (\<lambda>g order n. alloc_pages_nodemask valid state tk progress allowed g order zl n),
      po_free = free_pages_node valid, po_reset = reset_mapcount, po_put = put_page, po_count = count_slab,
      po_allowed = allowed\<rparr>"


section \<open>What the node has and what it has given away\<close>

definition node_fit :: "(int \<Rightarrow> bool) \<Rightarrow> zoneref list \<Rightarrow> node \<Rightarrow> bool" where
  "node_fit valid zl n \<longleftrightarrow> node_ok valid n \<and> zonelist_ok zl \<and> (\<forall>p. valid p \<longrightarrow> 0 < p \<and> p < 2 ^ 52)"

definition node_free :: "node \<Rightarrow> int set" where
  "node_free n = (\<Union>i<MAX_NR_ZONES. stock (zone_view i n))"

definition node_held :: "(int \<Rightarrow> bool) \<Rightarrow> node \<Rightarrow> int set" where
  "node_held valid n = {p. valid p \<and> page_zone p n < MAX_NR_ZONES \<and> p \<notin> node_free n \<and> out_page (node_mem_map n p)}"

lemma node_free_iff: "p \<in> node_free n \<longleftrightarrow> (\<exists>i < MAX_NR_ZONES. p \<in> stock (zone_view i n))"
  by (simp add: node_free_def Bex_def)

lemma stock_zone:
  assumes "node_ok valid n" "i < MAX_NR_ZONES" "p \<in> stock (zone_view i n)"
  shows "valid p" "page_zone p n = i"
proof -
  have Z: "zone_ok valid i (zone_view i n)" using assms by (simp add: node_ok_def)
  have "p \<in> zone_pages valid (zone_view i n)" using stock_sub_zone [OF zone_okD(2) [OF Z]] assms(3) by blast
  then show "valid p" "page_zone p n = i"
    using zone_okD(1) [OF Z] by (simp_all add: zone_pages_def zone_view_shared page_zone_def)
qed

lemma page_in_zone:
  assumes "node_ok valid n" "valid p" "page_zone p n < MAX_NR_ZONES"
  shows "p \<in> zone_pages valid (zone_view (page_zone p n) n)"
  using assms by (simp add: zone_pages_def zone_view_shared page_zone_def node_ok_def zone_ok_def)


section \<open>Counting\<close>

lemma zone_view_stats:
  "zone_view j (zone_put i ((zone_view i n)\<lparr>vm_stat := v, global_stat := g\<rparr>) n) =
     (zone_view j n)\<lparr>vm_stat := (if j = i then v else vm_stat (zone_view j n)), global_stat := g\<rparr>"
  by (simp add: zone_view_def zone_put_def zone.defs zstate.defs)

lemma stats_fields [simp]:
  "zone_ok valid i (z\<lparr>vm_stat := v, global_stat := g\<rparr>) = zone_ok valid i z"
  "stock (z\<lparr>vm_stat := v, global_stat := g\<rparr>) = stock z"
proof -
  show st: "stock (z\<lparr>vm_stat := v, global_stat := g\<rparr>) = stock z" by (rule stock_stats) simp
  show "zone_ok valid i (z\<lparr>vm_stat := v, global_stat := g\<rparr>) = zone_ok valid i z"
    by (simp add: zone_ok_def flags_ok_def kinds_ok_def all_fresh_def st zone_pages_def)
qed

lemma count_slab_ok:
  "node_fit valid zl (count_slab b p d n) = node_fit valid zl n" "node_free (count_slab b p d n) = node_free n"
  "node_held valid (count_slab b p d n) = node_held valid n"
proof -
  obtain v g where n': "count_slab b p d n = zone_put (page_zone p n) ((zone_view (page_zone p n) n)\<lparr>vm_stat := v, global_stat := g\<rparr>) n"
    by (auto simp: count_slab_def Let_def mod_zone_page_state_def zone_page_state_add_def)
  have v: "zone_view j (count_slab b p d n) =
      (zone_view j n)\<lparr>vm_stat := (if j = page_zone p n then v else vm_stat (zone_view j n)), global_stat := g\<rparr>" for j
    unfolding n' by (rule zone_view_stats)
  have m: "node_mem_map (count_slab b p d n) = node_mem_map n" by (simp add: n' zone_put_def zone_view_shared)
  show f: "node_free (count_slab b p d n) = node_free n" by (simp add: node_free_def v)
  show "node_fit valid zl (count_slab b p d n) = node_fit valid zl n" by (simp add: node_fit_def node_ok_def v)
  show "node_held valid (count_slab b p d n) = node_held valid n" by (simp add: node_held_def f m page_zone_def)
qed


section \<open>Allocation\<close>

lemma request_type: "g AND GFP_MOVABLE = 0 \<Longrightarrow> allocflags_to_migratetype g d < MIGRATE_PCPTYPES"
  by (simp add: allocflags_to_migratetype_def buddy_consts)

lemma node_alloc:
  assumes ok: "node_fit valid zl n" and g: "g AND GFP_MOVABLE = 0"
    and r: "alloc_pages_nodemask valid state tk progress allowed g 0 zl n = Some (r, n')"
  shows "node_fit valid zl n' \<and> node_free n' = node_free n - (case r of None \<Rightarrow> {} | Some p \<Rightarrow> {p}) \<and>
    (case r of None \<Rightarrow> True | Some p \<Rightarrow> p \<in> node_free n \<and> p \<in> node_held valid n') \<and> node_held valid n \<subseteq> node_held valid n'"
proof -
  have nok: "node_ok valid n" using ok by (simp add: node_fit_def)
  have b: "block p (2 ^ 0) = {p}" for p by auto
  have G: "granted valid 0 zl (gfp_zone g) n r n'"
    using nodemask_ok [OF r _ _ request_type [OF g]] ok by (simp add: node_fit_def)
  have fit: "node_fit valid zl n'" using G ok by (simp add: granted_def node_fit_def)
  have mem: "node_mem_map n' q = node_mem_map n q" if "q \<notin> node_free n" for q
    using G that by (auto simp: granted_def node_free_iff)
  have zid: "page_zone q n' = page_zone q n" if "valid q" for q
    using G that by (simp add: granted_def page_zone_def)
  show ?thesis
  proof (cases r)
    case None
    then have "node_free n' = node_free n" using G unfolding granted_def node_free_def by simp
    then show ?thesis using fit None mem zid by (auto simp: node_held_def)
  next
    case (Some p)
    obtain i where i: "i < MAX_NR_ZONES" "p \<in> stock (zone_view i n)"
      "\<And>j. j < MAX_NR_ZONES \<Longrightarrow> stock (zone_view j n') = stock (zone_view j n) - (if j = i then {p} else {})"
      and out: "out_page (node_mem_map n' p)"
      using G Some unfolding granted_def taken_from_def b by auto
    note p = stock_zone [OF nok i(1,2)]
    have other: "p \<notin> stock (zone_view j n)" if "j < MAX_NR_ZONES" "j \<noteq> i" for j
      using stock_zone(2) [OF nok that(1)] p(2) that(2) by blast
    have "stock (zone_view j n') = stock (zone_view j n) - {p}" if "j < MAX_NR_ZONES" for j
      using i(3) [OF that] other [OF that] by (cases "j = i") auto
    then have fr: "node_free n' = node_free n - {p}" by (auto simp: node_free_def)
    have "p \<in> node_free n" using i(1,2) by (auto simp: node_free_iff)
    moreover have "p \<in> node_held valid n'" using p i(1) out fr zid by (simp add: node_held_def)
    moreover have "node_held valid n \<subseteq> node_held valid n'" using fr mem zid by (auto simp: node_held_def)
    ultimately show ?thesis using fit fr Some by simp
  qed
qed


section \<open>Release\<close>

lemma node_reset:
  assumes ok: "node_fit valid zl n" and p: "p \<in> node_held valid n"
  shows "node_fit valid zl (reset_mapcount p n)" "node_free (reset_mapcount p n) = node_free n"
    "node_held valid (reset_mapcount p n) = node_held valid n"
    "pg_mapcount (node_mem_map (reset_mapcount p n) p) = - 1"
proof -
  define i where "i = page_zone p n"
  let ?z = "zone_view i n" and ?f = reset_page_mapcount
  have nok: "node_ok valid n" using ok by (simp add: node_fit_def)
  have i: "i < MAX_NR_ZONES" and v: "valid p" and nf: "p \<notin> node_free n" and o: "out_page (node_mem_map n p)"
    using p by (simp_all add: node_held_def i_def)
  have Z: "zone_ok valid i ?z" using nok i by (simp add: node_ok_def)
  have pz: "p \<in> zone_pages valid ?z" using page_in_zone [OF nok v] i by (simp add: i_def)
  have ps: "p \<notin> stock ?z" using nf i by (auto simp: node_free_iff)
  have f: "page_zone_id (?f q) = page_zone_id q" "\<not> PageBuddy (?f q)" "out_page (?f q) = out_page q" for q
    by (simp_all add: reset_page_mapcount_def page_zone_id_def PageBuddy_def out_page_def)
  have zp: "zone_pages valid (upd_page p ?f ?z) = zone_pages valid ?z" using zone_pages_upd [of ?f, OF f(1)] .
  have "pcp_ok valid (upd_page p ?f ?z)" using pcp_ok_upd [of valid ?z p ?f, OF zone_okD(2) [OF Z] ps f(1,2)] .
  moreover have "all_fresh (upd_page p ?f ?z)" using zone_okD(5) [OF Z] ps by (auto simp: all_fresh_def stock_def)
  ultimately have Z': "zone_ok valid i (upd_page p ?f ?z)"
    using Z by (simp add: zone_ok_def zp flags_ok_def kinds_ok_def)
  have out: "mem_map (upd_page p ?f ?z) q = node_mem_map n q" if "q \<notin> zone_pages valid ?z" for q
    using that pz by (auto simp: zone_view_shared)
  have e: "reset_mapcount p n = zone_put i (upd_page p ?f ?z) n"
    by (cases n) (simp add: reset_mapcount_def zone_put_def upd_page_def zone_view_def zone.defs zstate.defs fun_eq_iff)
  note P = node_put [OF nok i Z' zp out, folded e]
  show "node_fit valid zl (reset_mapcount p n)" using P(1) ok by (simp add: node_fit_def)
  have "stock (upd_page p ?f ?z) = stock ?z" by simp
  then show fr: "node_free (reset_mapcount p n) = node_free n"
    using P(2) unfolding node_free_iff set_eq_iff by (metis (full_types))
  show "node_held valid (reset_mapcount p n) = node_held valid n"
    unfolding node_held_def fr by (auto simp: page_zone_def reset_mapcount_def f)
  show "pg_mapcount (node_mem_map (reset_mapcount p n) p) = - 1"
    by (simp add: reset_mapcount_def reset_page_mapcount_def)
qed

lemma node_release:
  assumes ok: "node_fit valid zl n" and p: "p \<in> node_held valid n" and mc: "pg_mapcount (node_mem_map n p) = - 1"
  shows "\<exists>n'. free_pages_node valid p 0 n = Some n' \<and> node_fit valid zl n' \<and> node_free n' = insert p (node_free n) \<and>
    node_held valid n - {p} \<subseteq> node_held valid n'"
proof -
  define i where "i = page_zone p n"
  let ?z = "zone_view i n"
  have nok: "node_ok valid n" using ok by (simp add: node_fit_def)
  have i: "i < MAX_NR_ZONES" and v: "valid p" and nf: "p \<notin> node_free n" and o: "out_page (node_mem_map n p)"
    using p by (simp_all add: node_held_def i_def)
  have Z: "zone_ok valid i ?z" using nok i by (simp add: node_ok_def)
  have pz: "p \<in> zone_pages valid ?z" using page_in_zone [OF nok v] i by (simp add: i_def)
  have ps: "p \<notin> stock ?z" using nf i by (auto simp: node_free_iff)
  obtain z' where z': "free_pages_c valid p 0 ?z = Some z'" "returned valid p ?z z'"
    using free_page_returned [OF Z pz ps] o mc by (auto simp: zone_view_shared)
  have Z': "zone_ok valid i z'" by (rule zone_ok_returned [OF Z z'(2)])
  have zp: "zone_pages valid z' = zone_pages valid ?z" and st: "stock z' = insert p (stock ?z)"
    and mem: "\<And>q. q \<notin> insert p (stock ?z) \<Longrightarrow> mem_map z' q = node_mem_map n q"
    using z'(2) by (simp_all add: returned_def zone_view_shared)
  have sub: "insert p (stock ?z) \<subseteq> zone_pages valid ?z" using pz stock_sub_zone [OF zone_okD(2) [OF Z]] by blast
  have out: "mem_map z' q = node_mem_map n q" if "q \<notin> zone_pages valid ?z" for q using that sub mem by blast
  note P = node_put [OF nok i Z' zp out]
  have run: "free_pages_node valid p 0 n = Some (zone_put i z' n)"
    using z'(1) by (simp add: free_pages_node_def Let_def i_def)
  have fr: "node_free (zone_put i z' n) = insert p (node_free n)"
    using P(2) st i unfolding node_free_iff set_eq_iff insert_iff by (metis (full_types) insert_iff)
  have "node_held valid n - {p} \<subseteq> node_held valid (zone_put i z' n)"
  proof
    fix q
    assume q: "q \<in> node_held valid n - {p}"
    then have "q \<notin> insert p (stock ?z)" using i by (auto simp: node_held_def node_free_iff)
    then have "node_mem_map (zone_put i z' n) q = node_mem_map n q" using mem by (simp add: zone_put_def)
    then show "q \<in> node_held valid (zone_put i z' n)" using q fr by (simp add: node_held_def page_zone_def)
  qed
  moreover have "node_fit valid zl (zone_put i z' n)" using P(1) ok by (simp add: node_fit_def)
  ultimately show ?thesis using run fr by blast
qed


section \<open>The node is a source of pages\<close>

interpretation np: page_source "node_ops valid state tk progress allowed zl" "node_fit valid zl" node_free "node_held valid"
proof unfold_locales
  fix z :: node and b :: bool and p d g :: int and z' :: node
  assume ok: "node_fit valid zl z"
  show "node_fit valid zl (po_count (node_ops valid state tk progress allowed zl) b p d z) \<and>
      node_free (po_count (node_ops valid state tk progress allowed zl) b p d z) = node_free z \<and>
      node_held valid (po_count (node_ops valid state tk progress allowed zl) b p d z) = node_held valid z"
    using ok by (simp add: node_ops_def count_slab_ok)
  show "node_free z \<inter> node_held valid z = {}" by (auto simp: node_held_def)
  show "node_held valid z \<subseteq> {0<..<2 ^ 52}" using ok by (auto simp: node_held_def node_fit_def)
  show "po_alloc (node_ops valid state tk progress allowed zl) g 0 z = Some (None, z') \<Longrightarrow> g AND GFP_MOVABLE = 0 \<Longrightarrow>
      node_fit valid zl z' \<and> node_free z' = node_free z \<and> node_held valid z \<subseteq> node_held valid z'"
    using node_alloc [OF ok, of g state tk progress allowed None z'] by (simp add: node_ops_def)
  show "po_alloc (node_ops valid state tk progress allowed zl) g 0 z = Some (Some p, z') \<Longrightarrow> g AND GFP_MOVABLE = 0 \<Longrightarrow>
      node_fit valid zl z' \<and> p \<in> node_free z \<and> node_free z' = node_free z - {p} \<and>
      insert p (node_held valid z) \<subseteq> node_held valid z'"
    using node_alloc [OF ok, of g state tk progress allowed "Some p" z'] by (simp add: node_ops_def)
  show "p \<in> node_held valid z \<Longrightarrow>
      \<exists>z'. po_free (node_ops valid state tk progress allowed zl) p 0 (po_reset (node_ops valid state tk progress allowed zl) p z) = Some z' \<and>
        node_fit valid zl z' \<and> node_free z' = insert p (node_free z) \<and> node_held valid z - {p} \<subseteq> node_held valid z'"
    using node_reset [OF ok, of p] node_release [of valid zl "reset_mapcount p z" p] by (simp add: node_ops_def)
qed

end
