(* ===== verification/SlubProps.thy ===== *)
theory SlubProps
  imports NodePages
begin

text \<open>
  What the slab allocator promises when its pages come from the page allocator of the node: the theorems of
  \<open>page_source\<close> read through its interpretation \<open>np\<close>.
\<close>

section \<open>Zeroed objects\<close>

context page_source
begin

lemma alloc_zeroed:
  assumes iv: "inv A {} st F C" and s: "s \<in> A" and r: "slab_alloc ops s fl st = Some (x, st')"
    and z: "fl AND GFP_ZERO \<noteq> 0" "x \<noteq> 0" and a: "x \<le> a" "a < x + kc_objsize (caches st s)"
  shows "smem st' a = 0"
proof -
  have p: "alloc_post A s fl st F C x st'" using slab_alloc_ok [OF iv s, of fl] r by simp
  obtain st1 where st1: "st' = zero_object s x st1"
    using r z by (auto simp: slab_alloc_def bind_eq_Some_conv Let_def split: if_splits)
  have "cfg (caches st' s) = cfg (caches st s)" using p unfolding alloc_post_def keeps_def by auto
  from arg_cong [OF this, of kc_objsize] have "kc_objsize (caches st1 s) = kc_objsize (caches st s)"
    unfolding st1 by (simp add: cfg_def zero_object_def)
  then show ?thesis using a by (simp add: st1 zero_object_def)
qed

end


section \<open>The state of the allocator\<close>

text \<open>
  The chains are in order, the node is, and the node knows the slab pages as handed out; \<open>F\<close> and \<open>C\<close> are
  the free objects on the pages and on the CPU.
\<close>

definition slab_state ::
  "(int \<Rightarrow> bool) \<Rightarrow> zoneref list \<Rightarrow> nat set \<Rightarrow> node slub \<Rightarrow> (int \<Rightarrow> int list) \<Rightarrow> (nat \<Rightarrow> int list) \<Rightarrow> bool" where
  "slab_state valid zl A st F C \<longleftrightarrow> slub_inv (node_fit valid zl) (node_held valid) A {} st F C"

lemma slab_stateD:
  assumes "slab_state valid zl A st F C"
  shows "slub_inv (node_fit valid zl) (node_held valid) A {} st F C" "rep A {} st F C"
    "slab_pages st \<inter> node_free (pool st) = {}"
  using assms by (auto simp: slab_state_def slub_inv_def node_held_def)



section \<open>A state to run on\<close>

text \<open>
  Pages 1024 to 1535 are free in zone 0; page 1600 is a slab of cache 0, with two objects of 2048 bytes, the
  first in use.
\<close>

definition nx_valid :: "int \<Rightarrow> bool" where "nx_valid p \<longleftrightarrow> 1024 \<le> p \<and> p < 2048"

definition nx_zone :: zstate where "nx_zone = free_one_page nx_valid 1024 9 MIGRATE_UNMOVABLE ex_empty"

definition nx_used :: zstate where "nx_used = upd_page 1600 (\<lambda>q. q\<lparr>pg_count := 1\<rparr>) nx_zone"

definition nx_pgdat :: node where
  "nx_pgdat = zone_put 0 nx_used \<lparr>node_zones = ex_empty_zone, node_mem_map = (\<lambda>_. ex_page),
     node_stat = (\<lambda>_. 0), node_mobility_disabled = False\<rparr>"

definition nx_cache :: kmem_cache where
  "nx_cache = \<lparr>kc_flags = 0, kc_size = 2048, kc_objsize = 2048, kc_offset = 0, kc_oo = oo_make 0 2048,
     kc_max = oo_make 0 2048, kc_min = oo_make 0 2048, kc_allocflags = 0, kc_refcount = 1, kc_ctor = False,
     kc_inuse = 2048, kc_align = 8, kc_min_partial = 0, c_freelist = 0, c_page = None, c_node = 0,
     c_stat = (\<lambda>_. 0), n_partial = [1600], n_nr_partial = 1\<rparr>"

definition nx_slab :: spage where
  "nx_slab = \<lparr>sp_flags = flag PG_slab, sp_inuse = 1, sp_objects = 2, sp_private = 0, sp_freelist = 6555648, sp_lru_prev = 0\<rparr>"

definition nx_slub :: "node slub" where
  "nx_slub = \<lparr>smem = (\<lambda>_. 0), spg = (\<lambda>p. if p = 1600 then nx_slab
       else \<lparr>sp_flags = 0, sp_inuse = 0, sp_objects = 0, sp_private = 0, sp_freelist = 0, sp_lru_prev = 0\<rparr>),
     caches = (\<lambda>_. nx_cache), pool = nx_pgdat\<rparr>"

definition nx_F :: "int \<Rightarrow> int list" where "nx_F p = (if p = 1600 then [6555648] else [])"

lemma nx_empty: "zone_pages nx_valid ex_empty = {1024..<2048}" "pcp_pages ex_empty = {}"
  "free_set ex_empty = {}" "blocks ex_empty = {}"
  using ex_empty_zone by (auto simp: zone_pages_def ex_empty_def nx_valid_def page_zone_id_def ex_page_def)

lemma nx_freeing: "freeing nx_valid ex_empty 1024 9"
proof -
  have "buddy_inv nx_valid ex_empty" "merged ex_empty"
    unfolding buddy_inv_def merged_def nx_empty
    by (auto simp: lists_ok_def apart_def list_count_def ex_empty_def PageBuddy_def ex_page_def nx_valid_def)
  then show ?thesis by (simp add: freeing_def usable_def nx_empty buddy_consts block_def)
qed

lemma nx_zone_ok: "buddy_inv nx_valid nx_zone" "merged nx_zone" "free_set nx_zone = {1024..<1536}"
  "pcp_pages nx_zone = {}" "zone_pages nx_valid nx_zone = {1024..<2048}"
  using free_one_page_ok [OF nx_freeing, of MIGRATE_UNMOVABLE]
  by (auto simp: nx_zone_def nx_empty pcp_pages_def buddy_consts block_def) (auto simp: ex_empty_def)

lemma nx_zone_pcp: "pcp_list t nx_zone = []" "pcp_total nx_zone = 0" "stock nx_zone = {1024..<1536}"
  using nx_zone_ok(3,4) by (auto simp: pcp_pages_list pcp_total_def stock_def)

lemma nx_zone_fields: "zone_no nx_zone = 0" "pageblock_flags nx_zone = [0]" "zone_start_pfn nx_zone = 0"
  "spanned_pages nx_zone = 2048" "pcp_params nx_zone = (0, 6, 1)"
  "page_group_by_mobility_disabled nx_zone = False"
  by code_simp+

lemma nx_mem: "p \<notin> {1024..<1536} \<Longrightarrow> mem_map nx_zone p = ex_page" "fresh (mem_map nx_zone q)"
proof -
  have "fresh (mem_map ex_empty q)" for q by (simp add: fresh_def ex_empty_def ex_page_def)
  then show "fresh (mem_map nx_zone q)"
    using free_one_page_fresh [OF nx_freeing, of MIGRATE_UNMOVABLE] by (simp add: nx_zone_def buddy_consts)
  show "mem_map nx_zone p = ex_page" if "p \<notin> {1024..<1536}"
    using that free_one_page_ok [OF nx_freeing, of MIGRATE_UNMOVABLE]
    by (simp add: nx_zone_def nx_empty buddy_consts block_def) (simp add: ex_empty_def)
qed

lemma nx_used_fields: "zone_pages nx_valid nx_used = {1024..<2048}" "stock nx_used = {1024..<1536}"
  "pcp_total nx_used = 0" "pcp_list t nx_used = []" "pcp_ok nx_valid nx_used" "all_fresh nx_used"
proof -
  let ?f = "\<lambda>q. q\<lparr>pg_count := 1\<rparr>"
  have f: "page_zone_id (?f q) = page_zone_id q" "PageBuddy (?f q) = PageBuddy q" for q
    by (simp_all add: page_zone_id_def PageBuddy_def)
  show "zone_pages nx_valid nx_used = {1024..<2048}"
    using zone_pages_upd [of ?f, OF f(1)] nx_zone_ok(5) by (simp add: nx_used_def)
  show s: "stock nx_used = {1024..<1536}" "pcp_total nx_used = 0" "pcp_list t nx_used = []"
    using nx_zone_pcp by (simp_all add: nx_used_def)
  have "\<not> PageBuddy (mem_map nx_zone 1600)" using nx_mem(1) [of 1600] by (simp add: ex_page_def PageBuddy_def)
  moreover have "pcp_ok nx_valid nx_zone" using nx_zone_ok by (simp add: pcp_ok_def nx_zone_pcp)
  ultimately show "pcp_ok nx_valid nx_used"
    using pcp_ok_upd [of nx_valid nx_zone 1600 ?f] f nx_zone_pcp(3) by (simp add: nx_used_def)
  show "all_fresh nx_used" using nx_mem(2) unfolding all_fresh_def s by (simp add: nx_used_def)
qed

lemma nx_zone_view: "zone_ok nx_valid 0 nx_used"
proof -
  have e: "zone_no nx_used = 0" "pageblock_flags nx_used = [0]" "zone_start_pfn nx_used = 0" "spanned_pages nx_used = 2048"
    "pageset nx_used = pageset nx_zone"
    using nx_zone_fields by (simp_all add: nx_used_def upd_page_def)
  from e(2) have "kinds_ok nx_used" by (auto simp: kinds_ok_def bits_def in_map_def)
  moreover have "flags_ok nx_used" by (simp add: flags_ok_def e)
  ultimately show ?thesis using nx_used_fields e nx_zone_fields(5) by (simp add: zone_ok_def pcp_params_def)
qed

lemma nx_other:
  assumes "j \<noteq> 0"
  shows "zone_ok nx_valid j (zone_view j nx_pgdat)" "stock (zone_view j nx_pgdat) = {}"
proof -
  let ?z = "zone_view j nx_pgdat"
  have f: "zone_no ?z = j" "free_list ?z = (\<lambda>_ _. [])" "nr_free ?z = (\<lambda>_. 0)" "pageblock_flags ?z = []"
    "zone_start_pfn ?z = 0" "spanned_pages ?z = 0" "mem_map ?z = mem_map nx_used"
    "pageset ?z = \<lparr>pcp_count = 0, pcp_high = 6, pcp_batch = 1, pcp_lists = (\<lambda>_. [])\<rparr>"
    using assms by (simp_all add: nx_pgdat_def zone_view_def zone_put_def ex_empty_zone_def ex_empty_def
        zone.defs zstate.defs)
  have "page_zone_id (mem_map nx_used p) = 0" if "nx_valid p" for p
  proof -
    have "p \<in> zone_pages nx_valid nx_used" using nx_used_fields(1) that by (simp add: nx_valid_def)
    moreover have "zone_no nx_used = 0" using nx_zone_fields(1) by (simp add: nx_used_def upd_page_def)
    ultimately show ?thesis by (simp add: zone_pages_def)
  qed
  then have p: "zone_pages nx_valid ?z = {}" using assms by (auto simp: zone_pages_def f)
  have e: "blocks ?z = {}" "free_set ?z = {}" "pcp_pages ?z = {}" "stock ?z = {}" "pcp_total ?z = 0"
    "pcp_list t ?z = []" for t
    by (auto simp: blocks_def free_set_def pcp_pages_def stock_def listed_def f pcp_total_def pcp_list_def)
  have "buddy_inv nx_valid ?z"
    unfolding buddy_inv_def p e by (auto simp: lists_ok_def f apart_def list_count_def)
  then have "pcp_ok nx_valid ?z" by (simp add: pcp_ok_def e p merged_def)
  then show "zone_ok nx_valid j ?z"
    by (simp add: zone_ok_def f e p flags_ok_def all_fresh_def kinds_ok_def bits_def in_map_def)
  show "stock ?z = {}" by (rule e)
qed

lemma nx_pgdat_ok: "node_fit nx_valid ex_zonelist nx_pgdat" "node_free nx_pgdat = {1024..<1536}"
  "1600 \<in> node_held nx_valid nx_pgdat"
proof -
  have v: "zone_view 0 nx_pgdat = nx_used" by (simp add: nx_pgdat_def)
  have "node_ok nx_valid nx_pgdat"
    unfolding node_ok_def using nx_other(1) nx_zone_view v by (metis not_gr_zero)
  then show "node_fit nx_valid ex_zonelist nx_pgdat"
    by (simp add: node_fit_def ex_zonelist_ok nx_valid_def)
  have "(\<exists>i < MAX_NR_ZONES. p \<in> stock (zone_view i nx_pgdat)) \<longleftrightarrow> p \<in> {1024..<1536}" for p
  proof
    show "\<exists>i < MAX_NR_ZONES. p \<in> stock (zone_view i nx_pgdat) \<Longrightarrow> p \<in> {1024..<1536}"
      using nx_other(2) v nx_used_fields(2) by (metis empty_iff)
    show "p \<in> {1024..<1536} \<Longrightarrow> \<exists>i < MAX_NR_ZONES. p \<in> stock (zone_view i nx_pgdat)"
      using v nx_used_fields(2) by (intro exI [of _ 0]) (simp add: MAX_NR_ZONES_def)
  qed
  then show f: "node_free nx_pgdat = {1024..<1536}" unfolding set_eq_iff node_free_iff by blast
  have m: "node_mem_map nx_pgdat 1600 = ex_page\<lparr>pg_count := 1\<rparr>"
    using nx_mem(1) [of 1600] by (simp add: nx_pgdat_def zone_put_def nx_used_def upd_page_def)
  show "1600 \<in> node_held nx_valid nx_pgdat"
    by (simp add: node_held_def f page_zone_def m nx_valid_def) (simp add: ex_page_def page_zone_id_def out_page_def
        MAX_NR_ZONES_def fresh_def clean_page_def)
qed

lemma nx_state: "slab_state nx_valid ex_zonelist {0} nx_slub nx_F (\<lambda>_. [])"
  "6553600 \<in> live nx_slub nx_F (\<lambda>_. []) 0" "live nx_slub nx_F (\<lambda>_. []) = objects {(0, 6553600)}"
proof -
  have o: "oo_order (oo_make 0 2048) = 0" "oo_objects (oo_make 0 2048) = 2" by code_simp+
  have wf: "cache_wf nx_cache"
    by (simp add: cache_wf_def nx_cache_def o NUMA_NO_NODE_def)
  have ob: "objs 2048 1600 2 = {6553600, 6555648}"
  proof -
    have "{0..<2::int} = {0, 1}" by auto
    then show ?thesis by (simp add: objs_def page_start_eq)
  qed
  have f: "PageSlab nx_slab" "\<not> PageSlubFrozen nx_slab" "\<not> PageHead nx_slab" "\<not> PageTail nx_slab" by code_simp+
  have blank: "\<not> PageSlab g" "\<not> PageSlubFrozen g" "\<not> PageHead g" "\<not> PageTail g" if "sp_flags g = 0" for g
  proof -
    have "PG_head_tail_mask \<noteq> 0" by code_simp
    then show "\<not> PageSlab g" "\<not> PageSlubFrozen g" "\<not> PageHead g" "\<not> PageTail g"
      using that by (simp_all add: PageSlab_def PageSlubFrozen_def PageHead_def PageTail_def)
  qed
  have pg: "PageSlab (spg nx_slub p) \<longleftrightarrow> p = 1600" "\<not> PageSlubFrozen (spg nx_slub p)" "\<not> PageHead (spg nx_slub p)"
    "\<not> PageTail (spg nx_slub p)" "spg nx_slub 1600 = nx_slab" "caches nx_slub s = nx_cache" "smem nx_slub = (\<lambda>_. 0)" for p s
    using f blank by (simp_all add: nx_slub_def)
  have k: "kc_size nx_cache = 2048" "kc_offset nx_cache = 0" "c_page nx_cache = None" "c_freelist nx_cache = 0"
    "n_partial nx_cache = [1600]" "n_nr_partial nx_cache = 1" by (simp_all add: nx_cache_def)
  have s: "sp_private nx_slab = 0" "sp_objects nx_slab = 2" "sp_freelist nx_slab = 6555648" "sp_inuse nx_slab = 1"
    by (simp_all add: nx_slab_def)
  have sl: "is_slab nx_slub t p \<longleftrightarrow> p = 1600 \<and> t = 0" for t p by (auto simp: is_slab_def pg s)
  have ok: "slab_ok (\<lambda>_. 0) nx_cache nx_slab 1600 [6555648] []" by (simp add: slab_ok_def k s ob)
  have "page_rep nx_slub {} nx_F (\<lambda>_. []) {0} p" for p
    using ok by (auto simp: page_rep_def pg owner_def s cpu_objs_def k nx_F_def)
  moreover have "cache_rep nx_slub {} nx_F (\<lambda>_. []) 0"
    by (auto simp: cache_rep_def pg wf k sl nx_F_def u64_def)
  moreover have "slab_pages nx_slub = {1600}" "pool nx_slub = nx_pgdat" by (auto simp: slab_pages_def pg) (simp add: nx_slub_def)
  ultimately show "slab_state nx_valid ex_zonelist {0} nx_slub nx_F (\<lambda>_. [])"
    using nx_pgdat_ok by (simp add: slab_state_def slub_inv_def rep_def)
  show l: "live nx_slub nx_F (\<lambda>_. []) = objects {(0, 6553600)}"
    by (auto simp: live_def slots_def pg sl k s ob nx_F_def objects_def fun_eq_iff)
  show "6553600 \<in> live nx_slub nx_F (\<lambda>_. []) 0" unfolding l by simp
qed

abbreviation nx_ops :: "node page_ops" where
  "nx_ops \<equiv> node_ops nx_valid ex_state ex_task 0 0x7fffff ex_zonelist"

lemma nx_run: "map_option fst (kmem_cache_alloc nx_ops 0 GFP_ZERO nx_slub) = Some 6555648"
  by code_simp


section \<open>Properties\<close>

text \<open>
  C10: \<^verbatim>\<open>kmem_cache_alloc\<close> keeps the allocator in order and hands out an object of the cache that nobody
  has; it fails only when all objects of the cache are in use and the page allocator has refused a page.
\<close>
theorem slab_alloc_serves:
  assumes "slab_state valid zl A st F C" "s \<in> A"
    and "kmem_cache_alloc (node_ops valid state tk progress allowed zl) s fl st = Some (x, st')"
  shows "\<exists>F' C'. slab_state valid zl A st' F' C' \<and>
    (if x = 0 then live st' F' C' = live st F C \<and> slots st s \<subseteq> live st F C s \<and>
       (\<exists>g n n'. node_fit valid zl n \<and> node_free n = node_free (pool st) \<and>
          alloc_pages_nodemask valid state tk progress allowed g 0 zl n = Some (None, n'))
     else x \<in> slots st' s \<and> x \<notin> live st F C s \<and> live st' F' C' = (live st F C)(s := insert x (live st F C s)))"
proof -
  note iv = slab_stateD(1) [OF assms(1)]
  have "np.alloc_post valid state tk progress allowed zl A s fl st F C x st'"
    using np.slab_alloc_ok [OF iv assms(2), of state tk progress allowed fl] assms(3) by (simp add: kmem_cache_alloc_def)
  moreover have "np.refused valid state tk progress allowed zl fl (node_free (pool st)) \<Longrightarrow>
      \<exists>g n n'. node_fit valid zl n \<and> node_free n = node_free (pool st) \<and>
        alloc_pages_nodemask valid state tk progress allowed g 0 zl n = Some (None, n')"
    unfolding np.refused_def by (auto simp: node_ops_def)
  ultimately show ?thesis unfolding np.alloc_post_def slab_state_def by (cases "x = 0") (simp_all, blast+)
qed

theorem slab_alloc_serves_witness:
  "\<exists>st' F' C'. kmem_cache_alloc nx_ops 0 GFP_ZERO nx_slub = Some (6555648, st') \<and>
     live st' F' C' 0 = insert 6555648 (live nx_slub nx_F (\<lambda>_. []) 0)"
proof -
  obtain st' where r: "kmem_cache_alloc nx_ops 0 GFP_ZERO nx_slub = Some (6555648, st')" using nx_run by auto
  obtain F' C' where "live st' F' C' = (live nx_slub nx_F (\<lambda>_. []))(0 := insert 6555648 (live nx_slub nx_F (\<lambda>_. []) 0))"
    using slab_alloc_serves [OF nx_state(1) _ r] by auto
  then have "live st' F' C' 0 = insert 6555648 (live nx_slub nx_F (\<lambda>_. []) 0)" by simp
  then show ?thesis using r by blast
qed

text \<open>
  C11: an allocation from a cache changes no byte of a live object, of whichever cache, and with
  \<^verbatim>\<open>__GFP_ZERO\<close> the new object is all zero, although free objects hold the free pointers of the allocator.
\<close>
theorem slab_alloc_memory:
  assumes "slab_state valid zl A st F C" "s \<in> A"
    and "kmem_cache_alloc (node_ops valid state tk progress allowed zl) s fl st = Some (x, st')"
  shows "(\<forall>t. \<forall>y \<in> live st F C t. \<forall>a \<in> bytes st t y. smem st' a = smem st a) \<and>
    (fl AND GFP_ZERO \<noteq> 0 \<and> x \<noteq> 0 \<longrightarrow> (\<forall>a. x \<le> a \<and> a < x + kc_objsize (caches st s) \<longrightarrow> smem st' a = 0))"
proof -
  note iv = slab_stateD(1) [OF assms(1)] and r = assms(3) [unfolded kmem_cache_alloc_def]
  have "np.alloc_post valid state tk progress allowed zl A s fl st F C x st'"
    using np.slab_alloc_ok [OF iv assms(2), of state tk progress allowed fl] r by simp
  then show ?thesis
    using np.alloc_mem [OF iv assms(2)] np.alloc_zeroed [OF iv assms(2) r] by blast
qed

theorem slab_alloc_memory_witness:
  "\<exists>st'. kmem_cache_alloc nx_ops 0 GFP_ZERO nx_slub = Some (6555648, st') \<and>
     (\<forall>a. 6555648 \<le> a \<and> a < 6557696 \<longrightarrow> smem st' a = 0) \<and> smem st' 6553600 = smem nx_slub 6553600"
proof -
  obtain st' where r: "kmem_cache_alloc nx_ops 0 GFP_ZERO nx_slub = Some (6555648, st')" using nx_run by auto
  have "GFP_ZERO AND GFP_ZERO \<noteq> 0" by code_simp
  moreover have "kc_objsize (caches nx_slub 0) = 2048" "6553600 \<in> bytes nx_slub 0 6553600"
    by (simp_all add: nx_slub_def nx_cache_def bytes_def)
  ultimately show ?thesis using slab_alloc_memory [OF nx_state(1) _ r] r nx_state(2) by fastforce
qed







end
