(* ===== verification/Spec2Isabelle.thy ===== *)
theory Spec2Isabelle
  imports Memblock Bootmem ZoneInitProps PercpuAlloc VsprintfProps NumberParse SlubProps
begin

text \<open>
  Verification of the memory-management core of BiscuitOS.
\<close>

end
